(* ===== verification/Prelude.thy ===== *)
theory Prelude
  imports Main "HOL-Library.Word"
begin

unbundle bit_operations_syntax

text \<open>
  Shared vocabulary of the development: bytes and byte strings, the outcomes of Go calls
  that may panic or return an error, the little- and big-endian readings of byte strings
  as machine words and as unbounded integers (\<^verbatim>\<open>encoding/binary\<close>, \<^verbatim>\<open>math/big\<close>), bytewise
  exclusive or, the Feistel ladder both 28147-based ciphers share, and the block-by-block
  absorption that the streaming hashes share. No program code is modelled here, only
  what the program uses of the language and its standard library.
\<close>

section \<open>Types\<close>

type_synonym byte = "8 word"
type_synonym bytes = "8 word list"
type_synonym u32 = "32 word"
type_synonym u64 = "64 word"

text \<open>
  A Go call returns, returns an \<^verbatim>\<open>error\<close> value, or panics; each fault carries the
  message of its source line. A fallible call is a sum: \<open>Inl\<close> the fault, \<open>Inr\<close> the result.
\<close>

datatype fault = Panic string | Err string

type_synonym 'a res = "fault + 'a"

definition bind_res :: "'a res \<Rightarrow> ('a \<Rightarrow> 'b res) \<Rightarrow> 'b res" where
  "bind_res r k = (case r of Inl e \<Rightarrow> Inl e | Inr v \<Rightarrow> k v)"

lemma bind_res_simps [simp]:
  "bind_res (Inl e) k = Inl e"
  "bind_res (Inr v) k = k v"
  by (simp_all add: bind_res_def)

lemma bind_res_Inr_iff: "bind_res r k = Inr w \<longleftrightarrow> (\<exists>v. r = Inr v \<and> k v = Inr w)"
  by (cases r) auto

text \<open>The call returns: a value or an error, never a panic.\<close>

definition no_panic :: "'a res \<Rightarrow> bool" where
  "no_panic r \<longleftrightarrow> (\<forall>m. r \<noteq> Inl (Panic m))"

lemma no_panic_simps [simp]:
  "no_panic (Inr x)" "no_panic (Inl (Err m))" "\<not> no_panic (Inl (Panic m))"
  by (simp_all add: no_panic_def)

lemma no_panic_bind: "no_panic r \<Longrightarrow> (\<And>x. r = Inr x \<Longrightarrow> no_panic (f x)) \<Longrightarrow> no_panic (bind_res r f)"
  by (cases r) (auto simp: no_panic_def)

section \<open>Hint collections\<close>

named_theorems len_simps "lengths of the byte strings the components build"
named_theorems bytes_simps "equations between byte strings and words"

section \<open>Bytewise exclusive or\<close>

definition xor_bytes :: "'a::len word list \<Rightarrow> 'a word list \<Rightarrow> 'a word list" where
  "xor_bytes xs ys = map2 (XOR) xs ys"

lemma xor_bytes_Nil [simp]: "xor_bytes [] ys = []" "xor_bytes xs [] = []"
  by (simp_all add: xor_bytes_def)

lemma xor_bytes_Cons [simp]: "xor_bytes (x # xs) (y # ys) = (x XOR y) # xor_bytes xs ys"
  by (simp add: xor_bytes_def)

lemma length_xor_bytes [simp, len_simps]: "length (xor_bytes xs ys) = min (length xs) (length ys)"
  by (simp add: xor_bytes_def)

lemma nth_xor_bytes [simp]:
  "i < length xs \<Longrightarrow> i < length ys \<Longrightarrow> xor_bytes xs ys ! i = xs ! i XOR ys ! i"
  by (simp add: xor_bytes_def)

lemma xor_bytes_append:
  "length xs = length us \<Longrightarrow> xor_bytes (xs @ ys) (us @ vs) = xor_bytes xs us @ xor_bytes ys vs"
  by (simp add: xor_bytes_def)

lemma xor_bytes_assoc: "xor_bytes (xor_bytes xs ys) zs = xor_bytes xs (xor_bytes ys zs)"
  by (rule nth_equalityI) (auto simp: xor.assoc)

lemma xor_bytes_commute: "xor_bytes xs ys = xor_bytes ys xs"
  by (rule nth_equalityI) (auto simp: xor.commute)

lemma xor_bytes_cancel [bytes_simps]:
  "length xs \<le> length ks \<Longrightarrow> xor_bytes (xor_bytes xs ks) ks = xs"
  by (rule nth_equalityI) (auto simp: xor.assoc)

lemma xor_bytes_zero [bytes_simps]:
  "length xs \<le> n \<Longrightarrow> xor_bytes xs (replicate n 0) = xs"
  by (rule nth_equalityI) auto

lemma xor_bytes_self: "xor_bytes xs xs = replicate (length xs) 0"
  by (rule nth_equalityI) simp_all

lemma take_xor_bytes: "take n (xor_bytes xs ys) = xor_bytes (take n xs) (take n ys)"
  by (simp add: xor_bytes_def take_map take_zip)

lemma drop_xor_bytes: "drop n (xor_bytes xs ys) = xor_bytes (drop n xs) (drop n ys)"
  by (simp add: xor_bytes_def drop_map drop_zip)

lemma xor_bytes_take_right: "xor_bytes xs (take (length xs) ys) = xor_bytes xs ys"
  by (rule nth_equalityI) auto

section \<open>Words and byte strings\<close>

text \<open>
  \<open>le_word bs\<close> reads a byte string as a little-endian word, \<open>word_le n w\<close> writes the low
  \<open>n\<close> bytes of \<open>w\<close> little-endian: \<^verbatim>\<open>binary.LittleEndian.Uint32/PutUint32\<close> and their 64-bit
  forms are the instances at 4 and 8 bytes, the \<^verbatim>\<open>BigEndian\<close> forms read the reverse.
\<close>

primrec le_word :: "bytes \<Rightarrow> 'a::len word" where
  "le_word [] = 0"
| "le_word (b # bs) = ucast b OR push_bit 8 (le_word bs)"

primrec word_le :: "nat \<Rightarrow> 'a::len word \<Rightarrow> bytes" where
  "word_le 0 w = []"
| "word_le (Suc n) w = ucast w # word_le n (drop_bit 8 w)"

definition be_word :: "bytes \<Rightarrow> 'a::len word" where
  "be_word bs = le_word (rev bs)"

definition word_be :: "nat \<Rightarrow> 'a::len word \<Rightarrow> bytes" where
  "word_be n w = rev (word_le n w)"

lemma length_word_le [simp, len_simps]: "length (word_le n w) = n"
  by (induction n arbitrary: w) auto

lemma length_word_be [simp, len_simps]: "length (word_be n w) = n"
  by (simp add: word_be_def)

lemma bit_le_word:
  "bit (le_word bs :: 'a::len word) i \<longleftrightarrow>
     i < LENGTH('a) \<and> i div 8 < length bs \<and> bit (bs ! (i div 8)) (i mod 8)"
proof (induction bs arbitrary: i)
  case Nil
  then show ?case by simp
next
  case (Cons b bs)
  show ?case
  proof (cases "i < 8")
    case True
    then show ?thesis by (auto simp: bit_simps)
  next
    case False
    then obtain j where i: "i = 8 + j"
      using le_Suc_ex not_less by blast
    have "\<not> bit (ucast b :: 'a word) i"
      using False by (auto simp: bit_simps dest: bit_imp_le_length)
    moreover have "(8 + j) div 8 = Suc (j div 8)" "(8 + j) mod 8 = j mod 8"
      by simp_all
    ultimately show ?thesis
      using Cons.IH [of j] by (auto simp: i bit_simps)
  qed
qed

lemma nth_word_le: "i < n \<Longrightarrow> word_le n w ! i = ucast (drop_bit (8 * i) w)"
proof (induction n arbitrary: w i)
  case 0
  then show ?case by simp
next
  case (Suc n)
  then show ?case by (cases i) (auto simp: add.commute)
qed

lemma bit_word_le:
  assumes "i < n" "k < 8"
  shows "bit (word_le n (w :: 'a::len word) ! i) k \<longleftrightarrow> bit w (8 * i + k)"
proof -
  have "bit w (8 * i + k) \<Longrightarrow> 8 * i + k < LENGTH('a)"
    by (rule bit_imp_le_length)
  then show ?thesis
    using assms by (auto simp: nth_word_le bit_simps)
qed

lemma word_le_le_word [simp, bytes_simps]:
  assumes "length bs = n" "8 * n \<le> LENGTH('a)"
  shows "word_le n (le_word bs :: 'a::len word) = bs"
proof (rule nth_equalityI)
  show "length (word_le n (le_word bs :: 'a word)) = length bs"
    using assms(1) by simp
next
  fix i assume "i < length (word_le n (le_word bs :: 'a word))"
  then have i: "i < n" by simp
  show "word_le n (le_word bs :: 'a word) ! i = bs ! i"
  proof (rule bit_word_eqI)
    fix k assume k: "k < LENGTH(8)"
    have "8 * i + k < LENGTH('a)"
      using i k assms(2) by simp
    then show "bit (word_le n (le_word bs :: 'a word) ! i) k = bit (bs ! i) k"
      using i k assms(1) by (simp add: bit_word_le bit_le_word)
  qed
qed

lemma le_word_word_le [simp, bytes_simps]:
  assumes "LENGTH('a) \<le> 8 * n"
  shows "le_word (word_le n w) = (w :: 'a::len word)"
proof (rule bit_word_eqI)
  fix i assume i: "i < LENGTH('a)"
  have "i div 8 < n"
    using i assms by (simp add: div_less_iff_less_mult mult.commute)
  then show "bit (le_word (word_le n w) :: 'a word) i = bit w i"
    using i by (simp add: bit_le_word bit_word_le)
qed

lemma be_word_word_be [simp, bytes_simps]:
  "LENGTH('a) \<le> 8 * n \<Longrightarrow> be_word (word_be n w) = (w :: 'a::len word)"
  by (simp add: be_word_def word_be_def)

lemma word_be_be_word [simp, bytes_simps]:
  "length bs = n \<Longrightarrow> 8 * n \<le> LENGTH('a) \<Longrightarrow> word_be n (be_word bs :: 'a::len word) = bs"
  by (simp add: be_word_def word_be_def)

lemma le_word_xor:
  assumes "length xs = length ys"
  shows "(le_word (xor_bytes xs ys) :: 'a::len word) = le_word xs XOR le_word ys"
  using assms
  by (intro bit_word_eqI) (auto simp: bit_le_word bit_simps)

lemma word_le_xor: "word_le n (v XOR w) = xor_bytes (word_le n v) (word_le n w)"
proof (rule nth_equalityI)
  fix i assume "i < length (word_le n (v XOR w))"
  then show "word_le n (v XOR w) ! i = xor_bytes (word_le n v) (word_le n w) ! i"
    by (intro bit_word_eqI) (simp add: bit_word_le bit_simps)
qed simp

section \<open>Sub-slices\<close>

text \<open>\<open>slice i n bs\<close> is Go's \<^verbatim>\<open>bs[i : i+n]\<close> for bounds that are in range.\<close>

definition slice :: "nat \<Rightarrow> nat \<Rightarrow> 'a list \<Rightarrow> 'a list" where
  "slice i n xs = take n (drop i xs)"

lemma length_slice [simp, len_simps]: "i + n \<le> length xs \<Longrightarrow> length (slice i n xs) = n"
  by (simp add: slice_def)

lemma nth_slice: "i + n \<le> length xs \<Longrightarrow> k < n \<Longrightarrow> slice i n xs ! k = xs ! (i + k)"
  by (simp add: slice_def)

lemma slice_append_left: "i + n \<le> length xs \<Longrightarrow> slice i n (xs @ ys) = slice i n xs"
  by (simp add: slice_def)

lemma slice_append_right: "slice (length xs) n (xs @ ys) = take n ys"
  by (simp add: slice_def)

lemma slice_split: "slice i (m + n) xs = slice i m xs @ slice (i + m) n xs"
  by (simp add: slice_def take_add drop_drop add.commute)

section \<open>The Feistel ladder\<close>

text \<open>
  One round sends \<open>(a, b)\<close> to \<open>(F k a XOR b, a)\<close>. Running the rounds of the reversed key
  sequence on the swapped halves undoes them, whatever the round function is.
\<close>

definition feistel ::
  "('k \<Rightarrow> 'a::len word \<Rightarrow> 'a word) \<Rightarrow> 'k list \<Rightarrow> 'a word \<times> 'a word \<Rightarrow> 'a word \<times> 'a word" where
  "feistel F ks p = fold (\<lambda>k (a, b). (F k a XOR b, a)) ks p"

lemma feistel_Nil [simp]: "feistel F [] p = p"
  by (simp add: feistel_def)

lemma feistel_Cons: "feistel F (k # ks) (a, b) = feistel F ks (F k a XOR b, a)"
  by (simp add: feistel_def)

lemma feistel_append: "feistel F (ks @ ls) p = feistel F ls (feistel F ks p)"
  by (simp add: feistel_def)

lemma feistel_snoc_swap:
  "feistel F ks (snd (feistel F [k] (a, b)), fst (feistel F [k] (a, b))) =
   feistel F ks (a, F k a XOR b)"
  by (simp add: feistel_Cons)

lemma feistel_inverse:
  "prod.swap (feistel F (rev ks) (prod.swap (feistel F ks p))) = p"
proof (induction ks arbitrary: p)
  case Nil
  then show ?case by simp
next
  case (Cons k ks)
  obtain a b where p: "p = (a, b)" by fastforce
  have "prod.swap (feistel F (rev ks) (prod.swap (feistel F ks (F k a XOR b, a)))) = (F k a XOR b, a)"
    by (rule Cons.IH)
  then have "feistel F (rev ks) (prod.swap (feistel F ks (F k a XOR b, a))) = (a, F k a XOR b)"
    by (metis swap_simp swap_swap)
  then have "feistel F (rev ks @ [k]) (prod.swap (feistel F ks (F k a XOR b, a)))
      = (F k a XOR (F k a XOR b), a)"
    by (simp add: feistel_append feistel_Cons)
  then show ?case
    by (simp add: p feistel_Cons flip: xor.assoc)
qed

section \<open>Copying into a zeroed array\<close>

text \<open>\<open>copy_into n src\<close> is \<^verbatim>\<open>var a [n]byte; copy(a[:], src)\<close>.\<close>

definition copy_into :: "nat \<Rightarrow> bytes \<Rightarrow> bytes" where
  "copy_into n src = take n src @ replicate (n - length src) 0"

lemma length_copy_into [simp, len_simps]: "length (copy_into n src) = n"
  by (simp add: copy_into_def)

lemma copy_into_id [simp]: "length src = n \<Longrightarrow> copy_into n src = src"
  by (simp add: copy_into_def)

lemma copy_into_long: "n \<le> length src \<Longrightarrow> copy_into n src = take n src"
  by (simp add: copy_into_def)

lemma copy_into_take: "copy_into n (take n xs) = copy_into n xs"
  by (cases "length xs \<le> n") (simp_all add: copy_into_def)

lemma copy_into_update:
  assumes "length src < n"
  shows "(copy_into n src)[length src := x] = src @ x # replicate (n - length src - 1) 0"
proof -
  have "n - length src = Suc (n - length src - 1)" using assms by simp
  then have "copy_into n src = src @ 0 # replicate (n - length src - 1) 0"
    using assms by (metis copy_into_def less_imp_le_nat replicate_Suc take_all)
  then show ?thesis by simp
qed

section \<open>Updating arrays\<close>

lemma list_update_all: "\<forall>k \<in> set xs. P k \<Longrightarrow> P a \<Longrightarrow> \<forall>k \<in> set (xs[i := a]). P k"
  using set_update_subset_insert [of xs i a] by auto

text \<open>\<open>put_slice i ys xs\<close> is \<^verbatim>\<open>copy(xs[i:], ys)\<close> for a range that is in bounds.\<close>

definition put_slice :: "nat \<Rightarrow> 'a list \<Rightarrow> 'a list \<Rightarrow> 'a list" where
  "put_slice i ys xs = take i xs @ ys @ drop (i + length ys) xs"

lemma length_put_slice [simp, len_simps]:
  "i + length ys \<le> length xs \<Longrightarrow> length (put_slice i ys xs) = length xs"
  by (simp add: put_slice_def)

lemma length_concat_upt:
  "(\<And>i. i < n \<Longrightarrow> length (F i) = m) \<Longrightarrow> length (concat (map F [0..<n])) = m * n"
  by (induction n) simp_all

lemma nth_concat_blocks:
  assumes "\<And>i. i < n \<Longrightarrow> length (F i) = m" "k < m * n"
  shows "concat (map F [0..<n]) ! k = F (k div m) ! (k mod m)"
  using assms
proof (induction n)
  case (Suc n)
  have len: "length (concat (map F [0..<n])) = m * n"
    using Suc.prems(1) by (intro length_concat_upt) simp
  show ?case
  proof (cases "k < m * n")
    case True
    then show ?thesis using Suc len by (simp add: nth_append)
  next
    case False
    then obtain r where r: "k = m * n + r" "r < m"
      using Suc.prems(2) by (metis add_less_cancel_left le_Suc_ex mult_Suc_right add.commute not_less)
    then show ?thesis by (simp add: nth_append len)
  qed
qed simp

text \<open>A loop over consecutive ranges of one size: the prefix is written, the rest untouched.\<close>

lemma fold_put_slice:
  assumes "m * n \<le> length xs" "\<And>i. i < n \<Longrightarrow> length (F i) = m"
  shows "fold (\<lambda>i d. put_slice (m * i) (F i) d) [0..<n] xs =
    concat (map F [0..<n]) @ drop (m * n) xs"
  using assms
proof (induction n)
  case (Suc n)
  have len: "length (concat (map F [0..<n])) = m * n"
    using Suc.prems(2) by (intro length_concat_upt) simp
  have "fold (\<lambda>i d. put_slice (m * i) (F i) d) [0..<n] xs =
      concat (map F [0..<n]) @ drop (m * n) xs"
    using Suc by simp
  then show ?case
    using Suc.prems by (simp add: put_slice_def len add.commute)
qed simp

section \<open>Whole blocks of a message\<close>

definition full_blocks :: "nat \<Rightarrow> nat \<Rightarrow> 'a list \<Rightarrow> 'a list list" where
  "full_blocks B n p = map (\<lambda>i. slice (B * i) B p) [0..<n]"

lemma full_blocks_Suc:
  assumes "B * Suc n \<le> length p"
  shows "full_blocks B (Suc n) p = take B p # full_blocks B n (drop B p)"
proof -
  have "full_blocks B (Suc n) p = slice 0 B p # map (\<lambda>i. slice (B * Suc i) B p) [0..<n]"
    by (simp add: full_blocks_def map_upt_Suc del: upt_Suc)
  also have "map (\<lambda>i. slice (B * Suc i) B p) [0..<n] = full_blocks B n (drop B p)"
    by (simp add: full_blocks_def slice_def drop_drop add.commute)
  finally show ?thesis by (simp add: slice_def)
qed

lemma full_blocks_length:
  "B * n \<le> length p \<Longrightarrow> x \<in> set (full_blocks B n p) \<Longrightarrow> length x = B"
proof (induction n arbitrary: p)
  case (Suc n)
  have "B \<le> length p" "B * n \<le> length (drop B p)"
    using Suc.prems(1) by simp_all
  then show ?case
    using Suc.IH [of "drop B p"] Suc.prems by (auto simp: full_blocks_Suc)
qed (simp add: full_blocks_def)

lemma full_blocks_concat:
  assumes "\<And>i. i < n \<Longrightarrow> length (F i) = B"
  shows "full_blocks B n (concat (map F [0..<n])) = map F [0..<n]"
  using assms
proof (induction n arbitrary: F)
  case (Suc n)
  have "map F [0..<Suc n] = F 0 # map (\<lambda>i. F (Suc i)) [0..<n]"
    by (simp add: map_upt_Suc del: upt_Suc)
  moreover have "length (concat (map F [0..<Suc n])) = B * Suc n"
    using Suc.prems by (intro length_concat_upt)
  moreover have "length (F 0) = B" using Suc.prems by simp
  ultimately show ?case
    using Suc.IH [of "\<lambda>i. F (Suc i)"] Suc.prems by (simp add: full_blocks_Suc del: upt_Suc)
qed (simp add: full_blocks_def)

lemma concat_slices: "length xs = m * n \<Longrightarrow> concat (map (\<lambda>i. slice (m * i) m xs) [0..<n]) = xs"
proof (induction n arbitrary: xs)
  case (Suc n)
  have "concat (map (\<lambda>i. slice (m * i) m xs) [0..<n]) = concat (map (\<lambda>i. slice (m * i) m (take (m * n) xs)) [0..<n])"
  proof (intro arg_cong [where f = concat] map_cong refl)
    fix i assume "i \<in> set [0..<n]"
    then have "m * i + m \<le> m * n" using mult_le_mono2 [of "Suc i" n m] by simp
    then show "slice (m * i) m xs = slice (m * i) m (take (m * n) xs)"
      by (simp add: slice_def drop_take min_def)
  qed
  also have "\<dots> = take (m * n) xs"
    using Suc.prems by (intro Suc.IH) simp
  finally show ?case
    using Suc.prems by (simp add: slice_def)
qed simp

section \<open>Byte strings as numbers\<close>

text \<open>The little- and big-endian value of a byte string, and the counters that step it.\<close>

primrec le_nat :: "bytes \<Rightarrow> nat" where
  "le_nat [] = 0"
| "le_nat (b # bs) = unat b + 256 * le_nat bs"

definition be_nat :: "bytes \<Rightarrow> nat" where
  "be_nat bs = le_nat (rev bs)"

lemma unat_byte_less [simp]: "unat (b :: byte) < 256"
  using unsigned_less [of b] by simp

lemma le_nat_less: "le_nat bs < 256 ^ length bs"
proof (induction bs)
  case (Cons b bs)
  have "unat b + 256 * le_nat bs < 256 * (le_nat bs + 1)"
    using unat_byte_less [of b] by simp
  also have "\<dots> \<le> 256 * 256 ^ length bs"
    using Cons by (intro mult_le_mono2) simp
  finally show ?case by simp
qed simp

lemma be_nat_less: "be_nat bs < 256 ^ length bs"
  using le_nat_less [of "rev bs"] by (simp add: be_nat_def)

lemma le_nat_append: "le_nat (xs @ ys) = le_nat xs + 256 ^ length xs * le_nat ys"
  by (induction xs) (simp_all add: algebra_simps)

lemma be_nat_append: "be_nat (xs @ ys) = be_nat xs * 256 ^ length ys + be_nat ys"
  by (simp add: be_nat_def le_nat_append)

lemma le_nat_inj:
  "length xs = length ys \<Longrightarrow> le_nat xs = le_nat ys \<Longrightarrow> xs = ys"
proof (induction xs ys rule: list_induct2)
  case (Cons x xs y ys)
  have "(unat x + 256 * le_nat xs) mod 256 = (unat y + 256 * le_nat ys) mod 256"
    using Cons.prems by simp
  then have "x = y" by (simp add: word_unat_eq_iff)
  then show ?case
    using Cons by simp
qed simp

lemma be_nat_inj: "length xs = length ys \<Longrightarrow> be_nat xs = be_nat ys \<Longrightarrow> xs = ys"
  using le_nat_inj [of "rev xs" "rev ys"] by (simp add: be_nat_def)

primrec inc_le :: "bytes \<Rightarrow> bytes" where
  "inc_le [] = []"
| "inc_le (b # bs) = (if b + 1 \<noteq> 0 then (b + 1) # bs else (b + 1) # inc_le bs)"

definition inc_be :: "bytes \<Rightarrow> bytes" where
  "inc_be bs = rev (inc_le (rev bs))"

lemma length_inc_le [simp, len_simps]: "length (inc_le bs) = length bs"
  by (induction bs) auto

lemma length_inc_be [simp, len_simps]: "length (inc_be bs) = length bs"
  by (simp add: inc_be_def)

lemma unat_byte_inc: "unat (b + 1 :: byte) = (if b + 1 = 0 then 0 else unat b + 1)"
  by (auto simp: unat_word_ariths word_unat_eq_iff)
    (metis Suc_eq_plus1 mod_less not_less_eq unat_byte_less linorder_neqE_nat mod_self One_nat_def)

lemma le_nat_inc: "le_nat (inc_le bs) = (le_nat bs + 1) mod 256 ^ length bs"
proof (induction bs)
  case (Cons b bs)
  show ?case
  proof (cases "b + 1 = 0")
    case True
    have "b = - 1" using True
      by (simp add: eq_neg_iff_add_eq_0)
    also have "(- 1 :: byte) = 255" by simp
    finally have b: "unat b = 255" by simp
    have "(1 + (255 + 256 * le_nat bs)) mod (256 * 256 ^ length bs) =
        256 * ((le_nat bs + 1) mod 256 ^ length bs)"
      by (simp add: mult_mod_right)
    then show ?thesis
      using True Cons by (simp add: b add.commute)
  next
    case False
    have "unat b + 1 + 256 * le_nat bs < 256 ^ length (b # bs)"
      using le_nat_less [of "(b + 1) # bs"] False by (simp add: unat_byte_inc)
    then show ?thesis
      using False by (simp add: unat_byte_inc)
  qed
qed simp

lemma be_nat_inc: "be_nat (inc_be bs) = (be_nat bs + 1) mod 256 ^ length bs"
  using le_nat_inc [of "rev bs"] by (simp add: be_nat_def inc_be_def)

lemma length_inc_be_pow [simp, len_simps]: "length ((inc_be ^^ i) iv) = length iv"
  by (induction i) simp_all

lemma inc_be_pow: "be_nat ((inc_be ^^ i) bs) = (be_nat bs + i) mod 256 ^ length bs"
proof (induction i)
  case 0
  then show ?case using be_nat_less [of bs] by simp
next
  case (Suc i)
  then show ?case by (simp add: be_nat_inc mod_Suc_eq)
qed

text \<open>A counter does not repeat before it has run through all its values.\<close>

lemma mod_add_left_inj:
  assumes "(x + i) mod m = (x + j) mod m" "i < m" "j < (m :: nat)"
  shows "i = j"
proof -
  have "i = j" if "(x + i) mod m = (x + j) mod m" "i < m" "j < m" "i \<le> j" for i j
  proof -
    have "m dvd (x + j) - (x + i)"
      using that by (metis mod_eq_dvd_iff_nat add_le_cancel_left)
    then have "m dvd j - i" by simp
    then show ?thesis using that by (metis diff_is_0_eq dvd_imp_le gr0I le_antisym less_imp_diff_less not_le)
  qed
  then show ?thesis using assms by (metis nat_le_linear)
qed

lemma inc_be_pow_inj:
  assumes "(inc_be ^^ i) bs = (inc_be ^^ j) bs" "i < 256 ^ length bs" "j < 256 ^ length bs"
  shows "i = j"
  using inc_be_pow [of i bs] inc_be_pow [of j bs] assms
  by (intro mod_add_left_inj [of "be_nat bs" i "256 ^ length bs" j]) simp_all

section \<open>Sums of words\<close>

primrec xsum :: "(nat \<Rightarrow> 'a::len word) \<Rightarrow> nat \<Rightarrow> 'a word" where
  "xsum f 0 = 0"
| "xsum f (Suc n) = xsum f n XOR f n"

lemma xsum_xor: "xsum (\<lambda>k. f k XOR g k) n = xsum f n XOR xsum g n"
  by (induction n) (simp_all add: ac_simps)

lemma xsum_0 [simp]: "xsum (\<lambda>_. 0) n = 0"
  by (induction n) simp_all

lemma xsum_cong: "(\<And>k. k < n \<Longrightarrow> f k = g k) \<Longrightarrow> xsum f n = xsum g n"
  by (induction n) simp_all

lemma xsum_swap: "xsum (\<lambda>k. xsum (\<lambda>j. F k j) m) n = xsum (\<lambda>j. xsum (\<lambda>k. F k j) n) m"
  by (induction n) (simp_all add: xsum_xor)

lemma xsum_shift: "xsum f (Suc n) = f 0 XOR xsum (\<lambda>k. f (Suc k)) n"
  by (induction n) (simp_all add: ac_simps)

lemma xsum_bits: "xsum (\<lambda>j. if bit x j then push_bit j 1 else 0) n = take_bit n x"
proof (induction n)
  case (Suc n)
  have "take_bit (Suc n) x = take_bit n x XOR (if bit x n then push_bit n 1 else 0)"
    by (rule bit_word_eqI) (auto simp: bit_simps less_Suc_eq bit_1_iff)
  then show ?case using Suc by simp
qed simp

section \<open>Addition of byte strings\<close>

text \<open>The byte-wise adder of both hashes: little-endian, the carry in a 16-bit word.\<close>

primrec add_carry :: "bytes \<Rightarrow> bytes \<Rightarrow> 16 word \<Rightarrow> bytes" where
  "add_carry [] ys carry = []"
| "add_carry (x # xs) ys carry =
     (let s = ucast x + ucast (hd ys) + carry
      in ucast s # add_carry xs (tl ys) (drop_bit 8 s))"

lemma length_add_carry [simp, len_simps]: "length (add_carry xs ys c) = length xs"
  by (induction xs arbitrary: ys c) (simp_all add: Let_def)

lemma add_carry_value:
  "length xs = length ys \<Longrightarrow> unat c \<le> 1 \<Longrightarrow>
    le_nat (add_carry xs ys c) = (le_nat xs + le_nat ys + unat c) mod 256 ^ length xs"
proof (induction xs ys arbitrary: c rule: list_induct2)
  case (Cons x xs y ys)
  define s :: "16 word" where "s = ucast x + ucast y + c"
  have ux: "unat (ucast x :: 16 word) = unat x" "unat (ucast y :: 16 word) = unat y"
    using order.strict_trans [OF unat_byte_less, of 65536 x] order.strict_trans [OF unat_byte_less, of 65536 y]
    by (simp_all add: unsigned_ucast_eq take_bit_eq_mod)
  have "unat x + unat y + unat c < 65536"
    using unat_byte_less [of x] unat_byte_less [of y] Cons.prems by linarith
  moreover have "unat s = (unat x + unat y + unat c) mod 65536"
    by (simp add: s_def unat_word_ariths ux mod_add_left_eq)
  ultimately have u: "unat s = unat x + unat y + unat c" by simp
  have lo: "unat (ucast s :: byte) = unat s mod 256"
    by (simp add: unsigned_ucast_eq take_bit_eq_mod)
  have hi: "unat (drop_bit 8 s) = unat s div 256"
    by (simp only: unat_drop_bit_eq) (simp add: drop_bit_eq_div)
  have hi': "unat (s div 256) = unat s div 256"
    by (simp add: unat_div)
  have "unat s < 512" using u unat_byte_less [of x] unat_byte_less [of y] Cons.prems by linarith
  then have carry: "unat (drop_bit 8 s) \<le> 1" unfolding hi by simp
  let ?M = "256 ^ length xs :: nat"
  have "le_nat (add_carry (x # xs) (y # ys) c) =
      unat s mod 256 + 256 * ((le_nat xs + le_nat ys + unat s div 256) mod ?M)"
    using Cons.IH [OF carry] by (simp add: Let_def lo hi hi' flip: s_def)
  also have "\<dots> = (unat s mod 256 + 256 * (le_nat xs + le_nat ys + unat s div 256)) mod (256 * ?M)"
  proof -
    have "unat s mod 256 + 256 * (n mod ?M) < 256 * ?M" for n
    proof -
      have "n mod ?M + 1 \<le> ?M" by (simp add: Suc_leI)
      then have "256 * (n mod ?M) + 256 \<le> 256 * ?M" by (metis distrib_left mult_1_right mult_le_mono2)
      moreover have "unat s mod 256 < 256" by simp
      ultimately show ?thesis by linarith
    qed
    then show ?thesis
      by (metis (no_types, lifting) mod_less mod_add_right_eq mult_mod_right)
  qed
  also have "unat s mod 256 + 256 * (le_nat xs + le_nat ys + unat s div 256) =
      unat s + 256 * (le_nat xs + le_nat ys)"
    by (simp add: algebra_simps)
  also have "\<dots> = le_nat (x # xs) + le_nat (y # ys) + unat c"
    by (simp add: u algebra_simps)
  finally show ?case by simp
qed simp

text \<open>\<open>le_bytes k n\<close>: the number \<open>n\<close> modulo \<open>256^k\<close>, little-endian; the adder adds numbers.\<close>

primrec le_bytes :: "nat \<Rightarrow> nat \<Rightarrow> bytes" where
  "le_bytes 0 n = []"
| "le_bytes (Suc k) n = of_nat n # le_bytes k (n div 256)"

lemma length_le_bytes [simp, len_simps]: "length (le_bytes k n) = k"
  by (induction k arbitrary: n) simp_all

lemma le_nat_le_bytes: "le_nat (le_bytes k n) = n mod 256 ^ k"
proof (induction k arbitrary: n)
  case (Suc k)
  have "unat (of_nat n :: byte) = n mod 256" by (simp add: unat_of_nat)
  then have "le_nat (le_bytes (Suc k) n) = n mod 256 + 256 * (n div 256 mod 256 ^ k)"
    by (simp add: Suc)
  then show ?case by (simp add: mod_mult2_eq)
qed simp

lemma le_bytes_le_nat: "length bs = k \<Longrightarrow> le_bytes k (le_nat bs) = bs"
  by (rule le_nat_inj) (use le_nat_less [of bs] in \<open>simp_all add: le_nat_le_bytes\<close>)

lemma le_bytes_mod: "le_bytes k (n mod 256 ^ k) = le_bytes k n"
  by (rule le_nat_inj) (simp_all add: le_nat_le_bytes)

lemma add_carry_le_bytes:
  assumes "length xs = k" "length ys = k"
  shows "add_carry xs ys 0 = le_bytes k (le_nat xs + le_nat ys)"
  by (rule le_nat_inj) (simp_all add: assms add_carry_value le_nat_le_bytes)

lemma add_carry_le_bytes2: "add_carry (le_bytes k m) (le_bytes k n) 0 = le_bytes k (m + n)"
  by (rule le_nat_inj) (simp_all add: add_carry_value le_nat_le_bytes mod_add_eq)

lemma word_le_le_bytes: "word_le n w = le_bytes n (unat w)"
proof (induction n arbitrary: w)
  case (Suc n)
  have "(ucast w :: byte) = of_nat (unat w)"
    by (simp add: word_unat_eq_iff unat_of_nat unsigned_ucast_eq take_bit_eq_mod)
  moreover have "unat (drop_bit 8 w) = unat w div 256"
    by (simp only: unat_drop_bit_eq) (simp add: drop_bit_eq_div)
  ultimately show ?case
    using Suc [of "drop_bit 8 w"] by (simp only: word_le.simps le_bytes.simps)
qed simp

lemma le_bytes_0: "le_bytes k 0 = replicate k 0"
  by (induction k) simp_all

lemma le_bytes_append_zeros:
  "n < 256 ^ j \<Longrightarrow> le_bytes j n @ replicate k 0 = le_bytes (j + k) n"
proof (induction j arbitrary: n)
  case 0
  then show ?case by (simp add: le_bytes_0)
next
  case (Suc j)
  then have "n div 256 < 256 ^ j" by (simp add: div_less_iff_less_mult mult.commute)
  then show ?case using Suc.IH by simp
qed

text \<open>Two nested loops over rows and columns are one loop.\<close>

lemma fold_nested:
  "fold (\<lambda>p r. fold (\<lambda>k r. F (m * p + k) r) [0..<m] r) [0..<n] r = fold F [0..<m * n] r"
proof (induction n)
  case (Suc n)
  have "[0..<m * Suc n] = [0..<m * n] @ [m * n..<m * n + m]"
    using upt_add_eq_append [of 0 "m * n" m] by (simp add: add.commute)
  also have "[m * n..<m * n + m] = map (\<lambda>k. k + m * n) [0..<m]"
    by (simp add: map_add_upt add.commute)
  finally have "fold F [0..<m * Suc n] r = fold (\<lambda>k. F (k + m * n)) [0..<m] (fold F [0..<m * n] r)"
    by (simp only: fold_append o_apply fold_map o_def)
  then show ?case using Suc by (simp add: add.commute)
qed simp

end
