(* ===== verification/Go_Net.thy ===== *)
theory Go_Net
  imports Prelude "HOL-Library.Char_ord"
begin

text \<open>
  What \<^verbatim>\<open>x509gost\<close> uses of Go's string and network packages: strings are byte strings,
  written as \<open>string\<close>. \<^verbatim>\<open>strings.EqualFold\<close> is stated for ASCII, the only strings the callers
  give it; of \<^verbatim>\<open>net.ParseIP\<close> only whether it accepts is used.
\<close>

section \<open>Characters and searches\<close>

definition byte_of :: "char \<Rightarrow> nat" where
  "byte_of c = of_char c"

lemma byte_of_less [simp]: "byte_of c < 256"
  by (simp add: byte_of_def)

lemma byte_of_inj [simp]: "byte_of c = byte_of d \<longleftrightarrow> c = d"
  by (simp add: byte_of_def)

text \<open>\<^verbatim>\<open>strings.IndexByte\<close>, \<^verbatim>\<open>strings.LastIndexByte\<close>.\<close>

fun index_byte :: "string \<Rightarrow> char \<Rightarrow> nat option" where
  "index_byte [] c = None"
| "index_byte (x # xs) c = (if x = c then Some 0 else map_option Suc (index_byte xs c))"

fun last_index_byte :: "string \<Rightarrow> char \<Rightarrow> nat option" where
  "last_index_byte [] c = None"
| "last_index_byte (x # xs) c =
     (case last_index_byte xs c of Some i \<Rightarrow> Some (Suc i) | None \<Rightarrow> if x = c then Some 0 else None)"

lemma last_index_byte_None: "last_index_byte s c = None \<longleftrightarrow> c \<notin> set s"
  by (induction s) (auto split: option.split)

lemma last_index_byte_Some:
  "last_index_byte s c = Some i \<Longrightarrow> i < length s \<and> s ! i = c \<and> c \<notin> set (drop (Suc i) s)"
proof (induction s arbitrary: i)
  case (Cons x s)
  then show ?case using last_index_byte_None [of s c] by (cases "last_index_byte s c") (auto split: if_splits)
qed simp

lemma index_byte_None: "index_byte s c = None \<longleftrightarrow> c \<notin> set s"
  by (induction s) auto

section \<open>Indexing and slicing\<close>

text \<open>
  \<open>xs[i]\<close>, \<open>xs[i:]\<close>, \<open>xs[:i]\<close> and \<open>xs[i] = v\<close> of strings and slices, with the run-time panic
  of an index out of range. The index is Go's signed \<^verbatim>\<open>int\<close>.
\<close>

definition go_index :: "'a list \<Rightarrow> int \<Rightarrow> 'a res" where
  "go_index xs i =
     (if 0 \<le> i \<and> i < int (length xs) then Inr (xs ! nat i) else Inl (Panic ''runtime error: index out of range''))"

definition go_from :: "'a list \<Rightarrow> int \<Rightarrow> 'a list res" where
  "go_from xs i =
     (if 0 \<le> i \<and> i \<le> int (length xs) then Inr (drop (nat i) xs)
      else Inl (Panic ''runtime error: slice bounds out of range''))"

definition go_upto :: "'a list \<Rightarrow> int \<Rightarrow> 'a list res" where
  "go_upto xs i =
     (if 0 \<le> i \<and> i \<le> int (length xs) then Inr (take (nat i) xs)
      else Inl (Panic ''runtime error: slice bounds out of range''))"

definition go_put :: "'a list \<Rightarrow> int \<Rightarrow> 'a \<Rightarrow> 'a list res" where
  "go_put xs i v =
     (if 0 \<le> i \<and> i < int (length xs) then Inr (xs[nat i := v])
      else Inl (Panic ''runtime error: index out of range''))"

lemma go_index_simps [simp]:
  "go_index (x # xs) 0 = Inr x"
  "i < length xs \<Longrightarrow> go_index xs (int i) = Inr (xs ! i)"
  "xs \<noteq> [] \<Longrightarrow> go_index xs 0 = Inr (hd xs)"
  by (simp_all add: go_index_def hd_conv_nth)

lemma go_index_last [simp]: "xs \<noteq> [] \<Longrightarrow> go_index xs (int (length xs) - 1) = Inr (last xs)"
proof -
  assume "xs \<noteq> []"
  then have "nat (int (length xs) - 1) = length xs - 1" "1 \<le> int (length xs)" by (cases xs; simp)+
  then show ?thesis using \<open>xs \<noteq> []\<close> by (simp add: go_index_def last_conv_nth)
qed

lemma go_from_simps [simp]:
  "go_from (x # xs) 1 = Inr xs"
  "i \<le> length xs \<Longrightarrow> go_from xs (int i) = Inr (drop i xs)"
  "xs \<noteq> [] \<Longrightarrow> go_from xs 1 = Inr (tl xs)"
  by (simp_all add: go_from_def) (cases xs; simp)

lemma go_from_Suc [simp]: "i < length xs \<Longrightarrow> go_from xs (int i + 1) = Inr (drop (Suc i) xs)"
  by (simp add: go_from_def nat_add_distrib)

lemma go_upto_simps [simp]: "i \<le> length xs \<Longrightarrow> go_upto xs (int i) = Inr (take i xs)"
  by (simp add: go_upto_def)

lemma go_put_simps [simp]: "i < length xs \<Longrightarrow> go_put xs (int i) v = Inr (xs[i := v])"
  by (simp add: go_put_def)

lemma go_from_length: "go_from xs i = Inr ys \<Longrightarrow> length ys \<le> length xs"
  by (auto simp: go_from_def split: if_splits)

lemma go_from_one: "go_from xs 1 = Inr ys \<Longrightarrow> length ys < length xs"
  by (auto simp: go_from_def split: if_splits)

lemma go_upto_length: "go_upto xs i = Inr ys \<Longrightarrow> length ys = nat i \<and> 0 \<le> i"
  by (auto simp: go_upto_def split: if_splits)

text \<open>Recursion below the sequencing of fallible steps.\<close>

lemma bind_res_cong [fundef_cong]: "r = r' \<Longrightarrow> (\<And>x. r' = Inr x \<Longrightarrow> f x = g x) \<Longrightarrow> bind_res r f = bind_res r' g"
  by (cases r') simp_all

text \<open>\<^verbatim>\<open>strings.HasPrefix\<close> and \<^verbatim>\<open>strings.HasSuffix\<close>, which accept every pair of strings.\<close>

definition HasPrefix :: "string \<Rightarrow> string \<Rightarrow> bool" where
  "HasPrefix s p \<longleftrightarrow> take (length p) s = p"

definition HasSuffix :: "string \<Rightarrow> string \<Rightarrow> bool" where
  "HasSuffix s p \<longleftrightarrow> length p \<le> length s \<and> drop (length s - length p) s = p"

section \<open>Case folding\<close>

definition to_lower :: "char \<Rightarrow> char" where
  "to_lower c = (if 65 \<le> byte_of c \<and> byte_of c \<le> 90 then char_of (byte_of c + 32) else c)"

definition EqualFold :: "string \<Rightarrow> string \<Rightarrow> bool" where
  "EqualFold s t \<longleftrightarrow> map to_lower s = map to_lower t"

section \<open>UTF-8\<close>

text \<open>
  \<^verbatim>\<open>utf8.ValidString\<close>: the lead byte fixes the number of continuation bytes and the range of the
  first of them.
\<close>

definition cont_byte :: "char \<Rightarrow> bool" where
  "cont_byte c \<longleftrightarrow> 0x80 \<le> byte_of c \<and> byte_of c \<le> 0xBF"

fun utf8_ValidString :: "string \<Rightarrow> bool" where
  "utf8_ValidString [] = True"
| "utf8_ValidString (a # s) =
     (if byte_of a < 0x80 then utf8_ValidString s
      else if byte_of a < 0xC2 \<or> 0xF4 < byte_of a then False
      else if byte_of a < 0xE0
      then (case s of b # s \<Rightarrow> cont_byte b \<and> utf8_ValidString s | _ \<Rightarrow> False)
      else if byte_of a < 0xF0
      then (case s of b # c # s \<Rightarrow>
              (if byte_of a = 0xE0 then 0xA0 else 0x80) \<le> byte_of b \<and>
              byte_of b \<le> (if byte_of a = 0xED then 0x9F else 0xBF) \<and> cont_byte c \<and> utf8_ValidString s
            | _ \<Rightarrow> False)
      else (case s of b # c # d # s \<Rightarrow>
              (if byte_of a = 0xF0 then 0x90 else 0x80) \<le> byte_of b \<and>
              byte_of b \<le> (if byte_of a = 0xF4 then 0x8F else 0xBF) \<and> cont_byte c \<and> cont_byte d \<and>
              utf8_ValidString s
            | _ \<Rightarrow> False))"

lemma utf8_ascii: "list_all (\<lambda>c. byte_of c < 0x80) s \<Longrightarrow> utf8_ValidString s"
  by (induction s) simp_all

section \<open>Addresses\<close>

text \<open>\<^verbatim>\<open>net.SplitHostPort\<close>: host and port, or nothing for each of its errors.\<close>

definition SplitHostPort :: "string \<Rightarrow> (string \<times> string) option" where
  "SplitHostPort hostport =
     (case last_index_byte hostport CHR '':'' of
        None \<Rightarrow> None
      | Some i \<Rightarrow>
        let port = drop (i + 1) hostport in
        if hostport ! 0 = CHR ''[''
        then (case index_byte hostport CHR '']'' of
                None \<Rightarrow> None
              | Some e \<Rightarrow>
                if e + 1 = i \<and> CHR ''['' \<notin> set (drop 1 hostport) \<and> CHR '']'' \<notin> set (drop (e + 1) hostport)
                then Some (take (e - 1) (drop 1 hostport), port) else None)
        else let host = take i hostport in
             if CHR '':'' \<in> set host \<or> CHR ''['' \<in> set hostport \<or> CHR '']'' \<in> set hostport then None
             else Some (host, port))"

text \<open>A dotted quad: four decimal octets, no leading zero.\<close>

fun ipv4_fields :: "nat \<Rightarrow> nat \<Rightarrow> nat \<Rightarrow> string \<Rightarrow> bool" where
  "ipv4_fields pos val digLen [] = (pos = 3 \<and> 0 < digLen)"
| "ipv4_fields pos val digLen (c # s) =
     (if 48 \<le> byte_of c \<and> byte_of c \<le> 57
      then if digLen = 1 \<and> val = 0 then False
           else let val = val * 10 + (byte_of c - 48)
                in if val > 255 then False else ipv4_fields pos val (digLen + 1) s
      else if c = CHR ''.''
      then if digLen = 0 \<or> s = [] then False else if pos = 3 then False else ipv4_fields (pos + 1) 0 0 s
      else False)"

definition hex_digit :: "char \<Rightarrow> bool" where
  "hex_digit c \<longleftrightarrow> 48 \<le> byte_of c \<and> byte_of c \<le> 57 \<or> 97 \<le> byte_of c \<and> byte_of c \<le> 102 \<or> 65 \<le> byte_of c \<and> byte_of c \<le> 70"

text \<open>
  The groups of an IPv6 address: \<open>i\<close> bytes read, whether \<^verbatim>\<open>::\<close> was seen. The last argument bounds
  the number of groups by eight.
\<close>

fun ipv6_groups :: "nat \<Rightarrow> nat \<Rightarrow> bool \<Rightarrow> string \<Rightarrow> bool" where
  "ipv6_groups 0 i ell s = (s = [] \<and> \<not> ell)"
| "ipv6_groups (Suc n) i ell s =
     (let ds = takeWhile hex_digit s; r = drop (length ds) s
      in if ds = [] \<or> length ds > 4 then False
         else if r \<noteq> [] \<and> hd r = CHR ''.''
         then (ell \<or> i = 12) \<and> i + 4 \<le> 16 \<and> ipv4_fields 0 0 0 s \<and> (if i + 4 < 16 then ell else \<not> ell)
         else let i = i + 2 in
           if r = [] then (if i < 16 then ell else \<not> ell)
           else if hd r \<noteq> CHR '':'' \<or> length r = 1 then False
           else let s = tl r in
             if hd s = CHR '':''
             then if ell then False
                  else if tl s = [] then i < 16 else ipv6_groups n i True (tl s)
             else ipv6_groups n i ell s)"

definition ParseIP_ok :: "string \<Rightarrow> bool" where
  "ParseIP_ok s =
     (case dropWhile (\<lambda>c. c \<notin> {CHR ''.'', CHR '':'', CHR ''%''}) s of
        [] \<Rightarrow> False
      | c # _ \<Rightarrow>
        if c = CHR ''.'' then ipv4_fields 0 0 0 s
        else if c = CHR ''%'' \<or> CHR ''%'' \<in> set s then False
        else case s of
               a # b # r \<Rightarrow>
                 if a = CHR '':'' \<and> b = CHR '':''
                 then if r = [] then True else ipv6_groups 8 0 True r
                 else ipv6_groups 8 0 False s
             | _ \<Rightarrow> False)"

lemma ParseIP_examples:
  "ParseIP_ok ''10.0.0.1''" "\<not> ParseIP_ok ''10.0.0''" "\<not> ParseIP_ok ''10.0.0.01''" "\<not> ParseIP_ok ''example.com''"
  "ParseIP_ok ''::''" "ParseIP_ok ''::1''" "ParseIP_ok ''2001:db8::8a2e:370:7334''" "ParseIP_ok ''::ffff:10.0.0.1''"
  "ParseIP_ok ''1:2:3:4:5:6:7:8''" "\<not> ParseIP_ok ''1:2:3:4:5:6:7''" "\<not> ParseIP_ok ''1::2::3''" "\<not> ParseIP_ok ''fe80::1%eth0''"
  "\<not> ParseIP_ok ''1:2:3:4:5:6:7:8:9''" "\<not> ParseIP_ok ''1:2:3:4:5:6:7:8::''" "ParseIP_ok ''1:2:3:4:5:6:7::''"
  by code_simp+

lemma SplitHostPort_examples:
  "SplitHostPort ''example.com:80'' = Some (''example.com'', ''80'')"
  "SplitHostPort ''[::1]:80'' = Some (''::1'', ''80'')" "SplitHostPort ''::1'' = None" "SplitHostPort ''[::1]'' = None"
  by code_simp+

section \<open>Decimal numbers and object identifiers\<close>

fun decimal :: "nat \<Rightarrow> string" where
  "decimal n = (if n < 10 then [char_of (48 + n)] else decimal (n div 10) @ [char_of (48 + n mod 10)])"

declare decimal.simps [simp del]

type_synonym oid = "nat list"

fun oid_String :: "oid \<Rightarrow> string" where
  "oid_String [] = []"
| "oid_String [v] = decimal v"
| "oid_String (v # vs) = decimal v @ CHR ''.'' # oid_String vs"

lemma oid_String_example: "oid_String [1, 2, 643, 2, 2, 35, 1] = ''1.2.643.2.2.35.1''"
  by code_simp

end
