(* ===== verification/ASN1.thy ===== *)
theory ASN1
  imports Go_Net
begin

text \<open>
  What \<^verbatim>\<open>x509gost/parse.go\<close> uses of \<^verbatim>\<open>encoding/asn1\<close>: \<^verbatim>\<open>Unmarshal\<close> of DER object identifiers, octet
  and bit strings, raw values and the pieces of the certificate structure. A reader takes the
  bytes and gives the value and the bytes after it; every syntax or structure error is \<open>None\<close>. The encoders at
  the end are for round trips.
\<close>

section \<open>Tags and lengths\<close>

fun base128_loop :: "nat \<Rightarrow> nat \<Rightarrow> bytes \<Rightarrow> (nat \<times> bytes) option" where
  "base128_loop shifted ret [] = None"
| "base128_loop shifted ret (b # bs) =
     (if shifted = 5 then None
      else if shifted = 0 \<and> b = 0x80 then None
      else let ret = ret * 128 + unat (b AND 0x7f)
           in if b AND 0x80 = 0 then if ret > 0x7fffffff then None else Some (ret, bs)
              else base128_loop (shifted + 1) ret bs)"

definition parseBase128Int :: "bytes \<Rightarrow> (nat \<times> bytes) option" where
  "parseBase128Int bs = base128_loop 0 0 bs"

record tag_len =
  tl_class :: nat
  tl_compound :: bool
  tl_tag :: nat
  tl_length :: nat

fun length_loop :: "nat \<Rightarrow> nat \<Rightarrow> bytes \<Rightarrow> (nat \<times> bytes) option" where
  "length_loop 0 len bs = Some (len, bs)"
| "length_loop (Suc n) len [] = None"
| "length_loop (Suc n) len (b # bs) =
     (if len \<ge> 2 ^ 23 then None
      else let len = len * 256 + unat b in if len = 0 then None else length_loop n len bs)"

definition parse_length :: "bytes \<Rightarrow> (nat \<times> bytes) option" where
  "parse_length bs =
     (case bs of [] \<Rightarrow> None
      | b # bs \<Rightarrow>
        if b AND 0x80 = 0 then Some (unat (b AND 0x7f), bs)
        else let numBytes = unat (b AND 0x7f)
             in if numBytes = 0 then None
                else Option.bind (length_loop numBytes 0 bs) (\<lambda>(len, bs).
                       if len < 0x80 then None else Some (len, bs)))"

definition parseTagAndLength :: "bytes \<Rightarrow> (tag_len \<times> bytes) option" where
  "parseTagAndLength bs =
     (case bs of [] \<Rightarrow> None
      | b # bs \<Rightarrow>
        let class = unat (drop_bit 6 b); compound = (b AND 0x20 = 0x20); tag = unat (b AND 0x1f)
        in Option.bind
             (if tag = 0x1f
              then Option.bind (parseBase128Int bs) (\<lambda>(t, bs). if t < 0x1f then None else Some (t, bs))
              else Some (tag, bs))
             (\<lambda>(tag, bs). Option.bind (parse_length bs) (\<lambda>(len, bs).
                Some (\<lparr>tl_class = class, tl_compound = compound, tl_tag = tag, tl_length = len\<rparr>, bs))))"

text \<open>One element: its tag, its contents, the bytes after it.\<close>

definition parse_element :: "bytes \<Rightarrow> (tag_len \<times> bytes \<times> bytes) option" where
  "parse_element bs =
     Option.bind (parseTagAndLength bs) (\<lambda>(t, bs).
       if length bs < tl_length t then None else Some (t, take (tl_length t) bs, drop (tl_length t) bs))"

definition expect_tag :: "nat \<Rightarrow> bool \<Rightarrow> bytes \<Rightarrow> (bytes \<times> bytes) option" where
  "expect_tag tag compound bs =
     Option.bind (parse_element bs) (\<lambda>(t, inner, rest).
       if tl_class t = 0 \<and> tl_tag t = tag \<and> tl_compound t = compound then Some (inner, rest) else None)"

section \<open>Values\<close>

function oid_loop :: "bytes \<Rightarrow> oid option" where
  "oid_loop bs =
     (if bs = [] then Some []
      else case parseBase128Int bs of None \<Rightarrow> None
           | Some (v, r) \<Rightarrow> if length r < length bs then map_option ((#) v) (oid_loop r) else None)"
  by pat_completeness auto
termination by (relation "measure length") auto

declare oid_loop.simps [simp del]

definition parseObjectIdentifier :: "bytes \<Rightarrow> oid option" where
  "parseObjectIdentifier bs =
     (if bs = [] then None
      else Option.bind (parseBase128Int bs) (\<lambda>(v, r).
        Option.bind (oid_loop r) (\<lambda>vs. Some ((if v < 80 then [v div 40, v mod 40] else [2, v - 80]) @ vs))))"

definition unmarshal_oid :: "bytes \<Rightarrow> (oid \<times> bytes) option" where
  "unmarshal_oid bs =
     Option.bind (expect_tag 6 False bs) (\<lambda>(inner, rest).
       Option.bind (parseObjectIdentifier inner) (\<lambda>oid. Some (oid, rest)))"

definition unmarshal_octets :: "bytes \<Rightarrow> (bytes \<times> bytes) option" where
  "unmarshal_octets bs = expect_tag 4 False bs"

text \<open>A bit string: the number of padding bits, which are zero, then the bytes.\<close>

definition unmarshal_bits :: "bytes \<Rightarrow> (bytes \<times> bytes) option" where
  "unmarshal_bits bs =
     Option.bind (expect_tag 3 False bs) (\<lambda>(inner, rest).
       case inner of [] \<Rightarrow> None
       | p # b \<Rightarrow>
         if unat p > 7 \<or> b = [] \<and> unat p > 0 \<or> last inner AND mask (unat p) \<noteq> 0 then None
         else Some (b, rest))"

record RawValue =
  rv_Class :: nat
  rv_Tag :: nat
  rv_IsCompound :: bool
  rv_Bytes :: bytes
  rv_FullBytes :: bytes

definition no_value :: RawValue where
  "no_value = \<lparr>rv_Class = 0, rv_Tag = 0, rv_IsCompound = False, rv_Bytes = [], rv_FullBytes = []\<rparr>"

definition unmarshal_raw :: "bytes \<Rightarrow> (RawValue \<times> bytes) option" where
  "unmarshal_raw bs =
     Option.bind (parse_element bs) (\<lambda>(t, inner, rest).
       Some (\<lparr>rv_Class = tl_class t, rv_Tag = tl_tag t, rv_IsCompound = tl_compound t, rv_Bytes = inner,
              rv_FullBytes = take (length bs - length rest) bs\<rparr>, rest))"

text \<open>
  An integer that is optional under the explicit tag 0, of which only the default is told apart
  from a value: absent, or not an integer inside, it is skipped without moving.
\<close>

definition int64_value :: "bytes \<Rightarrow> int option" where
  "int64_value b =
     (if b = [] \<or> length b > 8 then None
      else if length b > 1 \<and> (b ! 0 = 0 \<and> b ! 1 AND 0x80 = 0 \<or> b ! 0 = 0xff \<and> b ! 1 AND 0x80 = 0x80) then None
      else let n = int (be_nat b) in Some (if b ! 0 AND 0x80 = 0 then n else n - 2 ^ (8 * length b)))"

definition unmarshal_version :: "bytes \<Rightarrow> (int \<times> bytes) option" where
  "unmarshal_version bs =
     (if bs = [] then Some (0, bs)
      else Option.bind (parseTagAndLength bs) (\<lambda>(t, r).
        if r = [] then None
        else if tl_class t = 2 \<and> tl_tag t = 0 \<and> (tl_length t = 0 \<or> tl_compound t)
        then if tl_length t = 0 then None
             else Option.bind (parseTagAndLength r) (\<lambda>(t, r).
               if tl_class t = 0 \<and> tl_tag t = 2 \<and> \<not> tl_compound t
               then if length r < tl_length t then None
                    else Option.bind (int64_value (take (tl_length t) r)) (\<lambda>v. Some (v, drop (tl_length t) r))
               else Some (0, bs))
        else Some (0, bs)))"

section \<open>Readers consume\<close>

lemma base128_loop_shorter: "base128_loop sh ret bs = Some (v, r) \<Longrightarrow> length r < length bs"
proof (induction sh ret bs rule: base128_loop.induct)
  case (2 sh ret b bs)
  then show ?case by (fastforce simp: Let_def split: if_splits)
qed simp

lemma length_loop_shorter: "length_loop n len bs = Some (v, r) \<Longrightarrow> length r \<le> length bs"
  by (induction n len bs rule: length_loop.induct) (fastforce simp: Let_def split: if_splits)+

lemma parse_length_shorter: "parse_length bs = Some (v, r) \<Longrightarrow> length r < length bs"
  by (auto simp: parse_length_def Let_def split: list.splits if_splits Option.bind_splits dest!: length_loop_shorter)

lemma parseTagAndLength_shorter: "parseTagAndLength bs = Some (t, r) \<Longrightarrow> length r + 2 \<le> length bs"
  by (auto simp: parseTagAndLength_def parseBase128Int_def Let_def split: list.splits if_splits Option.bind_splits
      dest!: parse_length_shorter base128_loop_shorter)

lemma parse_element_length: "parse_element bs = Some (t, inner, rest) \<Longrightarrow> length inner + length rest + 2 \<le> length bs"
  by (auto simp: parse_element_def split: Option.bind_splits if_splits dest!: parseTagAndLength_shorter)

lemma unmarshal_octets_length: "unmarshal_octets bs = Some (inner, rest) \<Longrightarrow> length inner + length rest + 2 \<le> length bs"
  by (auto simp: unmarshal_octets_def expect_tag_def split: Option.bind_splits if_splits dest!: parse_element_length)

section \<open>Encoders\<close>

fun base128_high :: "nat \<Rightarrow> bytes" where
  "base128_high n = (if n = 0 then [] else base128_high (n div 128) @ [of_nat (n mod 128) OR 0x80])"

declare base128_high.simps [simp del]

definition base128 :: "nat \<Rightarrow> bytes" where
  "base128 n = base128_high (n div 128) @ [of_nat (n mod 128)]"

definition der_length :: "nat \<Rightarrow> bytes" where
  "der_length n =
     (if n < 0x80 then [of_nat n] else if n < 0x100 then [0x81, of_nat n]
      else [0x82, of_nat (n div 256), of_nat (n mod 256)])"

text \<open>A universal element with a tag below 31.\<close>

definition der_element :: "nat \<Rightarrow> bool \<Rightarrow> bytes \<Rightarrow> bytes" where
  "der_element tag compound content = of_nat (tag + (if compound then 0x20 else 0)) # der_length (length content) @ content"

definition der_oid :: "oid \<Rightarrow> bytes" where
  "der_oid oid = der_element 6 False (base128 (40 * oid ! 0 + oid ! 1) @ concat (map base128 (drop 2 oid)))"

definition oid_ok :: "oid \<Rightarrow> bool" where
  "oid_ok oid \<longleftrightarrow> 2 \<le> length oid \<and> oid ! 0 \<le> 2 \<and> (oid ! 0 < 2 \<longrightarrow> oid ! 1 < 40) \<and>
     40 * oid ! 0 + oid ! 1 < 2 ^ 31 \<and> list_all (\<lambda>v. v < 2 ^ 31) (drop 2 oid) \<and> length oid \<le> 100"

lemma byte_low7: "d < 128 \<Longrightarrow> unat ((of_nat d :: byte) AND 0x7f) = d \<and> (of_nat d :: byte) AND 0x80 = 0"
proof -
  assume d: "d < 128"
  then have "d \<in> set [0..<128]" by simp
  moreover have "list_all (\<lambda>d. unat ((of_nat d :: byte) AND 0x7f) = d \<and> (of_nat d :: byte) AND 0x80 = 0) [0..<128]"
    by code_simp
  ultimately show ?thesis unfolding list_all_iff by blast
qed

lemma byte_high7:
  "d < 128 \<Longrightarrow> unat ((of_nat d OR 0x80 :: byte) AND 0x7f) = d \<and> (of_nat d OR 0x80 :: byte) AND 0x80 \<noteq> 0 \<and>
    (of_nat d OR 0x80 = (0x80 :: byte) \<longleftrightarrow> d = 0)"
proof -
  assume d: "d < 128"
  then have "d \<in> set [0..<128]" by simp
  moreover have "list_all (\<lambda>d. unat ((of_nat d OR 0x80 :: byte) AND 0x7f) = d \<and> (of_nat d OR 0x80 :: byte) AND 0x80 \<noteq> 0 \<and>
    (of_nat d OR 0x80 = (0x80 :: byte) \<longleftrightarrow> d = 0)) [0..<128]"
    by code_simp
  ultimately show ?thesis unfolding list_all_iff by blast
qed

lemma base128_high_loop:
  "sh + length (base128_high m) \<le> 5 \<Longrightarrow>
   base128_loop sh r (base128_high m @ bs) = base128_loop (sh + length (base128_high m)) (r * 128 ^ length (base128_high m) + m) bs"
proof (induction m arbitrary: bs rule: base128_high.induct)
  case (1 m)
  show ?case
  proof (cases "m = 0")
    case True
    then show ?thesis by (simp add: base128_high.simps [of 0])
  next
    case False
    let ?h = "base128_high (m div 128)" and ?d = "of_nat (m mod 128) OR 0x80 :: byte"
    have e: "base128_high m = ?h @ [?d]" using False by (subst base128_high.simps) simp
    have l: "sh + length ?h < 5" using 1(2) by (simp add: e)
    have d: "unat (?d AND 0x7f) = m mod 128" "?d AND 0x80 \<noteq> 0" "?d = 0x80 \<longleftrightarrow> m mod 128 = 0"
      using byte_high7 [of "m mod 128"] by simp_all
    have first: "\<not> (sh + length ?h = 0 \<and> ?d = 0x80)"
    proof
      assume a: "sh + length ?h = 0 \<and> ?d = 0x80"
      then have "m div 128 = 0" by (metis add_is_0 append_is_Nil_conv base128_high.simps length_0_conv not_Cons_self2)
      then show False using a d(3) False by (metis add_eq_0_iff_both_eq_0 div_mult_mod_eq mult_0)
    qed
    have "base128_loop sh r (base128_high m @ bs) = base128_loop sh r (?h @ ?d # bs)" by (simp add: e)
    also have "\<dots> = base128_loop (sh + length ?h) (r * 128 ^ length ?h + m div 128) (?d # bs)"
      using 1(1) [OF False, of "?d # bs"] l by simp
    also have "\<dots> = base128_loop (sh + length ?h + 1) ((r * 128 ^ length ?h + m div 128) * 128 + m mod 128) bs"
      using l unfolding base128_loop.simps Let_def d(1) if_not_P [OF first] if_not_P [OF d(2)] by simp
    also have "(r * 128 ^ length ?h + m div 128) * 128 + m mod 128 = r * 128 ^ length (base128_high m) + m"
      by (simp add: e algebra_simps)
    finally show ?thesis by (simp add: e)
  qed
qed

lemma base128_high_length: "m < 128 ^ k \<Longrightarrow> length (base128_high m) \<le> k"
proof (induction k arbitrary: m)
  case 0
  then show ?case by (simp add: base128_high.simps [of 0])
next
  case (Suc k)
  then have "m div 128 < 128 ^ k" by (simp add: div_less_iff_less_mult mult.commute)
  then show ?case using Suc.IH by (subst base128_high.simps) simp
qed

lemma parseBase128Int_base128: "n < 2 ^ 31 \<Longrightarrow> parseBase128Int (base128 n @ bs) = Some (n, bs)"
proof -
  assume n: "n < 2 ^ 31"
  then have "n div 128 < 128 ^ 4" by simp
  then have l: "length (base128_high (n div 128)) \<le> 4" by (rule base128_high_length)
  have d: "unat ((of_nat (n mod 128) :: byte) AND 0x7f) = n mod 128" "(of_nat (n mod 128) :: byte) AND 0x80 = 0"
    using byte_low7 [of "n mod 128"] by simp_all
  have "(of_nat (n mod 128) :: byte) \<noteq> 0x80" using d(2) by auto
  moreover have "n div 128 * 128 + n mod 128 = n" by (rule div_mult_mod_eq)
  ultimately show ?thesis using l n d
    by (simp add: parseBase128Int_def base128_def base128_high_loop Let_def not_less)
qed

lemma base128_not_Nil [simp]: "base128 n \<noteq> []"
  by (simp add: base128_def)

lemma oid_loop_base128: "list_all (\<lambda>v. v < 2 ^ 31) vs \<Longrightarrow> oid_loop (concat (map base128 vs)) = Some vs"
proof (induction vs)
  case Nil
  then show ?case by (simp add: oid_loop.simps [of "[]"])
next
  case (Cons v vs)
  have "0 < length (base128 v)" by simp
  then show ?case using Cons parseBase128Int_base128 [of v "concat (map base128 vs)"]
    by (subst oid_loop.simps) (simp del: length_greater_0_conv)
qed

lemma parseObjectIdentifier_print:
  assumes "oid_ok oid"
  shows "parseObjectIdentifier (base128 (40 * oid ! 0 + oid ! 1) @ concat (map base128 (drop 2 oid))) = Some oid"
proof -
  obtain a b vs where oid: "oid = a # b # vs" using assms by (auto simp: oid_ok_def Suc_le_length_iff numeral_2_eq_2)
  have a: "a \<le> 2" "a < 2 \<Longrightarrow> b < 40" "40 * a + b < 2 ^ 31" "list_all (\<lambda>v. v < 2 ^ 31) vs"
    using assms by (simp_all add: oid_ok_def oid)
  have "(if 40 * a + b < 80 then [(40 * a + b) div 40, (40 * a + b) mod 40] else [2, 40 * a + b - 80]) = [a, b]"
    using a(1,2) by (cases "a < 2") auto
  then show ?thesis using a(3,4)
    by (simp add: oid parseObjectIdentifier_def parseBase128Int_base128 oid_loop_base128)
qed

lemma parse_length_der: "n < 2 ^ 16 \<Longrightarrow> parse_length (der_length n @ bs) = Some (n, bs)"
proof -
  assume n: "n < 2 ^ 16"
  have b: "unat (of_nat k :: byte) = k" if "k < 256" for k using that by (simp add: unat_of_nat take_bit_nat_eq_self)
  have xb: "\<not> 2 ^ 23 \<le> unat x" for x :: byte unfolding not_le by (rule order.strict_trans2 [OF unsigned_less]) simp
  have l1: "length_loop (Suc 0) 0 (x # r) = (if unat x = 0 then None else Some (unat x, r))" for x r
    by (simp add: Let_def)
  have l2: "length_loop (Suc (Suc 0)) 0 (x # y # r) = (if unat x = 0 then None else Some (unat x * 256 + unat y, r))" for x y r
    using xb [of x] by (auto simp del: power_numeral simp: Let_def)
  have nb: "unat (0x81 AND 0x7f :: byte) = Suc 0" "unat (0x82 AND 0x7f :: byte) = Suc (Suc 0)"
    "(0x81 AND 0x80 :: byte) \<noteq> 0" "(0x82 AND 0x80 :: byte) \<noteq> 0"
    by simp_all
  consider "n < 0x80" | "0x80 \<le> n" "n < 0x100" | "0x100 \<le> n" by linarith
  then show ?thesis
  proof cases
    case 1
    then show ?thesis using byte_low7 [of n] by (simp add: parse_length_def der_length_def)
  next
    case 2
    then have "der_length n @ bs = 0x81 # of_nat n # bs" by (simp add: der_length_def)
    then show ?thesis using 2 by (simp only: parse_length_def list.case nb Let_def l1 b if_False) simp
  next
    case 3
    have q: "n div 256 < 256" using n by simp
    have q0: "0 < n div 256" using 3 by (simp add: div_greater_zero_iff)
    have m: "n mod 256 < 256" by simp
    have e: "n div 256 * 256 + n mod 256 = n" by simp
    have "der_length n @ bs = 0x82 # of_nat (n div 256) # of_nat (n mod 256) # bs" using 3 by (simp add: der_length_def)
    then show ?thesis using 3 q0 by (simp only: parse_length_def list.case nb Let_def l2 b [OF q] b [OF m] e if_False) simp
  qed
qed

lemma parse_element_der:
  assumes "tag < 31" "length content < 2 ^ 16"
  shows "parse_element (der_element tag compound content @ bs) =
    Some (\<lparr>tl_class = 0, tl_compound = compound, tl_tag = tag, tl_length = length content\<rparr>, content, bs)"
proof -
  let ?b = "\<lambda>tag compound. of_nat (tag + (if compound then 0x20 else 0)) :: byte"
  have "list_all (\<lambda>tag. list_all (\<lambda>c. unat (drop_bit 6 (?b tag c)) = 0 \<and> (?b tag c AND 0x20 = 0x20 \<longleftrightarrow> c) \<and>
      unat (?b tag c AND 0x1f) = tag) [True, False]) [0..<31]"
    by code_simp
  moreover have "tag \<in> set [0..<31]" "compound \<in> set [True, False]" using assms(1) by simp_all
  ultimately have h: "unat (drop_bit 6 (?b tag compound)) = 0" "?b tag compound AND 0x20 = 0x20 \<longleftrightarrow> compound"
      "unat (?b tag compound AND 0x1f) = tag"
    unfolding list_all_iff by blast+
  have "parseTagAndLength (der_element tag compound content @ bs) =
      Some (\<lparr>tl_class = 0, tl_compound = compound, tl_tag = tag, tl_length = length content\<rparr>, content @ bs)"
    using parse_length_der [OF assms(2), of "content @ bs"] assms(1)
    unfolding parseTagAndLength_def der_element_def by (simp only: append_Cons list.case h Let_def) simp
  then show ?thesis by (simp add: parse_element_def)
qed

end
