(* ===== verification/X509_Names.thy ===== *)
theory X509_Names
  imports Go_Net "HOL-Library.Sublist"
begin

text \<open>
  \<^verbatim>\<open>x509gost/constraints.go\<close>: the name constraints of RFC 5280 on the names of a certificate.
  A \<^verbatim>\<open>crypto/x509\<close> certificate is a record of the fields the package reads; an error carries
  its sentinel, without the values formatted into the message.
\<close>

section \<open>Certificates of the standard library\<close>

record ip_net =
  net_IP :: bytes
  net_Mask :: bytes

record url =
  url_Host :: string

record x509_cert =
  xc_Raw :: bytes
  xc_RawTBSCertificate :: bytes
  xc_RawSubject :: bytes
  xc_RawIssuer :: bytes
  xc_Signature :: bytes
  xc_NotBefore :: int
  xc_NotAfter :: int
  xc_BasicConstraintsValid :: bool
  xc_IsCA :: bool
  xc_MaxPathLen :: int
  xc_KeyUsage :: int
  xc_ExtKeyUsage :: "int list"
  xc_UnknownExtKeyUsage :: "oid list"
  xc_UnhandledCriticalExtensions :: "oid list"
  xc_DNSNames :: "string list"
  xc_IPAddresses :: "bytes list"
  xc_EmailAddresses :: "string list"
  xc_URIs :: "url list"
  xc_PermittedDNSDomainsCritical :: bool
  xc_PermittedDNSDomains :: "string list"
  xc_ExcludedDNSDomains :: "string list"
  xc_PermittedIPRanges :: "ip_net list"
  xc_ExcludedIPRanges :: "ip_net list"
  xc_PermittedEmailAddresses :: "string list"
  xc_ExcludedEmailAddresses :: "string list"
  xc_PermittedURIDomains :: "string list"
  xc_ExcludedURIDomains :: "string list"

definition errNameConstraintViolation :: fault where
  "errNameConstraintViolation = Err ''x509gost: leaf name is not permitted by a CA name constraint in the chain''"

definition errBadEmailConstraint :: fault where
  "errBadEmailConstraint = Err ''x509gost: cannot parse email name constraint''"

definition errURIEmptyHost :: fault where
  "errURIEmptyHost = Err ''x509gost: URI host is empty; cannot match against constraints''"

definition errURIIPHost :: fault where
  "errURIIPHost = Err ''x509gost: URI host is an IP; cannot match against constraints''"

definition errBadDomain :: fault where
  "errBadDomain = Err ''x509gost: cannot parse domain for constraint matching''"

text \<open>The error of \<^verbatim>\<open>net.SplitHostPort\<close>, returned as it is.\<close>

definition errSplitHostPort :: fault where
  "errSplitHostPort = Err ''net: address''"

section \<open>Domains\<close>

function reverse_labels_loop :: "string \<Rightarrow> string list res" where
  "reverse_labels_loop domain =
     (if \<not> 0 < length domain then Inr []
      else case last_index_byte domain CHR ''.'' of
             None \<Rightarrow> Inr [domain]
           | Some i \<Rightarrow>
             bind_res (go_from domain (int i + 1)) (\<lambda>label.
             bind_res (go_upto domain (int i)) (\<lambda>domain.
             bind_res (reverse_labels_loop domain) (\<lambda>labels.
               Inr (label # (if i = 0 then [[]] else []) @ labels)))))"
  by pat_completeness auto
termination
  by (relation "measure length") (auto dest!: last_index_byte_Some go_upto_length)

declare reverse_labels_loop.simps [simp del]

text \<open>A rune outside 33 to 126 is a byte outside that range; \<open>Inr None\<close> is the result without \<^verbatim>\<open>ok\<close>.\<close>

definition domainToReverseLabels :: "string \<Rightarrow> string list option res" where
  "domainToReverseLabels domain =
     bind_res (reverse_labels_loop domain) (\<lambda>reverseLabels.
     bind_res (if length reverseLabels > 0
               then bind_res (go_index reverseLabels 0) (\<lambda>label. Inr (length label = 0)) else Inr False) (\<lambda>absolute.
       if absolute then Inr None
       else if list_all (\<lambda>label. label \<noteq> [] \<and> list_all (\<lambda>c. \<not> (byte_of c < 33 \<or> byte_of c > 126)) label) reverseLabels
       then Inr (Some reverseLabels) else Inr None))"

fun match_labels_loop :: "int \<Rightarrow> string list \<Rightarrow> string list \<Rightarrow> bool res" where
  "match_labels_loop i [] domainLabels = Inr True"
| "match_labels_loop i (constraintLabel # constraintLabels) domainLabels =
     bind_res (go_index domainLabels i) (\<lambda>domainLabel.
       if \<not> EqualFold constraintLabel domainLabel then Inr False
       else match_labels_loop (i + 1) constraintLabels domainLabels)"

definition matchDomainConstraint :: "string \<Rightarrow> string \<Rightarrow> bool res" where
  "matchDomainConstraint domain constraint =
     (if constraint = [] then Inr True
      else bind_res (domainToReverseLabels domain) (\<lambda>labels. case labels of
        None \<Rightarrow> Inl errBadDomain
      | Some domainLabels \<Rightarrow>
        bind_res (go_index constraint 0) (\<lambda>c.
        bind_res (if c = CHR ''.'' then bind_res (go_from constraint 1) (\<lambda>constraint. Inr (True, constraint))
                  else Inr (False, constraint)) (\<lambda>(mustHaveSubdomains, constraint).
        bind_res (domainToReverseLabels constraint) (\<lambda>labels. case labels of
          None \<Rightarrow> Inl errBadDomain
        | Some constraintLabels \<Rightarrow>
          if length domainLabels < length constraintLabels \<or>
             mustHaveSubdomains \<and> length domainLabels = length constraintLabels
          then Inr False
          else match_labels_loop 0 constraintLabels domainLabels)))))"

definition domainNameValid :: "string \<Rightarrow> bool res" where
  "domainNameValid name =
     (if \<not> utf8_ValidString name then Inr False
      else bind_res (domainToReverseLabels name) (\<lambda>labels. Inr (labels \<noteq> None)))"

section \<open>Mailboxes\<close>

record rfc2821Mailbox =
  mb_local :: string
  mb_domain :: string

definition quoted_pair_char :: "char \<Rightarrow> bool" where
  "quoted_pair_char c \<longleftrightarrow> byte_of c = 11 \<or> byte_of c = 12 \<or> 1 \<le> byte_of c \<and> byte_of c \<le> 9 \<or>
     14 \<le> byte_of c \<and> byte_of c \<le> 127"

definition qtext :: "char \<Rightarrow> bool" where
  "qtext c \<longleftrightarrow> byte_of c \<in> {11, 12, 32, 33, 127} \<or> 1 \<le> byte_of c \<and> byte_of c \<le> 8 \<or>
     14 \<le> byte_of c \<and> byte_of c \<le> 31 \<or> 35 \<le> byte_of c \<and> byte_of c \<le> 91 \<or> 93 \<le> byte_of c \<and> byte_of c \<le> 126"

text \<open>
  The two loops of the parser, on the local part read so far and the rest of the input. The code
  indexes the input under its own guards; without them the index is a panic here too.
\<close>

function mailbox_quoted :: "string \<Rightarrow> string \<Rightarrow> (string \<times> string) option res" where
  "mailbox_quoted acc s =
     (if s = [] then Inr None
      else bind_res (go_index s 0) (\<lambda>c. bind_res (go_from s 1) (\<lambda>s.
        if c = CHR 0x22 then Inr (Some (acc, s))
        else if c = CHR 0x5C
        then if s = [] then Inr None
             else bind_res (go_index s 0) (\<lambda>d.
               if quoted_pair_char d then bind_res (go_from s 1) (\<lambda>s. mailbox_quoted (acc @ [d]) s) else Inr None)
        else if qtext c then mailbox_quoted (acc @ [c]) s else Inr None)))"
  by pat_completeness auto
termination
  by (relation "measure (\<lambda>(acc, s). length s)") (auto dest!: go_from_one)

declare mailbox_quoted.simps [simp del]

definition atext :: "char \<Rightarrow> bool" where
  "atext c \<longleftrightarrow> 48 \<le> byte_of c \<and> byte_of c \<le> 57 \<or> 97 \<le> byte_of c \<and> byte_of c \<le> 122 \<or>
     65 \<le> byte_of c \<and> byte_of c \<le> 90 \<or> c \<in> set ''!#$%&*+-/=?^_{|}~.'' \<or> c = CHR 0x27 \<or> c = CHR 0x60"

function mailbox_atoms :: "string \<Rightarrow> string \<Rightarrow> (string \<times> string) option res" where
  "mailbox_atoms acc s =
     (if \<not> length s > 0 then Inr (Some (acc, s))
      else bind_res (go_index s 0) (\<lambda>c.
        if c = CHR 0x5C
        then bind_res (go_from s 1) (\<lambda>s.
               if s = [] then Inr None
               else bind_res (go_index s 0) (\<lambda>d. bind_res (go_from s 1) (\<lambda>s. mailbox_atoms (acc @ [d]) s)))
        else if atext c
        then bind_res (go_index s 0) (\<lambda>d. bind_res (go_from s 1) (\<lambda>s. mailbox_atoms (acc @ [d]) s))
        else Inr (Some (acc, s))))"
  by pat_completeness auto
termination
  by (relation "measure (\<lambda>(acc, s). length s)") (auto dest!: go_from_one)

declare mailbox_atoms.simps [simp del]

text \<open>A period first or last, or two in a row (\<^verbatim>\<open>bytes.Contains\<close>).\<close>

fun two_dots :: "string \<Rightarrow> bool" where
  "two_dots (a # b # s) = (a = CHR ''.'' \<and> b = CHR ''.'' \<or> two_dots (b # s))"
| "two_dots _ = False"

definition local_dots :: "string \<Rightarrow> bool res" where
  "local_dots localPart =
     bind_res (go_index localPart 0) (\<lambda>c. if c = CHR ''.'' then Inr True
       else bind_res (go_index localPart (int (length localPart) - 1)) (\<lambda>c. if c = CHR ''.'' then Inr True
         else Inr (two_dots localPart)))"

definition mailbox_local :: "string \<Rightarrow> (string \<times> string) option res" where
  "mailbox_local s =
     bind_res (go_index s 0) (\<lambda>c.
       if c = CHR 0x22 then bind_res (go_from s 1) (\<lambda>s. mailbox_quoted [] s)
       else bind_res (mailbox_atoms [] s) (\<lambda>r. case r of
         None \<Rightarrow> Inr None
       | Some (localPart, s) \<Rightarrow>
         if length localPart = 0 then Inr None
         else bind_res (local_dots localPart) (\<lambda>bad. if bad then Inr None else Inr (Some (localPart, s)))))"

definition parseRFC2821Mailbox :: "string \<Rightarrow> rfc2821Mailbox option res" where
  "parseRFC2821Mailbox s =
     (if s = [] then Inr None
      else bind_res (mailbox_local s) (\<lambda>r. case r of
        None \<Rightarrow> Inr None
      | Some (localPart, s) \<Rightarrow>
        if s = [] then Inr None
        else bind_res (go_index s 0) (\<lambda>c.
          if c \<noteq> CHR ''@'' then Inr None
          else bind_res (go_from s 1) (\<lambda>s.
            bind_res (domainToReverseLabels s) (\<lambda>labels.
              if labels = None then Inr None
              else Inr (Some \<lparr>mb_local = localPart, mb_domain = s\<rparr>))))))"

section \<open>Matchers\<close>

definition matchEmailConstraint :: "rfc2821Mailbox \<Rightarrow> string \<Rightarrow> bool res" where
  "matchEmailConstraint mailbox constraint =
     (if CHR ''@'' \<in> set constraint
      then bind_res (parseRFC2821Mailbox constraint) (\<lambda>parsed. case parsed of
              None \<Rightarrow> Inl errBadEmailConstraint
            | Some constraintMailbox \<Rightarrow>
              Inr (mb_local mailbox = mb_local constraintMailbox \<and>
                   EqualFold (mb_domain mailbox) (mb_domain constraintMailbox)))
      else matchDomainConstraint (mb_domain mailbox) constraint)"

definition matchURIConstraint :: "url \<Rightarrow> string \<Rightarrow> bool res" where
  "matchURIConstraint uri constraint =
     (let host = url_Host uri
      in if host = [] then Inl errURIEmptyHost
         else bind_res
           (if CHR '':'' \<in> set host \<and> \<not> HasSuffix host '']''
            then (case SplitHostPort host of None \<Rightarrow> Inl errSplitHostPort | Some (h, _) \<Rightarrow> Inr h)
            else Inr host)
           (\<lambda>host.
             if HasPrefix host ''['' \<and> HasSuffix host '']'' \<or> ParseIP_ok host
             then Inl errURIIPHost
             else matchDomainConstraint host constraint))"

text \<open>The mask and the address of the network are indexed by the bytes of the name.\<close>

fun match_ip_loop :: "bytes \<Rightarrow> ip_net \<Rightarrow> nat list \<Rightarrow> bool res" where
  "match_ip_loop ip constraint [] = Inr True"
| "match_ip_loop ip constraint (i # is) =
     bind_res (go_index (net_Mask constraint) (int i)) (\<lambda>mask.
     bind_res (go_index ip (int i)) (\<lambda>a.
     bind_res (go_index (net_IP constraint) (int i)) (\<lambda>b.
       if a AND mask \<noteq> b AND mask then Inr False
       else match_ip_loop ip constraint is)))"

definition matchIPConstraint :: "bytes \<Rightarrow> ip_net \<Rightarrow> bool res" where
  "matchIPConstraint ip constraint =
     (if length ip \<noteq> length (net_Mask constraint) then Inr False
      else match_ip_loop ip constraint [0..<length ip])"

section \<open>Constraints of a certificate\<close>

fun check_excluded :: "('n \<Rightarrow> 'c \<Rightarrow> bool res) \<Rightarrow> 'n \<Rightarrow> 'c list \<Rightarrow> unit res" where
  "check_excluded match n [] = Inr ()"
| "check_excluded match n (c # cs) =
     bind_res (match n c) (\<lambda>ok. if ok then Inl errNameConstraintViolation else check_excluded match n cs)"

fun check_permitted :: "('n \<Rightarrow> 'c \<Rightarrow> bool res) \<Rightarrow> 'n \<Rightarrow> 'c list \<Rightarrow> unit res" where
  "check_permitted match n [] = Inl errNameConstraintViolation"
| "check_permitted match n (c # cs) =
     bind_res (match n c) (\<lambda>ok. if ok then Inr () else check_permitted match n cs)"

definition checkNameConstraints :: "'n \<Rightarrow> 'c list \<Rightarrow> 'c list \<Rightarrow> ('n \<Rightarrow> 'c \<Rightarrow> bool res) \<Rightarrow> unit res" where
  "checkNameConstraints parsedName permitted excluded match =
     bind_res (check_excluded match parsedName excluded) (\<lambda>_.
       if permitted = [] then Inr () else check_permitted match parsedName permitted)"

text \<open>A loop that returns the first error.\<close>

fun for_each :: "'a list \<Rightarrow> ('a \<Rightarrow> unit res) \<Rightarrow> unit res" where
  "for_each [] f = Inr ()"
| "for_each (x # xs) f = bind_res (f x) (\<lambda>_. for_each xs f)"

definition applyNameConstraints :: "x509_cert \<Rightarrow> x509_cert \<Rightarrow> unit res" where
  "applyNameConstraints ca leaf =
     (if \<not> xc_PermittedDNSDomainsCritical ca \<and>
         xc_PermittedDNSDomains ca = [] \<and> xc_ExcludedDNSDomains ca = [] \<and>
         xc_PermittedIPRanges ca = [] \<and> xc_ExcludedIPRanges ca = [] \<and>
         xc_PermittedEmailAddresses ca = [] \<and> xc_ExcludedEmailAddresses ca = [] \<and>
         xc_PermittedURIDomains ca = [] \<and> xc_ExcludedURIDomains ca = []
      then Inr ()
      else bind_res
        (for_each (xc_DNSNames leaf) (\<lambda>name.
           bind_res (domainNameValid name) (\<lambda>valid.
             if \<not> valid then Inl errNameConstraintViolation
             else checkNameConstraints name (xc_PermittedDNSDomains ca) (xc_ExcludedDNSDomains ca) matchDomainConstraint)))
      (\<lambda>_. bind_res
        (for_each (xc_IPAddresses leaf) (\<lambda>ip.
           checkNameConstraints ip (xc_PermittedIPRanges ca) (xc_ExcludedIPRanges ca) matchIPConstraint))
      (\<lambda>_. bind_res
        (for_each (xc_EmailAddresses leaf) (\<lambda>email.
           bind_res (parseRFC2821Mailbox email) (\<lambda>parsed. case parsed of
             None \<Rightarrow> Inl errNameConstraintViolation
           | Some mailbox \<Rightarrow>
             checkNameConstraints mailbox (xc_PermittedEmailAddresses ca) (xc_ExcludedEmailAddresses ca) matchEmailConstraint)))
      (\<lambda>_. for_each (xc_URIs leaf) (\<lambda>uri.
           checkNameConstraints uri (xc_PermittedURIDomains ca) (xc_ExcludedURIDomains ca) matchURIConstraint)))))"

section \<open>Labels of a domain\<close>

text \<open>The reading of RFC 1035: the text between the dots.\<close>

fun split_dots :: "string \<Rightarrow> string list" where
  "split_dots [] = [[]]"
| "split_dots (c # s) =
     (if c = CHR ''.'' then [] # split_dots s else (c # hd (split_dots s)) # tl (split_dots s))"

definition dns_labels :: "string \<Rightarrow> string list" where
  "dns_labels s = (if s = [] then [] else split_dots s)"

definition dns_label :: "string \<Rightarrow> bool" where
  "dns_label l \<longleftrightarrow> l \<noteq> [] \<and> list_all (\<lambda>c. 33 \<le> byte_of c \<and> byte_of c \<le> 126) l"

definition dns_name :: "string \<Rightarrow> bool" where
  "dns_name s \<longleftrightarrow> list_all dns_label (dns_labels s)"

definition lower_labels :: "string \<Rightarrow> string list" where
  "lower_labels s = map (map to_lower) (dns_labels s)"

lemma split_dots_not_Nil [simp]: "split_dots s \<noteq> []"
  by (cases s) simp_all

lemma split_dots_append: "split_dots (s @ CHR ''.'' # t) = split_dots s @ split_dots t"
  by (induction s) simp_all

lemma split_dots_single: "CHR ''.'' \<notin> set s \<Longrightarrow> split_dots s = [s]"
  by (induction s) auto

lemma reverse_labels_loop_eq: "reverse_labels_loop s = Inr (rev (dns_labels s))"
proof (induction s rule: measure_induct_rule [of length])
  case (less s)
  show ?case
  proof (cases "s = []")
    case True
    then show ?thesis by (simp add: reverse_labels_loop.simps [of "[]"] dns_labels_def)
  next
    case s: False
    show ?thesis
    proof (cases "last_index_byte s CHR ''.''")
      case None
      moreover from this have "split_dots s = [s]" by (simp add: last_index_byte_None split_dots_single)
      ultimately show ?thesis using s by (simp add: reverse_labels_loop.simps [of s] dns_labels_def)
    next
      case (Some i)
      then have i: "i < length s" "s ! i = CHR ''.''" "CHR ''.'' \<notin> set (drop (Suc i) s)"
        using last_index_byte_Some by auto
      have "split_dots s = split_dots (take i s @ CHR ''.'' # drop (Suc i) s)"
        using id_take_nth_drop [OF i(1)] i(2) by simp
      also have "\<dots> = split_dots (take i s) @ [drop (Suc i) s]"
        by (simp only: split_dots_append split_dots_single [OF i(3)])
      finally have sp: "split_dots s = split_dots (take i s) @ [drop (Suc i) s]" .
      have "reverse_labels_loop (take i s) = Inr (rev (dns_labels (take i s)))"
        using i(1) by (intro less.IH) simp
      then show ?thesis using s Some sp i(1)
        by (auto simp: reverse_labels_loop.simps [of s] dns_labels_def)
    qed
  qed
qed

lemma domainToReverseLabels_eq:
  "domainToReverseLabels s = Inr (if dns_name s then Some (rev (dns_labels s)) else None)"
proof -
  have "(\<lambda>label. label \<noteq> [] \<and> list_all (\<lambda>c. \<not> (byte_of c < 33 \<or> byte_of c > 126)) label) = dns_label"
    by (auto simp: dns_label_def fun_eq_iff not_less)
  then have "domainToReverseLabels s =
      Inr (if dns_labels s \<noteq> [] \<and> last (dns_labels s) = [] then None
       else if dns_name s then Some (rev (dns_labels s)) else None)"
    by (simp add: domainToReverseLabels_def reverse_labels_loop_eq hd_rev dns_name_def list_all_iff)
  moreover have "dns_labels s \<noteq> [] \<and> last (dns_labels s) = [] \<Longrightarrow> \<not> dns_name s"
    by (auto simp: dns_name_def dns_label_def list_all_iff dest: last_in_set)
  ultimately show ?thesis by auto
qed

lemma domainNameValid_iff: "domainNameValid s = Inr (dns_name s)"
proof -
  have "utf8_ValidString s" if "dns_name s"
  proof -
    have "byte_of c < 0x80" if c: "c \<in> set s" for c
    proof (cases "c = CHR ''.''")
      case True
      then show ?thesis by (simp add: byte_of_def)
    next
      case False
      have "\<exists>l\<in>set (split_dots t). c \<in> set l" if "c \<in> set t" for t
        using that False
      proof (induction t)
        case (Cons d t)
        have "set (split_dots t) = insert (hd (split_dots t)) (set (tl (split_dots t)))"
          using list.set(2) [of "hd (split_dots t)" "tl (split_dots t)"] by simp
        then show ?case using Cons by auto
      qed simp
      moreover have "s \<noteq> []" using c by auto
      ultimately obtain l where "l \<in> set (dns_labels s)" "c \<in> set l" using c by (auto simp: dns_labels_def)
      then show ?thesis using \<open>dns_name s\<close> by (force simp: dns_name_def dns_label_def list_all_iff)
    qed
    then show ?thesis by (intro utf8_ascii) (simp add: list_all_iff)
  qed
  then show ?thesis by (auto simp: domainNameValid_def domainToReverseLabels_eq)
qed

lemma prefix_nth_iff: "prefix xs ys \<longleftrightarrow> length xs \<le> length ys \<and> (\<forall>i<length xs. xs ! i = ys ! i)"
proof
  assume "length xs \<le> length ys \<and> (\<forall>i<length xs. xs ! i = ys ! i)"
  then have "xs = take (length xs) ys" by (intro nth_equalityI) auto
  then show "prefix xs ys" by (metis take_is_prefix)
qed (auto simp: prefix_def nth_append)

lemma match_labels_loop_eq:
  "k + length cs \<le> length ds \<Longrightarrow>
   match_labels_loop (int k) cs ds = Inr (\<forall>i<length cs. EqualFold (cs ! i) (ds ! (k + i)))"
proof (induction cs arbitrary: k)
  case (Cons c cs)
  have "(\<forall>i<length (c # cs). EqualFold ((c # cs) ! i) (ds ! (k + i))) \<longleftrightarrow>
      EqualFold c (ds ! k) \<and> (\<forall>i<length cs. EqualFold (cs ! i) (ds ! (Suc k + i)))"
    by (auto simp: less_Suc_eq_0_disj)
  moreover have "match_labels_loop (int k + 1) cs ds = match_labels_loop (int (Suc k)) cs ds" by (simp add: add.commute)
  ultimately show ?case using Cons.IH [of "Suc k"] Cons.prems by (simp del: of_nat_Suc)
qed simp

lemma matchDomainConstraint_cases:
  "matchDomainConstraint d c =
    (if c = [] then Inr True
     else if \<not> dns_name d then Inl errBadDomain
     else if hd c = CHR ''.''
     then if \<not> dns_name (tl c) then Inl errBadDomain else Inr (strict_suffix (lower_labels (tl c)) (lower_labels d))
     else if \<not> dns_name c then Inl errBadDomain else Inr (suffix (lower_labels c) (lower_labels d)))"
proof -
  have eq: "suffix (lower_labels e) (lower_labels d) \<longleftrightarrow> length (dns_labels e) \<le> length (dns_labels d) \<and>
      (\<forall>i<length (dns_labels e). EqualFold (rev (dns_labels e) ! i) (rev (dns_labels d) ! i))" for e
    unfolding suffix_to_prefix prefix_nth_iff
    by (auto simp: lower_labels_def EqualFold_def rev_map)
  have strict: "strict_suffix (lower_labels e) (lower_labels d) \<longleftrightarrow>
      suffix (lower_labels e) (lower_labels d) \<and> length (dns_labels e) \<noteq> length (dns_labels d)" for e
  proof -
    have "length (lower_labels t) = length (dns_labels t)" for t by (simp add: lower_labels_def)
    then show ?thesis by (metis strict_suffix_def suffix_def append_Nil append_eq_append_conv)
  qed
  show ?thesis
    unfolding strict eq using match_labels_loop_eq [of 0]
    by (auto simp: matchDomainConstraint_def domainToReverseLabels_eq not_less)
qed

section \<open>The language of mailboxes\<close>

text \<open>The loops as equations on the characters of the input.\<close>

lemma mailbox_quoted_simps [simp]:
  "mailbox_quoted acc [] = Inr None"
  "mailbox_quoted acc (c # s) =
     (if c = CHR 0x22 then Inr (Some (acc, s))
      else if c = CHR 0x5C
      then (case s of [] \<Rightarrow> Inr None
            | d # s \<Rightarrow> if quoted_pair_char d then mailbox_quoted (acc @ [d]) s else Inr None)
      else if qtext c then mailbox_quoted (acc @ [c]) s else Inr None)"
  by (subst mailbox_quoted.simps; simp split: list.split)+

lemma mailbox_atoms_simps [simp]:
  "mailbox_atoms acc [] = Inr (Some (acc, []))"
  "mailbox_atoms acc (c # s) =
     (if c = CHR 0x5C then (case s of [] \<Rightarrow> Inr None | d # s \<Rightarrow> mailbox_atoms (acc @ [d]) s)
      else if atext c then mailbox_atoms (acc @ [c]) s
      else Inr (Some (acc, c # s)))"
  by (subst mailbox_atoms.simps; simp split: list.split)+

text \<open>A local part and how it is written, quoted and bare; a period first, last or twice in a row.\<close>

inductive quoted_text :: "string \<Rightarrow> string \<Rightarrow> bool" where
  quoted_Nil: "quoted_text [] []"
| quoted_char: "qtext c \<Longrightarrow> quoted_text l w \<Longrightarrow> quoted_text (c # l) (c # w)"
| quoted_pair: "quoted_pair_char d \<Longrightarrow> quoted_text l w \<Longrightarrow> quoted_text (d # l) (CHR 0x5C # d # w)"

inductive atom_text :: "string \<Rightarrow> string \<Rightarrow> bool" where
  atom_Nil: "atom_text [] []"
| atom_char: "atext c \<Longrightarrow> atom_text l w \<Longrightarrow> atom_text (c # l) (c # w)"
| atom_escape: "atom_text l w \<Longrightarrow> atom_text (d # l) (CHR 0x5C # d # w)"

definition bad_dots :: "string \<Rightarrow> bool" where
  "bad_dots s \<longleftrightarrow> hd s = CHR ''.'' \<or> last s = CHR ''.'' \<or> two_dots s"

definition is_mailbox :: "string \<Rightarrow> string \<Rightarrow> string \<Rightarrow> bool" where
  "is_mailbox s l d \<longleftrightarrow> dns_name d \<and>
     ((\<exists>w. s = CHR 0x22 # w @ CHR 0x22 # CHR ''@'' # d \<and> quoted_text l w) \<or>
      (\<exists>w. s = w @ CHR ''@'' # d \<and> atom_text l w \<and> l \<noteq> [] \<and> \<not> bad_dots l))"

lemma qtext_neq: "qtext c \<Longrightarrow> c \<noteq> CHR 0x22 \<and> c \<noteq> CHR 0x5C"
  by (auto simp: qtext_def byte_of_def)

lemma atext_neq: "atext c \<Longrightarrow> c \<noteq> CHR 0x22 \<and> c \<noteq> CHR 0x5C \<and> c \<noteq> CHR ''@''"
  by (auto simp: atext_def byte_of_def)

lemma mailbox_quoted_total: "\<exists>r. mailbox_quoted acc s = Inr r"
proof (induction "length s" arbitrary: acc s rule: less_induct)
  case less
  show ?case
  proof (cases s)
    case (Cons c t)
    then show ?thesis using less.hyps [of t] less.hyps [of "tl t"] by (cases t) auto
  qed simp
qed

lemma mailbox_atoms_total: "\<exists>r. mailbox_atoms acc s = Inr r"
proof (induction "length s" arbitrary: acc s rule: less_induct)
  case less
  show ?case
  proof (cases s)
    case (Cons c t)
    then show ?thesis using less.hyps [of t] less.hyps [of "tl t"] by (cases t) auto
  qed simp
qed

lemma mailbox_quoted_written: "quoted_text l w \<Longrightarrow> mailbox_quoted acc (w @ CHR 0x22 # r) = Inr (Some (acc @ l, r))"
  by (induction arbitrary: acc rule: quoted_text.induct) (auto dest: qtext_neq)

lemma mailbox_atoms_written:
  "atom_text l w \<Longrightarrow> mailbox_atoms acc (w @ CHR ''@'' # r) = Inr (Some (acc @ l, CHR ''@'' # r))"
  by (induction arbitrary: acc rule: atom_text.induct) (auto dest: atext_neq)

lemma mailbox_quoted_read:
  "mailbox_quoted acc s = Inr (Some (p, r)) \<Longrightarrow> \<exists>l w. p = acc @ l \<and> s = w @ CHR 0x22 # r \<and> quoted_text l w"
proof (induction "length s" arbitrary: acc s rule: less_induct)
  case less
  show ?case
  proof (cases s)
    case (Cons c t)
    consider "c = CHR 0x22" | d u where "c = CHR 0x5C" "t = d # u" "quoted_pair_char d" | "c \<noteq> CHR 0x22" "qtext c"
      using less.prems Cons by (auto split: if_splits list.splits)
    then show ?thesis
    proof cases
      case 1
      then show ?thesis using less.prems Cons by (auto intro: quoted_Nil)
    next
      case 2
      then obtain l w where "p = (acc @ [d]) @ l" "u = w @ CHR 0x22 # r" "quoted_text l w"
        using less.hyps [of u "acc @ [d]"] less.prems Cons by auto
      then show ?thesis using 2 Cons quoted_pair [of d l w]
        by (intro exI [of _ "d # l"] exI [of _ "CHR 0x5C # d # w"]) simp
    next
      case 3
      then obtain l w where "p = (acc @ [c]) @ l" "t = w @ CHR 0x22 # r" "quoted_text l w"
        using less.hyps [of t "acc @ [c]"] less.prems Cons qtext_neq [of c] by auto
      then show ?thesis using 3 Cons quoted_char [of c l w]
        by (intro exI [of _ "c # l"] exI [of _ "c # w"]) simp
    qed
  qed (use less.prems in simp)
qed

lemma mailbox_atoms_read:
  "mailbox_atoms acc s = Inr (Some (p, r)) \<Longrightarrow> \<exists>l w. p = acc @ l \<and> s = w @ r \<and> atom_text l w"
proof (induction "length s" arbitrary: acc s rule: less_induct)
  case less
  show ?case
  proof (cases s)
    case Nil
    then show ?thesis using less.prems atom_Nil by auto
  next
    case (Cons c t)
    consider "c \<noteq> CHR 0x5C" "\<not> atext c" | d u where "c = CHR 0x5C" "t = d # u" | "c \<noteq> CHR 0x5C" "atext c"
      using less.prems Cons by (auto split: if_splits list.splits)
    then show ?thesis
    proof cases
      case 1
      then show ?thesis using less.prems Cons by (auto intro: atom_Nil)
    next
      case 2
      then obtain l w where "p = (acc @ [d]) @ l" "u = w @ r" "atom_text l w"
        using less.hyps [of u "acc @ [d]"] less.prems Cons by auto
      then show ?thesis using 2 Cons atom_escape [of l w d]
        by (intro exI [of _ "d # l"] exI [of _ "CHR 0x5C # d # w"]) simp
    next
      case 3
      then obtain l w where "p = (acc @ [c]) @ l" "t = w @ r" "atom_text l w"
        using less.hyps [of t "acc @ [c]"] less.prems Cons by auto
      then show ?thesis using 3 Cons atom_char [of c l w]
        by (intro exI [of _ "c # l"] exI [of _ "c # w"]) simp
    qed
  qed
qed

lemma local_dots_eq: "l \<noteq> [] \<Longrightarrow> local_dots l = Inr (bad_dots l)"
  by (simp add: local_dots_def bad_dots_def)

text \<open>Reading the local part.\<close>

lemma mailbox_local_eq:
  "mailbox_local (c # t) =
    (if c = CHR 0x22 then mailbox_quoted [] t
     else bind_res (mailbox_atoms [] (c # t)) (\<lambda>r. Inr (case r of
       None \<Rightarrow> None | Some (l, r) \<Rightarrow> if l = [] \<or> bad_dots l then None else Some (l, r))))"
proof -
  obtain a where "mailbox_atoms [] (c # t) = Inr a" using mailbox_atoms_total by blast
  then show ?thesis
    by (cases a) (auto simp: mailbox_local_def local_dots_eq simp del: mailbox_atoms_simps)
qed

lemma mailbox_local_total: "s \<noteq> [] \<Longrightarrow> \<exists>r. mailbox_local s = Inr r"
  using mailbox_quoted_total [of "[]" "tl s"] mailbox_atoms_total [of "[]" s]
  by (cases s) (auto simp: mailbox_local_eq simp del: mailbox_atoms_simps)

lemma atom_text_start: "atom_text l w \<Longrightarrow> l \<noteq> [] \<Longrightarrow> \<exists>c v. w = c # v \<and> c \<noteq> CHR 0x22"
  by (erule atom_text.cases) (auto dest: atext_neq)

lemma mailbox_local_iff:
  assumes nonempty: "s \<noteq> []"
  shows "mailbox_local s = Inr (Some (l, CHR ''@'' # d)) \<longleftrightarrow>
    (\<exists>w. s = CHR 0x22 # w @ CHR 0x22 # CHR ''@'' # d \<and> quoted_text l w) \<or>
    (\<exists>w. s = w @ CHR ''@'' # d \<and> atom_text l w \<and> l \<noteq> [] \<and> \<not> bad_dots l)"
proof
  assume p: "mailbox_local s = Inr (Some (l, CHR ''@'' # d))"
  obtain c t where s: "s = c # t" using nonempty by (cases s) auto
  show "(\<exists>w. s = CHR 0x22 # w @ CHR 0x22 # CHR ''@'' # d \<and> quoted_text l w) \<or>
    (\<exists>w. s = w @ CHR ''@'' # d \<and> atom_text l w \<and> l \<noteq> [] \<and> \<not> bad_dots l)"
  proof (cases "c = CHR 0x22")
    case True
    then show ?thesis using p mailbox_quoted_read [of "[]" t l] by (auto simp: s mailbox_local_eq)
  next
    case False
    obtain a where a: "mailbox_atoms [] s = Inr a" using mailbox_atoms_total by blast
    then have "a = Some (l, CHR ''@'' # d)" "l \<noteq> []" "\<not> bad_dots l"
      using p False by (auto simp: s mailbox_local_eq simp del: mailbox_atoms_simps split: option.splits if_splits)
    then show ?thesis using mailbox_atoms_read [of "[]" s l] a by auto
  qed
next
  assume "(\<exists>w. s = CHR 0x22 # w @ CHR 0x22 # CHR ''@'' # d \<and> quoted_text l w) \<or>
    (\<exists>w. s = w @ CHR ''@'' # d \<and> atom_text l w \<and> l \<noteq> [] \<and> \<not> bad_dots l)"
  then show "mailbox_local s = Inr (Some (l, CHR ''@'' # d))"
  proof (elim disjE exE conjE)
    fix w assume "s = CHR 0x22 # w @ CHR 0x22 # CHR ''@'' # d" "quoted_text l w"
    then show ?thesis using mailbox_quoted_written [of l w "[]" "CHR ''@'' # d"] by (simp add: mailbox_local_eq)
  next
    fix w assume w: "s = w @ CHR ''@'' # d" "atom_text l w" "l \<noteq> []" "\<not> bad_dots l"
    then obtain c v where "w = c # v" "c \<noteq> CHR 0x22" using atom_text_start by blast
    then show ?thesis using mailbox_atoms_written [OF w(2), of "[]" d] w
      by (simp add: mailbox_local_eq del: mailbox_atoms_simps)
  qed
qed

text \<open>The parser decides the language and never panics.\<close>

lemma parseRFC2821Mailbox_eq:
  "parseRFC2821Mailbox s =
    (if s = [] then Inr None
     else bind_res (mailbox_local s) (\<lambda>r. Inr (case r of
       Some (l, c # d) \<Rightarrow> if c = CHR ''@'' \<and> dns_name d then Some \<lparr>mb_local = l, mb_domain = d\<rparr> else None
     | _ \<Rightarrow> None)))"
  unfolding parseRFC2821Mailbox_def
  by (intro if_cong refl arg_cong2 [where f = bind_res] ext)
    (auto simp: domainToReverseLabels_eq split: option.split list.split)

lemma parseRFC2821Mailbox_total: "\<exists>r. parseRFC2821Mailbox s = Inr r"
  using mailbox_local_total [of s] by (auto simp: parseRFC2821Mailbox_eq)

lemma parseRFC2821Mailbox_iff: "parseRFC2821Mailbox s = Inr (Some m) \<longleftrightarrow> is_mailbox s (mb_local m) (mb_domain m)"
proof (cases "s = []")
  case True
  then show ?thesis by (simp add: parseRFC2821Mailbox_eq is_mailbox_def)
next
  case False
  obtain q where q: "mailbox_local s = Inr q" using mailbox_local_total [OF False] by blast
  have "parseRFC2821Mailbox s = Inr (Some m) \<longleftrightarrow>
      mailbox_local s = Inr (Some (mb_local m, CHR ''@'' # mb_domain m)) \<and> dns_name (mb_domain m)"
    using False by (cases m) (auto simp: parseRFC2821Mailbox_eq q split: option.splits list.splits if_splits)
  then show ?thesis using False by (auto simp: mailbox_local_iff is_mailbox_def)
qed

section \<open>Printing a mailbox\<close>

definition quote_local :: "string \<Rightarrow> string" where
  "quote_local l = CHR 0x22 # concat (map (\<lambda>c. if qtext c then [c] else [CHR 0x5C, c]) l) @ [CHR 0x22]"

lemma quoted_text_print:
  "list_all (\<lambda>c. qtext c \<or> quoted_pair_char c) l \<Longrightarrow>
   quoted_text l (concat (map (\<lambda>c. if qtext c then [c] else [CHR 0x5C, c]) l))"
  by (induction l) (auto intro: quoted_text.intros)

lemma atom_text_print: "list_all atext l \<Longrightarrow> atom_text l l"
  by (induction l) (auto intro: atom_text.intros)

lemma parseRFC2821Mailbox_quoted:
  assumes "list_all (\<lambda>c. qtext c \<or> quoted_pair_char c) l" "dns_name d"
  shows "parseRFC2821Mailbox (quote_local l @ CHR ''@'' # d) = Inr (Some \<lparr>mb_local = l, mb_domain = d\<rparr>)"
  using quoted_text_print [OF assms(1)] assms(2) by (auto simp: parseRFC2821Mailbox_iff is_mailbox_def quote_local_def)

lemma parseRFC2821Mailbox_atoms:
  assumes "list_all atext l" "l \<noteq> []" "\<not> bad_dots l" "dns_name d"
  shows "parseRFC2821Mailbox (l @ CHR ''@'' # d) = Inr (Some \<lparr>mb_local = l, mb_domain = d\<rparr>)"
  using atom_text_print [OF assms(1)] assms(2-4) by (auto simp: parseRFC2821Mailbox_iff is_mailbox_def)


section \<open>Declarative reading of the constraints\<close>

text \<open>
  What each kind of constraint says of a name, without the code: \<open>Some True\<close> for a match, \<open>Some False\<close>
  for a mismatch, \<open>None\<close> where it cannot be decided (a name or constraint that is not well-formed).
\<close>

definition domain_verdict :: "string \<Rightarrow> string \<Rightarrow> bool option" where
  "domain_verdict d c =
     (if c = [] then Some True
      else let dot = (hd c = CHR ''.''); e = (if dot then tl c else c)
      in if dns_name d \<and> dns_name e
         then Some (if dot then strict_suffix (lower_labels e) (lower_labels d) else suffix (lower_labels e) (lower_labels d))
         else None)"

definition email_verdict :: "string \<Rightarrow> string \<Rightarrow> string \<Rightarrow> bool option" where
  "email_verdict l d c =
     (if CHR ''@'' \<in> set c
      then if \<exists>l' d'. is_mailbox c l' d'
           then Some (\<exists>d'. is_mailbox c l d' \<and> map to_lower d' = map to_lower d) else None
      else domain_verdict d c)"

definition uri_host :: "url \<Rightarrow> string option" where
  "uri_host u =
     (let host = url_Host u;
          h = (if host = [] then None
               else if CHR '':'' \<in> set host \<and> last host \<noteq> CHR '']'' then map_option fst (SplitHostPort host) else Some host)
      in case h of None \<Rightarrow> None
         | Some h \<Rightarrow> if (\<exists>x. h = CHR ''['' # x @ '']'') \<or> ParseIP_ok h then None else Some h)"

definition uri_verdict :: "url \<Rightarrow> string \<Rightarrow> bool option" where
  "uri_verdict u c = Option.bind (uri_host u) (\<lambda>h. domain_verdict h c)"

definition ip_verdict :: "bytes \<Rightarrow> ip_net \<Rightarrow> bool option" where
  "ip_verdict ip net =
     (if length ip \<noteq> length (net_Mask net) then Some False
      else if \<exists>i<min (length ip) (length (net_IP net)). ip ! i AND net_Mask net ! i \<noteq> net_IP net ! i AND net_Mask net ! i
      then Some False
      else if length ip \<le> length (net_IP net) then Some True else None)"

text \<open>
  A name passes: every excluded constraint is a mismatch, and where there are permitted ones, one
  is a match and those before it are mismatches.
\<close>

definition name_passes :: "('c \<Rightarrow> bool option) \<Rightarrow> 'c list \<Rightarrow> 'c list \<Rightarrow> bool" where
  "name_passes v permitted excluded \<longleftrightarrow> (\<forall>c\<in>set excluded. v c = Some False) \<and>
     (permitted = [] \<or> (\<exists>p c q. permitted = p @ c # q \<and> v c = Some True \<and> (\<forall>x\<in>set p. v x = Some False)))"

definition verdict :: "bool res \<Rightarrow> bool option" where
  "verdict r = (case r of Inl e \<Rightarrow> None | Inr b \<Rightarrow> Some b)"

lemma verdict_simps [simp]: "verdict (Inl e) = None" "verdict (Inr b) = Some b"
  by (simp_all add: verdict_def)

lemma check_excluded_Inr: "check_excluded match n cs = Inr () \<longleftrightarrow> (\<forall>c\<in>set cs. verdict (match n c) = Some False)"
proof (induction cs)
  case (Cons c cs)
  then show ?case by (cases "match n c") auto
qed simp

lemma check_permitted_Inr:
  "check_permitted match n cs = Inr () \<longleftrightarrow>
   (\<exists>p c q. cs = p @ c # q \<and> verdict (match n c) = Some True \<and> (\<forall>x\<in>set p. verdict (match n x) = Some False))"
proof (induction cs)
  case (Cons c cs)
  have "(\<exists>p d q. c # cs = p @ d # q \<and> verdict (match n d) = Some True \<and> (\<forall>x\<in>set p. verdict (match n x) = Some False)) \<longleftrightarrow>
      verdict (match n c) = Some True \<or> verdict (match n c) = Some False \<and>
      (\<exists>p d q. cs = p @ d # q \<and> verdict (match n d) = Some True \<and> (\<forall>x\<in>set p. verdict (match n x) = Some False))"
    (is "?L \<longleftrightarrow> ?R")
  proof
    assume ?L
    then obtain p d q where p: "c # cs = p @ d # q" "verdict (match n d) = Some True" "\<forall>x\<in>set p. verdict (match n x) = Some False"
      by blast
    then show ?R by (cases p) auto
  next
    assume ?R
    then show ?L
    proof (elim disjE exE conjE)
      assume "verdict (match n c) = Some True"
      then show ?L by (intro exI [of _ "[]"] exI [of _ c] exI [of _ cs]) simp
    next
      fix p d q
      assume "verdict (match n c) = Some False" "cs = p @ d # q" "verdict (match n d) = Some True"
        "\<forall>x\<in>set p. verdict (match n x) = Some False"
      then show ?L by (intro exI [of _ "c # p"] exI [of _ d] exI [of _ q]) simp
    qed
  qed
  then show ?case using Cons by (cases "match n c") auto
qed simp

lemma bind_unit_Inr: "bind_res (r :: unit res) k = Inr w \<longleftrightarrow> r = Inr () \<and> k () = Inr w"
  by (cases r) auto

lemma checkNameConstraints_Inr:
  "checkNameConstraints n permitted excluded match = Inr () \<longleftrightarrow>
   name_passes (\<lambda>c. verdict (match n c)) permitted excluded"
  by (auto simp: checkNameConstraints_def name_passes_def bind_unit_Inr check_excluded_Inr check_permitted_Inr)

text \<open>The matchers of the package give these verdicts.\<close>

lemma verdict_domain: "verdict (matchDomainConstraint d c) = domain_verdict d c"
  by (simp add: matchDomainConstraint_cases domain_verdict_def Let_def)

lemma is_mailbox_unique: "is_mailbox s l d \<Longrightarrow> is_mailbox s l' d' \<Longrightarrow> l' = l \<and> d' = d"
  using parseRFC2821Mailbox_iff [of s "\<lparr>mb_local = l, mb_domain = d\<rparr>"] parseRFC2821Mailbox_iff [of s "\<lparr>mb_local = l', mb_domain = d'\<rparr>"]
  by simp

lemma verdict_email: "verdict (matchEmailConstraint m c) = email_verdict (mb_local m) (mb_domain m) c"
proof (cases "CHR ''@'' \<in> set c")
  case True
  obtain r where r: "parseRFC2821Mailbox c = Inr r" using parseRFC2821Mailbox_total by blast
  show ?thesis
  proof (cases r)
    case None
    then have "\<not> is_mailbox c l d" for l d
      using r parseRFC2821Mailbox_iff [of c "\<lparr>mb_local = l, mb_domain = d\<rparr>"] by simp
    then show ?thesis using True r None by (simp add: matchEmailConstraint_def email_verdict_def)
  next
    case (Some k)
    then have "is_mailbox c (mb_local k) (mb_domain k)" using r by (simp add: parseRFC2821Mailbox_iff)
    moreover from this have "is_mailbox c l d \<longleftrightarrow> l = mb_local k \<and> d = mb_domain k" for l d
      using is_mailbox_unique [of c "mb_local k" "mb_domain k" l d] by auto
    ultimately show ?thesis using True r Some
      by (auto simp: matchEmailConstraint_def email_verdict_def EqualFold_def)
  qed
qed (simp add: matchEmailConstraint_def email_verdict_def verdict_domain)

lemma HasSuffix_last: "s \<noteq> [] \<Longrightarrow> HasSuffix s [c] \<longleftrightarrow> last s = c"
  by (cases s rule: rev_cases) (simp_all add: HasSuffix_def)

lemma HasPrefix_HasSuffix: "c \<noteq> d \<Longrightarrow> HasPrefix s [c] \<and> HasSuffix s [d] \<longleftrightarrow> (\<exists>x. s = c # x @ [d])"
proof (cases s)
  case (Cons a t)
  assume "c \<noteq> d"
  then show ?thesis using Cons
    by (cases t rule: rev_cases) (auto simp: HasPrefix_def HasSuffix_def)
qed (simp add: HasPrefix_def)

lemma verdict_uri: "verdict (matchURIConstraint u c) = uri_verdict u c"
proof -
  let ?h = "url_Host u"
  have ip: "HasPrefix h ''['' \<and> HasSuffix h '']'' \<longleftrightarrow> (\<exists>x. h = CHR ''['' # x @ '']'')" for h
    by (rule HasPrefix_HasSuffix) simp
  show ?thesis
    by (auto simp: matchURIConstraint_def uri_verdict_def uri_host_def Let_def ip HasSuffix_last verdict_domain
        split: option.split)
qed

lemma match_ip_loop_step:
  "k < length ip \<Longrightarrow> length ip = length (net_Mask net) \<Longrightarrow> match_ip_loop ip net [k..<length ip] =
    (if length (net_IP net) \<le> k then Inl (Panic ''runtime error: index out of range'')
     else if ip ! k AND net_Mask net ! k \<noteq> net_IP net ! k AND net_Mask net ! k then Inr False
     else match_ip_loop ip net [Suc k..<length ip])"
  by (simp add: upt_conv_Cons go_index_def)

lemma match_ip_loop_verdict:
  "length ip = length (net_Mask net) \<Longrightarrow> k \<le> length ip \<Longrightarrow> verdict (match_ip_loop ip net [k..<length ip]) =
    (if \<exists>i<min (length ip) (length (net_IP net)). k \<le> i \<and> ip ! i AND net_Mask net ! i \<noteq> net_IP net ! i AND net_Mask net ! i
     then Some False else if length ip \<le> max k (length (net_IP net)) then Some True else None)"
proof (induction "length ip - k" arbitrary: k)
  case 0
  then have "k = length ip" by simp
  then show ?case by auto
next
  case (Suc n)
  then have k: "k < length ip" by simp
  define B where "B i \<longleftrightarrow> ip ! i AND net_Mask net ! i \<noteq> net_IP net ! i AND net_Mask net ! i" for i
  define E where "E \<longleftrightarrow> (\<exists>i<min (length ip) (length (net_IP net)). Suc k \<le> i \<and> B i)"
  have IH: "verdict (match_ip_loop ip net [Suc k..<length ip]) =
      (if E then Some False
       else if length ip \<le> max (Suc k) (length (net_IP net)) then Some True else None)"
    unfolding B_def E_def using Suc k by (intro Suc.hyps(1)) simp_all
  have ex: "(\<exists>i<min (length ip) (length (net_IP net)). k \<le> i \<and> B i) \<longleftrightarrow>
      k < length (net_IP net) \<and> B k \<or> E"
    using k unfolding E_def Suc_le_eq by (auto simp: le_less [of k])
  show ?case
    unfolding match_ip_loop_step [OF k Suc.prems(1)] B_def [symmetric] ex
  proof (cases "k < length (net_IP net)")
    case True
    then show "verdict (if length (net_IP net) \<le> k then Inl (Panic ''runtime error: index out of range'')
        else if B k then Inr False else match_ip_loop ip net [Suc k..<length ip]) =
      (if k < length (net_IP net) \<and> B k \<or> E then Some False
       else if length ip \<le> max k (length (net_IP net)) then Some True else None)"
      using IH k by (cases "B k") (simp_all add: max_def)
  next
    case False
    then show "verdict (if length (net_IP net) \<le> k then Inl (Panic ''runtime error: index out of range'')
        else if B k then Inr False else match_ip_loop ip net [Suc k..<length ip]) =
      (if k < length (net_IP net) \<and> B k \<or> E then Some False
       else if length ip \<le> max k (length (net_IP net)) then Some True else None)"
      using k by (auto simp: E_def)
  qed
qed

lemma verdict_ip: "verdict (matchIPConstraint ip net) = ip_verdict ip net"
proof (cases "length ip = length (net_Mask net)")
  case True
  then show ?thesis using match_ip_loop_verdict [OF True, of 0]
    by (simp only: matchIPConstraint_def ip_verdict_def le0 max_0L simp_thms if_False if_True not_True_eq_False)
qed (simp add: matchIPConstraint_def ip_verdict_def)

lemma for_each_Inr: "for_each xs f = Inr () \<longleftrightarrow> (\<forall>x\<in>set xs. f x = Inr ())"
  by (induction xs) (auto simp: bind_unit_Inr)

text \<open>Whether a certificate carries constraints, and whether it lets the names of another through.\<close>

definition constrained :: "x509_cert \<Rightarrow> bool" where
  "constrained ca \<longleftrightarrow> xc_PermittedDNSDomainsCritical ca \<or>
     xc_PermittedDNSDomains ca \<noteq> [] \<or> xc_ExcludedDNSDomains ca \<noteq> [] \<or>
     xc_PermittedIPRanges ca \<noteq> [] \<or> xc_ExcludedIPRanges ca \<noteq> [] \<or>
     xc_PermittedEmailAddresses ca \<noteq> [] \<or> xc_ExcludedEmailAddresses ca \<noteq> [] \<or>
     xc_PermittedURIDomains ca \<noteq> [] \<or> xc_ExcludedURIDomains ca \<noteq> []"

definition names_allowed :: "x509_cert \<Rightarrow> x509_cert \<Rightarrow> bool" where
  "names_allowed ca leaf \<longleftrightarrow>
     (\<forall>n\<in>set (xc_DNSNames leaf). dns_name n \<and>
        name_passes (domain_verdict n) (xc_PermittedDNSDomains ca) (xc_ExcludedDNSDomains ca)) \<and>
     (\<forall>ip\<in>set (xc_IPAddresses leaf).
        name_passes (ip_verdict ip) (xc_PermittedIPRanges ca) (xc_ExcludedIPRanges ca)) \<and>
     (\<forall>e\<in>set (xc_EmailAddresses leaf). \<exists>l d. is_mailbox e l d \<and>
        name_passes (email_verdict l d) (xc_PermittedEmailAddresses ca) (xc_ExcludedEmailAddresses ca)) \<and>
     (\<forall>u\<in>set (xc_URIs leaf).
        name_passes (uri_verdict u) (xc_PermittedURIDomains ca) (xc_ExcludedURIDomains ca))"

lemma applyNameConstraints_Inr:
  "applyNameConstraints ca leaf = Inr () \<longleftrightarrow> (constrained ca \<longrightarrow> names_allowed ca leaf)"
proof -
  have email: "bind_res (parseRFC2821Mailbox m) (\<lambda>parsed. case parsed of None \<Rightarrow> Inl errNameConstraintViolation
      | Some mailbox \<Rightarrow> checkNameConstraints mailbox p e matchEmailConstraint) = Inr () \<longleftrightarrow>
      (\<exists>l d. is_mailbox m l d \<and> name_passes (email_verdict l d) p e)" for m p e
  proof -
    obtain r where r: "parseRFC2821Mailbox m = Inr r" using parseRFC2821Mailbox_total by blast
    have "is_mailbox m l d \<longleftrightarrow> r = Some \<lparr>mb_local = l, mb_domain = d\<rparr>" for l d
      using r parseRFC2821Mailbox_iff [of m "\<lparr>mb_local = l, mb_domain = d\<rparr>"] by simp
    then show ?thesis
      by (cases r; cases "the r") (auto simp: r checkNameConstraints_Inr verdict_email)
  qed
  show ?thesis
    by (simp add: applyNameConstraints_def constrained_def names_allowed_def bind_unit_Inr for_each_Inr
        domainNameValid_iff email checkNameConstraints_Inr verdict_domain verdict_ip verdict_uri cong: conj_cong)
qed

section \<open>Panics of the matchers\<close>

text \<open>
  The driver relies on its matchers not to panic on the constraints it is given; each matcher of the
  package keeps this, the one for addresses on networks whose mask is no longer than their address.
\<close>

locale name_matcher =
  fixes match :: "'n \<Rightarrow> 'c \<Rightarrow> bool res" and ok :: "'c \<Rightarrow> bool"
  assumes match_no_panic: "ok c \<Longrightarrow> no_panic (match n c)"
begin

lemma check_excluded_no_panic: "list_all ok cs \<Longrightarrow> no_panic (check_excluded match n cs)"
  by (induction cs) (auto simp: errNameConstraintViolation_def intro: no_panic_bind match_no_panic)

lemma check_permitted_no_panic: "list_all ok cs \<Longrightarrow> no_panic (check_permitted match n cs)"
  by (induction cs) (auto simp: errNameConstraintViolation_def intro: no_panic_bind match_no_panic)

lemma checkNameConstraints_no_panic:
  "list_all ok permitted \<Longrightarrow> list_all ok excluded \<Longrightarrow> no_panic (checkNameConstraints n permitted excluded match)"
  unfolding checkNameConstraints_def
  by (auto intro!: no_panic_bind check_excluded_no_panic check_permitted_no_panic)

end

lemma matchDomainConstraint_no_panic [simp]: "no_panic (matchDomainConstraint d c)"
  by (simp add: matchDomainConstraint_cases errBadDomain_def)

definition net_ok :: "ip_net \<Rightarrow> bool" where
  "net_ok net \<longleftrightarrow> length (net_Mask net) \<le> length (net_IP net)"

lemma parseRFC2821Mailbox_no_panic: "no_panic (parseRFC2821Mailbox s)"
  using parseRFC2821Mailbox_total [of s] by auto

text \<open>On a network whose mask is no longer than its address every index of the loop is in range.\<close>

lemma match_ip_loop_no_panic:
  "net_ok net \<Longrightarrow> length ip = length (net_Mask net) \<Longrightarrow> list_all (\<lambda>i. i < length ip) is \<Longrightarrow> no_panic (match_ip_loop ip net is)"
  by (induction ip net "is" rule: match_ip_loop.induct) (auto simp: net_ok_def)

interpretation dns: name_matcher matchDomainConstraint "\<lambda>_. True"
  by unfold_locales simp

interpretation email: name_matcher matchEmailConstraint "\<lambda>_. True"
  by unfold_locales (auto simp: matchEmailConstraint_def errBadEmailConstraint_def parseRFC2821Mailbox_no_panic
      intro!: no_panic_bind split: option.split)

interpretation uri: name_matcher matchURIConstraint "\<lambda>_. True"
  by unfold_locales
    (auto simp: matchURIConstraint_def errURIEmptyHost_def errURIIPHost_def errSplitHostPort_def Let_def
      intro!: no_panic_bind split: option.split)

interpretation ip: name_matcher matchIPConstraint net_ok
  by unfold_locales (simp add: matchIPConstraint_def match_ip_loop_no_panic list_all_iff)

lemma for_each_no_panic: "(\<And>x. x \<in> set xs \<Longrightarrow> no_panic (f x)) \<Longrightarrow> no_panic (for_each xs f)"
  by (induction xs) (auto intro: no_panic_bind)

definition nets_ok :: "x509_cert \<Rightarrow> bool" where
  "nets_ok c \<longleftrightarrow> list_all net_ok (xc_PermittedIPRanges c) \<and> list_all net_ok (xc_ExcludedIPRanges c)"

lemma applyNameConstraints_no_panic: "nets_ok ca \<Longrightarrow> no_panic (applyNameConstraints ca leaf)"
  unfolding applyNameConstraints_def
  by (auto simp: nets_ok_def errNameConstraintViolation_def list_all_iff domainNameValid_iff parseRFC2821Mailbox_no_panic
      split: option.split
      intro!: no_panic_bind for_each_no_panic dns.checkNameConstraints_no_panic email.checkNameConstraints_no_panic
        uri.checkNameConstraints_no_panic ip.checkNameConstraints_no_panic)

section \<open>Properties\<close>

text \<open>
  C21. Matching a domain against a constraint is comparison of label lists, ignoring the case of ASCII
  letters: the constraint's labels are the last labels of the domain, strictly fewer when the
  constraint starts with a period. The empty constraint matches everything, and a domain or
  constraint that is not a name is an error.
\<close>

theorem matchDomainConstraint_suffix:
  "matchDomainConstraint d c =
    (if c = [] then Inr True
     else if \<not> dns_name d then Inl errBadDomain
     else if hd c = CHR ''.''
     then if \<not> dns_name (tl c) then Inl errBadDomain else Inr (strict_suffix (lower_labels (tl c)) (lower_labels d))
     else if \<not> dns_name c then Inl errBadDomain else Inr (suffix (lower_labels c) (lower_labels d)))"
  by (rule matchDomainConstraint_cases)

text \<open>
  C25. The mailbox parser reads back what is printed: a quoted local part of any characters the
  quoting admits, and a bare one of atoms, each before a valid domain.
\<close>

theorem parseRFC2821Mailbox_roundtrip:
  assumes "dns_name d" "list_all (\<lambda>c. qtext c \<or> quoted_pair_char c) l" "list_all atext a" "a \<noteq> []" "\<not> bad_dots a"
  shows "parseRFC2821Mailbox (quote_local l @ CHR ''@'' # d) = Inr (Some \<lparr>mb_local = l, mb_domain = d\<rparr>) \<and>
    parseRFC2821Mailbox (a @ CHR ''@'' # d) = Inr (Some \<lparr>mb_local = a, mb_domain = d\<rparr>)"
  using parseRFC2821Mailbox_quoted parseRFC2821Mailbox_atoms assms by blast

theorem parseRFC2821Mailbox_roundtrip_witness:
  "parseRFC2821Mailbox ([CHR 0x22, CHR 0x5C, CHR 0x22] @ ''b'' @ CHR 0x22 # ''@example.com'') =
     Inr (Some \<lparr>mb_local = CHR 0x22 # ''b'', mb_domain = ''example.com''\<rparr>) \<and>
   parseRFC2821Mailbox ''a.b@example.com'' = Inr (Some \<lparr>mb_local = ''a.b'', mb_domain = ''example.com''\<rparr>)"
proof -
  have "dns_name ''example.com''" "list_all (\<lambda>c. qtext c \<or> quoted_pair_char c) (CHR 0x22 # ''b'')" "list_all atext ''a.b''"
    "\<not> bad_dots ''a.b''" "quote_local (CHR 0x22 # ''b'') = [CHR 0x22, CHR 0x5C, CHR 0x22] @ ''b'' @ [CHR 0x22]"
    by code_simp+
  then show ?thesis using parseRFC2821Mailbox_roundtrip [of "''example.com''" "CHR 0x22 # ''b''" "''a.b''"] by simp
qed

text \<open>
  C23. The name constraints of one certificate accept another exactly if it declares none, or every name
  of the other passes: its DNS names are domain names and its mailboxes are in the language of
  RFC 2821, and for each name of each kind every excluded constraint of that kind is a decided mismatch and,
  where there are permitted ones, one is a match and all before it are decided mismatches.
  So a constraint that cannot be decided for the name rejects it when it is excluded or stands
  before the first permitted match: an ill-formed domain or mailbox, a URI without a host name, a network
  shorter than its mask. What matches is defined apart from the code: label suffixes without case for
  domains and the hosts of URIs, equal local parts and domains without case for mailboxes, agreement under
  the mask for addresses.
\<close>

theorem applyNameConstraints_exact:
  "applyNameConstraints ca leaf = Inr () \<longleftrightarrow> (if constrained ca then names_allowed ca leaf else True)"
  using applyNameConstraints_Inr [of ca leaf] by simp

definition cert_unnamed :: x509_cert where
  "cert_unnamed = \<lparr>xc_Raw = [], xc_RawTBSCertificate = [], xc_RawSubject = [], xc_RawIssuer = [], xc_Signature = [],
     xc_NotBefore = 0, xc_NotAfter = 0, xc_BasicConstraintsValid = False, xc_IsCA = False, xc_MaxPathLen = 0,
     xc_KeyUsage = 0, xc_ExtKeyUsage = [], xc_UnknownExtKeyUsage = [], xc_UnhandledCriticalExtensions = [],
     xc_DNSNames = [], xc_IPAddresses = [], xc_EmailAddresses = [], xc_URIs = [], xc_PermittedDNSDomainsCritical = False,
     xc_PermittedDNSDomains = [], xc_ExcludedDNSDomains = [], xc_PermittedIPRanges = [], xc_ExcludedIPRanges = [],
     xc_PermittedEmailAddresses = [], xc_ExcludedEmailAddresses = [], xc_PermittedURIDomains = [], xc_ExcludedURIDomains = []\<rparr>"

definition ca_example :: x509_cert where
  "ca_example = cert_unnamed\<lparr>xc_PermittedDNSDomains := [''o'', ''e.c''], xc_ExcludedDNSDomains := [''.d.e.c''],
     xc_PermittedIPRanges := [\<lparr>net_IP = [10, 0, 0, 0], net_Mask = [255, 0, 0, 0]\<rparr>],
     xc_PermittedEmailAddresses := [''a.b@E.c''], xc_ExcludedURIDomains := [''e.o'']\<rparr>"

definition leaf_example :: x509_cert where
  "leaf_example = cert_unnamed\<lparr>xc_DNSNames := [''w.E.c'', ''d.e.c''], xc_IPAddresses := [[10, 1, 2, 3]],
     xc_EmailAddresses := [''a.b@e.C''], xc_URIs := [\<lparr>url_Host = ''w.e.c:80''\<rparr>]\<rparr>"

text \<open>
  One leaf that passes in all four kinds; and four that fail: an excluded subdomain, an address
  outside, another mailbox, and a URI on an address, which no constraint can decide.
\<close>

lemma applyNameConstraints_examples:
  "applyNameConstraints ca_example leaf_example = Inr ()"
  "applyNameConstraints ca_example (leaf_example\<lparr>xc_DNSNames := [''a.d.e.c'']\<rparr>) = Inl errNameConstraintViolation"
  "applyNameConstraints ca_example (leaf_example\<lparr>xc_IPAddresses := [[11, 1, 2, 3]]\<rparr>) = Inl errNameConstraintViolation"
  "applyNameConstraints ca_example (leaf_example\<lparr>xc_EmailAddresses := [''A.b@e.c'']\<rparr>) = Inl errNameConstraintViolation"
  "applyNameConstraints ca_example (leaf_example\<lparr>xc_URIs := [\<lparr>url_Host = ''1.0.0.1:80''\<rparr>]\<rparr>) = Inl errURIIPHost"
  by code_simp+

theorem applyNameConstraints_exact_witness:
  "names_allowed ca_example leaf_example \<and>
   \<not> names_allowed ca_example (leaf_example\<lparr>xc_DNSNames := [''a.d.e.c'']\<rparr>) \<and>
   \<not> names_allowed ca_example (leaf_example\<lparr>xc_IPAddresses := [[11, 1, 2, 3]]\<rparr>) \<and>
   \<not> names_allowed ca_example (leaf_example\<lparr>xc_EmailAddresses := [''A.b@e.c'']\<rparr>) \<and>
   \<not> names_allowed ca_example (leaf_example\<lparr>xc_URIs := [\<lparr>url_Host = ''1.0.0.1:80''\<rparr>]\<rparr>)"
proof -
  have "constrained ca_example" by (simp add: constrained_def ca_example_def cert_unnamed_def)
  then show ?thesis
    using applyNameConstraints_examples applyNameConstraints_exact [of ca_example leaf_example]
      applyNameConstraints_exact [of ca_example "leaf_example\<lparr>xc_DNSNames := [''a.d.e.c'']\<rparr>"]
      applyNameConstraints_exact [of ca_example "leaf_example\<lparr>xc_IPAddresses := [[11, 1, 2, 3]]\<rparr>"]
      applyNameConstraints_exact [of ca_example "leaf_example\<lparr>xc_EmailAddresses := [''A.b@e.c'']\<rparr>"]
      applyNameConstraints_exact [of ca_example "leaf_example\<lparr>xc_URIs := [\<lparr>url_Host = ''1.0.0.1:80''\<rparr>]\<rparr>"]
    by (simp add: errNameConstraintViolation_def errURIIPHost_def)
qed

end
