(* ===== verification/CT.thy ===== *)
theory CT
  imports Prelude
begin

unbundle bit_operations_syntax

text \<open>
  \<^verbatim>\<open>internal/ct/ct.go\<close>: the branch-free masks the constant-time paths combine with AND and OR.
  Every mask is all ones or all zeros; the lemmas say which, so that a client can replace a
  masked select by an \<open>if\<close>.
\<close>

definition ct_Mask :: "u64 \<Rightarrow> u64" where
  "ct_Mask sel = 0 - (sel AND 1)"

definition ct_Eq :: "u64 \<Rightarrow> u64 \<Rightarrow> u64" where
  "ct_Eq a b = (let d = a XOR b; nz = drop_bit 63 (d OR (0 - d)) in nz - 1)"

definition ct_ByteEq :: "byte \<Rightarrow> byte \<Rightarrow> u64" where
  "ct_ByteEq a b = ct_Eq (ucast a) (ucast b)"

definition ct_SelectByte :: "byte \<Rightarrow> byte \<Rightarrow> byte \<Rightarrow> byte" where
  "ct_SelectByte msk a b = (a AND msk) OR (b AND NOT msk)"

named_theorems mask_simps "masks evaluated to all ones or all zeros"

lemma ct_Mask_eq [mask_simps]: "ct_Mask sel = (if odd sel then NOT 0 else 0)"
  by (simp add: ct_Mask_def and_one_eq even_iff_mod_2_eq_zero odd_iff_mod_2_eq_one)

text \<open>
  The top bit of \<open>d OR - d\<close>: for a nonzero \<open>d\<close> one of \<open>d\<close> and \<open>-d\<close> is at least \<open>2 ^ 63\<close>.
\<close>

lemma bit_top_u64: "bit (d :: u64) 63 \<longleftrightarrow> 2 ^ 63 \<le> unat d"
proof -
  have "unat d < 2 ^ 64"
    using unsigned_less [of d, where ?'a = nat] by simp
  then have "unat d div 2 ^ 63 = (if 2 ^ 63 \<le> unat d then 1 else 0)"
    by (auto simp: div_nat_eqI)
  then have "odd (unat d div 2 ^ 63) \<longleftrightarrow> 2 ^ 63 \<le> unat d"
    by simp
  then show ?thesis
    using bit_unsigned_iff [of d 63, where ?'a = nat] by (simp add: bit_iff_odd possible_bit_def)
qed

lemma top_bit_or_neg:
  fixes d :: u64
  assumes "d \<noteq> 0"
  shows "bit (d OR - d) 63"
proof (cases "bit d 63")
  case False
  then have "unat d < 2 ^ 63"
    by (simp add: bit_top_u64)
  moreover have "(unat d + unat (- d)) mod 2 ^ 64 = 0"
    using unat_word_ariths(1) [of d "- d"] by simp
  then have "2 ^ 64 \<le> unat d + unat (- d)"
    using assms by (intro dvd_imp_le) (auto simp: mod_eq_0_iff_dvd unat_gt_0)
  ultimately have "bit (- d) 63"
    by (simp add: bit_top_u64)
  then show ?thesis by (simp add: bit_or_iff)
qed (simp add: bit_or_iff)

lemma drop_bit_top:
  assumes "bit x 63"
  shows "drop_bit 63 x = (1 :: u64)"
proof (rule bit_word_eqI)
  fix n assume "n < LENGTH(64)"
  show "bit (drop_bit 63 x) n = bit (1 :: u64) n"
  proof (cases "n = 0")
    case False
    then have "\<not> bit x (63 + n)"
      using bit_imp_le_length by fastforce
    with False show ?thesis
      by (simp add: bit_drop_bit_eq bit_1_iff)
  qed (use assms in \<open>simp add: bit_drop_bit_eq\<close>)
qed

lemma xor_eq_0_word_iff: "a XOR b = 0 \<longleftrightarrow> a = (b :: 'a::len word)"
  by (metis xor.assoc xor.right_neutral xor_self_eq xor.left_neutral)

lemma ucast_ucast_byte: "ucast (ucast (a :: byte) :: u64) = a"
  by (rule bit_word_eqI) (simp add: bit_simps)

lemma ct_Eq_eq [mask_simps]: "ct_Eq a b = (if a = b then NOT 0 else 0)"
proof (cases "a = b")
  case True
  then show ?thesis by (simp add: ct_Eq_def)
next
  case False
  then have ne: "a XOR b \<noteq> 0" by (simp add: xor_eq_0_word_iff)
  have "drop_bit 63 ((a XOR b) OR - (a XOR b)) = (1 :: u64)"
    by (rule drop_bit_top) (rule top_bit_or_neg [OF ne])
  with False show ?thesis by (simp add: ct_Eq_def)
qed

lemma ct_ByteEq_eq [mask_simps]: "ct_ByteEq a b = (if a = b then NOT 0 else 0)"
proof -
  have "(ucast a :: u64) = ucast b \<longleftrightarrow> a = b"
    by (metis ucast_ucast_byte)
  then show ?thesis by (simp add: ct_ByteEq_def ct_Eq_eq)
qed

text \<open>A select by a full mask is a conditional.\<close>

lemma and_mask_select [mask_simps]:
  "(a AND (if p then NOT 0 else 0)) OR (b AND NOT (if p then NOT 0 else 0)) =
   (if p then a else (b :: 'a::len word))"
  by simp

lemma ct_SelectByte_eq: "ct_SelectByte (if p then NOT 0 else 0) a b = (if p then a else b)"
  by (simp add: ct_SelectByte_def)

end
