(* ===== verification/BigInt.thy ===== *)
theory BigInt
  imports Prelude "HOL-Library.Log_Nat"
begin

text \<open>
  What the curve, signature and key-agreement packages use of Go's \<^verbatim>\<open>math/big\<close>: conversion
  from and to bytes, bits, and the modular inverse. A \<^verbatim>\<open>big.Int\<close> is an \<open>int\<close>;
  \<^verbatim>\<open>Mod\<close> is Euclidean, which for the positive moduli of the code is \<open>mod\<close>.
\<close>

section \<open>Bytes and bits\<close>

definition big_SetBytes :: "bytes \<Rightarrow> int" where
  "big_SetBytes b = int (be_nat b)"

text \<open>\<^verbatim>\<open>Bytes\<close>: the absolute value, big-endian, without leading zero bytes.\<close>

fun nat_digits :: "nat \<Rightarrow> bytes" where
  "nat_digits n = (if n = 0 then [] else word_of_nat n # nat_digits (n div 256))"

declare nat_digits.simps [simp del]

definition big_Bytes :: "int \<Rightarrow> bytes" where
  "big_Bytes n = rev (nat_digits (nat \<bar>n\<bar>))"

definition big_BitLen :: "int \<Rightarrow> nat" where
  "big_BitLen n = floorlog 2 (nat \<bar>n\<bar>)"

definition big_Bit :: "int \<Rightarrow> nat \<Rightarrow> nat" where
  "big_Bit n i = of_bool (bit n i)"

text \<open>\<^verbatim>\<open>FillBytes\<close> into \<open>sz\<close> bytes panics when the value does not fit.\<close>

definition big_FillBytes :: "int \<Rightarrow> nat \<Rightarrow> bytes res" where
  "big_FillBytes n sz =
     (let b = big_Bytes n
      in if sz < length b then Inl (Panic ''math/big: buffer too small to fit value'')
         else Inr (replicate (sz - length b) 0 @ b))"

lemma length_nat_digits_le: "n < 256 ^ k \<Longrightarrow> length (nat_digits n) \<le> k"
proof (induction k arbitrary: n)
  case (Suc k)
  then have "n div 256 < 256 ^ k" by (simp add: less_mult_imp_div_less mult.commute)
  with Suc.IH show ?case by (subst nat_digits.simps) simp
qed (simp add: nat_digits.simps)

lemma nat_digits_pad:
  "n < 256 ^ k \<Longrightarrow> nat_digits n @ replicate (k - length (nat_digits n)) 0 = le_bytes k n"
proof (induction k arbitrary: n)
  case 0
  then show ?case by (simp add: nat_digits.simps le_bytes_def)
next
  case (Suc k)
  then have div: "n div 256 < 256 ^ k" by (simp add: less_mult_imp_div_less mult.commute)
  show ?case
  proof (cases "n = 0")
    case True
    then show ?thesis by (simp add: nat_digits.simps le_bytes_0)
  next
    case False
    then have "nat_digits n = word_of_nat n # nat_digits (n div 256)" by (subst nat_digits.simps) simp
    then show ?thesis using Suc.IH [OF div] by simp
  qed
qed

lemma big_FillBytes_ok:
  assumes "0 \<le> n" "nat n < 256 ^ sz"
  shows "big_FillBytes n sz = Inr (rev (le_bytes sz (nat n)))"
proof -
  have "length (nat_digits (nat n)) \<le> sz" using assms(2) by (rule length_nat_digits_le)
  moreover have "rev (le_bytes sz (nat n)) = replicate (sz - length (nat_digits (nat n))) 0 @ rev (nat_digits (nat n))"
    by (simp flip: nat_digits_pad [OF assms(2)])
  ultimately show ?thesis using assms(1) by (simp add: big_FillBytes_def big_Bytes_def Let_def)
qed

lemma big_SetBytes_nonneg [simp]: "0 \<le> big_SetBytes b"
  by (simp add: big_SetBytes_def)

lemma big_SetBytes_less: "big_SetBytes b < 256 ^ length b"
proof -
  have "int (be_nat b) < int (256 ^ length b)"
    using be_nat_less [of b] by (simp only: of_nat_less_iff)
  then show ?thesis by (simp add: big_SetBytes_def)
qed

lemma big_Bit_cases: "big_Bit n i = 0 \<or> big_Bit n i = 1"
  by (simp add: big_Bit_def)

text \<open>The bits from the top down are the number, by Horner's rule.\<close>

lemma big_bits_horner:
  "fold (\<lambda>i a. 2 * a + int (big_Bit k i)) (rev [0..<n]) a = a * 2 ^ n + take_bit n k"
proof (induction n arbitrary: a)
  case (Suc n)
  have "take_bit (Suc n) k = of_bool (bit k n) * 2 ^ n + take_bit n k"
    by (simp add: take_bit_Suc_from_most)
  moreover have "int (big_Bit k n) = of_bool (bit k n)" by (simp add: big_Bit_def)
  moreover have "fold (\<lambda>i a. 2 * a + int (big_Bit k i)) (rev [0..<Suc n]) a =
      (2 * a + int (big_Bit k n)) * 2 ^ n + take_bit n k"
    using Suc.IH [of "2 * a + int (big_Bit k n)"] by simp
  ultimately show ?case by (simp add: algebra_simps)
qed simp

lemma big_BitLen_bound: "0 \<le> k \<Longrightarrow> k < 2 ^ big_BitLen k"
proof -
  assume "0 \<le> k"
  have "nat k < 2 ^ floorlog 2 (nat k)"
    using floorlog_bounds [of "nat k" 2] by (cases "nat k = 0") (auto simp: floorlog_def)
  then show ?thesis using \<open>0 \<le> k\<close> by (simp add: big_BitLen_def nat_less_iff)
qed

lemma big_BitLen_eqI:
  assumes "2 ^ n \<le> k" "k < 2 ^ Suc n"
  shows "big_BitLen k = Suc n"
proof -
  have k: "0 < k" using assms(1) by (rule order_less_le_trans [rotated]) simp
  have "2 ^ n \<le> nat k" "nat k < 2 ^ Suc n" using assms k by (simp_all add: le_nat_iff nat_less_iff)
  then have "floorlog 2 (nat k) \<le> Suc n" "Suc n \<le> floorlog 2 (nat k)"
    by (simp_all add: floorlog_le_iff floorlog_ge_SucI)
  then show ?thesis using k by (simp add: big_BitLen_def)
qed

lemma big_take_BitLen: "0 \<le> k \<Longrightarrow> take_bit (big_BitLen k) k = k"
  using big_BitLen_bound [of k] by (simp add: take_bit_int_eq_self)

lemma big_bits_nat:
  assumes "0 \<le> k"
  shows "fold (\<lambda>i a. 2 * a + big_Bit k i) (rev [0..<big_BitLen k]) 0 = nat k"
proof -
  have "int (fold (\<lambda>i a. 2 * a + big_Bit k i) js a) = fold (\<lambda>i a. 2 * a + int (big_Bit k i)) js (int a)" for js a
    by (induction js arbitrary: a) simp_all
  then have "int (fold (\<lambda>i a. 2 * a + big_Bit k i) (rev [0..<big_BitLen k]) 0) = k"
    using assms big_bits_horner [of k "big_BitLen k" 0] big_take_BitLen [of k] by simp
  then show ?thesis by simp
qed

section \<open>The modular inverse\<close>

text \<open>
  The extended Euclidean algorithm. Invariant: each remainder is congruent to its
  coefficient times the number that is inverted.
\<close>

function egcd :: "int \<Rightarrow> int \<Rightarrow> int \<Rightarrow> int \<Rightarrow> int \<times> int" where
  "egcd r0 r1 s0 s1 =
     (if r1 \<le> 0 then (r0, s0) else egcd r1 (r0 mod r1) s1 (s0 - (r0 div r1) * s1))"
  by pat_completeness auto
termination
  by (relation "measure (\<lambda>(r0, r1, s0, s1). nat r1)") auto

declare egcd.simps [simp del]

text \<open>\<^verbatim>\<open>ModInverse\<close> returns nil when the arguments are not coprime.\<close>

definition big_ModInverse :: "int \<Rightarrow> int \<Rightarrow> int option" where
  "big_ModInverse g n =
     (let (d, x) = egcd n (g mod n) 0 1 in if d = 1 then Some (x mod n) else None)"

lemma egcd_gcd: "0 \<le> r1 \<Longrightarrow> 0 \<le> r0 \<Longrightarrow> fst (egcd r0 r1 s0 s1) = gcd r0 r1"
proof (induction r0 r1 s0 s1 rule: egcd.induct)
  case (1 r0 r1 s0 s1)
  show ?case
  proof (cases "r1 \<le> 0")
    case True
    then show ?thesis using 1 by (subst egcd.simps) simp
  next
    case False
    then have "fst (egcd r0 r1 s0 s1) = gcd r1 (r0 mod r1)"
      using 1 by (subst egcd.simps) simp
    then show ?thesis by (metis gcd_red_int gcd.commute)
  qed
qed

lemma egcd_coefficient:
  assumes "n dvd r0 - s0 * g" "n dvd r1 - s1 * g"
  shows "n dvd fst (egcd r0 r1 s0 s1) - snd (egcd r0 r1 s0 s1) * g"
  using assms
proof (induction r0 r1 s0 s1 rule: egcd.induct)
  case (1 r0 r1 s0 s1)
  show ?case
  proof (cases "r1 \<le> 0")
    case True
    then show ?thesis using 1 by (subst (1 2) egcd.simps) simp
  next
    case False
    have "r0 mod r1 - (s0 - r0 div r1 * s1) * g = (r0 - s0 * g) - r0 div r1 * (r1 - s1 * g)"
      by (simp add: minus_div_mult_eq_mod [symmetric] algebra_simps)
    then have "n dvd r0 mod r1 - (s0 - r0 div r1 * s1) * g"
      using 1(2,3) by simp
    then show ?thesis
      using False 1 by (subst (1 2) egcd.simps) simp
  qed
qed

lemma big_ModInverse_Some:
  assumes "big_ModInverse g n = Some v" "0 < n"
  shows "0 \<le> v" "v < n" "n dvd v * g - 1"
proof -
  obtain d x where e: "egcd n (g mod n) 0 1 = (d, x)" by fastforce
  then have v: "v = x mod n" "d = 1" using assms(1) by (auto simp: big_ModInverse_def split: if_splits)
  have "n dvd g mod n - 1 * g" by (metis mult_1 mod_eq_dvd_iff mod_mod_trivial)
  then have "n dvd 1 - x * g"
    using egcd_coefficient [of n n 0 g "g mod n" 1] e v(2) by simp
  moreover have "n dvd x mod n - x" by (metis mod_eq_dvd_iff mod_mod_trivial)
  then have "n dvd (x mod n - x) * g" by simp
  ultimately have "n dvd (x mod n - x) * g - (1 - x * g)" by (rule dvd_diff [rotated])
  then show "n dvd v * g - 1" by (simp add: v algebra_simps)
  show "0 \<le> v" "v < n" using assms(2) by (simp_all add: v)
qed

lemma big_ModInverse_coprime:
  assumes "0 < n" "coprime g n"
  obtains v where "big_ModInverse g n = Some v"
proof -
  have "fst (egcd n (g mod n) 0 1) = gcd n (g mod n)"
    using assms(1) by (intro egcd_gcd) simp_all
  also have "\<dots> = 1" using assms(2) by (metis coprime_iff_gcd_eq_1 gcd.commute gcd_red_int)
  finally show ?thesis
    by (intro that [of "snd (egcd n (g mod n) 0 1) mod n"]) (simp add: big_ModInverse_def split_beta)
qed

end
