(* ===== verification/Limbs.thy ===== *)
theory Limbs
  imports CT BigInt
begin

text \<open>
  Multi-limb arithmetic on 64-bit words: the operations of Go's \<^verbatim>\<open>math/bits\<close> the
  constant-time field uses, the carry chains its loops run, and what they compute on the
  numbers the limbs stand for.
\<close>

section \<open>Words of \<open>math/bits\<close>\<close>

definition bits_Add64 :: "u64 \<Rightarrow> u64 \<Rightarrow> u64 \<Rightarrow> u64 \<times> u64" where
  "bits_Add64 x y c = (x + y + c, if uint x + uint y + uint c < 2 ^ 64 then 0 else 1)"

definition bits_Sub64 :: "u64 \<Rightarrow> u64 \<Rightarrow> u64 \<Rightarrow> u64 \<times> u64" where
  "bits_Sub64 x y b = (x - y - b, if uint x < uint y + uint b then 1 else 0)"

definition bits_Mul64 :: "u64 \<Rightarrow> u64 \<Rightarrow> u64 \<times> u64" where
  "bits_Mul64 x y = (word_of_int (uint x * uint y div 2 ^ 64), x * y)"

definition mulAddCarry :: "u64 \<Rightarrow> u64 \<Rightarrow> u64 \<Rightarrow> u64 \<Rightarrow> u64 \<times> u64" where
  "mulAddCarry a b c d =
     (let (hi, lo) = bits_Mul64 a b;
          (lo, carry) = bits_Add64 lo c 0;
          hi = hi + carry;
          (lo, carry) = bits_Add64 lo d 0;
          hi = hi + carry
      in (hi, lo))"

lemma uint_u64: "0 \<le> uint (x :: u64)" "uint (x :: u64) < 2 ^ 64"
  using uint_bounded [of x] by simp_all

lemma uint_u64_le: "uint (x :: u64) \<le> 2 ^ 64 - 1"
  using uint_u64(2) [of x] by simp

lemma uint_of_int_u64: "0 \<le> n \<Longrightarrow> n < 2 ^ 64 \<Longrightarrow> uint (word_of_int n :: u64) = n"
  by (simp add: uint_word_of_int)

lemma uint_add_u64: "uint x + uint y < 2 ^ 64 \<Longrightarrow> uint (x + y :: u64) = uint x + uint y"
  using uint_add_lem [of x y] by simp

text \<open>Carry and borrow are 0 or 1 as the documentation of the package asks.\<close>

lemma bits_Add64:
  assumes "bits_Add64 x y c = (s, c')" "uint c \<le> 1"
  shows "uint s + 2 ^ 64 * uint c' = uint x + uint y + uint c" "uint c' \<le> 1"
proof -
  have u: "uint (x + y + c) = (uint x + uint y + uint c) mod 2 ^ 64"
    by (simp add: uint_word_ariths mod_simps)
  have b: "0 \<le> uint x + uint y + uint c" "uint x + uint y + uint c < 2 * 2 ^ 64"
    using uint_u64 [of x] uint_u64 [of y] uint_u64(1) [of c] assms(2) by linarith+
  have s: "s = x + y + c" "c' = (if uint x + uint y + uint c < 2 ^ 64 then 0 else 1)"
    using assms(1) by (auto simp: bits_Add64_def)
  show "uint s + 2 ^ 64 * uint c' = uint x + uint y + uint c"
  proof (cases "uint x + uint y + uint c < 2 ^ 64")
    case False
    then have "(uint x + uint y + uint c - 2 ^ 64) mod 2 ^ 64 = uint x + uint y + uint c - 2 ^ 64"
      using b by (intro mod_pos_pos_trivial) simp_all
    then have "uint (x + y + c) = uint x + uint y + uint c - 2 ^ 64"
      using u by (metis minus_mod_self2)
    then show ?thesis using False by (simp add: s)
  qed (use b in \<open>simp add: s u mod_pos_pos_trivial\<close>)
  show "uint c' \<le> 1" by (simp add: s)
qed

lemma bits_Sub64:
  assumes "bits_Sub64 x y b = (d, b')" "uint b \<le> 1"
  shows "uint d - 2 ^ 64 * uint b' = uint x - uint y - uint b" "uint b' \<le> 1"
proof -
  have u: "uint (x - y - b) = (uint x - uint y - uint b) mod 2 ^ 64"
    by (simp add: uint_word_ariths mod_simps)
  have r: "uint x - uint y - uint b < 2 ^ 64" "- (2 ^ 64) \<le> uint x - uint y - uint b"
    using uint_u64 [of x] uint_u64 [of y] uint_u64(1) [of b] assms(2) by linarith+
  have s: "d = x - y - b" "b' = (if uint x < uint y + uint b then 1 else 0)"
    using assms(1) by (auto simp: bits_Sub64_def)
  show "uint d - 2 ^ 64 * uint b' = uint x - uint y - uint b"
  proof (cases "uint x < uint y + uint b")
    case True
    then have "(uint x - uint y - uint b + 2 ^ 64) mod 2 ^ 64 = uint x - uint y - uint b + 2 ^ 64"
      using r by (intro mod_pos_pos_trivial) simp_all
    then have "uint (x - y - b) = uint x - uint y - uint b + 2 ^ 64"
      using u by (metis mod_add_self2)
    then show ?thesis using True by (simp add: s)
  qed (use r in \<open>simp add: s u mod_pos_pos_trivial\<close>)
  show "uint b' \<le> 1" by (simp add: s)
qed

lemma bits_Mul64:
  assumes "bits_Mul64 x y = (hi, lo)"
  shows "uint lo + 2 ^ 64 * uint hi = uint x * uint y"
proof -
  have "uint x * uint y < 2 ^ 64 * 2 ^ 64"
    using uint_u64 [of x] uint_u64 [of y] by (intro mult_strict_mono) simp_all
  then have "uint (word_of_int (uint x * uint y div 2 ^ 64) :: u64) = uint x * uint y div 2 ^ 64"
    by (intro uint_of_int_u64) (simp_all add: div_less_iff_less_mult pos_imp_zdiv_nonneg_iff)
  moreover have "uint (x * y) = uint x * uint y mod 2 ^ 64" by (simp add: uint_word_ariths)
  ultimately show ?thesis using assms by (auto simp: bits_Mul64_def)
qed

text \<open>The product with two addends fits in two words.\<close>

lemma mulAddCarry:
  assumes "mulAddCarry a b c d = (hi, lo)"
  shows "uint lo + 2 ^ 64 * uint hi = uint a * uint b + uint c + uint d"
proof -
  obtain h l where m: "bits_Mul64 a b = (h, l)" by fastforce
  obtain l1 k1 where a1: "bits_Add64 l c 0 = (l1, k1)" by fastforce
  obtain l2 k2 where a2: "bits_Add64 l1 d 0 = (l2, k2)" by fastforce
  have e: "hi = h + k1 + k2" "lo = l2" using assms by (auto simp: mulAddCarry_def Let_def m a1 a2)
  have "uint l + 2 ^ 64 * uint h = uint a * uint b" by (rule bits_Mul64 [OF m])
  moreover have "uint l1 + 2 ^ 64 * uint k1 = uint l + uint c" using bits_Add64(1) [OF a1] by simp
  moreover have "uint l2 + 2 ^ 64 * uint k2 = uint l1 + uint d" using bits_Add64(1) [OF a2] by simp
  ultimately have v: "uint l2 + 2 ^ 64 * (uint h + uint k1 + uint k2) = uint a * uint b + uint c + uint d"
    by (simp add: algebra_simps)
  have "uint a * uint b \<le> (2 ^ 64 - 1) * (2 ^ 64 - 1)"
    using uint_u64_le [of a] uint_u64_le [of b] uint_u64(1) by (intro mult_mono) simp_all
  then have "uint a * uint b + uint c + uint d \<le> (2 ^ 64 - 1) * (2 ^ 64 - 1) + (2 ^ 64 - 1) + (2 ^ 64 - 1)"
    using uint_u64_le [of c] uint_u64_le [of d] by (intro add_mono)
  also have "\<dots> < (2 ^ 64 * 2 ^ 64 :: int)" by simp
  finally have "uint l2 + 2 ^ 64 * (uint h + uint k1 + uint k2) < 2 ^ 64 * 2 ^ 64" by (simp only: v)
  then have "2 ^ 64 * (uint h + uint k1 + uint k2) < 2 ^ 64 * 2 ^ 64"
    by (rule order_le_less_trans [rotated]) (use uint_u64(1) [of l2] in simp)
  then have r: "uint h + uint k1 + uint k2 < 2 ^ 64" by simp
  then have "uint h + uint k1 < 2 ^ 64"
    by (rule order_le_less_trans [rotated]) (use uint_u64(1) [of k2] in simp)
  then have "uint (h + k1 + k2) = uint h + uint k1 + uint k2"
    using r by (simp only: uint_add_u64)
  then show ?thesis using v by (simp add: e)
qed

lemma mulAddCarry_commute: "mulAddCarry a b c d = mulAddCarry b a c d"
  by (simp add: mulAddCarry_def bits_Mul64_def mult.commute)

section \<open>Numbers as limbs\<close>

type_synonym fe = "u64 list"

primrec limbs_val :: "fe \<Rightarrow> int" where
  "limbs_val [] = 0"
| "limbs_val (x # xs) = uint x + 2 ^ 64 * limbs_val xs"

lemma limbs_val_range: "0 \<le> limbs_val xs \<and> limbs_val xs < (2 ^ 64) ^ length xs"
proof (induction xs)
  case (Cons x xs)
  then have "limbs_val xs + 1 \<le> (2 ^ 64) ^ length xs" by simp
  then have "2 ^ 64 * (limbs_val xs + 1) \<le> 2 ^ 64 * (2 ^ 64) ^ length xs" by (intro mult_left_mono) simp_all
  then show ?case using Cons uint_u64 [of x] by simp
qed simp

lemma limbs_val_nonneg: "0 \<le> limbs_val xs"
  using limbs_val_range by simp

lemma limbs_val_append: "limbs_val (xs @ ys) = limbs_val xs + (2 ^ 64) ^ length xs * limbs_val ys"
  by (induction xs) (simp_all add: algebra_simps)

lemma limbs_val_replicate [simp]: "limbs_val (replicate n 0) = 0"
  by (induction n) simp_all

lemma limbs_val_inj:
  "length xs = length ys \<Longrightarrow> limbs_val xs = limbs_val ys \<Longrightarrow> xs = ys"
proof (induction xs ys rule: list_induct2)
  case (Cons x xs y ys)
  have "uint x = (uint x + 2 ^ 64 * limbs_val xs) mod 2 ^ 64" "uint y = (uint y + 2 ^ 64 * limbs_val ys) mod 2 ^ 64"
    using uint_u64 [of x] uint_u64 [of y] by (simp_all add: mod_pos_pos_trivial)
  then have "uint x = uint y" using Cons(3) by (simp only: limbs_val.simps)
  then show ?case using Cons by (simp add: word_uint_eq_iff)
qed simp

text \<open>The limbs of a number, as \<^verbatim>\<open>big.Int.Bits\<close> holds them on a 64-bit platform.\<close>

definition feFromBig :: "nat \<Rightarrow> int \<Rightarrow> fe" where
  "feFromBig n x = map (\<lambda>i. word_of_int (\<bar>x\<bar> div (2 ^ 64) ^ i)) [0..<n]"

definition bigFromFe :: "fe \<Rightarrow> int" where
  "bigFromFe a = fold (\<lambda>i out. push_bit 64 out OR uint (a ! i)) (rev [0..<length a]) 0"

lemma length_feFromBig [simp]: "length (feFromBig n x) = n"
  by (simp add: feFromBig_def)

lemma limbs_val_feFromBig_mod: "limbs_val (feFromBig n x) = \<bar>x\<bar> mod (2 ^ 64) ^ n"
proof (induction n)
  case (Suc n)
  have "limbs_val (feFromBig (Suc n) x) =
      limbs_val (feFromBig n x) + (2 ^ 64) ^ n * uint (word_of_int (\<bar>x\<bar> div (2 ^ 64) ^ n) :: u64)"
    by (simp add: feFromBig_def limbs_val_append)
  also have "\<dots> = \<bar>x\<bar> mod (2 ^ 64) ^ n + (2 ^ 64) ^ n * (\<bar>x\<bar> div (2 ^ 64) ^ n mod 2 ^ 64)"
    by (simp add: Suc.IH uint_word_of_int)
  also have "\<dots> = \<bar>x\<bar> mod ((2 ^ 64) ^ n * 2 ^ 64)" by (subst zmod_zmult2_eq) (simp_all add: add.commute)
  finally show ?case by (simp only: power_Suc mult.commute)
qed (simp add: feFromBig_def)

lemma limbs_val_feFromBig: "0 \<le> x \<Longrightarrow> x < (2 ^ 64) ^ n \<Longrightarrow> limbs_val (feFromBig n x) = x"
  by (simp add: limbs_val_feFromBig_mod)

lemma bigFromFe_val: "bigFromFe a = limbs_val a"
proof -
  have step: "push_bit 64 v OR uint (w :: u64) = uint w + 2 ^ 64 * v" for v w
  proof -
    have "push_bit 64 v AND uint w = 0"
      by (intro bit_eqI) (auto simp: bit_simps dest: bit_imp_le_length)
    then show ?thesis by (simp add: push_bit_eq_mult flip: disjunctive_add_eq_or)
  qed
  have "fold (\<lambda>i out. push_bit 64 out OR uint (a ! i)) (rev [0..<n]) v = limbs_val (take n a) + (2 ^ 64) ^ n * v"
    if "n \<le> length a" for n v
    using that
  proof (induction n arbitrary: v)
    case (Suc n)
    have "limbs_val (take (Suc n) a) = limbs_val (take n a) + (2 ^ 64) ^ n * uint (a ! n)"
      using Suc.prems by (simp add: take_Suc_conv_app_nth limbs_val_append)
    then show ?case using Suc.IH Suc.prems by (simp add: step algebra_simps)
  qed simp
  from this [of "length a" 0] show ?thesis by (simp add: bigFromFe_def)
qed

section \<open>Chains\<close>

text \<open>The loops \<^verbatim>\<open>r[i], c = bits.Add64(a[i], b[i], c)\<close> and their kin, from the low limb up.\<close>

fun add_chain :: "fe \<Rightarrow> fe \<Rightarrow> u64 \<Rightarrow> fe \<times> u64" where
  "add_chain (x # xs) (y # ys) c =
     (let (s, c) = bits_Add64 x y c; (ss, c) = add_chain xs ys c in (s # ss, c))"
| "add_chain _ _ c = ([], c)"

fun sub_chain :: "fe \<Rightarrow> fe \<Rightarrow> u64 \<Rightarrow> fe \<times> u64" where
  "sub_chain (x # xs) (y # ys) b =
     (let (d, b) = bits_Sub64 x y b; (ds, b) = sub_chain xs ys b in (d # ds, b))"
| "sub_chain _ _ b = ([], b)"

fun mac_row :: "fe \<Rightarrow> u64 \<Rightarrow> fe \<Rightarrow> u64 \<Rightarrow> fe \<times> u64" where
  "mac_row (x # xs) b (t # ts) c =
     (let (c, t) = mulAddCarry x b t c; (ts, c) = mac_row xs b ts c in (t # ts, c))"
| "mac_row _ b _ c = ([], c)"

lemma add_chain:
  "length xs = length ys \<Longrightarrow> add_chain xs ys c = (s, c') \<Longrightarrow> uint c \<le> 1 \<Longrightarrow>
   limbs_val s + (2 ^ 64) ^ length xs * uint c' = limbs_val xs + limbs_val ys + uint c \<and>
   uint c' \<le> 1 \<and> length s = length xs"
proof (induction xs ys arbitrary: c s rule: list_induct2)
  case (Cons x xs y ys)
  obtain l k where a: "bits_Add64 x y c = (l, k)" by fastforce
  obtain ss e where r: "add_chain xs ys k = (ss, e)" by fastforce
  have s: "s = l # ss" "c' = e" using Cons.prems(1) by (auto simp: a r)
  note A = bits_Add64 [OF a Cons.prems(2)]
  show ?case using A(1) Cons.IH [OF r [folded s(2)] A(2)] by (simp add: s algebra_simps)
qed simp

lemma sub_chain:
  "length xs = length ys \<Longrightarrow> sub_chain xs ys b = (d, b') \<Longrightarrow> uint b \<le> 1 \<Longrightarrow>
   limbs_val d - (2 ^ 64) ^ length xs * uint b' = limbs_val xs - limbs_val ys - uint b \<and>
   uint b' \<le> 1 \<and> length d = length xs"
proof (induction xs ys arbitrary: b d rule: list_induct2)
  case (Cons x xs y ys)
  obtain l k where a: "bits_Sub64 x y b = (l, k)" by fastforce
  obtain ds e where r: "sub_chain xs ys k = (ds, e)" by fastforce
  have s: "d = l # ds" "b' = e" using Cons.prems(1) by (auto simp: a r)
  note A = bits_Sub64 [OF a Cons.prems(2)]
  show ?case using A(1) Cons.IH [OF r [folded s(2)] A(2)] by (simp add: s algebra_simps)
qed simp

lemma mac_row:
  "length xs = length ts \<Longrightarrow> mac_row xs b ts c = (r, c') \<Longrightarrow>
   limbs_val r + (2 ^ 64) ^ length xs * uint c' = limbs_val xs * uint b + limbs_val ts + uint c \<and>
   length r = length xs"
proof (induction xs ts arbitrary: c r rule: list_induct2)
  case (Cons x xs t ts)
  obtain k l where a: "mulAddCarry x b t c = (k, l)" by fastforce
  obtain ls e where r: "mac_row xs b ts k = (ls, e)" by fastforce
  have s: "r = l # ls" "c' = e" using Cons.prems(1) by (auto simp: a r)
  show ?case using mulAddCarry [OF a] Cons.IH [OF r [folded s(2)]] by (simp add: s algebra_simps)
qed simp

end
