(* ===== verification/CTField.thy ===== *)
theory CTField
  imports Limbs
begin

unbundle bit_operations_syntax

text \<open>
  \<^verbatim>\<open>gost3410curves/ctfield.go\<close> and \<^verbatim>\<open>ctfield8.go\<close>: Montgomery arithmetic modulo an odd
  number on 4 limbs, written out limb by limb, and on 8 limbs, written with loops. The flat code
  is shown equal to the loops at 4 limbs; the arithmetic is then proved once for any number of
  limbs. \<open>R\<close> is two to the 64 times the number of limbs.
\<close>

section \<open>The context\<close>

record ctField =
  cf_p :: fe
  cf_n0 :: u64
  cf_rr :: fe
  cf_one :: fe

text \<open>\<^verbatim>\<open>newCTField\<close> is the case of 4 limbs, \<^verbatim>\<open>newCTField8\<close> of 8.\<close>

definition newCTField_n :: "nat \<Rightarrow> string \<Rightarrow> int \<Rightarrow> ctField res" where
  "newCTField_n limbs msg p =
     (if p \<le> 0 \<or> big_BitLen p > limbs * 64 \<or> big_Bit p 0 = 0 then Inl (Panic msg)
      else let fp = feFromBig limbs p;
               mod64 = push_bit 64 1;
               p0 = uint (fp ! 0)
           in case big_ModInverse p0 mod64 of
                None \<Rightarrow> Inl (Panic ''nil dereference'')
              | Some i \<Rightarrow>
                  let neg = mod64 - i;
                      r = push_bit (limbs * 64) 1;
                      one = r mod p;
                      rr = r * r mod p
                  in Inr \<lparr>cf_p = fp, cf_n0 = word_of_int neg,
                          cf_rr = feFromBig limbs rr, cf_one = feFromBig limbs one\<rparr>)"

definition newCTField :: "int \<Rightarrow> ctField res" where
  "newCTField p = newCTField_n 4 ''gost3410curves: ctField needs an odd prime < 2^256'' p"

definition newCTField8 :: "int \<Rightarrow> ctField res" where
  "newCTField8 p = newCTField_n 8 ''gost3410curves: ctField8 needs an odd prime < 2^512'' p"

section \<open>Selections\<close>

definition subLimbs :: "fe \<Rightarrow> fe \<Rightarrow> fe \<times> u64" where
  "subLimbs a b = sub_chain a b 0"

definition cmov :: "u64 \<Rightarrow> fe \<Rightarrow> fe \<Rightarrow> fe" where
  "cmov msk a b = map2 (\<lambda>x y. (x AND msk) OR (y AND NOT msk)) a b"

definition condSubP :: "ctField \<Rightarrow> fe \<Rightarrow> u64 \<Rightarrow> fe" where
  "condSubP f r extra =
     (let (u, br) = subLimbs r (cf_p f);
          cond = extra OR (1 - br)
      in cmov (ct_Mask cond) u r)"

definition feEqual :: "fe \<Rightarrow> fe \<Rightarrow> bool" where
  "feEqual a b = (fold (\<lambda>(x, y) diff. diff OR (x XOR y)) (zip a b) 0 = 0)"

section \<open>Four limbs\<close>

definition ctField_add :: "ctField \<Rightarrow> fe \<Rightarrow> fe \<Rightarrow> fe" where
  "ctField_add f a b =
     (let (s0, c) = bits_Add64 (a ! 0) (b ! 0) 0;
          (s1, c) = bits_Add64 (a ! 1) (b ! 1) c;
          (s2, c) = bits_Add64 (a ! 2) (b ! 2) c;
          (s3, carry) = bits_Add64 (a ! 3) (b ! 3) c;
          (u0, br) = bits_Sub64 s0 (cf_p f ! 0) 0;
          (u1, br) = bits_Sub64 s1 (cf_p f ! 1) br;
          (u2, br) = bits_Sub64 s2 (cf_p f ! 2) br;
          (u3, br) = bits_Sub64 s3 (cf_p f ! 3) br;
          m = ct_Mask (carry OR (1 - br))
      in [(u0 AND m) OR (s0 AND NOT m), (u1 AND m) OR (s1 AND NOT m),
          (u2 AND m) OR (s2 AND NOT m), (u3 AND m) OR (s3 AND NOT m)])"

definition ctField_sub :: "ctField \<Rightarrow> fe \<Rightarrow> fe \<Rightarrow> fe" where
  "ctField_sub f a b =
     (let (d0, br) = bits_Sub64 (a ! 0) (b ! 0) 0;
          (d1, br) = bits_Sub64 (a ! 1) (b ! 1) br;
          (d2, br) = bits_Sub64 (a ! 2) (b ! 2) br;
          (d3, borrow) = bits_Sub64 (a ! 3) (b ! 3) br;
          (w0, c) = bits_Add64 d0 (cf_p f ! 0) 0;
          (w1, c) = bits_Add64 d1 (cf_p f ! 1) c;
          (w2, c) = bits_Add64 d2 (cf_p f ! 2) c;
          (w3, _) = bits_Add64 d3 (cf_p f ! 3) c;
          m = ct_Mask borrow
      in [(w0 AND m) OR (d0 AND NOT m), (w1 AND m) OR (d1 AND NOT m),
          (w2 AND m) OR (d2 AND NOT m), (w3 AND m) OR (d3 AND NOT m)])"

text \<open>One pass of the loop over the limbs of b; \<open>t5\<close> is dead between passes.\<close>

definition ctField_row ::
  "ctField \<Rightarrow> fe \<Rightarrow> u64 \<Rightarrow> u64 \<times> u64 \<times> u64 \<times> u64 \<times> u64 \<Rightarrow> u64 \<times> u64 \<times> u64 \<times> u64 \<times> u64" where
  "ctField_row f a bi = (\<lambda>(t0, t1, t2, t3, t4).
     let (c, t0) = mulAddCarry (a ! 0) bi t0 0;
         (c, t1) = mulAddCarry (a ! 1) bi t1 c;
         (c, t2) = mulAddCarry (a ! 2) bi t2 c;
         (c, t3) = mulAddCarry (a ! 3) bi t3 c;
         (t4, cc) = bits_Add64 t4 c 0;
         t5 = cc;
         m = t0 * cf_n0 f;
         (c, _) = mulAddCarry m (cf_p f ! 0) t0 0;
         (c, t0) = mulAddCarry m (cf_p f ! 1) t1 c;
         (c, t1) = mulAddCarry m (cf_p f ! 2) t2 c;
         (c, t2) = mulAddCarry m (cf_p f ! 3) t3 c;
         (t3, cc) = bits_Add64 t4 c 0;
         t4 = t5 + cc
     in (t0, t1, t2, t3, t4))"

definition ctField_mul :: "ctField \<Rightarrow> fe \<Rightarrow> fe \<Rightarrow> fe" where
  "ctField_mul f a b =
     (let (t0, t1, t2, t3, t4) = fold (\<lambda>i. ctField_row f a (b ! i)) [0..<4] (0, 0, 0, 0, 0)
      in condSubP f [t0, t1, t2, t3] t4)"

section \<open>Eight limbs\<close>

definition condSubP8 :: "ctField \<Rightarrow> fe \<Rightarrow> u64 \<Rightarrow> fe" where
  "condSubP8 f r extra =
     (let (u, br) = sub_chain r (cf_p f) 0 in cmov (ct_Mask (extra OR (1 - br))) u r)"

definition ctField8_add :: "ctField \<Rightarrow> fe \<Rightarrow> fe \<Rightarrow> fe" where
  "ctField8_add f a b = (let (s, c) = add_chain a b 0 in condSubP8 f s c)"

definition ctField8_sub :: "ctField \<Rightarrow> fe \<Rightarrow> fe \<Rightarrow> fe" where
  "ctField8_sub f a b =
     (let (d, br) = sub_chain a b 0;
          (w, c) = add_chain d (cf_p f) 0
      in cmov (ct_Mask br) w d)"

text \<open>The array \<open>t\<close> of the code is the list and the word \<open>t[s]\<close>; \<open>t[s+1]\<close> is dead between passes.\<close>

definition ctField8_row :: "ctField \<Rightarrow> fe \<Rightarrow> u64 \<Rightarrow> fe \<times> u64 \<Rightarrow> fe \<times> u64" where
  "ctField8_row f a bi = (\<lambda>(t, ts).
     let (t, c) = mac_row a bi t 0;
         (ts, cc) = bits_Add64 ts c 0;
         ts1 = cc;
         m = t ! 0 * cf_n0 f;
         (c, _) = mulAddCarry m (cf_p f ! 0) (t ! 0) 0;
         (t', c) = mac_row (tl (cf_p f)) m (tl t) c;
         (top, cc) = bits_Add64 ts c 0
     in (t' @ [top], ts1 + cc))"

definition ctField8_mul :: "ctField \<Rightarrow> fe \<Rightarrow> fe \<Rightarrow> fe" where
  "ctField8_mul f a b =
     (let (t, ts) = fold (\<lambda>i. ctField8_row f a (b ! i)) [0..<8] (replicate 8 0, 0)
      in condSubP8 f t ts)"

section \<open>The flat code is the loops at four limbs\<close>

lemma list4E:
  assumes "length a = 4"
  obtains a0 a1 a2 a3 where "a = [a0, a1, a2, a3]"
  using assms by (auto simp: numeral_nat length_Suc_conv)

lemma condSubP8_eq: "condSubP8 = condSubP"
  by (intro ext) (simp add: condSubP_def condSubP8_def subLimbs_def)

lemma ctField_add_loop:
  assumes "length a = 4" "length b = 4" "length (cf_p f) = 4"
  shows "ctField_add f a b = ctField8_add f a b"
  using assms by (elim list4E)
    (simp add: ctField_add_def ctField8_add_def condSubP8_def cmov_def split_beta Let_def)

lemma ctField_sub_loop:
  assumes "length a = 4" "length b = 4" "length (cf_p f) = 4"
  shows "ctField_sub f a b = ctField8_sub f a b"
  using assms by (elim list4E)
    (simp add: ctField_sub_def ctField8_sub_def cmov_def split_beta Let_def)

lemma ctField_row_loop:
  assumes "length a = 4" "length (cf_p f) = 4"
  shows "(case ctField_row f a bi (t0, t1, t2, t3, t4) of (r0, r1, r2, r3, r4) \<Rightarrow> ([r0, r1, r2, r3], r4)) =
    ctField8_row f a bi ([t0, t1, t2, t3], t4)"
  using assms by (elim list4E)
    (simp add: ctField_row_def ctField8_row_def split_beta Let_def mulAddCarry_commute [of "_ * cf_n0 f"])

lemma ctField_mul_loop:
  assumes "length a = 4" "length (cf_p f) = 4"
  shows "ctField_mul f a b =
    (let (t, ts) = fold (\<lambda>i. ctField8_row f a (b ! i)) [0..<4] (replicate 4 0, 0) in condSubP8 f t ts)"
proof -
  let ?L = "\<lambda>(r0, r1, r2, r3, r4). ([r0, r1, r2, r3], r4) :: fe \<times> u64"
  have "?L (ctField_row f a w s) = ctField8_row f a w (?L s)" for w s
    using ctField_row_loop [OF assms] by (cases s) (simp add: split_beta)
  then have "?L (fold (\<lambda>i. ctField_row f a (b ! i)) is s) = fold (\<lambda>i. ctField8_row f a (b ! i)) is (?L s)" for "is" s
    by (induction "is" arbitrary: s) simp_all
  from this [of "[0..<4]" "(0, 0, 0, 0, 0)"]
  have "?L (fold (\<lambda>i. ctField_row f a (b ! i)) [0..<4] (0, 0, 0, 0, 0)) =
      fold (\<lambda>i. ctField8_row f a (b ! i)) [0..<4] (replicate 4 0, 0)"
    by (simp add: numeral_nat del: upt_rec_numeral)
  then have "fold (\<lambda>i. ctField8_row f a (b ! i)) [0..<4] (replicate 4 0, 0) =
      ?L (fold (\<lambda>i. ctField_row f a (b ! i)) [0..<4] (0, 0, 0, 0, 0))" by (rule sym)
  then show ?thesis
    by (simp only: ctField_mul_def condSubP8_eq split_beta Let_def fst_conv snd_conv)
qed

end
