(* ===== verification/Curves.thy ===== *)
theory Curves
  imports BigInt
begin

text \<open>
  \<^verbatim>\<open>gost3410curves/curves.go\<close>: the parameter sets of GOST R 34.10 and the affine arithmetic on
  short Weierstrass curves. A point is \<open>Infinity\<close> for Go's \<^verbatim>\<open>(nil, nil)\<close> or a pair of
  coordinates. The contexts of the constant-time path that the curve memoises are a state of their own
  (\<open>ct_cache\<close> of \<open>CTScalar\<close>), which the record leaves out.
\<close>

section \<open>Types and parameter sets\<close>

datatype ec_point = Infinity | Affine int int

record curve =
  cv_P :: int
  cv_A :: int
  cv_B :: int
  cv_Q :: int
  cv_X :: int
  cv_Y :: int
  cv_Name :: string
  cv_Cofactor :: int
  cv_ConstantTime :: bool

definition IsInfinity :: "ec_point \<Rightarrow> bool" where
  "IsInfinity p = (case p of Infinity \<Rightarrow> True | Affine x y \<Rightarrow> False)"

definition PointSize :: "curve \<Rightarrow> nat" where
  "PointSize c = (if big_BitLen (cv_P c) > 256 then 64 else 32)"

definition curveCryptoProA :: curve where
  "curveCryptoProA = \<lparr>
     cv_P = 0xFFFFFFFFFFFFFFFFFFFFFFFFFFFFFFFFFFFFFFFFFFFFFFFFFFFFFFFFFFFFFD97,
     cv_A = 0xFFFFFFFFFFFFFFFFFFFFFFFFFFFFFFFFFFFFFFFFFFFFFFFFFFFFFFFFFFFFFD94,
     cv_B = 0xA6,
     cv_Q = 0xFFFFFFFFFFFFFFFFFFFFFFFFFFFFFFFF6C611070995AD10045841B09B761B893,
     cv_X = 0x1,
     cv_Y = 0x8D91E471E0989CDA27DF505A453F2B7635294F2DDF23E3B122ACC99C9E9F1E14,
     cv_Name = ''id-GostR3410-2001-CryptoPro-A-ParamSet'', cv_Cofactor = 1, cv_ConstantTime = False\<rparr>"

definition curveCryptoProB :: curve where
  "curveCryptoProB = \<lparr>
     cv_P = 0x8000000000000000000000000000000000000000000000000000000000000C99,
     cv_A = 0x8000000000000000000000000000000000000000000000000000000000000C96,
     cv_B = 0x3E1AF419A269A5F866A7D3C25C3DF80AE979259373FF2B182F49D4CE7E1BBC8B,
     cv_Q = 0x800000000000000000000000000000015F700CFFF1A624E5E497161BCC8A198F,
     cv_X = 0x1,
     cv_Y = 0x3FA8124359F96680B83D1C3EB2C070E5C545C9858D03ECFB744BF8D717717EFC,
     cv_Name = ''id-GostR3410-2001-CryptoPro-B-ParamSet'', cv_Cofactor = 1, cv_ConstantTime = False\<rparr>"

definition curveCryptoProC :: curve where
  "curveCryptoProC = \<lparr>
     cv_P = 0x9B9F605F5A858107AB1EC85E6B41C8AACF846E86789051D37998F7B9022D759B,
     cv_A = 0x9B9F605F5A858107AB1EC85E6B41C8AACF846E86789051D37998F7B9022D7598,
     cv_B = 0x805A,
     cv_Q = 0x9B9F605F5A858107AB1EC85E6B41C8AA582CA3511EDDFB74F02F3A6598980BB9,
     cv_X = 0x0,
     cv_Y = 0x41ECE55743711A8C3CBF3783CD08C0EE4D4DC440D4641A8F366E550DFDB3BB67,
     cv_Name = ''id-GostR3410-2001-CryptoPro-C-ParamSet'', cv_Cofactor = 1, cv_ConstantTime = False\<rparr>"

definition curveTc26256A :: curve where
  "curveTc26256A = \<lparr>
     cv_P = 0xFFFFFFFFFFFFFFFFFFFFFFFFFFFFFFFFFFFFFFFFFFFFFFFFFFFFFFFFFFFFFD97,
     cv_A = 0xC2173F1513981673AF4892C23035A27CE25E2013BF95AA33B22C656F277E7335,
     cv_B = 0x295F9BAE7428ED9CCC20E7C359A9D41A22FCCD9108E17BF7BA9337A6F8AE9513,
     cv_Q = 0x400000000000000000000000000000000FD8CDDFC87B6635C115AF556C360C67,
     cv_X = 0x91E38443A5E82C0D880923425712B2BB658B9196932E02C78B2582FE742DAA28,
     cv_Y = 0x32879423AB1A0375895786C4BB46E9565FDE0B5344766740AF268ADB32322E5C,
     cv_Name = ''id-tc26-gost-3410-12-256-paramSetA'', cv_Cofactor = 4, cv_ConstantTime = False\<rparr>"

definition curveTc26512A :: curve where
  "curveTc26512A = \<lparr>
     cv_P = 0xFFFFFFFFFFFFFFFFFFFFFFFFFFFFFFFFFFFFFFFFFFFFFFFFFFFFFFFFFFFFFFFFFFFFFFFFFFFFFFFFFFFFFFFFFFFFFFFFFFFFFFFFFFFFFFFFFFFFFFFFFFFFFDC7,
     cv_A = 0xFFFFFFFFFFFFFFFFFFFFFFFFFFFFFFFFFFFFFFFFFFFFFFFFFFFFFFFFFFFFFFFFFFFFFFFFFFFFFFFFFFFFFFFFFFFFFFFFFFFFFFFFFFFFFFFFFFFFFFFFFFFFFDC4,
     cv_B = 0xE8C2505DEDFC86DDC1BD0B2B6667F1DA34B82574761CB0E879BD081CFD0B6265EE3CB090F30D27614CB4574010DA90DD862EF9D4EBEE4761503190785A71C760,
     cv_Q = 0xFFFFFFFFFFFFFFFFFFFFFFFFFFFFFFFFFFFFFFFFFFFFFFFFFFFFFFFFFFFFFFFF27E69532F48D89116FF22B8D4E0560609B4B38ABFAD2B85DCACDB1411F10B275,
     cv_X = 0x3,
     cv_Y = 0x7503CFE87A836AE3A61B8816E25450E6CE5E1C93ACF1ABC1778064FDCBEFA921DF1626BE4FD036E93D75E6A50E3A41E98028FE5FC235F5B889A589CB5215F2A4,
     cv_Name = ''id-tc26-gost-3410-12-512-paramSetA'', cv_Cofactor = 1, cv_ConstantTime = False\<rparr>"

definition curveTc26512B :: curve where
  "curveTc26512B = \<lparr>
     cv_P = 0x8000000000000000000000000000000000000000000000000000000000000000000000000000000000000000000000000000000000000000000000000000006F,
     cv_A = 0x8000000000000000000000000000000000000000000000000000000000000000000000000000000000000000000000000000000000000000000000000000006C,
     cv_B = 0x687D1B459DC841457E3E06CF6F5E2517B97C7D614AF138BCBF85DC806C4B289F3E965D2DB1416D217F8B276FAD1AB69C50F78BEE1FA3106EFB8CCBC7C5140116,
     cv_Q = 0x800000000000000000000000000000000000000000000000000000000000000149A1EC142565A545ACFDB77BD9D40CFA8B996712101BEA0EC6346C54374F25BD,
     cv_X = 0x2,
     cv_Y = 0x1A8F7EDA389B094C2C071E3647A8940F3C123B697578C213BE6DD9E6C8EC7335DCB228FD1EDF4A39152CBCAAF8C0398828041055F94CEEEC7E21340780FE41BD,
     cv_Name = ''id-tc26-gost-3410-12-512-paramSetB'', cv_Cofactor = 1, cv_ConstantTime = False\<rparr>"

definition curveTc26512C :: curve where
  "curveTc26512C = \<lparr>
     cv_P = 0xFFFFFFFFFFFFFFFFFFFFFFFFFFFFFFFFFFFFFFFFFFFFFFFFFFFFFFFFFFFFFFFFFFFFFFFFFFFFFFFFFFFFFFFFFFFFFFFFFFFFFFFFFFFFFFFFFFFFFFFFFFFFFDC7,
     cv_A = 0xDC9203E514A721875485A529D2C722FB187BC8980EB866644DE41C68E143064546E861C0E2C9EDD92ADE71F46FCF50FF2AD97F951FDA9F2A2EB6546F39689BD3,
     cv_B = 0xB4C4EE28CEBC6C2C8AC12952CF37F16AC7EFB6A9F69F4B57FFDA2E4F0DE5ADE038CBC2FFF719D2C18DE0284B8BFEF3B52B8CC7A5F5BF0A3C8D2319A5312557E1,
     cv_Q = 0x3FFFFFFFFFFFFFFFFFFFFFFFFFFFFFFFFFFFFFFFFFFFFFFFFFFFFFFFFFFFFFFFC98CDBA46506AB004C33A9FF5147502CC8EDA9E7A769A12694623CEF47F023ED,
     cv_X = 0xE2E31EDFC23DE7BDEBE241CE593EF5DE2295B7A9CBAEF021D385F7074CEA043AA27272A7AE602BF2A7B9033DB9ED3610C6FB85487EAE97AAC5BC7928C1950148,
     cv_Y = 0xF5CE40D95B5EB899ABBCCFF5911CB8577939804D6527378B8C108C3D2090FF9BE18E2D33E3021ED2EF32D85822423B6304F726AA854BAE07D0396E9A9ADDC40F,
     cv_Name = ''id-tc26-gost-3410-12-512-paramSetC'', cv_Cofactor = 4, cv_ConstantTime = False\<rparr>"

definition errUnknownCurveOID :: fault where
  "errUnknownCurveOID = Err ''gost3410curves: unknown curve OID''"

definition CurveByOID :: "string \<Rightarrow> curve res" where
  "CurveByOID oid =
     (if oid = ''1.2.643.2.2.35.1'' then Inr curveCryptoProA
      else if oid = ''1.2.643.2.2.35.2'' then Inr curveCryptoProB
      else if oid = ''1.2.643.2.2.35.3'' then Inr curveCryptoProC
      else if oid = ''1.2.643.7.1.2.1.1.1'' then Inr curveTc26256A
      else if oid = ''1.2.643.7.1.2.1.1.2''
      then Inr (curveCryptoProA\<lparr>cv_Name := ''id-tc26-gost-3410-12-256-paramSetB''\<rparr>)
      else if oid = ''1.2.643.7.1.2.1.1.3''
      then Inr (curveCryptoProB\<lparr>cv_Name := ''id-tc26-gost-3410-12-256-paramSetC''\<rparr>)
      else if oid = ''1.2.643.7.1.2.1.1.4''
      then Inr (curveCryptoProC\<lparr>cv_Name := ''id-tc26-gost-3410-12-256-paramSetD''\<rparr>)
      else if oid = ''1.2.643.7.1.2.1.2.1'' then Inr curveTc26512A
      else if oid = ''1.2.643.7.1.2.1.2.2'' then Inr curveTc26512B
      else if oid = ''1.2.643.7.1.2.1.2.3'' then Inr curveTc26512C
      else Inl errUnknownCurveOID)"

section \<open>Affine arithmetic\<close>

definition ec_Base :: "curve \<Rightarrow> ec_point" where
  "ec_Base c = Affine (cv_X c) (cv_Y c)"

definition IsOnCurve :: "curve \<Rightarrow> ec_point \<Rightarrow> bool" where
  "IsOnCurve c p =
     (case p of Infinity \<Rightarrow> True
      | Affine x y \<Rightarrow>
        if x < 0 \<or> x \<ge> cv_P c \<or> y < 0 \<or> y \<ge> cv_P c then False
        else let left = y * y mod cv_P c;
                 right = x * x mod cv_P c * x;
                 right = (right + cv_A c * x + cv_B c) mod cv_P c
             in left = right)"

text \<open>\<^verbatim>\<open>den.ModInverse(den, P)\<close> leaves \<^verbatim>\<open>den\<close> as it was when there is no inverse.\<close>

definition ec_inverse :: "int \<Rightarrow> int \<Rightarrow> int" where
  "ec_inverse den n = (case big_ModInverse den n of None \<Rightarrow> den | Some v \<Rightarrow> v)"

definition ec_fromLambda :: "curve \<Rightarrow> int \<Rightarrow> int \<times> int \<Rightarrow> int \<times> int \<Rightarrow> ec_point" where
  "ec_fromLambda c lambda p q =
     (let x3 = (lambda * lambda - fst p - fst q) mod cv_P c;
          y3 = ((fst p - x3) * lambda - snd p) mod cv_P c
      in Affine x3 y3)"

definition ec_Double :: "curve \<Rightarrow> ec_point \<Rightarrow> ec_point" where
  "ec_Double c p =
     (case p of Infinity \<Rightarrow> Infinity
      | Affine x y \<Rightarrow>
        if y = 0 then Infinity
        else let num = (x * x * 3 + cv_A c) mod cv_P c;
                 den = ec_inverse (2 * y mod cv_P c) (cv_P c);
                 lambda = num * den mod cv_P c
             in ec_fromLambda c lambda (x, y) (x, y))"

definition ec_Add :: "curve \<Rightarrow> ec_point \<Rightarrow> ec_point \<Rightarrow> ec_point" where
  "ec_Add c p q =
     (case p of Infinity \<Rightarrow> q
      | Affine px py \<Rightarrow>
        case q of Infinity \<Rightarrow> p
        | Affine qx qy \<Rightarrow>
          if px = qx
          then if (py + qy) mod cv_P c = 0 then Infinity else ec_Double c p
          else let num = (qy - py) mod cv_P c;
                   den = ec_inverse ((qx - px) mod cv_P c) (cv_P c);
                   lambda = num * den mod cv_P c
               in ec_fromLambda c lambda (px, py) (qx, qy))"

definition ec_ScalarMult :: "curve \<Rightarrow> int \<Rightarrow> ec_point \<Rightarrow> ec_point" where
  "ec_ScalarMult c k p =
     (if k \<le> 0 \<or> IsInfinity p then Infinity
      else fold (\<lambda>i result.
             let result = ec_Double c result
             in if big_Bit k i = 1 then ec_Add c result p else result)
           (rev [0..<big_BitLen k]) Infinity)"

section \<open>Arithmetic modulo the field characteristic\<close>

text \<open>
  The parameter sets have a prime \<open>P\<close>. What the arithmetic needs of it is that every
  nonzero residue is invertible, and that it is odd.
\<close>

definition field_char :: "int \<Rightarrow> bool" where
  "field_char p \<longleftrightarrow> 2 < p \<and> (\<forall>x \<in> {0<..<p}. coprime x p)"

lemma field_coprime: "field_char p \<Longrightarrow> \<not> p dvd u \<Longrightarrow> coprime u p"
proof -
  assume p: "field_char p" and u: "\<not> p dvd u"
  then have "u mod p \<in> {0<..<p}"
    using pos_mod_bound [of p u] pos_mod_sign [of p u]
    by (auto simp: field_char_def dvd_eq_mod_eq_0 order_less_le)
  then have "coprime (u mod p) p" using p by (auto simp: field_char_def)
  then show "coprime u p" by (metis coprime_iff_gcd_eq_1 gcd.commute gcd_red_int)
qed

lemma field_dvd_mult: "field_char p \<Longrightarrow> p dvd a * b \<longleftrightarrow> p dvd a \<or> p dvd b"
  by (metis coprime_commute coprime_dvd_mult_right_iff dvd_mult dvd_mult2 field_coprime)

lemma field_residue: "field_char p \<Longrightarrow> 0 \<le> x \<Longrightarrow> x < p \<Longrightarrow> p dvd x \<longleftrightarrow> x = 0"
  by (metis dvd_0_right linorder_not_le order_le_less zdvd_imp_le)

lemma field_residues: "0 \<le> x \<Longrightarrow> x < p \<Longrightarrow> 0 \<le> y \<Longrightarrow> y < p \<Longrightarrow> p dvd x - y \<longleftrightarrow> x = (y :: int)"
  by (metis mod_eq_dvd_iff mod_pos_pos_trivial)

lemma field_two: "field_char p \<Longrightarrow> \<not> p dvd 2"
  by (auto simp: field_char_def dest: zdvd_imp_le)

lemma dvd_mod_diff: "(p :: int) dvd x mod p - x"
  by (metis mod_eq_dvd_iff mod_mod_trivial)

lemma ec_inverse_field:
  assumes "field_char p" "\<not> p dvd u"
  shows "p dvd ec_inverse (u mod p) p * u - 1"
proof -
  have p: "0 < p" using assms(1) by (simp add: field_char_def)
  have "coprime (u mod p) p"
    using field_coprime [OF assms] by (metis coprime_iff_gcd_eq_1 gcd.commute gcd_red_int)
  then obtain v where v: "big_ModInverse (u mod p) p = Some v" using big_ModInverse_coprime [OF p] by blast
  have "p dvd v * (u mod p) - 1" by (rule big_ModInverse_Some(3) [OF v p])
  moreover have "p dvd v * (u - u mod p)" by simp
  ultimately have "p dvd v * (u - u mod p) + (v * (u mod p) - 1)" by (rule dvd_add [rotated])
  then show ?thesis by (simp add: ec_inverse_def v algebra_simps)
qed

text \<open>The slope \<open>\<lambda>\<close> of the code solves \<open>\<lambda> u = v\<close>, and it is the only residue that does.\<close>

definition ec_slope :: "int \<Rightarrow> int \<Rightarrow> int \<Rightarrow> int" where
  "ec_slope p v u = (v mod p) * ec_inverse (u mod p) p mod p"

lemma ec_slope_range: "0 < p \<Longrightarrow> 0 \<le> ec_slope p v u \<and> ec_slope p v u < p"
  by (simp add: ec_slope_def)

lemma ec_slope:
  assumes "field_char p" "\<not> p dvd u"
  shows "p dvd ec_slope p v u * u - v"
proof -
  let ?i = "ec_inverse (u mod p) p"
  have "p dvd v * (?i * u - 1)" using ec_inverse_field [OF assms] by simp
  moreover have "p dvd (v mod p - v) * (?i * u)" using dvd_mod_diff by simp
  moreover have "p dvd (ec_slope p v u - v mod p * ?i) * u" using dvd_mod_diff by (simp add: ec_slope_def)
  ultimately have "p dvd (ec_slope p v u - v mod p * ?i) * u + (v mod p - v) * (?i * u) + v * (?i * u - 1)"
    by (intro dvd_add)
  then show ?thesis by (simp add: algebra_simps)
qed

lemma ec_slope_unique:
  assumes "field_char p" "\<not> p dvd u" "p dvd l * u - v" "0 \<le> l" "l < p"
  shows "ec_slope p v u = l"
proof -
  have "p dvd (ec_slope p v u * u - v) - (l * u - v)"
    using ec_slope [OF assms(1,2)] assms(3) by (rule dvd_diff)
  then have "p dvd (ec_slope p v u - l) * u" by (simp add: algebra_simps)
  then have "p dvd ec_slope p v u - l" using field_dvd_mult assms(1,2) by blast
  moreover have "0 < p" using assms(1) by (simp add: field_char_def)
  ultimately show ?thesis using ec_slope_range [of p v u] assms(4,5) field_residues by blast
qed

text \<open>Fermat: multiplication by a unit permutes the nonzero residues.\<close>

lemma field_fermat:
  assumes p: "field_char p" and a: "\<not> p dvd a"
  shows "p dvd a ^ nat (p - 1) - 1"
proof -
  let ?S = "{0<..<p}"
  have P: "0 < p" using p by (simp add: field_char_def)
  have unit: "\<not> p dvd x" if "x \<in> ?S" for x
    using that field_residue [OF p, of x] by auto
  have inj: "inj_on (\<lambda>x. a * x mod p) ?S"
  proof (rule inj_onI)
    fix x y assume xy: "x \<in> ?S" "y \<in> ?S" "a * x mod p = a * y mod p"
    then have "p dvd a * (x - y)" by (simp add: mod_eq_dvd_iff right_diff_distrib)
    then have "p dvd x - y" using field_dvd_mult [OF p] a by blast
    then show "x = y" using xy(1,2) field_residues [of x p y] by simp
  qed
  moreover have "(\<lambda>x. a * x mod p) ` ?S \<subseteq> ?S"
  proof
    fix z assume "z \<in> (\<lambda>x. a * x mod p) ` ?S"
    then obtain x where x: "x \<in> ?S" "z = a * x mod p" by blast
    have "a * x mod p \<noteq> 0" using unit [OF x(1)] a field_dvd_mult [OF p] by (simp add: dvd_eq_mod_eq_0 [symmetric])
    moreover have "0 \<le> a * x mod p" "a * x mod p < p" using P by simp_all
    ultimately show "z \<in> ?S" by (simp add: x(2))
  qed
  ultimately have "(\<lambda>x. a * x mod p) ` ?S = ?S" by (simp add: endo_inj_surj)
  then have "prod id ?S = prod id ((\<lambda>x. a * x mod p) ` ?S)" by simp
  also have "\<dots> = (\<Prod>x \<in> ?S. a * x mod p)" using inj by (simp add: prod.reindex)
  finally have "prod id ?S mod p = (\<Prod>x \<in> ?S. a * x) mod p" by (simp add: mod_prod_eq)
  also have "(\<Prod>x \<in> ?S. a * x) = a ^ nat (p - 1) * prod id ?S" by (simp add: prod.distrib)
  finally have "p dvd prod id ?S - a ^ nat (p - 1) * prod id ?S" by (simp only: mod_eq_dvd_iff)
  also have "prod id ?S - a ^ nat (p - 1) * prod id ?S = - ((a ^ nat (p - 1) - 1) * prod id ?S)"
    by (simp add: algebra_simps)
  finally have "p dvd (a ^ nat (p - 1) - 1) * prod id ?S" by (simp only: dvd_minus_iff)
  moreover have "\<not> p dvd prod id A" if "A \<subseteq> ?S" for A
  proof -
    have "finite A" using that by (rule finite_subset) simp
    then show ?thesis using that
      by (induction A) (use p in \<open>auto simp: field_char_def field_dvd_mult [OF p] dest: unit zdvd_imp_le\<close>)
  qed
  ultimately show ?thesis using field_dvd_mult [OF p] by blast
qed

section \<open>The curve equation\<close>

definition curve_eq :: "curve \<Rightarrow> int \<Rightarrow> int \<Rightarrow> int" where
  "curve_eq c x y = y * y - (x * x * x + cv_A c * x + cv_B c)"

lemma IsOnCurve_Affine:
  assumes "0 < cv_P c"
  shows "IsOnCurve c (Affine x y) \<longleftrightarrow>
    0 \<le> x \<and> x < cv_P c \<and> 0 \<le> y \<and> y < cv_P c \<and> cv_P c dvd curve_eq c x y"
proof -
  have r: "(x * x mod cv_P c * x + cv_A c * x + cv_B c) mod cv_P c = (x * x * x + cv_A c * x + cv_B c) mod cv_P c"
    by (intro mod_add_cong mod_mult_cong) simp_all
  show ?thesis
    by (simp add: IsOnCurve_def Let_def curve_eq_def r) (auto simp: mod_eq_dvd_iff)
qed

lemma IsOnCurve_Infinity [simp]: "IsOnCurve c Infinity"
  by (simp add: IsOnCurve_def)

lemma curve_eq_mod: "p dvd curve_eq c (x mod p) (y mod p) \<longleftrightarrow> p dvd curve_eq c x y" for p :: int
proof -
  have "curve_eq c (x mod p) (y mod p) mod p = curve_eq c x y mod p"
    unfolding curve_eq_def by (intro mod_diff_cong mod_add_cong mod_mult_cong) simp_all
  then show ?thesis by (simp add: dvd_eq_mod_eq_0)
qed

text \<open>
  The third intersection. Along the line of slope \<open>\<lambda>\<close> through \<open>(x1, y1)\<close> the curve equation
  is a cubic with roots \<open>x1\<close>, \<open>x2\<close> and \<open>\<lambda>^2 - x1 - x2\<close>.
\<close>

lemma chord_identity:
  assumes "x3 = l * l - x1 - x2" "e = l * (x2 - x1) - (y2 - y1)"
  shows "(x2 - x1) * curve_eq c x3 ((x1 - x3) * l - y1) =
    (x3 - x1) * (curve_eq c x2 y2 + e * (e + 2 * y2)) + (x2 - x3) * curve_eq c x1 y1"
  unfolding curve_eq_def assms by algebra

lemma tangent_identity:
  assumes "x3 = l * l - x1 - x1"
  shows "curve_eq c x3 ((x1 - x3) * l - y1) =
    curve_eq c x1 y1 + (x3 - x1) * (l * (2 * y1) - (x1 * x1 * 3 + cv_A c))"
  unfolding curve_eq_def assms by algebra

lemma ec_fromLambda_eq:
  "ec_fromLambda c l (x1, y1) (x2, y2) =
     Affine ((l * l - x1 - x2) mod cv_P c) (((x1 - (l * l - x1 - x2)) * l - y1) mod cv_P c)"
proof -
  have "((x1 - (l * l - x1 - x2) mod cv_P c) * l - y1) mod cv_P c = ((x1 - (l * l - x1 - x2)) * l - y1) mod cv_P c"
    by (intro mod_diff_cong mod_mult_cong) simp_all
  then show ?thesis by (simp only: ec_fromLambda_def Let_def fst_conv snd_conv)
qed

text \<open>The results of a chord and of a tangent are on the curve.\<close>

lemma chord_on_curve:
  assumes p: "field_char (cv_P c)" and on: "cv_P c dvd curve_eq c x1 y1" "cv_P c dvd curve_eq c x2 y2"
    and e: "cv_P c dvd l * (x2 - x1) - (y2 - y1)" and u: "\<not> cv_P c dvd x2 - x1"
  shows "IsOnCurve c (ec_fromLambda c l (x1, y1) (x2, y2))"
proof -
  define x3 where "x3 = l * l - x1 - x2"
  have "cv_P c dvd (x2 - x1) * curve_eq c x3 ((x1 - x3) * l - y1)"
    unfolding chord_identity [OF x3_def refl, of c y1 y2] using on e by simp
  then have "cv_P c dvd curve_eq c x3 ((x1 - x3) * l - y1)"
    using field_dvd_mult [OF p] u by blast
  then show ?thesis
    using p by (simp add: ec_fromLambda_eq IsOnCurve_Affine field_char_def curve_eq_mod flip: x3_def)
qed

lemma tangent_on_curve:
  assumes p: "field_char (cv_P c)" and on: "cv_P c dvd curve_eq c x1 y1"
    and e: "cv_P c dvd l * (2 * y1) - (x1 * x1 * 3 + cv_A c)"
  shows "IsOnCurve c (ec_fromLambda c l (x1, y1) (x1, y1))"
proof -
  define x3 where "x3 = l * l - x1 - x1"
  have "cv_P c dvd curve_eq c x3 ((x1 - x3) * l - y1)"
    unfolding tangent_identity [OF x3_def] using on e by simp
  then show ?thesis
    using p by (simp add: ec_fromLambda_eq IsOnCurve_Affine field_char_def curve_eq_mod flip: x3_def)
qed

section \<open>Closure, commutativity, inverses\<close>

lemma ec_Double_Affine:
  "ec_Double c (Affine x y) = (if y = 0 then Infinity
     else ec_fromLambda c (ec_slope (cv_P c) (x * x * 3 + cv_A c) (2 * y)) (x, y) (x, y))"
  by (simp add: ec_Double_def ec_slope_def Let_def)

lemma ec_Add_Affine:
  "ec_Add c (Affine x1 y1) (Affine x2 y2) =
     (if x1 = x2 then if (y1 + y2) mod cv_P c = 0 then Infinity else ec_Double c (Affine x1 y1)
      else ec_fromLambda c (ec_slope (cv_P c) (y2 - y1) (x2 - x1)) (x1, y1) (x2, y2))"
  by (simp add: ec_Add_def ec_slope_def Let_def)

lemma ec_Add_Infinity [simp]: "ec_Add c Infinity q = q" "ec_Add c p Infinity = p"
  by (simp_all add: ec_Add_def split: ec_point.split)

lemma ec_Double_Infinity [simp]: "ec_Double c Infinity = Infinity"
  by (simp add: ec_Double_def)

lemma double_y_unit: "field_char p \<Longrightarrow> 0 \<le> y \<Longrightarrow> y < p \<Longrightarrow> y \<noteq> 0 \<Longrightarrow> \<not> p dvd 2 * y"
  by (simp add: field_dvd_mult field_two field_residue)

lemma ec_Double_on_curve:
  assumes p: "field_char (cv_P c)" and on: "IsOnCurve c q"
  shows "IsOnCurve c (ec_Double c q)"
proof (cases q)
  case (Affine x y)
  have P: "0 < cv_P c" using p by (simp add: field_char_def)
  note on' = on [unfolded Affine IsOnCurve_Affine [OF P]]
  show ?thesis
    using on' ec_slope [OF p double_y_unit [OF p]] tangent_on_curve [OF p]
    by (simp add: Affine ec_Double_Affine)
qed simp

lemma ec_Add_on_curve:
  assumes p: "field_char (cv_P c)" and on: "IsOnCurve c q" "IsOnCurve c r"
  shows "IsOnCurve c (ec_Add c q r)"
proof (cases q; cases r)
  fix x1 y1 x2 y2 assume qr: "q = Affine x1 y1" "r = Affine x2 y2"
  have P: "0 < cv_P c" using p by (simp add: field_char_def)
  note on' = on [unfolded qr IsOnCurve_Affine [OF P]]
  show ?thesis
  proof (cases "x1 = x2")
    case True
    then show ?thesis using ec_Double_on_curve [OF p] on(1) by (simp add: qr ec_Add_Affine)
  next
    case False
    then have u: "\<not> cv_P c dvd x2 - x1" using on' field_residues by (metis (no_types))
    show ?thesis
      using False on' chord_on_curve [OF p _ _ ec_slope [OF p u] u] by (simp add: qr ec_Add_Affine)
  qed
qed (use on in simp_all)

lemma ec_ScalarMult_on_curve:
  assumes p: "field_char (cv_P c)" and on: "IsOnCurve c q"
  shows "IsOnCurve c (ec_ScalarMult c k q)"
proof -
  let ?F = "\<lambda>i result. let result = ec_Double c result
             in if big_Bit k i = 1 then ec_Add c result q else result"
  have "IsOnCurve c (fold ?F js r)" if "IsOnCurve c r" for js r
    using that by (induction js arbitrary: r)
      (simp_all add: Let_def ec_Double_on_curve [OF p] ec_Add_on_curve [OF p _ on])
  then show ?thesis by (simp add: ec_ScalarMult_def)
qed

text \<open>Two points with the same abscissa are equal or opposite.\<close>

lemma same_x:
  assumes p: "field_char (cv_P c)" and on: "IsOnCurve c (Affine x y1)" "IsOnCurve c (Affine x y2)"
    and "(y1 + y2) mod cv_P c \<noteq> 0"
  shows "y1 = y2"
proof -
  have P: "0 < cv_P c" using p by (simp add: field_char_def)
  note on' = on [unfolded IsOnCurve_Affine [OF P]]
  have "cv_P c dvd curve_eq c x y1 - curve_eq c x y2" using on' by (intro dvd_diff) simp_all
  then have "cv_P c dvd (y1 + y2) * (y1 - y2)" by (simp add: curve_eq_def algebra_simps)
  then have "cv_P c dvd y1 - y2" using field_dvd_mult [OF p] assms(4) by (simp add: dvd_eq_mod_eq_0)
  then show ?thesis using on' field_residues by blast
qed

lemma ec_Add_commute:
  assumes p: "field_char (cv_P c)" and on: "IsOnCurve c q" "IsOnCurve c r"
  shows "ec_Add c q r = ec_Add c r q"
proof (cases q; cases r)
  fix x1 y1 x2 y2 assume qr: "q = Affine x1 y1" "r = Affine x2 y2"
  have P: "0 < cv_P c" using p by (simp add: field_char_def)
  note on' = on [unfolded qr IsOnCurve_Affine [OF P]]
  show ?thesis
  proof (cases "x1 = x2")
    case True
    have "y1 = y2" if "(y1 + y2) mod cv_P c \<noteq> 0" using same_x [OF p _ _ that] on True by (simp add: qr)
    then show ?thesis using True by (cases "(y1 + y2) mod cv_P c = 0") (simp_all add: qr ec_Add_Affine add.commute)
  next
    case False
    define l where "l = ec_slope (cv_P c) (y2 - y1) (x2 - x1)"
    have u: "\<not> cv_P c dvd x2 - x1" "\<not> cv_P c dvd x1 - x2"
      using on' False field_residues [of x2 "cv_P c" x1] field_residues [of x1 "cv_P c" x2] by auto
    have l: "cv_P c dvd l * (x2 - x1) - (y2 - y1)" using ec_slope [OF p u(1)] by (simp add: l_def)
    have "l * (x1 - x2) - (y1 - y2) = - (l * (x2 - x1) - (y2 - y1))" by (simp add: algebra_simps)
    then have "cv_P c dvd l * (x1 - x2) - (y1 - y2)" using l by (simp only: dvd_minus_iff)
    then have l': "ec_slope (cv_P c) (y1 - y2) (x1 - x2) = l"
      using ec_slope_unique [OF p u(2)] ec_slope_range [OF P] by (simp add: l_def)
    have "((x1 - (l * l - x1 - x2)) * l - y1) - ((x2 - (l * l - x2 - x1)) * l - y2) =
        - (l * (x2 - x1) - (y2 - y1))"
      by (simp add: algebra_simps)
    then have "((x1 - (l * l - x1 - x2)) * l - y1) mod cv_P c = ((x2 - (l * l - x2 - x1)) * l - y2) mod cv_P c"
      using l by (simp only: mod_eq_dvd_iff dvd_minus_iff)
    moreover have "l * l - x1 - x2 = l * l - x2 - x1" by simp
    moreover have "ec_Add c q r = ec_fromLambda c l (x1, y1) (x2, y2)"
      "ec_Add c r q = ec_fromLambda c l (x2, y2) (x1, y1)"
      using False not_sym [OF False] by (simp_all only: qr ec_Add_Affine l' l_def if_False)
    ultimately show ?thesis by (simp only: ec_fromLambda_eq)
  qed
qed simp_all

lemma ec_Add_self: "field_char (cv_P c) \<Longrightarrow> IsOnCurve c q \<Longrightarrow> ec_Add c q q = ec_Double c q"
proof (cases q)
  case (Affine x y)
  assume p: "field_char (cv_P c)" and on: "IsOnCurve c q"
  have P: "0 < cv_P c" using p by (simp add: field_char_def)
  note on' = on [unfolded Affine IsOnCurve_Affine [OF P]]
  have "cv_P c dvd 2 * y \<longleftrightarrow> y = 0" using double_y_unit [OF p, of y] on' by auto
  then have "(y + y) mod cv_P c = 0 \<longleftrightarrow> y = 0" by (simp only: mult_2 dvd_eq_mod_eq_0)
  then show ?thesis by (simp add: Affine ec_Add_Affine ec_Double_Affine)
qed simp

definition ec_neg :: "curve \<Rightarrow> ec_point \<Rightarrow> ec_point" where
  "ec_neg c q = (case q of Infinity \<Rightarrow> Infinity | Affine x y \<Rightarrow> Affine x (- y mod cv_P c))"

lemma ec_Add_neg:
  assumes p: "field_char (cv_P c)" and on: "IsOnCurve c q"
  shows "ec_Add c q (ec_neg c q) = Infinity" "IsOnCurve c (ec_neg c q)"
proof -
  have P: "0 < cv_P c" using p by (simp add: field_char_def)
  show "ec_Add c q (ec_neg c q) = Infinity"
    by (cases q) (simp_all add: ec_neg_def ec_Add_Affine mod_simps)
  show "IsOnCurve c (ec_neg c q)"
  proof (cases q)
    case (Affine x y)
    have "curve_eq c x (- y) = curve_eq c x y" by (simp add: curve_eq_def)
    then show ?thesis
      using on curve_eq_mod [of "cv_P c" c x "- y"] P
      by (auto simp: Affine ec_neg_def IsOnCurve_Affine [OF P])
  qed (simp add: ec_neg_def)
qed

section \<open>Scalar multiples\<close>

text \<open>
  \<open>ec_mult c n q\<close> is the sum of \<open>n\<close> copies of \<open>q\<close>. That addition is associative is
  \<open>group_law\<close>, which \<open>GroupLaw\<close> proves for every nonsingular curve; nothing above needs it.
\<close>

primrec ec_mult :: "curve \<Rightarrow> nat \<Rightarrow> ec_point \<Rightarrow> ec_point" where
  "ec_mult c 0 q = Infinity"
| "ec_mult c (Suc n) q = ec_Add c q (ec_mult c n q)"

definition group_law :: "curve \<Rightarrow> bool" where
  "group_law c \<longleftrightarrow> field_char (cv_P c) \<and>
     (\<forall>q r s. IsOnCurve c q \<longrightarrow> IsOnCurve c r \<longrightarrow> IsOnCurve c s \<longrightarrow>
        ec_Add c (ec_Add c q r) s = ec_Add c q (ec_Add c r s))"

lemma group_lawD:
  assumes "group_law c"
  shows "field_char (cv_P c)"
    and "IsOnCurve c q \<Longrightarrow> IsOnCurve c r \<Longrightarrow> IsOnCurve c s \<Longrightarrow>
      ec_Add c (ec_Add c q r) s = ec_Add c q (ec_Add c r s)"
    and "IsOnCurve c q \<Longrightarrow> IsOnCurve c r \<Longrightarrow> ec_Add c q r = ec_Add c r q"
    and "IsOnCurve c q \<Longrightarrow> IsOnCurve c r \<Longrightarrow> IsOnCurve c (ec_Add c q r)"
  using assms ec_Add_commute ec_Add_on_curve by (auto simp: group_law_def)

lemma ec_mult_on_curve [simp]:
  "field_char (cv_P c) \<Longrightarrow> IsOnCurve c q \<Longrightarrow> IsOnCurve c (ec_mult c n q)"
  by (induction n) (simp_all add: ec_Add_on_curve)

lemma ec_mult_Infinity [simp]: "ec_mult c n Infinity = Infinity"
  by (induction n) simp_all

lemma ec_mult_1 [simp]: "ec_mult c (Suc 0) q = q"
  by simp

lemma ec_mult_add:
  assumes g: "group_law c" and on: "IsOnCurve c q"
  shows "ec_mult c (m + n) q = ec_Add c (ec_mult c m q) (ec_mult c n q)"
  by (induction m) (simp_all add: group_lawD(1,2) [OF g] on)

lemma ec_mult_mult:
  assumes g: "group_law c" and on: "IsOnCurve c q"
  shows "ec_mult c (m * n) q = ec_mult c m (ec_mult c n q)"
  by (induction m) (simp_all add: ec_mult_add [OF g on])

lemma ec_mult_ec_Add:
  assumes g: "group_law c" and on: "IsOnCurve c q" "IsOnCurve c r"
  shows "ec_mult c n (ec_Add c q r) = ec_Add c (ec_mult c n q) (ec_mult c n r)"
proof (induction n)
  case (Suc n)
  let ?Q = "ec_mult c n q" and ?R = "ec_mult c n r"
  note A = group_lawD [OF g] and O = ec_mult_on_curve [OF group_lawD(1) [OF g]]
  have "ec_Add c (ec_Add c q r) (ec_Add c ?Q ?R) = ec_Add c q (ec_Add c (ec_Add c r ?Q) ?R)"
    by (simp add: A(2,4) on O)
  also have "ec_Add c r ?Q = ec_Add c ?Q r" by (rule A(3)) (simp_all add: on O A(1))
  also have "ec_Add c q (ec_Add c (ec_Add c ?Q r) ?R) = ec_Add c (ec_Add c q ?Q) (ec_Add c r ?R)"
    by (simp add: A(2,4) on O A(1))
  finally show ?case by (simp add: Suc)
qed simp

text \<open>Double-and-add computes the multiple.\<close>

lemma ec_ScalarMult_mult:
  assumes g: "group_law c" and on: "IsOnCurve c q"
  shows "ec_ScalarMult c k q = ec_mult c (nat k) q"
proof (cases "k \<le> 0 \<or> q = Infinity")
  case True
  then show ?thesis by (auto simp: ec_ScalarMult_def IsInfinity_def)
next
  case False
  let ?F = "\<lambda>i result. let result = ec_Double c result
             in if big_Bit k i = 1 then ec_Add c result q else result"
  have step: "?F i (ec_mult c a q) = ec_mult c (2 * a + big_Bit k i) q" for i a
  proof -
    have "ec_Double c (ec_mult c a q) = ec_mult c (2 * a) q"
      using ec_Add_self [of c "ec_mult c a q"] on group_lawD(1) [OF g]
      by (simp add: mult_2 ec_mult_add [OF g on])
    moreover have "ec_Add c (ec_mult c (2 * a) q) q = ec_mult c (2 * a + 1) q"
      by (simp only: ec_mult_add [OF g on]) simp
    ultimately show ?thesis using big_Bit_cases [of k i] by (auto simp: Let_def)
  qed
  have "fold ?F js (ec_mult c a q) = ec_mult c (fold (\<lambda>i a. 2 * a + big_Bit k i) js a) q" for js a
    by (induction js arbitrary: a) (simp_all only: fold_simps step)
  from this [of _ 0] have "fold ?F js Infinity = ec_mult c (fold (\<lambda>i a. 2 * a + big_Bit k i) js 0) q" for js
    by (simp only: ec_mult.simps)
  moreover have "fold (\<lambda>i a. 2 * a + big_Bit k i) (rev [0..<big_BitLen k]) 0 = nat k"
    using False by (intro big_bits_nat) simp
  ultimately show ?thesis using False by (auto simp: ec_ScalarMult_def IsInfinity_def split: ec_point.splits)
qed

lemma ec_mult_order:
  assumes g: "group_law c" and on: "IsOnCurve c q" and "ec_mult c n q = Infinity"
  shows "ec_mult c (m mod n) q = ec_mult c m q"
proof -
  have "ec_mult c m q = ec_mult c (m div n * n + m mod n) q" by simp
  also have "\<dots> = ec_mult c (m mod n) q"
    by (simp only: ec_mult_add [OF g on] ec_mult_mult [OF g on] assms(3)) simp
  finally show ?thesis by simp
qed

section \<open>A small curve\<close>

text \<open>
  The seven points of \<open>y^2 = x^3 + 2 x + 1\<close> over the field of five elements: the curve of the
  witnesses.
\<close>

definition curve5 :: curve where
  "curve5 = \<lparr>cv_P = 5, cv_A = 2, cv_B = 1, cv_Q = 7, cv_X = 0, cv_Y = 1,
     cv_Name = ''curve5'', cv_Cofactor = 1, cv_ConstantTime = False\<rparr>"

definition curve5_points :: "ec_point list" where
  "curve5_points = [Infinity, Affine 0 1, Affine 0 4, Affine 1 2, Affine 1 3, Affine 3 2, Affine 3 3]"

lemma curve5_points: "IsOnCurve curve5 q \<longleftrightarrow> q \<in> set curve5_points"
proof (cases q)
  case (Affine x y)
  have on: "IsOnCurve curve5 q \<longleftrightarrow> 0 \<le> x \<and> x < 5 \<and> 0 \<le> y \<and> y < 5 \<and>
      y * y mod 5 = (x * x mod 5 * x + 2 * x + 1) mod 5"
    by (auto simp: Affine IsOnCurve_def curve5_def)
  have small: "z = 0 \<or> z = 1 \<or> z = 2 \<or> z = 3 \<or> z = 4" if "0 \<le> z" "z < 5" for z :: int
    using that by presburger
  show ?thesis
  proof
    assume "IsOnCurve curve5 q"
    then have e: "y * y mod 5 = (x * x mod 5 * x + 2 * x + 1) mod 5" and x: "0 \<le> x" "x < 5" and y: "0 \<le> y" "y < 5"
      by (simp_all add: on)
    show "q \<in> set curve5_points"
      using small [OF x] small [OF y] e by (elim disjE) (simp_all add: Affine curve5_points_def)
  next
    assume "q \<in> set curve5_points"
    then show "IsOnCurve curve5 q" unfolding on by (auto simp: Affine curve5_points_def)
  qed
qed (simp add: curve5_points_def)

lemma field_char_5: "field_char 5"
proof -
  have "coprime x 5" if "x \<in> {0<..<5}" for x :: int
  proof -
    have "x = 1 \<or> x = 2 \<or> x = 3 \<or> x = 4" using that by auto
    then show ?thesis by (auto simp: coprime_iff_gcd_eq_1 gcd_non_0_int)
  qed
  then show ?thesis by (simp add: field_char_def)
qed

section \<open>Properties\<close>

text \<open>
  Over a prime field the chord-and-tangent formulas of Add,
  Double and ScalarMult stay on the curve: the results are reduced points that
  IsOnCurve accepts. Add is commutative and doubles equal arguments.
\<close>

theorem ec_closed:
  assumes "field_char (cv_P c)" "IsOnCurve c q" "IsOnCurve c r"
  shows "IsOnCurve c (ec_Add c q r) \<and> IsOnCurve c (ec_Double c q) \<and> IsOnCurve c (ec_ScalarMult c k q) \<and>
    ec_Add c q r = ec_Add c r q \<and> ec_Add c q q = ec_Double c q"
  using assms ec_Add_on_curve ec_Double_on_curve ec_ScalarMult_on_curve ec_Add_commute ec_Add_self by simp

theorem ec_closed_witness:
  "IsOnCurve curve5 (ec_Add curve5 (Affine 0 1) (Affine 3 2)) \<and> IsOnCurve curve5 (ec_Double curve5 (Affine 0 1)) \<and>
   IsOnCurve curve5 (ec_ScalarMult curve5 5 (Affine 0 1)) \<and>
   ec_Add curve5 (Affine 0 1) (Affine 3 2) = ec_Add curve5 (Affine 3 2) (Affine 0 1) \<and>
   ec_Add curve5 (Affine 0 1) (Affine 0 1) = ec_Double curve5 (Affine 0 1)"
proof (rule ec_closed)
  show "field_char (cv_P curve5)" using field_char_5 by (simp add: curve5_def)
qed (simp_all add: curve5_points curve5_points_def)

end
