(* ===== verification/CTMont.thy ===== *)
theory CTMont
  imports CTField Curves
begin

text \<open>
  What the operations of \<open>CTField\<close> compute. A limb vector of \<open>n\<close> limbs below the modulus
  \<open>P\<close> represents the residue \<open>x\<close> when its value is congruent to \<open>x R\<close>; the Montgomery product,
  the sum and the difference represent product, sum and difference. The conversions, the power
  that \<^verbatim>\<open>inv\<close> computes and Fermat's theorem complete the field.
\<close>

section \<open>Reduction\<close>

abbreviation radix :: "nat \<Rightarrow> int" where
  "radix n \<equiv> (2 ^ 64) ^ n"

lemma cmov_mask: "length u = length r \<Longrightarrow> cmov (ct_Mask sel) u r = (if odd sel then u else r)"
proof -
  assume "length u = length r"
  moreover have "map2 (\<lambda>x y. x) u r = u" "map2 (\<lambda>x y. y) u r = r" if "length u = length r" for u r :: fe
    using that by (induction u r rule: list_induct2) simp_all
  ultimately show ?thesis by (simp add: cmov_def ct_Mask_eq)
qed

lemma bit_word_cases: "uint (c :: u64) \<le> 1 \<Longrightarrow> c = 0 \<or> c = 1"
proof -
  assume "uint c \<le> 1"
  then have "uint c = 0 \<or> uint c = 1" using uint_u64(1) [of c] by linarith
  then show ?thesis by (simp add: word_uint_eq_iff)
qed

lemma condSubP:
  assumes len: "length r = length (cf_p f)" and extra: "uint extra \<le> 1"
    and T: "T = limbs_val r + radix (length r) * uint extra" "T < 2 * limbs_val (cf_p f)"
  shows "length (condSubP f r extra) = length r" "limbs_val (condSubP f r extra) = T mod limbs_val (cf_p f)"
proof -
  let ?p = "limbs_val (cf_p f)" and ?R = "radix (length r)"
  obtain u br where s: "sub_chain r (cf_p f) 0 = (u, br)" by fastforce
  note S = sub_chain [OF len s, simplified]
  have p: "?p < ?R" "limbs_val r < ?R" "0 \<le> limbs_val u" "limbs_val u < ?R" "0 \<le> limbs_val r"
    using limbs_val_range [of "cf_p f"] limbs_val_range [of r] limbs_val_range [of u] len S by auto
  have P: "0 \<le> T" using T(1) p by simp
  have mod: "T mod ?p = (if ?p \<le> T then T - ?p else T)"
  proof (cases "?p \<le> T")
    case True
    then have "(T - ?p) mod ?p = T - ?p" using T(2) by (intro mod_pos_pos_trivial) simp_all
    then show ?thesis using True by simp
  qed (use P in simp)
  have c: "condSubP f r extra = (if odd (extra OR (1 - br)) then u else r)"
    using S by (simp add: condSubP_def subLimbs_def s cmov_mask)
  show "length (condSubP f r extra) = length r" using S by (simp add: c)
  consider "br = 0" | "br = 1" using bit_word_cases S by blast
  then show "limbs_val (condSubP f r extra) = T mod ?p"
  proof cases
    case 1
    then have "limbs_val u = limbs_val r - ?p" using S by simp
    moreover from this have "extra = 0" using bit_word_cases [OF extra] T p by auto
    ultimately show ?thesis unfolding c mod using 1 p T by simp
  next
    case 2
    then have "limbs_val u = limbs_val r - ?p + ?R" using S by simp
    then show ?thesis unfolding c mod using bit_word_cases [OF extra] 2 p T by auto
  qed
qed

lemma ctField8_add:
  assumes "length a = length (cf_p f)" "length b = length (cf_p f)"
    and "limbs_val a < limbs_val (cf_p f)" "limbs_val b < limbs_val (cf_p f)"
  shows "length (ctField8_add f a b) = length (cf_p f)"
    and "limbs_val (ctField8_add f a b) = (limbs_val a + limbs_val b) mod limbs_val (cf_p f)"
proof -
  obtain s c where s: "add_chain a b 0 = (s, c)" by fastforce
  note S = add_chain [OF _ s, simplified]
  have "length s = length (cf_p f)" "uint c \<le> 1"
    "limbs_val a + limbs_val b = limbs_val s + radix (length s) * uint c"
    using S assms by simp_all
  from condSubP [OF this] show "length (ctField8_add f a b) = length (cf_p f)"
    "limbs_val (ctField8_add f a b) = (limbs_val a + limbs_val b) mod limbs_val (cf_p f)"
    using assms \<open>length s = _\<close> by (simp_all add: ctField8_add_def s condSubP8_eq)
qed

lemma ctField8_sub:
  assumes "length a = length (cf_p f)" "length b = length (cf_p f)"
    and "limbs_val a < limbs_val (cf_p f)" "limbs_val b < limbs_val (cf_p f)"
  shows "length (ctField8_sub f a b) = length (cf_p f)"
    and "limbs_val (ctField8_sub f a b) = (limbs_val a - limbs_val b) mod limbs_val (cf_p f)"
proof -
  let ?p = "limbs_val (cf_p f)" and ?R = "radix (length (cf_p f))"
  obtain d br where d: "sub_chain a b 0 = (d, br)" by fastforce
  have D: "limbs_val d - ?R * uint br = limbs_val a - limbs_val b" "uint br \<le> 1" "length d = length (cf_p f)"
    using sub_chain [OF _ d] assms by simp_all
  obtain w c where w: "add_chain d (cf_p f) 0 = (w, c)" by fastforce
  have W: "limbs_val w + ?R * uint c = limbs_val d + ?p" "uint c \<le> 1" "length w = length (cf_p f)"
    using add_chain [OF _ w] D(3) by simp_all
  have e: "ctField8_sub f a b = (if odd br then w else d)"
    using D W by (simp add: ctField8_sub_def d w cmov_mask)
  show "length (ctField8_sub f a b) = length (cf_p f)" using D W by (simp add: e)
  have r: "limbs_val d < ?R" "limbs_val w < ?R" "?p < ?R" "0 \<le> limbs_val a" "0 \<le> limbs_val b"
    "0 \<le> limbs_val d" "0 \<le> limbs_val w"
    using limbs_val_range [of d] limbs_val_range [of w] limbs_val_range [of "cf_p f"] D(3) W(3)
    by (simp_all add: limbs_val_nonneg)
  consider "br = 0" | "br = 1" using bit_word_cases D by blast
  then show "limbs_val (ctField8_sub f a b) = (limbs_val a - limbs_val b) mod ?p"
  proof cases
    case 1
    then have "limbs_val d = limbs_val a - limbs_val b" using D by simp
    moreover have "(limbs_val a - limbs_val b) mod ?p = limbs_val a - limbs_val b"
      using calculation r assms by (intro mod_pos_pos_trivial) linarith+
    ultimately show ?thesis using 1 by (simp add: e)
  next
    case 2
    then have "limbs_val d = limbs_val a - limbs_val b + ?R" using D by simp
    moreover have "c = 0 \<or> c = 1" using bit_word_cases W by blast
    ultimately have v: "limbs_val w = limbs_val a - limbs_val b + ?p" "limbs_val a < limbs_val b"
      using W r assms by auto
    have "(limbs_val a - limbs_val b + ?p) mod ?p = limbs_val a - limbs_val b + ?p"
      using v r assms by (intro mod_pos_pos_trivial) simp_all
    then show ?thesis using 2 v by (simp add: e)
  qed
qed

section \<open>The Montgomery product\<close>

text \<open>
  A pass adds \<open>a bi\<close> and the multiple of \<open>P\<close> that clears the low limb, and drops that limb.
  \<open>t\<close> and the word above it stand for \<open>T = t + R ts\<close>.
\<close>

lemma mod_low_limb:
  assumes "2 ^ 64 dvd uint n0 * uint p0 + (1 :: int)" "mulAddCarry (t0 * n0) p0 t0 0 = (c, l)"
  shows "2 ^ 64 * uint (c :: u64) = uint (t0 * n0) * uint p0 + uint t0"
proof -
  have v: "uint l + 2 ^ 64 * uint c = uint (t0 * n0) * uint p0 + uint t0"
    using mulAddCarry [OF assms(2)] by simp
  have "2 ^ 64 dvd uint (t0 * n0) - uint t0 * uint n0"
    unfolding uint_word_ariths by (simp add: mod_eq_dvd_iff [symmetric])
  then have "2 ^ 64 dvd (uint (t0 * n0) - uint t0 * uint n0) * uint p0 + uint t0 * (uint n0 * uint p0 + 1)"
    using dvd_mult2 dvd_mult [OF assms(1)] by (intro dvd_add)
  also have "\<dots> = uint l + 2 ^ 64 * uint c" unfolding v by (simp add: algebra_simps)
  finally have "2 ^ 64 dvd uint l" using dvd_add_left_iff dvd_triv_left by blast
  then have "uint l = 0" using uint_u64 [of l] by (metis order_le_less zdvd_not_zless)
  then show ?thesis using v by simp
qed

lemma ctField8_row:
  assumes len: "length a = length (cf_p f)" "length t = length (cf_p f)" "0 < length (cf_p f)"
    and n0: "2 ^ 64 dvd uint (cf_n0 f) * uint (cf_p f ! 0) + (1 :: int)"
    and row: "ctField8_row f a bi (t, ts) = (t', ts')"
  shows "\<exists>m :: u64. 2 ^ 64 * (limbs_val t' + radix (length (cf_p f)) * uint ts') =
      limbs_val t + radix (length (cf_p f)) * uint ts + limbs_val a * uint bi + uint m * limbs_val (cf_p f)"
    and "length t' = length (cf_p f)"
proof -
  obtain p0 ps where p: "cf_p f = p0 # ps" using len(3) by (cases "cf_p f") auto
  obtain t1 c1 where r1: "mac_row a bi t 0 = (t1, c1)" by fastforce
  have R1: "limbs_val t1 + radix (length (cf_p f)) * uint c1 = limbs_val a * uint bi + limbs_val t" "length t1 = length (cf_p f)"
    using mac_row [OF _ r1] len by simp_all
  then obtain t0 tr where t1: "t1 = t0 # tr" using len(3) by (cases t1) auto
  obtain t8 cc where a1: "bits_Add64 ts c1 0 = (t8, cc)" by fastforce
  define m where "m = t0 * cf_n0 f"
  obtain c2 l where m0: "mulAddCarry m p0 t0 0 = (c2, l)" by fastforce
  obtain lo c3 where r2: "mac_row ps m tr c2 = (lo, c3)" by fastforce
  obtain t7 cc2 where a2: "bits_Add64 t8 c3 0 = (t7, cc2)" by fastforce
  have e: "t' = lo @ [t7]" "ts' = cc + cc2"
    using row by (auto simp: ctField8_row_def r1 t1 a1 p m_def [symmetric] m0 r2 a2)
  have R2: "limbs_val lo + radix (length ps) * uint c3 = limbs_val ps * uint m + limbs_val tr + uint c2" "length lo = length ps"
    using mac_row [OF _ r2] R1(2) by (simp_all add: t1 p)
  have A1: "uint t8 + 2 ^ 64 * uint cc = uint ts + uint c1" "uint cc \<le> 1" using bits_Add64 [OF a1] by simp_all
  have A2: "uint t7 + 2 ^ 64 * uint cc2 = uint t8 + uint c3" "uint cc2 \<le> 1" using bits_Add64 [OF a2] by simp_all
  have M: "2 ^ 64 * uint c2 = uint m * uint p0 + uint t0"
    using mod_low_limb [OF n0, of t0 c2 l] m0 by (simp add: p m_def)
  have ts': "uint ts' = uint cc + uint cc2"
    unfolding e by (rule uint_add_u64) (use A1(2) A2(2) in simp)
  show "length t' = length (cf_p f)" using R2(2) by (simp add: e p)
  let ?r = "radix (length ps)"
  have "2 ^ 64 * (limbs_val t' + 2 ^ 64 * ?r * uint ts') =
      2 ^ 64 * limbs_val lo + 2 ^ 64 * ?r * (uint t7 + 2 ^ 64 * uint cc2) + 2 ^ 64 * ?r * (2 ^ 64 * uint cc)"
    by (simp add: e(1) limbs_val_append R2(2) ts' algebra_simps)
  also have "\<dots> = 2 ^ 64 * (limbs_val lo + ?r * uint c3) + 2 ^ 64 * ?r * (uint t8 + 2 ^ 64 * uint cc)"
    unfolding A2(1) by (simp add: algebra_simps)
  also have "\<dots> = 2 ^ 64 * (limbs_val ps * uint m + limbs_val tr) + 2 ^ 64 * uint c2 + 2 ^ 64 * ?r * (uint ts + uint c1)"
    unfolding A1(1) R2(1) by (simp add: algebra_simps)
  also have "\<dots> = (limbs_val t1 + 2 ^ 64 * ?r * uint c1) + 2 ^ 64 * ?r * uint ts + uint m * limbs_val (cf_p f)"
    unfolding M by (simp add: t1 p algebra_simps)
  also have "limbs_val t1 + 2 ^ 64 * ?r * uint c1 = limbs_val a * uint bi + limbs_val t"
    using R1(1) by (simp add: p)
  finally show "\<exists>m :: u64. 2 ^ 64 * (limbs_val t' + radix (length (cf_p f)) * uint ts') =
      limbs_val t + radix (length (cf_p f)) * uint ts + limbs_val a * uint bi + uint m * limbs_val (cf_p f)"
    by (intro exI [of _ m]) (simp add: p algebra_simps)
qed

text \<open>The value stays below \<open>2 P\<close>.\<close>

lemma row_bound:
  assumes "B * T' = T + a * x + m * p" "T < 2 * p" "a < p" "0 \<le> x" "x \<le> B - 1" "0 \<le> m" "m \<le> B - 1" "0 \<le> a" "0 < B"
  shows "T' < 2 * (p :: int)"
proof -
  have "a * x \<le> (p - 1) * (B - 1)" using assms by (intro mult_mono) simp_all
  moreover have "m * p \<le> (B - 1) * p" using assms by (intro mult_right_mono) simp_all
  ultimately have "B * T' < B * (2 * p)" using assms(1,2,9) by (simp add: algebra_simps)
  then show ?thesis using assms(9) by (simp add: mult_less_cancel_left)
qed

lemma ctField8_rows:
  assumes len: "length a = length (cf_p f)" "0 < length (cf_p f)"
    and n0: "2 ^ 64 dvd uint (cf_n0 f) * uint (cf_p f ! 0) + (1 :: int)"
    and a: "limbs_val a < limbs_val (cf_p f)"
  shows "length t = length (cf_p f) \<Longrightarrow> limbs_val t + radix (length (cf_p f)) * uint ts < 2 * limbs_val (cf_p f) \<Longrightarrow>
    fold (ctField8_row f a) bs (t, ts) = (t', ts') \<Longrightarrow>
    length t' = length (cf_p f) \<and> limbs_val t' + radix (length (cf_p f)) * uint ts' < 2 * limbs_val (cf_p f) \<and>
    (\<exists>M. radix (length bs) * (limbs_val t' + radix (length (cf_p f)) * uint ts') =
       limbs_val t + radix (length (cf_p f)) * uint ts + limbs_val a * limbs_val bs + M * limbs_val (cf_p f))"
proof (induction bs arbitrary: t ts)
  case Nil
  then show ?case by (auto intro: exI [of _ 0])
next
  case (Cons bi bs)
  let ?p = "limbs_val (cf_p f)" and ?R = "radix (length (cf_p f))"
  obtain t1 ts1 where r: "ctField8_row f a bi (t, ts) = (t1, ts1)" by fastforce
  obtain m :: u64 where m: "2 ^ 64 * (limbs_val t1 + ?R * uint ts1) =
      limbs_val t + ?R * uint ts + limbs_val a * uint bi + uint m * ?p"
    using ctField8_row(1) [OF len(1) Cons.prems(1) len(2) n0 r] by blast
  have "limbs_val t1 + ?R * uint ts1 < 2 * ?p"
    by (rule row_bound [OF m Cons.prems(2) a])
      (use uint_u64_le [of bi] uint_u64_le [of m] in \<open>simp_all add: limbs_val_nonneg\<close>)
  with Cons.IH [OF ctField8_row(2) [OF len(1) Cons.prems(1) len(2) n0 r]] Cons.prems(3)
  obtain M where M: "length t' = length (cf_p f)" "limbs_val t' + ?R * uint ts' < 2 * ?p"
    "radix (length bs) * (limbs_val t' + ?R * uint ts') =
       limbs_val t1 + ?R * uint ts1 + limbs_val a * limbs_val bs + M * ?p"
    by (auto simp: r)
  have "radix (length (bi # bs)) * (limbs_val t' + ?R * uint ts') =
      2 ^ 64 * (limbs_val t1 + ?R * uint ts1 + limbs_val a * limbs_val bs + M * ?p)"
    by (simp only: M(3) [symmetric] length_Cons power_Suc mult.assoc)
  also have "\<dots> = 2 ^ 64 * (limbs_val t1 + ?R * uint ts1) + 2 ^ 64 * (limbs_val a * limbs_val bs + M * ?p)"
    by (simp add: algebra_simps)
  also have "\<dots> = limbs_val t + ?R * uint ts + limbs_val a * limbs_val (bi # bs) + (uint m + 2 ^ 64 * M) * ?p"
    unfolding m by (simp add: algebra_simps)
  finally show ?case using M by blast
qed

section \<open>Contexts\<close>

definition ctField_ok :: "nat \<Rightarrow> ctField \<Rightarrow> int \<Rightarrow> bool" where
  "ctField_ok n f P \<longleftrightarrow> 0 < n \<and> odd P \<and> length (cf_p f) = n \<and> limbs_val (cf_p f) = P \<and>
     2 ^ 64 dvd uint (cf_n0 f) * uint (cf_p f ! 0) + (1 :: int) \<and>
     length (cf_rr f) = n \<and> limbs_val (cf_rr f) = radix n * radix n mod P \<and>
     length (cf_one f) = n \<and> limbs_val (cf_one f) = radix n mod P"

lemma ctField_okD:
  assumes "ctField_ok n f P"
  shows "length (cf_p f) = n" "limbs_val (cf_p f) = P" "0 < n" "0 < P" "odd P" "P < radix n"
    "coprime (radix n) P"
proof -
  show l: "length (cf_p f) = n" "limbs_val (cf_p f) = P" "0 < n" "odd P" using assms by (simp_all add: ctField_ok_def)
  show "P < radix n" using limbs_val_range [of "cf_p f"] unfolding l(1,2) by (rule conjunct2)
  have "P \<noteq> 0" using l(4) by (rule contrapos_nn) simp
  then show "0 < P" using limbs_val_nonneg [of "cf_p f"] unfolding l(2) by linarith
  show "coprime (radix n) P" using l(4) by (simp only: coprime_power_left_iff coprime_left_2_iff_odd) simp
qed

lemma newCTField_n_ok:
  assumes p: "0 < p" "odd p" "big_BitLen p \<le> n * 64" and n: "0 < n"
  obtains f where "newCTField_n n msg p = Inr f" "ctField_ok n f p"
proof -
  have pw: "(2 :: int) ^ (n * 64) = radix n" by (simp only: power_mult [symmetric] mult.commute)
  have "p < 2 ^ big_BitLen p" using big_BitLen_bound [of p] p by simp
  also have "\<dots> \<le> 2 ^ (n * 64)" using p(3) by (rule power_increasing) simp
  finally have pr: "p < radix n" unfolding pw .
  define p0 where "p0 = uint (feFromBig n p ! 0)"
  have p0: "p0 = p mod 2 ^ 64" using p n by (simp add: p0_def feFromBig_def uint_word_of_int)
  have "coprime p0 (2 ^ 64)" using p 
    by (simp only: coprime_power_right_iff coprime_right_2_iff_odd) (use p in \<open>simp add: p0 dvd_mod_iff\<close>)
  then obtain i where i: "big_ModInverse p0 (2 ^ 64) = Some i" using big_ModInverse_coprime [of "2 ^ 64" p0] by auto
  have I: "2 ^ 64 dvd i * p0 - 1" by (rule big_ModInverse_Some(3) [OF i]) simp
  define f where "f = \<lparr>cf_p = feFromBig n p, cf_n0 = word_of_int (2 ^ 64 - i),
    cf_rr = feFromBig n (radix n * radix n mod p), cf_one = feFromBig n (radix n mod p)\<rparr>"
  have "newCTField_n n msg p = Inr f"
    using p i by (simp add: newCTField_n_def big_Bit_def f_def p0_def [symmetric] push_bit_eq_mult pw Let_def bit_0)
  moreover have "2 ^ 64 dvd uint (cf_n0 f) * uint (cf_p f ! 0) + (1 :: int)"
  proof -
    have "uint (cf_n0 f) = (2 ^ 64 - i) mod 2 ^ 64"
      unfolding f_def ctField.simps uint_word_of_int by simp
    then have "(uint (cf_n0 f) * p0 + 1) mod 2 ^ 64 = ((2 ^ 64 - i) * p0 + 1) mod 2 ^ 64"
      by (intro mod_add_cong mod_mult_cong) simp_all
    also have "\<dots> = (2 ^ 64 * p0 - (i * p0 - 1)) mod 2 ^ 64" by (simp add: algebra_simps)
    also have "\<dots> = 0" using dvd_diff [OF dvd_triv_left I] by (rule dvd_imp_mod_0)
    finally show ?thesis by (simp add: p0_def f_def dvd_eq_mod_eq_0)
  qed
  moreover have "limbs_val (feFromBig n (x mod p)) = x mod p" for x
    using p pr pos_mod_bound [of p x] pos_mod_sign [of p x] by (intro limbs_val_feFromBig) linarith+
  ultimately show ?thesis
    using that p n pr by (simp add: ctField_ok_def f_def limbs_val_feFromBig)
qed

lemma newCTField_n_Inr:
  assumes f: "newCTField_n n msg p = Inr f" and n: "0 < n"
  shows "ctField_ok n f p"
proof -
  have p: "\<not> p \<le> 0" "\<not> big_BitLen p > n * 64" "big_Bit p 0 \<noteq> 0"
    using f unfolding newCTField_n_def by (metis sum.distinct(1))+
  then have "0 < p" "odd p" "big_BitLen p \<le> n * 64" by (simp_all add: big_Bit_def bit_0 split: if_splits)
  then show ?thesis by (rule newCTField_n_ok [OF _ _ _ n, where msg = msg]) (simp add: f)
qed

section \<open>The two sets of field operations\<close>

text \<open>
  The point and scalar code exists twice, over each width. The operations it calls are a record,
  and the contract is a locale that both widths satisfy.
\<close>

record fe_ops =
  fo_limbs :: nat
  fo_mul :: "ctField \<Rightarrow> fe \<Rightarrow> fe \<Rightarrow> fe"
  fo_add :: "ctField \<Rightarrow> fe \<Rightarrow> fe \<Rightarrow> fe"
  fo_sub :: "ctField \<Rightarrow> fe \<Rightarrow> fe \<Rightarrow> fe"

definition ops4 :: fe_ops where
  "ops4 = \<lparr>fo_limbs = 4, fo_mul = ctField_mul, fo_add = ctField_add, fo_sub = ctField_sub\<rparr>"

definition ops8 :: fe_ops where
  "ops8 = \<lparr>fo_limbs = 8, fo_mul = ctField8_mul, fo_add = ctField8_add, fo_sub = ctField8_sub\<rparr>"

definition toMont :: "fe_ops \<Rightarrow> ctField \<Rightarrow> fe \<Rightarrow> fe" where
  "toMont Op f a = fo_mul Op f a (cf_rr f)"

definition fromMont :: "fe_ops \<Rightarrow> ctField \<Rightarrow> fe \<Rightarrow> fe" where
  "fromMont Op f a = (let lit = replicate (fo_limbs Op) 0; lit = lit[0 := 1] in fo_mul Op f a lit)"

definition ctField_inv :: "fe_ops \<Rightarrow> ctField \<Rightarrow> fe \<Rightarrow> fe" where
  "ctField_inv Op f a =
     (let e = bigFromFe (cf_p f) - 2
      in fold (\<lambda>i result.
           let result = fo_mul Op f result result
           in if big_Bit e i = 1 then fo_mul Op f result a else result)
         (rev [0..<big_BitLen e]) (cf_one f))"

definition fe_reduced :: "ctField \<Rightarrow> fe \<Rightarrow> bool" where
  "fe_reduced f a \<longleftrightarrow> length a = length (cf_p f) \<and> limbs_val a < limbs_val (cf_p f)"

locale mont_ops =
  fixes Op :: fe_ops
  assumes mul: "ctField_ok (fo_limbs Op) f P \<Longrightarrow> fe_reduced f a \<Longrightarrow> length b = fo_limbs Op \<Longrightarrow>
      fe_reduced f (fo_mul Op f a b) \<and>
      P dvd limbs_val (fo_mul Op f a b) * radix (fo_limbs Op) - limbs_val a * limbs_val b"
    and add: "ctField_ok (fo_limbs Op) f P \<Longrightarrow> fe_reduced f a \<Longrightarrow> fe_reduced f b \<Longrightarrow>
      fe_reduced f (fo_add Op f a b) \<and> limbs_val (fo_add Op f a b) = (limbs_val a + limbs_val b) mod P"
    and sub: "ctField_ok (fo_limbs Op) f P \<Longrightarrow> fe_reduced f a \<Longrightarrow> fe_reduced f b \<Longrightarrow>
      fe_reduced f (fo_sub Op f a b) \<and> limbs_val (fo_sub Op f a b) = (limbs_val a - limbs_val b) mod P"

lemma rows_mul:
  assumes ok: "ctField_ok n f P" and a: "fe_reduced f a" and b: "length b = n"
    and m: "(case fold (\<lambda>i. ctField8_row f a (b ! i)) [0..<n] (replicate n 0, 0) of (t, ts) \<Rightarrow> condSubP8 f t ts) = r"
  shows "fe_reduced f r \<and> P dvd limbs_val r * radix n - limbs_val a * limbs_val b"
proof -
  note D = ctField_okD [OF ok]
  have "fold (\<lambda>i. ctField8_row f a (b ! i)) [0..<n] s = fold (ctField8_row f a) (map ((!) b) [0..<n]) s" for s
    by (simp add: fold_map comp_def)
  then have "fold (\<lambda>i. ctField8_row f a (b ! i)) [0..<n] s = fold (ctField8_row f a) b s" for s
    using map_nth [of b] b by simp
  then obtain t ts where t: "fold (ctField8_row f a) b (replicate n 0, 0) = (t, ts)" "condSubP8 f t ts = r"
    using m by (auto split: prod.splits)
  have n0: "2 ^ 64 dvd uint (cf_n0 f) * uint (cf_p f ! 0) + (1 :: int)" using ok by (simp add: ctField_ok_def)
  define T where "T = limbs_val t + radix n * uint ts"
  from ctField8_rows [OF _ _ n0, of a "replicate n 0" 0 b t ts] obtain M where
    M: "length t = n" "T < 2 * P" "radix n * T = limbs_val a * limbs_val b + M * P"
    using a t(1) D b by (auto simp: fe_reduced_def T_def)
  have "uint ts \<le> 1"
  proof (rule ccontr)
    assume "\<not> uint ts \<le> 1"
    then have "radix n * 2 \<le> radix n * uint ts" by (intro mult_left_mono) simp_all
    then show False using M(2) D(6) limbs_val_nonneg [of t] unfolding T_def by linarith
  qed
  from condSubP [OF _ this, of t f T] have r: "length r = n" "limbs_val r = T mod P"
    using M D t(2) by (simp_all add: condSubP8_eq T_def)
  have "P dvd limbs_val r - T" unfolding r(2) by (rule dvd_mod_diff)
  then have "P dvd (limbs_val r - T) * radix n + M * P" by simp
  also have "(limbs_val r - T) * radix n + M * P = limbs_val r * radix n - limbs_val a * limbs_val b"
    using M(3) by (simp add: algebra_simps)
  finally show ?thesis using D r by (simp add: fe_reduced_def)
qed

interpretation mont8: mont_ops ops8
proof
  fix f P a b
  assume ok: "ctField_ok (fo_limbs ops8) f P" and a: "fe_reduced f a"
  note D = ctField_okD [OF ok]
  show "length b = fo_limbs ops8 \<Longrightarrow> fe_reduced f (fo_mul ops8 f a b) \<and>
      P dvd limbs_val (fo_mul ops8 f a b) * radix (fo_limbs ops8) - limbs_val a * limbs_val b"
    by (rule rows_mul [OF ok a]) (simp_all add: ops8_def ctField8_mul_def Let_def)
  assume b: "fe_reduced f b"
  show "fe_reduced f (fo_add ops8 f a b) \<and> limbs_val (fo_add ops8 f a b) = (limbs_val a + limbs_val b) mod P"
    "fe_reduced f (fo_sub ops8 f a b) \<and> limbs_val (fo_sub ops8 f a b) = (limbs_val a - limbs_val b) mod P"
    using ctField8_add [of a f b] ctField8_sub [of a f b] a b D by (simp_all add: fe_reduced_def ops8_def)
qed

interpretation mont4: mont_ops ops4
proof
  fix f P a b
  assume ok: "ctField_ok (fo_limbs ops4) f P" and a: "fe_reduced f a"
  note D = ctField_okD [OF ok]
  have four: "length a = 4" "length (cf_p f) = 4" using D a by (simp_all add: fe_reduced_def ops4_def)
  show "length b = fo_limbs ops4 \<Longrightarrow> fe_reduced f (fo_mul ops4 f a b) \<and>
      P dvd limbs_val (fo_mul ops4 f a b) * radix (fo_limbs ops4) - limbs_val a * limbs_val b"
    by (rule rows_mul [OF ok a]) (use ctField_mul_loop [OF four] in \<open>simp_all add: ops4_def Let_def\<close>)
  assume b: "fe_reduced f b"
  show "fe_reduced f (fo_add ops4 f a b) \<and> limbs_val (fo_add ops4 f a b) = (limbs_val a + limbs_val b) mod P"
    "fe_reduced f (fo_sub ops4 f a b) \<and> limbs_val (fo_sub ops4 f a b) = (limbs_val a - limbs_val b) mod P"
    using ctField8_add [of a f b] ctField8_sub [of a f b] a b D four
    by (simp_all add: fe_reduced_def ops4_def ctField_add_loop ctField_sub_loop)
qed

section \<open>Representatives\<close>

definition frel :: "nat \<Rightarrow> ctField \<Rightarrow> int \<Rightarrow> fe \<Rightarrow> int \<Rightarrow> bool" where
  "frel n f P a x \<longleftrightarrow> fe_reduced f a \<and> P dvd limbs_val a - x * radix n"

lemma frelI:
  "fe_reduced f a \<Longrightarrow> P dvd limbs_val a - x * radix n \<Longrightarrow> frel n f P a x"
  by (simp add: frel_def)

lemma frel_cong: "frel n f P a x \<Longrightarrow> P dvd x - y \<Longrightarrow> frel n f P a y"
proof -
  assume a: "frel n f P a x" "P dvd x - y"
  then have "P dvd (limbs_val a - x * radix n) + (x - y) * radix n" by (simp add: frel_def)
  also have "(limbs_val a - x * radix n) + (x - y) * radix n = limbs_val a - y * radix n"
    by (simp add: algebra_simps)
  finally show ?thesis using a by (simp add: frel_def)
qed

lemma ctField_ok_cancel:
  assumes "ctField_ok n f P" "P dvd x * radix n"
  shows "P dvd x"
  using assms(2) ctField_okD(7) [OF assms(1)] by (simp only: coprime_dvd_mult_left_iff coprime_commute)

lemma frel_zero_iff:
  assumes ok: "ctField_ok n f P" and a: "frel n f P a x"
  shows "a = replicate n 0 \<longleftrightarrow> P dvd x"
proof -
  note D = ctField_okD [OF ok]
  have r: "0 \<le> limbs_val a" "limbs_val a < P" "length a = n" and d: "P dvd limbs_val a - x * radix n"
    using a D limbs_val_nonneg by (simp_all add: frel_def fe_reduced_def)
  have "a = replicate n 0 \<longleftrightarrow> limbs_val a = 0"
    using limbs_val_inj [of a "replicate n 0"] r(3) limbs_val_replicate by (metis length_replicate)
  also have "\<dots> \<longleftrightarrow> P dvd limbs_val a" using r by (auto dest: zdvd_imp_le simp: order_less_le)
  also have "\<dots> \<longleftrightarrow> P dvd x * radix n" using d by (metis mod_eq_dvd_iff dvd_eq_mod_eq_0)
  also have "\<dots> \<longleftrightarrow> P dvd x" by (rule iffI) (erule ctField_ok_cancel [OF ok], erule dvd_mult2)
  finally show ?thesis .
qed

lemma frel_one:
  assumes ok: "ctField_ok n f P"
  shows "frel n f P (cf_one f) 1"
proof (rule frelI)
  note D = ctField_okD [OF ok]
  have o: "length (cf_one f) = n" "limbs_val (cf_one f) = radix n mod P" using ok by (simp_all add: ctField_ok_def)
  show "fe_reduced f (cf_one f)" unfolding fe_reduced_def o D(1,2) using D(4) by simp
  show "P dvd limbs_val (cf_one f) - 1 * radix n" unfolding o mult_1 by (rule dvd_mod_diff)
qed

lemma frel_zero:
  assumes ok: "ctField_ok n f P"
  shows "frel n f P (replicate n 0) 0"
  using ctField_okD(1,2,4) [OF ok] by (simp add: frel_def fe_reduced_def)

lemma feEqual_eq: "length a = length b \<Longrightarrow> feEqual a b \<longleftrightarrow> a = b"
proof -
  assume len: "length a = length b"
  have "fold (\<lambda>(x, y) diff. diff OR (x XOR y)) (zip a b) d = 0 \<longleftrightarrow> d = 0 \<and> a = b" for d
    using len by (induction a b arbitrary: d rule: list_induct2) (auto simp: xor_eq_0_word_iff or_eq_0_iff)
  then show ?thesis by (simp add: feEqual_def)
qed

context mont_ops
begin

lemma frel_mul:
  assumes ok: "ctField_ok (fo_limbs Op) f P" and a: "frel (fo_limbs Op) f P a x" and b: "frel (fo_limbs Op) f P b y"
  shows "frel (fo_limbs Op) f P (fo_mul Op f a b) (x * y)"
proof (rule frelI)
  let ?R = "radix (fo_limbs Op)" and ?m = "limbs_val (fo_mul Op f a b)"
  note M = mul [OF ok, of a b] and D = ctField_okD [OF ok]
  have r: "fe_reduced f (fo_mul Op f a b)" "P dvd ?m * ?R - limbs_val a * limbs_val b"
    using M a b D by (simp_all add: frel_def fe_reduced_def)
  then show "fe_reduced f (fo_mul Op f a b)" by simp
  have "P dvd (limbs_val a - x * ?R) * limbs_val b" "P dvd x * ?R * (limbs_val b - y * ?R)"
    using a b by (simp_all add: frel_def)
  then have "P dvd (?m * ?R - limbs_val a * limbs_val b) + (limbs_val a - x * ?R) * limbs_val b + x * ?R * (limbs_val b - y * ?R)"
    using r(2) by (intro dvd_add)
  also have "\<dots> = (?m - x * y * ?R) * ?R" by (simp add: algebra_simps)
  finally show "P dvd ?m - x * y * ?R" by (rule ctField_ok_cancel [OF ok])
qed

lemma frel_add:
  assumes ok: "ctField_ok (fo_limbs Op) f P" and a: "frel (fo_limbs Op) f P a x" and b: "frel (fo_limbs Op) f P b y"
  shows "frel (fo_limbs Op) f P (fo_add Op f a b) (x + y)"
proof (rule frelI)
  let ?R = "radix (fo_limbs Op)" and ?s = "limbs_val a + limbs_val b"
  have r: "fe_reduced f (fo_add Op f a b)" "limbs_val (fo_add Op f a b) = ?s mod P"
    using add [OF ok, of a b] a b by (simp_all add: frel_def)
  then show "fe_reduced f (fo_add Op f a b)" by simp
  have "P dvd (?s mod P - ?s) + (limbs_val a - x * ?R) + (limbs_val b - y * ?R)"
    using a b dvd_mod_diff by (intro dvd_add) (simp_all add: frel_def)
  also have "\<dots> = ?s mod P - (x + y) * ?R" by (simp add: algebra_simps)
  finally show "P dvd limbs_val (fo_add Op f a b) - (x + y) * ?R" by (simp only: r(2))
qed

lemma frel_sub:
  assumes ok: "ctField_ok (fo_limbs Op) f P" and a: "frel (fo_limbs Op) f P a x" and b: "frel (fo_limbs Op) f P b y"
  shows "frel (fo_limbs Op) f P (fo_sub Op f a b) (x - y)"
proof (rule frelI)
  let ?R = "radix (fo_limbs Op)" and ?s = "limbs_val a - limbs_val b"
  have r: "fe_reduced f (fo_sub Op f a b)" "limbs_val (fo_sub Op f a b) = ?s mod P"
    using sub [OF ok, of a b] a b by (simp_all add: frel_def)
  then show "fe_reduced f (fo_sub Op f a b)" by simp
  have "P dvd limbs_val a - x * ?R" "P dvd limbs_val b - y * ?R" using a b by (simp_all add: frel_def)
  then have "P dvd (?s mod P - ?s) + (limbs_val a - x * ?R) - (limbs_val b - y * ?R)"
    by (rule dvd_diff [OF dvd_add [OF dvd_mod_diff]])
  also have "\<dots> = ?s mod P - (x - y) * ?R" by (simp add: algebra_simps)
  finally show "P dvd limbs_val (fo_sub Op f a b) - (x - y) * ?R" by (simp only: r(2))
qed

lemma frel_toMont:
  assumes ok: "ctField_ok (fo_limbs Op) f P" and x: "0 \<le> x" "x < P"
  shows "frel (fo_limbs Op) f P (toMont Op f (feFromBig (fo_limbs Op) x)) x"
proof (rule frelI)
  let ?R = "radix (fo_limbs Op)" and ?a = "feFromBig (fo_limbs Op) x"
  let ?m = "limbs_val (fo_mul Op f ?a (cf_rr f))"
  note D = ctField_okD [OF ok]
  have v: "limbs_val ?a = x" using x D by (intro limbs_val_feFromBig) linarith+
  have a: "fe_reduced f ?a" using x D by (simp add: fe_reduced_def v)
  have rr: "length (cf_rr f) = fo_limbs Op" "limbs_val (cf_rr f) = ?R * ?R mod P" using ok by (simp_all add: ctField_ok_def)
  from mul [OF ok a rr(1)] have m: "fe_reduced f (fo_mul Op f ?a (cf_rr f))" "P dvd ?m * ?R - x * (?R * ?R mod P)"
    by (simp_all add: v rr)
  then show "fe_reduced f (toMont Op f ?a)" by (simp add: toMont_def)
  have "P dvd x * (?R * ?R mod P - ?R * ?R)" by (intro dvd_mult dvd_mod_diff)
  then have "P dvd (?m * ?R - x * (?R * ?R mod P)) + x * (?R * ?R mod P - ?R * ?R)" using m(2) by (intro dvd_add)
  also have "\<dots> = (?m - x * ?R) * ?R" by (simp add: algebra_simps)
  finally show "P dvd limbs_val (toMont Op f ?a) - x * ?R" unfolding toMont_def by (rule ctField_ok_cancel [OF ok])
qed

lemma fromMont:
  assumes ok: "ctField_ok (fo_limbs Op) f P" and a: "frel (fo_limbs Op) f P a x"
  shows "limbs_val (fromMont Op f a) = x mod P"
proof -
  let ?R = "radix (fo_limbs Op)" and ?l = "(replicate (fo_limbs Op) 0)[0 := 1] :: fe"
  note D = ctField_okD [OF ok]
  have "limbs_val ((replicate n 0)[0 := 1] :: fe) = 1" if "0 < n" for n using that by (cases n) simp_all
  then have l: "limbs_val ?l = 1" using D(3) by blast
  have "fe_reduced f a" using a by (simp add: frel_def)
  from mul [OF ok this, of ?l] have m: "fe_reduced f (fromMont Op f a)" "P dvd limbs_val (fromMont Op f a) * ?R - limbs_val a"
    using l by (simp_all add: fromMont_def)
  have "P dvd (limbs_val (fromMont Op f a) * ?R - limbs_val a) + (limbs_val a - x * ?R)"
    using m(2) a by (intro dvd_add) (simp_all add: frel_def)
  also have "\<dots> = (limbs_val (fromMont Op f a) - x) * ?R" by (simp add: algebra_simps)
  finally have "P dvd limbs_val (fromMont Op f a) - x" by (rule ctField_ok_cancel [OF ok])
  then have "limbs_val (fromMont Op f a) mod P = x mod P" by (simp add: mod_eq_dvd_iff)
  then show ?thesis using m(1) D limbs_val_nonneg by (simp add: fe_reduced_def)
qed

text \<open>\<^verbatim>\<open>inv\<close> raises to the power \<open>P - 2\<close>, for every modulus above 2.\<close>

lemma frel_inv:
  assumes ok: "ctField_ok (fo_limbs Op) f P" and P: "2 < P" and a: "frel (fo_limbs Op) f P a x"
  shows "frel (fo_limbs Op) f P (ctField_inv Op f a) (x ^ nat (P - 2))"
proof -
  let ?F = "\<lambda>i result. let result = fo_mul Op f result result
           in if big_Bit (P - 2) i = 1 then fo_mul Op f result a else result"
  have step: "frel (fo_limbs Op) f P (?F i r) (x ^ (2 * e + big_Bit (P - 2) i))"
    if r: "frel (fo_limbs Op) f P r (x ^ e)" for i r e
  proof -
    have "frel (fo_limbs Op) f P (fo_mul Op f r r) (x ^ (2 * e))"
      using frel_mul [OF ok r r] by (simp only: power_add [symmetric] mult_2)
    moreover from frel_mul [OF ok this a]
    have "frel (fo_limbs Op) f P (fo_mul Op f (fo_mul Op f r r) a) (x ^ (2 * e + 1))"
      by (simp add: mult.commute)
    ultimately show ?thesis using big_Bit_cases [of "P - 2" i] by (auto simp: Let_def)
  qed
  have "frel (fo_limbs Op) f P (fold ?F js r) (x ^ fold (\<lambda>i e. 2 * e + big_Bit (P - 2) i) js e)"
    if "frel (fo_limbs Op) f P r (x ^ e)" for js r e
    using that by (induction js arbitrary: r e) (simp_all only: fold_simps step)
  from this [of "cf_one f" 0 "rev [0..<big_BitLen (P - 2)]"] show ?thesis
    using frel_one [OF ok] P big_bits_nat [of "P - 2"]
    by (simp only: ctField_inv_def bigFromFe_val ctField_okD(2) [OF ok] Let_def power_0)
qed

lemma frel_self:
  assumes ok: "ctField_ok (fo_limbs Op) f P" and a: "fe_reduced f a"
  obtains x where "frel (fo_limbs Op) f P a x"
proof -
  obtain u v where "u * radix (fo_limbs Op) + v * P = 1"
    using bezout_int [of "radix (fo_limbs Op)" P] ctField_okD(7) [OF ok] by (auto simp: coprime_iff_gcd_eq_1)
  then have "radix (fo_limbs Op) * u - 1 = P * - v" by (simp add: algebra_simps)
  then have "P dvd radix (fo_limbs Op) * u - 1" by simp
  then have "P dvd limbs_val a * (radix (fo_limbs Op) * u - 1)" by simp
  then have "P dvd limbs_val a - (limbs_val a * u) * radix (fo_limbs Op)"
    by (subst dvd_minus_iff [symmetric]) (simp add: algebra_simps)
  with a that show ?thesis by (simp add: frel_def)
qed

text \<open>The conversion into Montgomery form and back, and the inverse.\<close>

lemma toMont_fromMont:
  assumes ok: "ctField_ok (fo_limbs Op) f P" and x: "0 \<le> x" "x < P"
  shows "fe_reduced f (toMont Op f (feFromBig (fo_limbs Op) x))"
    and "limbs_val (toMont Op f (feFromBig (fo_limbs Op) x)) = x * radix (fo_limbs Op) mod P"
    and "limbs_val (fromMont Op f (toMont Op f (feFromBig (fo_limbs Op) x))) = x"
proof -
  note t = frel_toMont [OF ok x] and D = ctField_okD [OF ok]
  then show r: "fe_reduced f (toMont Op f (feFromBig (fo_limbs Op) x))" by (simp add: frel_def)
  from t have "limbs_val (toMont Op f (feFromBig (fo_limbs Op) x)) mod P = x * radix (fo_limbs Op) mod P"
    by (simp add: frel_def mod_eq_dvd_iff)
  then show "limbs_val (toMont Op f (feFromBig (fo_limbs Op) x)) = x * radix (fo_limbs Op) mod P"
    using r D limbs_val_nonneg by (simp add: fe_reduced_def)
  show "limbs_val (fromMont Op f (toMont Op f (feFromBig (fo_limbs Op) x))) = x"
    using fromMont [OF ok t] x by simp
qed

lemma inv_mul:
  assumes ok: "ctField_ok (fo_limbs Op) f P" and p: "field_char P" and a: "fe_reduced f a" "limbs_val a \<noteq> 0"
  shows "fe_reduced f (ctField_inv Op f a)" and "fo_mul Op f (ctField_inv Op f a) a = cf_one f"
proof -
  let ?n = "fo_limbs Op"
  obtain x where x: "frel ?n f P a x" by (rule frel_self [OF ok a(1)])
  have P: "2 < P" using p by (simp add: field_char_def)
  then have e: "nat (P - 1) = Suc (nat (P - 2))" by simp
  note i = frel_inv [OF ok P x] and D = ctField_okD [OF ok]
  then show "fe_reduced f (ctField_inv Op f a)" by (simp add: frel_def)
  have "a \<noteq> replicate ?n 0" using a(2) limbs_val_replicate by metis
  then have "\<not> P dvd x" using frel_zero_iff [OF ok x] by blast
  from field_fermat [OF p this] have "P dvd x ^ nat (P - 2) * x - 1" by (simp add: e mult.commute)
  from frel_cong [OF frel_mul [OF ok i x] this]
  have m: "frel ?n f P (fo_mul Op f (ctField_inv Op f a) a) 1" .
  have "limbs_val (fo_mul Op f (ctField_inv Op f a) a) mod P = limbs_val (cf_one f) mod P"
    using m frel_one [OF ok] unfolding frel_def mod_eq_dvd_iff by (metis dvd_diff diff_diff_eq2 diff_add_cancel)
  then have "limbs_val (fo_mul Op f (ctField_inv Op f a) a) = limbs_val (cf_one f)"
    using m frel_one [OF ok] D limbs_val_nonneg by (simp add: frel_def fe_reduced_def)
  then show "fo_mul Op f (ctField_inv Op f a) a = cf_one f"
    using m frel_one [OF ok] by (intro limbs_val_inj) (simp_all add: frel_def fe_reduced_def)
qed

end

end
