(* ===== verification/RCB.thy ===== *)
theory RCB
  imports Curves
begin

text \<open>
  The projective formulas of \<^verbatim>\<open>gost3410curves/ctpoint.go\<close> (Renes, Costello and Batina), over any
  field operations, and what they compute over the integers modulo the field characteristic:
  the sum of the curve, on any set of its points that is closed under sum and opposite and has no point
  of order two. With such a point they do not.
\<close>

section \<open>The formulas\<close>

type_synonym 'a ctPoint = "'a \<times> 'a \<times> 'a"

definition rcb_add ::
  "('a \<Rightarrow> 'a \<Rightarrow> 'a) \<Rightarrow> ('a \<Rightarrow> 'a \<Rightarrow> 'a) \<Rightarrow> ('a \<Rightarrow> 'a \<Rightarrow> 'a) \<Rightarrow> 'a \<Rightarrow> 'a \<Rightarrow> 'a ctPoint \<Rightarrow> 'a ctPoint \<Rightarrow> 'a ctPoint" where
  "rcb_add fmul fadd fsub a b3 p q =
     (let (x1, y1, z1) = p;
          (x2, y2, z2) = q;
          t0 = fmul x1 x2;
          t1 = fmul y1 y2;
          t2 = fmul z1 z2;
          t3 = fadd x1 y1;
          t4 = fadd x2 y2;
          t3 = fmul t3 t4;
          t4 = fadd t0 t1;
          t3 = fsub t3 t4;
          t4 = fadd x1 z1;
          t5 = fadd x2 z2;
          t4 = fmul t4 t5;
          t5 = fadd t0 t2;
          t4 = fsub t4 t5;
          t5 = fadd y1 z1;
          x3 = fadd y2 z2;
          t5 = fmul t5 x3;
          x3 = fadd t1 t2;
          t5 = fsub t5 x3;
          z3 = fmul a t4;
          x3 = fmul b3 t2;
          z3 = fadd x3 z3;
          x3 = fsub t1 z3;
          z3 = fadd t1 z3;
          y3 = fmul x3 z3;
          t1 = fadd t0 t0;
          t1 = fadd t1 t0;
          t2 = fmul a t2;
          t4 = fmul b3 t4;
          t1 = fadd t1 t2;
          t2 = fsub t0 t2;
          t2 = fmul a t2;
          t4 = fadd t4 t2;
          t0 = fmul t1 t4;
          y3 = fadd y3 t0;
          t0 = fmul t5 t4;
          x3 = fmul t3 x3;
          x3 = fsub x3 t0;
          t0 = fmul t3 t1;
          z3 = fmul t5 z3;
          z3 = fadd z3 t0
      in (x3, y3, z3))"

definition rcb_double ::
  "('a \<Rightarrow> 'a \<Rightarrow> 'a) \<Rightarrow> ('a \<Rightarrow> 'a \<Rightarrow> 'a) \<Rightarrow> ('a \<Rightarrow> 'a \<Rightarrow> 'a) \<Rightarrow> 'a \<Rightarrow> 'a \<Rightarrow> 'a ctPoint \<Rightarrow> 'a ctPoint" where
  "rcb_double fmul fadd fsub a b3 p =
     (let (x1, y1, z1) = p;
          t0 = fmul x1 x1;
          t1 = fmul y1 y1;
          t2 = fmul z1 z1;
          t3 = fmul x1 y1;
          t3 = fadd t3 t3;
          z3 = fmul x1 z1;
          z3 = fadd z3 z3;
          x3 = fmul a z3;
          y3 = fmul b3 t2;
          y3 = fadd x3 y3;
          x3 = fsub t1 y3;
          y3 = fadd t1 y3;
          y3 = fmul x3 y3;
          x3 = fmul t3 x3;
          z3 = fmul b3 z3;
          t2 = fmul a t2;
          t3 = fsub t0 t2;
          t3 = fmul a t3;
          t3 = fadd t3 z3;
          z3 = fadd t0 t0;
          t0 = fadd z3 t0;
          t0 = fadd t0 t2;
          t0 = fmul t0 t3;
          y3 = fadd y3 t0;
          t2 = fmul y1 z1;
          t2 = fadd t2 t2;
          t0 = fmul t2 t3;
          x3 = fsub x3 t0;
          z3 = fmul t2 t1;
          z3 = fadd z3 z3;
          z3 = fadd z3 z3
      in (x3, y3, z3))"

section \<open>As polynomials\<close>

definition rcb_X :: "int \<Rightarrow> int \<Rightarrow> int \<Rightarrow> int \<Rightarrow> int \<Rightarrow> int \<Rightarrow> int \<Rightarrow> int \<Rightarrow> int" where
  "rcb_X a b3 x1 y1 z1 x2 y2 z2 =
     (x1 * y2 + x2 * y1) * (y1 * y2 - a * (x1 * z2 + x2 * z1) - b3 * (z1 * z2)) -
     (y1 * z2 + y2 * z1) * (a * (x1 * x2) + b3 * (x1 * z2 + x2 * z1) - a * a * (z1 * z2))"

definition rcb_Y :: "int \<Rightarrow> int \<Rightarrow> int \<Rightarrow> int \<Rightarrow> int \<Rightarrow> int \<Rightarrow> int \<Rightarrow> int \<Rightarrow> int" where
  "rcb_Y a b3 x1 y1 z1 x2 y2 z2 =
     (y1 * y2 + a * (x1 * z2 + x2 * z1) + b3 * (z1 * z2)) * (y1 * y2 - a * (x1 * z2 + x2 * z1) - b3 * (z1 * z2)) +
     (3 * (x1 * x2) + a * (z1 * z2)) * (a * (x1 * x2) + b3 * (x1 * z2 + x2 * z1) - a * a * (z1 * z2))"

definition rcb_Z :: "int \<Rightarrow> int \<Rightarrow> int \<Rightarrow> int \<Rightarrow> int \<Rightarrow> int \<Rightarrow> int \<Rightarrow> int \<Rightarrow> int" where
  "rcb_Z a b3 x1 y1 z1 x2 y2 z2 =
     (y1 * z2 + y2 * z1) * (y1 * y2 + a * (x1 * z2 + x2 * z1) + b3 * (z1 * z2)) +
     (x1 * y2 + x2 * y1) * (3 * (x1 * x2) + a * (z1 * z2))"

abbreviation int_add :: "int \<Rightarrow> int \<Rightarrow> int ctPoint \<Rightarrow> int ctPoint \<Rightarrow> int ctPoint" where
  "int_add \<equiv> rcb_add (*) (+) (-)"

abbreviation int_double :: "int \<Rightarrow> int \<Rightarrow> int ctPoint \<Rightarrow> int ctPoint" where
  "int_double \<equiv> rcb_double (*) (+) (-)"

lemma int_add:
  "int_add a b3 (x1, y1, z1) (x2, y2, z2) =
     (rcb_X a b3 x1 y1 z1 x2 y2 z2, rcb_Y a b3 x1 y1 z1 x2 y2 z2, rcb_Z a b3 x1 y1 z1 x2 y2 z2)"
  unfolding rcb_add_def rcb_X_def rcb_Y_def rcb_Z_def Let_def prod.case prod.inject
  by (intro conjI; algebra)

lemma rcb_X_scale: "rcb_X a b3 (x1 * z1) (y1 * z1) z1 (x2 * z2) (y2 * z2) z2 = (z1 * z2)\<^sup>2 * rcb_X a b3 x1 y1 1 x2 y2 1"
  unfolding rcb_X_def by algebra

lemma rcb_Y_scale: "rcb_Y a b3 (x1 * z1) (y1 * z1) z1 (x2 * z2) (y2 * z2) z2 = (z1 * z2)\<^sup>2 * rcb_Y a b3 x1 y1 1 x2 y2 1"
  unfolding rcb_Y_def by algebra

lemma rcb_Z_scale: "rcb_Z a b3 (x1 * z1) (y1 * z1) z1 (x2 * z2) (y2 * z2) z2 = (z1 * z2)\<^sup>2 * rcb_Z a b3 x1 y1 1 x2 y2 1"
  unfolding rcb_Z_def by algebra

text \<open>
  The chord of slope \<open>l\<close> through \<open>(x1, y1)\<close> and \<open>(x2, y2)\<close>, with the coefficients the two
  points determine, as identities between polynomials in \<open>x1\<close>, \<open>y1\<close>, \<open>x2\<close> and \<open>l\<close>.
\<close>

lemma rcb_chord:
  assumes "y2 = y1 + l * (x2 - x1)" "a = l * (y1 + y2) - (x1 * x1 + x1 * x2 + x2 * x2)"
    and "b3 = 3 * (y1 * y1 - (x1 * x1 * x1 + a * x1))" "x3 = l * l - x1 - x2"
  shows "rcb_X a b3 x1 y1 1 x2 y2 1 = x3 * rcb_Z a b3 x1 y1 1 x2 y2 1"
    and "rcb_Y a b3 x1 y1 1 x2 y2 1 = ((x1 - x3) * l - y1) * rcb_Z a b3 x1 y1 1 x2 y2 1"
    and "rcb_Z a b3 x1 y1 1 x2 y2 1 = - ((y1 + y2) * ((x2 - x1) * (x2 - x1) * x1 - (y1 + y2) * (y1 + y2) +
        (x2 - x1) * (x2 - x1) * (x1 + x2)) + y1 * (x2 - x1) ^ 3)"
  unfolding rcb_X_def rcb_Y_def rcb_Z_def assms by algebra+

lemma rcb_tangent:
  assumes "a = l * (2 * y) - 3 * (x * x)" "b3 = 3 * (y * y - (x * x * x + a * x))" "x3 = l * l - x - x"
  shows "rcb_X a b3 x y 1 x y 1 = x3 * (8 * y ^ 3)"
    and "rcb_Y a b3 x y 1 x y 1 = ((x - x3) * l - y) * (8 * y ^ 3)"
    and "rcb_Z a b3 x y 1 x y 1 = 8 * y ^ 3"
    and "rcb_X a b3 x y 1 x (- y) 1 = 0"
    and "rcb_Y a b3 x y 1 x (- y) 1 = ((x - x3) * l - y) * (8 * y ^ 3)"
    and "rcb_Z a b3 x y 1 x (- y) 1 = 0"
  unfolding rcb_X_def rcb_Y_def rcb_Z_def assms by algebra+

lemma rcb_infinity:
  "rcb_X a b3 0 y1 0 x2 y2 z2 = y1 * y1 * y2 * x2" "rcb_Y a b3 0 y1 0 x2 y2 z2 = y1 * y1 * y2 * y2"
  "rcb_Z a b3 0 y1 0 x2 y2 z2 = y1 * y1 * y2 * z2"
  unfolding rcb_X_def rcb_Y_def rcb_Z_def by algebra+

text \<open>Doubling is addition to itself.\<close>

lemma int_double:
  "int_double a b3 (x, y, z) = (rcb_X a b3 x y z x y z, rcb_Y a b3 x y z x y z, 8 * y ^ 3 * z)"
  unfolding rcb_double_def rcb_X_def rcb_Y_def Let_def prod.case prod.inject
  by (intro conjI; algebra)

section \<open>Representatives of points\<close>

definition proj :: "int \<Rightarrow> int ctPoint \<Rightarrow> ec_point \<Rightarrow> bool" where
  "proj P t q = (case t of (X, Y, Z) \<Rightarrow>
     case q of Infinity \<Rightarrow> P dvd X \<and> P dvd Z \<and> \<not> P dvd Y
     | Affine x y \<Rightarrow> \<not> P dvd Z \<and> P dvd X - x * Z \<and> P dvd Y - y * Z)"

definition no_two_torsion :: "curve \<Rightarrow> bool" where
  "no_two_torsion c \<longleftrightarrow> (\<forall>x. \<not> IsOnCurve c (Affine x 0))"

text \<open>
  The points the formulas are used on: all points of a curve without a point of order two, or the multiples
  of a point of odd order on any curve.
\<close>

definition two_free :: "curve \<Rightarrow> ec_point set \<Rightarrow> bool" where
  "two_free c S \<longleftrightarrow> (\<forall>q\<in>S. IsOnCurve c q \<and> ec_neg c q \<in> S \<and> (\<forall>r\<in>S. ec_Add c q r \<in> S)) \<and> (\<forall>x. Affine x 0 \<notin> S)"

lemma two_freeD:
  assumes "two_free c S" "q \<in> S"
  shows "IsOnCurve c q" "ec_neg c q \<in> S" "r \<in> S \<Longrightarrow> ec_Add c q r \<in> S" "q \<noteq> Affine x 0"
    "q = Affine x' y \<Longrightarrow> y \<noteq> 0"
  using assms by (auto simp: two_free_def)

lemma rcb_cong:
  assumes "a mod P = a' mod P" "b3 mod P = b3' mod P"
    "x1 mod P = x1' mod P" "y1 mod P = y1' mod P" "z1 mod P = z1' mod P"
    "x2 mod P = x2' mod P" "y2 mod P = y2' mod P" "z2 mod P = z2' mod P"
  shows "P dvd rcb_X a b3 x1 y1 z1 x2 y2 z2 - rcb_X a' b3' x1' y1' z1' x2' y2' z2'"
    and "P dvd rcb_Y a b3 x1 y1 z1 x2 y2 z2 - rcb_Y a' b3' x1' y1' z1' x2' y2' z2'"
    and "P dvd rcb_Z a b3 x1 y1 z1 x2 y2 z2 - rcb_Z a' b3' x1' y1' z1' x2' y2' z2'"
  unfolding rcb_X_def rcb_Y_def rcb_Z_def mod_eq_dvd_iff [symmetric]
  by (intro mod_add_cong mod_diff_cong mod_mult_cong assms refl)+

lemma dvd_cong: "P dvd u - v \<Longrightarrow> P dvd u \<longleftrightarrow> P dvd (v :: int)"
  by (metis mod_eq_dvd_iff dvd_eq_mod_eq_0)

lemma proj_scale:
  assumes p: "field_char P" and k: "\<not> P dvd k"
    and e: "P dvd X' - k * X" "P dvd Y' - k * Y" "P dvd Z' - k * Z" and q: "proj P (X, Y, Z) q"
  shows "proj P (X', Y', Z') q"
proof (cases q)
  case Infinity
  then show ?thesis
    using q k dvd_cong [OF e(1)] dvd_cong [OF e(2)] dvd_cong [OF e(3)] field_dvd_mult [OF p]
    by (simp add: proj_def)
next
  case (Affine x y)
  have "P dvd X - x * Z" "P dvd Y - y * Z" using q by (simp_all add: Affine proj_def)
  with e have "P dvd X' - x * Z'" "P dvd Y' - y * Z'" by algebra+
  moreover have "\<not> P dvd Z'" using q k dvd_cong [OF e(3)] field_dvd_mult [OF p] by (simp add: Affine proj_def)
  ultimately show ?thesis by (simp add: Affine proj_def)
qed

lemma proj_Y:
  assumes p: "field_char (cv_P c)" and n2: "two_free c S" and S: "q \<in> S"
    and q: "proj (cv_P c) (X, Y, Z) q"
  shows "\<not> cv_P c dvd Y"
proof (cases q)
  case (Affine x y)
  have P: "0 < cv_P c" using p by (simp add: field_char_def)
  note on' = two_freeD(1) [OF n2 S, unfolded Affine IsOnCurve_Affine [OF P]]
  have "y \<noteq> 0" by (rule two_freeD(5) [OF n2 S Affine])
  then have "\<not> cv_P c dvd y" using on' field_residue [OF p] by simp
  moreover have "cv_P c dvd Y - y * Z" "\<not> cv_P c dvd Z" using q by (simp_all add: Affine proj_def)
  ultimately show ?thesis using dvd_cong field_dvd_mult [OF p] by blast
qed (use q in \<open>simp add: proj_def\<close>)

text \<open>The coordinates of a chord or tangent on the curve are not zero.\<close>

lemma fromLambda_y:
  assumes "two_free c S" "ec_fromLambda c l (x1, y1) (x2, y2) \<in> S"
  shows "\<not> cv_P c dvd (x1 - (l * l - x1 - x2)) * l - y1"
  using assms by (auto simp: ec_fromLambda_eq two_free_def dvd_eq_mod_eq_0)

lemma proj_fromLambda:
  assumes z: "\<not> cv_P c dvd Z" and x: "cv_P c dvd X - (l * l - x1 - x2) * Z"
    and y: "cv_P c dvd Y - ((x1 - (l * l - x1 - x2)) * l - y1) * Z"
  shows "proj (cv_P c) (X, Y, Z) (ec_fromLambda c l (x1, y1) (x2, y2))"
proof -
  have "P dvd V - (v mod P) * Z" if "P dvd V - v * Z" for P V v :: int
    using that dvd_mod_diff [of P v] by algebra
  then show ?thesis unfolding ec_fromLambda_eq proj_def using assms by simp
qed

section \<open>Addition\<close>

lemma int_add_chord:
  assumes p: "field_char (cv_P c)" and n2: "two_free c S"
    and S: "Affine x1 y1 \<in> S" "Affine x2 y2 \<in> S" and ne: "x1 \<noteq> x2"
  shows "proj (cv_P c) (int_add (cv_A c) (3 * cv_B c) (x1, y1, 1) (x2, y2, 1)) (ec_Add c (Affine x1 y1) (Affine x2 y2))"
proof -
  let ?P = "cv_P c"
  define d where "d = x2 - x1"
  define l where "l = ec_slope ?P (y2 - y1) d"
  define l' where "l' = ec_slope ?P (- y2 mod ?P - y1) d"
  have P: "0 < ?P" using p by (simp add: field_char_def)
  note on = two_freeD(1) [OF n2 S(1)] two_freeD(1) [OF n2 S(2)]
  note on' = on [unfolded IsOnCurve_Affine [OF P]]
  have u: "\<not> ?P dvd d" using on' ne field_residues [of x2 ?P x1] by (auto simp: d_def)
  have l: "?P dvd l * d - (y2 - y1)" and l': "?P dvd l' * d - (- y2 mod ?P - y1)"
    unfolding l_def l'_def by (rule ec_slope [OF p u])+
  have "?P dvd - y2 mod ?P - (- y2)" unfolding mod_eq_dvd_iff [symmetric] by (rule mod_mod_trivial)
  with l' have lo: "?P dvd l' * (x2 - x1) - (- y2 - y1)" unfolding d_def by algebra
  have "ec_Add c (Affine x1 y1) (ec_neg c (Affine x2 y2)) \<in> S"
    by (rule two_freeD(3) [OF n2 S(1) two_freeD(2) [OF n2 S(2)]])
  moreover have "ec_Add c (Affine x1 y1) (ec_neg c (Affine x2 y2)) = ec_fromLambda c l' (x1, y1) (x2, y2)"
    using ne by (simp add: ec_neg_def ec_Add_Affine l'_def d_def ec_fromLambda_eq)
  ultimately have m: "\<not> ?P dvd (x1 - (l' * l' - x1 - x2)) * l' - y1"
    by (intro fromLambda_y [OF n2]) simp
  define a where "a = l * (y1 + (y1 + l * d)) - (x1 * x1 + x1 * x2 + x2 * x2)"
  define y2' where "y2' = y1 + l * d"
  have y2: "y2 mod ?P = y2' mod ?P"
    unfolding mod_eq_dvd_iff y2'_def using l by (metis (no_types, lifting) add.commute diff_diff_eq2 dvd_diff_commute)
  have A: "cv_A c mod ?P = a mod ?P"
  proof -
    have "d * (cv_A c - a) = (y2 + y2') * (y2 - y2') - (curve_eq c x2 y2 - curve_eq c x1 y1)"
      unfolding curve_eq_def a_def y2'_def d_def by algebra
    moreover have "?P dvd y2 - y2'" "?P dvd curve_eq c x1 y1" "?P dvd curve_eq c x2 y2"
      using y2 on' by (simp_all only: mod_eq_dvd_iff)
    ultimately have "?P dvd d * (cv_A c - a)" by algebra
    then show ?thesis using field_dvd_mult [OF p] u unfolding mod_eq_dvd_iff by metis
  qed
  define b3 where "b3 = 3 * (y1 * y1 - (x1 * x1 * x1 + a * x1))"
  have B: "(3 * cv_B c) mod ?P = b3 mod ?P"
  proof -
    have "3 * cv_B c - b3 = - (3 * curve_eq c x1 y1) - 3 * x1 * (cv_A c - a)"
      unfolding curve_eq_def b3_def by algebra
    moreover have "?P dvd cv_A c - a" "?P dvd curve_eq c x1 y1" using A on' by (simp_all only: mod_eq_dvd_iff)
    ultimately have "?P dvd 3 * cv_B c - b3" by algebra
    then show ?thesis by (simp only: mod_eq_dvd_iff)
  qed
  note R = rcb_chord [OF y2'_def [unfolded d_def] a_def [folded y2'_def, unfolded d_def] b3_def refl]
  note C = rcb_cong [OF A B refl refl refl refl y2 refl, of x1 y1 1 x2 1]
  let ?Z = "rcb_Z a b3 x1 y1 1 x2 y2' 1"
  have "?P dvd l' * (x2 - x1) + (y1 + y2)" using lo by (simp add: algebra_simps)
  then have "?P dvd ?Z - (x2 - x1) ^ 3 * ((x1 - (l' * l' - x1 - x2)) * l' - y1)"
    using y2 unfolding R(3) mod_eq_dvd_iff by algebra
  moreover have "\<not> ?P dvd (x2 - x1) ^ 3 * ((x1 - (l' * l' - x1 - x2)) * l' - y1)"
    using u m field_dvd_mult [OF p] by (simp add: d_def power3_eq_cube)
  ultimately have Z: "\<not> ?P dvd ?Z" using dvd_cong by blast
  have pr: "proj ?P (rcb_X a b3 x1 y1 1 x2 y2' 1, rcb_Y a b3 x1 y1 1 x2 y2' 1, ?Z)
      (ec_fromLambda c l (x1, y1) (x2, y2))"
    by (rule proj_fromLambda [OF Z]) (simp_all only: R(1,2) diff_self dvd_0_right)
  have e: "ec_Add c (Affine x1 y1) (Affine x2 y2) = ec_fromLambda c l (x1, y1) (x2, y2)"
    using ne by (simp add: ec_Add_Affine l_def d_def)
  have "\<not> ?P dvd 1" using p by (auto simp: field_char_def dest: zdvd_imp_le)
  then show ?thesis
    unfolding int_add e by (rule proj_scale [OF p _ _ _ _ pr]) (simp_all only: mult_1 C)
qed

text \<open>The tangent at a point that is not of order two, and a point plus its opposite.\<close>

lemma int_tangent:
  assumes p: "field_char (cv_P c)" and n2: "two_free c S" and S: "Affine x y \<in> S"
  obtains a b3 l x3 where
    "cv_A c mod cv_P c = a mod cv_P c" "(3 * cv_B c) mod cv_P c = b3 mod cv_P c"
    "a = l * (2 * y) - 3 * (x * x)" "b3 = 3 * (y * y - (x * x * x + a * x))" "x3 = l * l - x - x"
    "ec_Double c (Affine x y) = ec_fromLambda c l (x, y) (x, y)"
    "\<not> cv_P c dvd (x - x3) * l - y" "\<not> cv_P c dvd 8 * y ^ 3"
proof -
  let ?P = "cv_P c"
  have P: "0 < ?P" using p by (simp add: field_char_def)
  note on = two_freeD(1) [OF n2 S]
  note on' = on [unfolded IsOnCurve_Affine [OF P]]
  have y: "y \<noteq> 0" by (rule two_freeD(5) [OF n2 S refl])
  then have u: "\<not> ?P dvd 2 * y" using on' double_y_unit [OF p] by simp
  define l where "l = ec_slope ?P (x * x * 3 + cv_A c) (2 * y)"
  have l: "?P dvd l * (2 * y) - (x * x * 3 + cv_A c)" unfolding l_def by (rule ec_slope [OF p u])
  have D: "ec_Double c (Affine x y) = ec_fromLambda c l (x, y) (x, y)" using y by (simp add: ec_Double_Affine l_def)
  have on2: "ec_fromLambda c l (x, y) (x, y) \<in> S"
    using two_freeD(3) [OF n2 S S] ec_Add_self [OF p on] by (simp only: D)
  define a where "a = l * (2 * y) - 3 * (x * x)"
  define b3 where "b3 = 3 * (y * y - (x * x * x + a * x))"
  have A: "?P dvd cv_A c - a" using l unfolding a_def by algebra
  have "3 * cv_B c - b3 = - (3 * curve_eq c x y) - 3 * x * (cv_A c - a)"
    unfolding curve_eq_def b3_def by algebra
  moreover have "?P dvd curve_eq c x y" using on' by simp
  ultimately have B: "?P dvd 3 * cv_B c - b3" using A by algebra
  have Z: "\<not> ?P dvd 8 * y ^ 3"
    using u field_dvd_mult [OF p] field_two [OF p] by (simp add: power3_eq_cube field_dvd_mult [OF p, of 2 4, simplified]
      field_dvd_mult [OF p, of 2 2, simplified])
  show ?thesis
    by (rule that [OF A [folded mod_eq_dvd_iff] B [folded mod_eq_dvd_iff] a_def b3_def refl D
          fromLambda_y [OF n2 on2] Z])
qed

lemma field_one: "field_char P \<Longrightarrow> \<not> P dvd 1"
  by (auto simp: field_char_def dest: zdvd_imp_le)

lemma int_add_tangent:
  assumes p: "field_char (cv_P c)" and n2: "two_free c S" and S: "Affine x y \<in> S"
  shows "proj (cv_P c) (int_add (cv_A c) (3 * cv_B c) (x, y, 1) (x, y, 1)) (ec_Double c (Affine x y))"
    and "proj (cv_P c) (int_double (cv_A c) (3 * cv_B c) (x, y, 1)) (ec_Double c (Affine x y))"
    and "(y + y2) mod cv_P c = 0 \<Longrightarrow> proj (cv_P c) (int_add (cv_A c) (3 * cv_B c) (x, y, 1) (x, y2, 1)) Infinity"
proof -
  obtain a b3 l x3 where
    A: "cv_A c mod cv_P c = a mod cv_P c" and B: "(3 * cv_B c) mod cv_P c = b3 mod cv_P c"
    and a: "a = l * (2 * y) - 3 * (x * x)" "b3 = 3 * (y * y - (x * x * x + a * x))" "x3 = l * l - x - x"
    and D: "ec_Double c (Affine x y) = ec_fromLambda c l (x, y) (x, y)"
    and y3: "\<not> cv_P c dvd (x - x3) * l - y" and Z: "\<not> cv_P c dvd 8 * y ^ 3"
    by (rule int_tangent [OF p n2 S])
  note R = rcb_tangent [OF a] and C = rcb_cong [OF A B refl refl refl refl refl refl, of x y 1 x y 1]
  have pr: "proj (cv_P c) (x3 * (8 * y ^ 3), ((x - x3) * l - y) * (8 * y ^ 3), 8 * y ^ 3) (ec_Double c (Affine x y))"
    unfolding D a(3) by (rule proj_fromLambda [OF Z]) (simp_all only: diff_self dvd_0_right)
  show "proj (cv_P c) (int_add (cv_A c) (3 * cv_B c) (x, y, 1) (x, y, 1)) (ec_Double c (Affine x y))"
    unfolding int_add by (rule proj_scale [OF p field_one [OF p] _ _ _ pr]) (use C in \<open>simp_all only: mult_1 R\<close>)
  show "proj (cv_P c) (int_double (cv_A c) (3 * cv_B c) (x, y, 1)) (ec_Double c (Affine x y))"
    unfolding int_double by (rule proj_scale [OF p field_one [OF p] _ _ _ pr])
      (use C in \<open>simp_all only: mult_1 mult_1_right R diff_self dvd_0_right\<close>)
  assume "(y + y2) mod cv_P c = 0"
  then have "y2 mod cv_P c = - y mod cv_P c" by (simp add: mod_eq_dvd_iff add.commute dvd_eq_mod_eq_0)
  note C = rcb_cong [OF A B refl refl refl refl this refl, of x y 1 x 1, unfolded R]
  have "\<not> cv_P c dvd ((x - x3) * l - y) * (8 * y ^ 3)" using y3 Z field_dvd_mult [OF p] by blast
  then show "proj (cv_P c) (int_add (cv_A c) (3 * cv_B c) (x, y, 1) (x, y2, 1)) Infinity"
    unfolding int_add proj_def prod.case ec_point.case using C dvd_cong [OF C(2)] by simp
qed

lemma proj_affine_cong:
  assumes p: "field_char P" and q: "proj P (X, Y, Z) (Affine x y)"
  shows "X mod P = x * Z mod P" "Y mod P = y * Z mod P" "\<not> P dvd Z"
  using q by (simp_all add: proj_def mod_eq_dvd_iff)

lemma rcb_commute:
  "int_add a b3 t u = int_add a b3 u t"
proof -
  obtain x1 y1 z1 x2 y2 z2 where "t = (x1, y1, z1)" "u = (x2, y2, z2)" by (metis prod_cases3)
  then show ?thesis
    unfolding int_add rcb_X_def rcb_Y_def rcb_Z_def by (simp add: int_add rcb_X_def rcb_Y_def rcb_Z_def algebra_simps)
qed

lemma int_add_infinity:
  assumes p: "field_char (cv_P c)" and n2: "two_free c S" and S: "q \<in> S"
    and t: "proj (cv_P c) t Infinity" and u: "proj (cv_P c) u q"
  shows "proj (cv_P c) (int_add a b3 t u) q"
proof -
  obtain x1 y1 z1 x2 y2 z2 where e: "t = (x1, y1, z1)" "u = (x2, y2, z2)" by (metis prod_cases3)
  have x1: "x1 mod cv_P c = 0 mod cv_P c" and z1: "z1 mod cv_P c = 0 mod cv_P c" and y1: "\<not> cv_P c dvd y1"
    using t by (simp_all add: e proj_def dvd_eq_mod_eq_0)
  have "\<not> cv_P c dvd y2" using proj_Y [OF p n2 S] u by (simp add: e)
  then have "\<not> cv_P c dvd y1 * y1 * y2" using y1 field_dvd_mult [OF p] by blast
  then show ?thesis
    unfolding e int_add by (rule proj_scale [OF p _ _ _ _ u [unfolded e]])
      (use rcb_cong [OF refl refl x1 refl z1 refl refl refl, of a b3 y1 x2 y2 z2] in \<open>simp_all only: rcb_infinity\<close>)
qed

text \<open>The formula is complete on such a set of points.\<close>

lemma int_add_proj:
  assumes p: "field_char (cv_P c)" and n2: "two_free c S" and S: "q \<in> S" "r \<in> S"
    and t: "proj (cv_P c) t q" and u: "proj (cv_P c) u r"
  shows "proj (cv_P c) (int_add (cv_A c) (3 * cv_B c) t u) (ec_Add c q r)"
proof (cases q; cases r)
  fix x1 y1 x2 y2 assume qr: "q = Affine x1 y1" "r = Affine x2 y2"
  obtain X1 Y1 Z1 X2 Y2 Z2 where e: "t = (X1, Y1, Z1)" "u = (X2, Y2, Z2)" by (metis prod_cases3)
  note q1 = proj_affine_cong [OF p t [unfolded e qr]] and q2 = proj_affine_cong [OF p u [unfolded e qr]]
  have "proj (cv_P c) (int_add (cv_A c) (3 * cv_B c) (x1, y1, 1) (x2, y2, 1)) (ec_Add c q r)"
  proof (cases "x1 = x2")
    case True
    show ?thesis
    proof (cases "(y1 + y2) mod cv_P c = 0")
      case True
      then show ?thesis using int_add_tangent(3) [OF p n2 S(1) [unfolded qr]] \<open>x1 = x2\<close>
        by (simp add: qr ec_Add_Affine)
    next
      case False
      then have "y1 = y2" using same_x [OF p] two_freeD(1) [OF n2 S(1)] two_freeD(1) [OF n2 S(2)] \<open>x1 = x2\<close> unfolding qr by blast
      then show ?thesis using int_add_tangent(1) [OF p n2 S(1) [unfolded qr]] \<open>x1 = x2\<close> False
        by (simp add: qr ec_Add_Affine)
    qed
  next
    case False
    then show ?thesis using int_add_chord [OF p n2] S unfolding qr by blast
  qed
  note pr = this [unfolded int_add]
  have k: "\<not> cv_P c dvd (Z1 * Z2)\<^sup>2" using q1(3) q2(3) field_dvd_mult [OF p] by (simp add: power2_eq_square)
  show "proj (cv_P c) (int_add (cv_A c) (3 * cv_B c) t u) (ec_Add c q r)"
    unfolding e int_add by (rule proj_scale [OF p k _ _ _ pr])
      (use rcb_cong [OF refl refl q1(1,2) refl q2(1,2) refl, of "cv_A c" "3 * cv_B c" Z1 Z2] in
        \<open>simp_all only: rcb_X_scale rcb_Y_scale rcb_Z_scale\<close>)
next
  assume "q = Infinity"
  then show ?thesis using int_add_infinity [OF p n2 S(2)] t u by simp
next
  assume "r = Infinity"
  then show ?thesis using int_add_infinity [OF p n2 S(1), of u t] t u by (simp add: rcb_commute)
next
  assume "q = Infinity"
  then show ?thesis using int_add_infinity [OF p n2 S(2)] t u by simp
qed

lemma int_double_proj:
  assumes p: "field_char (cv_P c)" and n2: "two_free c S" and S: "q \<in> S"
    and t: "proj (cv_P c) t q"
  shows "proj (cv_P c) (int_double (cv_A c) (3 * cv_B c) t) (ec_Double c q)"
proof (cases q)
  case Infinity
  obtain X Y Z where e: "t = (X, Y, Z)" by (metis prod_cases3)
  have X: "X mod cv_P c = 0 mod cv_P c" and Z: "Z mod cv_P c = 0 mod cv_P c" and Y: "\<not> cv_P c dvd Y"
    using t by (simp_all add: e Infinity proj_def dvd_eq_mod_eq_0)
  note C = rcb_cong [OF refl refl X refl Z X refl Z, of "cv_A c" "3 * cv_B c" Y Y, unfolded rcb_infinity]
  have "\<not> cv_P c dvd Y * Y * Y * Y" using Y field_dvd_mult [OF p] by blast
  then have "\<not> cv_P c dvd rcb_Y (cv_A c) (3 * cv_B c) X Y Z X Y Z" using dvd_cong [OF C(2)] by blast
  moreover have "cv_P c dvd rcb_X (cv_A c) (3 * cv_B c) X Y Z X Y Z"
    using C(1) by (simp only: mult_zero_right diff_0_right)
  moreover have "cv_P c dvd 8 * Y ^ 3 * Z" using Z by (simp add: dvd_eq_mod_eq_0 [symmetric])
  ultimately show ?thesis by (simp add: e int_double Infinity proj_def)
next
  case (Affine x y)
  obtain X Y Z where e: "t = (X, Y, Z)" by (metis prod_cases3)
  note q1 = proj_affine_cong [OF p t [unfolded e Affine]]
  note pr = int_add_tangent(2) [OF p n2 S [unfolded Affine], unfolded int_double]
  have k: "\<not> cv_P c dvd (Z * Z)\<^sup>2" using q1(3) field_dvd_mult [OF p] by (simp add: power2_eq_square)
  have "cv_P c dvd 8 * Y ^ 3 * Z - (Z * Z)\<^sup>2 * (8 * y ^ 3 * 1)"
    using q1(2) unfolding mod_eq_dvd_iff by algebra
  then show ?thesis
    unfolding e Affine int_double by (rule proj_scale [OF p k _ _ _ pr, rotated 2])
      (use rcb_cong [OF refl refl q1(1,2) refl q1(1,2) refl, of "cv_A c" "3 * cv_B c" Z Z] in
        \<open>simp_all only: rcb_X_scale rcb_Y_scale\<close>)
qed

text \<open>
  It is not where one has: the sum of the identity and a point of order two is the triple of
  zeros, which stands for no point.
\<close>

lemma int_add_two_torsion:
  assumes "P dvd x1" "P dvd z1" "P dvd y2"
  shows "int_add a b3 (x1, y1, z1) (x2, y2, z2) = (X, Y, Z) \<Longrightarrow> P dvd X \<and> P dvd Y \<and> P dvd Z"
proof -
  assume "int_add a b3 (x1, y1, z1) (x2, y2, z2) = (X, Y, Z)"
  then have e: "X = rcb_X a b3 x1 y1 z1 x2 y2 z2" "Y = rcb_Y a b3 x1 y1 z1 x2 y2 z2" "Z = rcb_Z a b3 x1 y1 z1 x2 y2 z2"
    by (simp_all add: int_add)
  have "x1 mod P = 0 mod P" "z1 mod P = 0 mod P" "y2 mod P = 0 mod P" using assms by (simp_all add: dvd_eq_mod_eq_0)
  from rcb_cong [OF refl refl this(1) refl this(2) refl this(3) refl, of a b3 y1 x2 z2, unfolded rcb_infinity]
  show ?thesis by (simp add: e)
qed

end
