(* ===== verification/GroupLaw.thy ===== *)
theory GroupLaw
  imports Curves
begin

text \<open>
  The group law of the affine arithmetic of \<^verbatim>\<open>gost3410curves/curves.go\<close>: over a prime field and
  a nonsingular curve, \<^verbatim>\<open>Add\<close> is associative, exceptional cases included. The proof works with
  residues. Three points are on a line when the cubic that the line cuts out of the curve has
  their abscissas as its roots (\<open>on_line\<close>, coefficient by coefficient); a sum is the negated third
  point of a line, and conversely. The four lines of the two ways to bracket three
  points determine each other by identities of degree two in the slopes.
\<close>

section \<open>Points on a line\<close>

text \<open>
  \<open>on_line c l m q r s\<close>: the points are on \<open>y = l x + m\<close>, and
  \<open>x^3 + A x + B - (l x + m)^2 = (x - x1) (x - x2) (x - x3)\<close> modulo \<open>P\<close>.
\<close>

definition on_line :: "curve \<Rightarrow> int \<Rightarrow> int \<Rightarrow> ec_point \<Rightarrow> ec_point \<Rightarrow> ec_point \<Rightarrow> bool" where
  "on_line c l m q r s =
     (case (q, r, s) of
        (Affine x1 y1, Affine x2 y2, Affine x3 y3) \<Rightarrow>
          cv_P c dvd l * x1 + m - y1 \<and> cv_P c dvd l * x2 + m - y2 \<and> cv_P c dvd l * x3 + m - y3 \<and>
          cv_P c dvd l * l - (x1 + x2 + x3) \<and>
          cv_P c dvd cv_A c - 2 * l * m - (x1 * x2 + x1 * x3 + x2 * x3) \<and>
          cv_P c dvd m * m - cv_B c - x1 * x2 * x3
      | _ \<Rightarrow> False)"

text \<open>Two lines through opposite points: the difference of their cubics.\<close>

lemma lines_difference:
  fixes p :: int
  assumes c1: "p dvd l * x1 + m - y1" "p dvd l * x2 + m - y2" "p dvd l * x12 + m + y12"
      "p dvd l * l - (x1 + x2 + x12)" "p dvd A - 2 * l * m - (x1 * x2 + x1 * x12 + x2 * x12)"
    and c2: "p dvd L * x12 + M - y12" "p dvd L * x3 + M - y3" "p dvd L * x4 + M - y4"
      "p dvd L * L - (x12 + x3 + x4)" "p dvd A - 2 * L * M - (x12 * x3 + x12 * x4 + x3 * x4)"
  shows e0: "p dvd (l + L) * x12 + m + M"
    and e1: "p dvd (l + L) * (L - l) - (x3 + x4 - x1 - x2)"
    and e2: "p dvd (l + L) * (M - m) - (x1 * x2 - x3 * x4)"
proof -
  show e0: "p dvd (l + L) * x12 + m + M" using c1(3) c2(1) by algebra
  show e1: "p dvd (l + L) * (L - l) - (x3 + x4 - x1 - x2)" using c1(4) c2(4) by algebra
  show e2: "p dvd (l + L) * (M - m) - (x1 * x2 - x3 * x4)" using e0 e1 c1(5) c2(5) by algebra
qed

text \<open>The slope of the line of \<open>r\<close> and \<open>s\<close>, for a chord and for a tangent.\<close>

lemma slope_chord:
  fixes p :: int
  assumes e1: "p dvd s * (L - l) - (x3 + x4 - x1 - x2)" and e2: "p dvd s * (M - m) - (x1 * x2 - x3 * x4)"
    and y: "p dvd l * x2 + m - y2" "p dvd L * x3 + M - y3" "p dvd l' * x2 + m' - y2" "p dvd l' * x3 + m' - y3"
  shows "p dvd (x2 - x3) * (s * (l - l') - (x1 - x3))"
proof -
  have f3: "p dvd s * (y3 - l * x3 - m) - (x3 - x1) * (x3 - x2)" using e1 e2 y(2) by algebra
  have "p dvd l' * (x2 - x3) - (y2 - y3)" using y(3,4) by algebra
  then show ?thesis using f3 y(1) by algebra
qed

lemma slope_tangent:
  fixes p :: int
  assumes e0: "p dvd s * x12 + m + M" and s: "s = l + L"
    and c1: "p dvd l * x2 + m - y2" "p dvd l * l - (x1 + x2 + x12)" "p dvd A - 2 * l * m - (x1 * x2 + x1 * x12 + x2 * x12)"
    and c2: "p dvd L * x2 + M - y2"
    and c3: "p dvd l' * x2 + m' - y2" "p dvd l' * l' - (x2 + x2 + x23)" "p dvd A - 2 * l' * m' - (x2 * x2 + x2 * x23 + x2 * x23)"
  shows "p dvd (2 * y2) * (s * (l - l') - (x1 - x2))"
proof -
  have t: "p dvd 2 * y2 * l' - (3 * x2 * x2 + A)" using c3 by algebra
  have u: "p dvd 3 * x2 * x2 + A - 2 * l * y2 - (x2 - x1) * (x2 - x12)" using c1 by algebra
  have v: "p dvd s * (x2 - x12) - 2 * y2" using e0 c1(1) c2 unfolding s by algebra
  have "p dvd 2 * y2 * (l' - l) - (x2 - x1) * (x2 - x12)" using t u by algebra
  then show ?thesis using v by algebra
qed

text \<open>The slope \<open>s - l'\<close> gives the line of \<open>q\<close>, \<open>r + s\<close> and the third point.\<close>

lemma regroup:
  fixes p :: int
  assumes s: "s = l + L" and unit: "\<And>x. p dvd s * x \<Longrightarrow> p dvd x"
    and e0: "p dvd s * x12 + m + M" and e1: "p dvd s * (L - l) - (x3 + x4 - x1 - x2)"
    and e2: "p dvd s * (M - m) - (x1 * x2 - x3 * x4)"
    and g: "p dvd s * (l - l') - (x1 - x3)"
    and c1: "p dvd l * x1 + m - y1" "p dvd l * x2 + m - y2" "p dvd l * l - (x1 + x2 + x12)"
    and c2: "p dvd L * x4 + M - y4"
    and c3: "p dvd l' * x2 + m' - y2" "p dvd l' * x23 + m' + y23" "p dvd l' * l' - (x2 + x3 + x23)"
      "p dvd A - 2 * l' * m' - (x2 * x3 + x2 * x23 + x3 * x23)" "p dvd m' * m' - B - x2 * x3 * x23"
    and n: "L' = s - l'" "M' = - s * x23 - m'"
  shows "p dvd L' * x1 + M' - y1" "p dvd L' * x23 + M' - y23" "p dvd L' * x4 + M' - y4"
    and "p dvd L' * L' - (x1 + x23 + x4)"
    and "p dvd A - 2 * L' * M' - (x1 * x23 + x1 * x4 + x23 * x4)" "p dvd M' * M' - B - x1 * x23 * x4"
proof -
  have g2: "p dvd s * (m - m') + x2 * (x1 - x3)" using g c1(2) c3(1) by algebra
  have r1: "p dvd s * s - 2 * s * l' + x2 + x3 - x1 - x4" using e1 g unfolding s by algebra
  have r2: "p dvd s * s * (x23 - x12) - (x1 - x3) * (x4 - x2)"
  proof -
    have "p dvd s * s * (x23 - x12) - (x1 - x3) * (s * s - s * l - s * l')"
      using g c1(3) c3(3) by algebra
    moreover have "p dvd (s * s - s * l - s * l') - (x4 - x2)" using r1 g by algebra
    ultimately show ?thesis by algebra
  qed
  have r3: "p dvd s * s * x12 + 2 * s * m + x1 * x2 - x3 * x4" using e2 e0 by algebra
  have r4: "p dvd x2 * x3 + s * s * x23 + 2 * s * m' - x1 * x4" using r2 r3 g2 by algebra
  show "p dvd L' * x23 + M' - y23" using c3(2) unfolding n by algebra
  show "p dvd L' * L' - (x1 + x23 + x4)" using r1 c3(3) unfolding n by algebra
  show "p dvd A - 2 * L' * M' - (x1 * x23 + x1 * x4 + x23 * x4)"
    using r1 r4 c3(4) unfolding n by algebra
  show "p dvd M' * M' - B - x1 * x23 * x4" using r4 c3(5) unfolding n by algebra
  have "p dvd s * (L' * x1 + M' - y1)" using r1 r4 g g2 c1(1) unfolding n by algebra
  then show "p dvd L' * x1 + M' - y1" by (rule unit)
  have "p dvd s * (L' * x4 + M' - (L * x4 + M))"
    using r2 g g2 e0 unfolding n s by algebra
  then have "p dvd L' * x4 + M' - (L * x4 + M)" by (rule unit)
  then show "p dvd L' * x4 + M' - y4" using c2 by algebra
qed

section \<open>Addition is the third point of a line\<close>

lemma chord_coefficients:
  assumes f: "field_char (cv_P c)" and on: "cv_P c dvd curve_eq c x1 y1" "cv_P c dvd curve_eq c x2 y2"
    and u: "\<not> cv_P c dvd x2 - x1" and l: "cv_P c dvd l * (x2 - x1) - (y2 - y1)"
    and x3: "cv_P c dvd l * l - (x1 + x2 + x3)" and m: "m = y1 - l * x1"
  shows "cv_P c dvd cv_A c - 2 * l * m - (x1 * x2 + x1 * x3 + x2 * x3)"
    and "cv_P c dvd m * m - cv_B c - x1 * x2 * x3"
proof -
  note on = on [unfolded curve_eq_def]
  have "cv_P c dvd (x2 - x1) * (cv_A c - 2 * l * m - (x1 * x2 + x1 * x3 + x2 * x3))"
    using on l x3 unfolding m by algebra
  then show e: "cv_P c dvd cv_A c - 2 * l * m - (x1 * x2 + x1 * x3 + x2 * x3)"
    using u by (simp add: field_dvd_mult [OF f])
  show "cv_P c dvd m * m - cv_B c - x1 * x2 * x3" using e on(1) x3 unfolding m by algebra
qed

lemma tangent_coefficients:
  assumes on: "cv_P c dvd curve_eq c x1 y1" and l: "cv_P c dvd l * (2 * y1) - (x1 * x1 * 3 + cv_A c)"
    and x3: "cv_P c dvd l * l - (x1 + x1 + x3)" and m: "m = y1 - l * x1"
  shows "cv_P c dvd cv_A c - 2 * l * m - (x1 * x1 + x1 * x3 + x1 * x3)"
    and "cv_P c dvd m * m - cv_B c - x1 * x1 * x3"
proof -
  note on = on [unfolded curve_eq_def]
  show e: "cv_P c dvd cv_A c - 2 * l * m - (x1 * x1 + x1 * x3 + x1 * x3)"
    using l x3 unfolding m by algebra
  have sum: "m * m - cv_B c - x1 * x1 * x3 = (y1 * y1 - (x1 * x1 * x1 + cv_A c * x1 + cv_B c)) +
      x1 * (cv_A c - 2 * l * m - (x1 * x1 + x1 * x3 + x1 * x3)) - x1 * x1 * (l * l - (x1 + x1 + x3))"
    unfolding m by algebra
  show "cv_P c dvd m * m - cv_B c - x1 * x1 * x3"
    unfolding sum by (intro dvd_diff dvd_add dvd_mult on e x3)
qed

lemma on_line_neg: "on_line c l m q r s \<Longrightarrow> on_line c (- l) (- m) (ec_neg c q) (ec_neg c r) (ec_neg c s)"
proof -
  have "cv_P c dvd - l * x + - m - (- y mod cv_P c)" if "cv_P c dvd l * x + m - y" for x y
    using that dvd_mod_diff [of "cv_P c" "- y"] by algebra
  then show "on_line c l m q r s \<Longrightarrow> on_line c (- l) (- m) (ec_neg c q) (ec_neg c r) (ec_neg c s)"
    by (auto simp: on_line_def ec_neg_def split: ec_point.splits)
qed

lemma on_line_swap: "on_line c l m q r s \<Longrightarrow> on_line c l m r q s" "on_line c l m q r s \<Longrightarrow> on_line c l m q s r"
  by (auto simp: on_line_def add_ac mult_ac split: ec_point.splits)

lemma fromLambda_on_line:
  assumes e: "cv_P c dvd l * x2 + (y1 - l * x1) - y2"
    and co: "\<And>x3. cv_P c dvd l * l - (x1 + x2 + x3) \<Longrightarrow>
      cv_P c dvd cv_A c - 2 * l * (y1 - l * x1) - (x1 * x2 + x1 * x3 + x2 * x3) \<and>
      cv_P c dvd (y1 - l * x1) * (y1 - l * x1) - cv_B c - x1 * x2 * x3"
  shows "on_line c l (y1 - l * x1) (Affine x1 y1) (Affine x2 y2) (ec_neg c (ec_fromLambda c l (x1, y1) (x2, y2)))"
proof -
  let ?x = "(l * l - x1 - x2) mod cv_P c" and ?y = "((x1 - (l * l - x1 - x2)) * l - y1) mod cv_P c"
  have x: "cv_P c dvd ?x - (l * l - x1 - x2)" and y: "cv_P c dvd ?y - ((x1 - (l * l - x1 - x2)) * l - y1)"
    and n: "cv_P c dvd (- ?y mod cv_P c) - (- ?y)"
    by (rule dvd_mod_diff)+
  have sum: "cv_P c dvd l * l - (x1 + x2 + ?x)" using x by algebra
  have third: "cv_P c dvd l * ?x + (y1 - l * x1) - (- ?y mod cv_P c)" using x y n by algebra
  show ?thesis
    using e co [OF sum] sum third by (simp add: ec_fromLambda_eq ec_neg_def on_line_def)
qed

lemma ec_Add_on_line:
  assumes f: "field_char (cv_P c)" and on: "IsOnCurve c q" "IsOnCurve c r"
    and q: "q \<noteq> Infinity" "r \<noteq> Infinity" "ec_Add c q r \<noteq> Infinity"
  shows "\<exists>l m. on_line c l m q r (ec_neg c (ec_Add c q r))"
proof -
  obtain x1 y1 x2 y2 where qr: "q = Affine x1 y1" "r = Affine x2 y2" using q by (metis ec_point.exhaust)
  have P: "0 < cv_P c" using f by (simp add: field_char_def)
  note on' = on [unfolded qr IsOnCurve_Affine [OF P]]
  show ?thesis
  proof (cases "x1 = x2")
    case True
    then have s: "(y1 + y2) mod cv_P c \<noteq> 0" and y: "y1 \<noteq> 0"
      using q(3) by (auto simp: qr ec_Add_Affine ec_Double_Affine split: if_splits)
    have "y1 = y2" using same_x [OF f _ _ s] on True by (simp add: qr)
    define l where "l = ec_slope (cv_P c) (x1 * x1 * 3 + cv_A c) (2 * y1)"
    have l: "cv_P c dvd l * (2 * y1) - (x1 * x1 * 3 + cv_A c)"
      using ec_slope [OF f double_y_unit [OF f, of y1]] on' y by (simp add: l_def)
    have "ec_Add c q r = ec_fromLambda c l (x1, y1) (x1, y1)"
      using True s y by (simp add: qr ec_Add_Affine ec_Double_Affine l_def)
    moreover have "on_line c l (y1 - l * x1) (Affine x1 y1) (Affine x1 y1) (ec_neg c (ec_fromLambda c l (x1, y1) (x1, y1)))"
      using tangent_coefficients [OF _ l] on' by (intro fromLambda_on_line conjI) simp_all
    ultimately show ?thesis using True \<open>y1 = y2\<close> by (auto simp: qr)
  next
    case False
    define l where "l = ec_slope (cv_P c) (y2 - y1) (x2 - x1)"
    have u: "\<not> cv_P c dvd x2 - x1" using on' False field_residues [of x2 "cv_P c" x1] by auto
    have l: "cv_P c dvd l * (x2 - x1) - (y2 - y1)" using ec_slope [OF f u] by (simp add: l_def)
    have "ec_Add c q r = ec_fromLambda c l (x1, y1) (x2, y2)"
      using False by (simp add: qr ec_Add_Affine l_def)
    moreover have "cv_P c dvd l * x2 + (y1 - l * x1) - y2" using l by algebra
    then have "on_line c l (y1 - l * x1) (Affine x1 y1) (Affine x2 y2) (ec_neg c (ec_fromLambda c l (x1, y1) (x2, y2)))"
      using chord_coefficients [OF f _ _ u l] on' by (intro fromLambda_on_line conjI) simp_all
    ultimately show ?thesis by (auto simp: qr)
  qed
qed

text \<open>The discriminant: without it the tangent at a point of order two would be a line.\<close>

definition nonsingular :: "curve \<Rightarrow> bool" where
  "nonsingular c \<longleftrightarrow> \<not> cv_P c dvd 4 * cv_A c ^ 3 + 27 * cv_B c ^ 2"

lemma singular_tangent:
  fixes p :: int
  assumes "p dvd l * x1 + m" "p dvd l * l - (x1 + x1 + x3)"
    "p dvd A - 2 * l * m - (x1 * x1 + x1 * x3 + x1 * x3)" "p dvd m * m - B - x1 * x1 * x3"
  shows "p dvd 4 * A ^ 3 + 27 * B ^ 2"
proof -
  have A: "p dvd A + 3 * x1 * x1" using assms(1,2,3) by algebra
  have B: "p dvd B - 2 * x1 * x1 * x1" using assms(1,2,4) by algebra
  show ?thesis using A B by algebra
qed

lemma fromLambda_third:
  assumes P: "0 < cv_P c" and r: "0 \<le> x3" "x3 < cv_P c"
    and "cv_P c dvd l * x1 + m - y1" "cv_P c dvd l * x3 + m - y3" "cv_P c dvd l * l - (x1 + x2 + x3)"
    and l': "cv_P c dvd l' - l"
  shows "ec_fromLambda c l' (x1, y1) (x2, y2) = ec_neg c (Affine x3 y3)"
proof -
  have x: "cv_P c dvd (l' * l' - x1 - x2) - x3" using assms(6) l' by algebra
  then have "(l' * l' - x1 - x2) mod cv_P c = x3" using r by (metis mod_eq_dvd_iff mod_pos_pos_trivial)
  moreover have "cv_P c dvd ((x1 - (l' * l' - x1 - x2)) * l' - y1) - (- y3)" using x assms(4,5) l' by algebra
  then have "((x1 - (l' * l' - x1 - x2)) * l' - y1) mod cv_P c = - y3 mod cv_P c" by (simp only: mod_eq_dvd_iff)
  ultimately show ?thesis by (simp add: ec_fromLambda_eq ec_neg_def)
qed

lemma ec_slope_cong:
  assumes "field_char p" "\<not> p dvd u" "p dvd l * u - v"
  shows "p dvd ec_slope p v u - l"
proof -
  have "p dvd (ec_slope p v u - l) * u" using ec_slope [OF assms(1,2), of v] assms(3) by algebra
  then show ?thesis using assms(1,2) field_dvd_mult by blast
qed

lemma on_line_ec_Add:
  assumes f: "field_char (cv_P c)" "nonsingular c" and on: "IsOnCurve c q" "IsOnCurve c r" "IsOnCurve c s"
    and line: "on_line c l m q r s"
  shows "ec_Add c q r = ec_neg c s"
proof -
  obtain x1 y1 x2 y2 x3 y3 where qrs: "q = Affine x1 y1" "r = Affine x2 y2" "s = Affine x3 y3"
    using line by (auto simp: on_line_def split: ec_point.splits)
  have P: "0 < cv_P c" using f by (simp add: field_char_def)
  note on' = on [unfolded qrs IsOnCurve_Affine [OF P]]
  note line' = line [unfolded qrs on_line_def, simplified]
  show ?thesis
  proof (cases "x1 = x2")
    case True
    have "cv_P c dvd y1 - y2" using line' True by algebra
    then have y: "y1 = y2" using on' field_residues by blast
    have "y1 \<noteq> 0"
    proof
      assume "y1 = 0"
      then show False
        using singular_tangent [of "cv_P c" l x1 m x3 "cv_A c" "cv_B c"] line' True f(2) by (simp add: nonsingular_def)
    qed
    then have u: "\<not> cv_P c dvd 2 * y1" using double_y_unit [OF f(1)] on' by simp
    then have "(y1 + y2) mod cv_P c \<noteq> 0" using y by (simp add: dvd_eq_mod_eq_0)
    then have add: "ec_Add c q r = ec_fromLambda c (ec_slope (cv_P c) (x1 * x1 * 3 + cv_A c) (2 * y1)) (x1, y1) (x2, y2)"
      using True y \<open>y1 \<noteq> 0\<close> by (simp add: qrs ec_Add_Affine ec_Double_Affine)
    have "cv_P c dvd l * (2 * y1) - (x1 * x1 * 3 + cv_A c)"
    proof -
      have "cv_P c dvd l * l - (x1 + x1 + x3)" "cv_P c dvd cv_A c - 2 * l * m - (x1 * x1 + x1 * x3 + x1 * x3)"
        "cv_P c dvd l * x1 + m - y1"
        using line' True by simp_all
      then show ?thesis by algebra
    qed
    from ec_slope_cong [OF f(1) u this] show ?thesis
      unfolding add qrs(3) using line' on' by (intro fromLambda_third [where m = m, OF P]) simp_all
  next
    case False
    have u: "\<not> cv_P c dvd x2 - x1" using on' False field_residues [of x2 "cv_P c" x1] by auto
    have add: "ec_Add c q r = ec_fromLambda c (ec_slope (cv_P c) (y2 - y1) (x2 - x1)) (x1, y1) (x2, y2)"
      using False by (simp add: qrs ec_Add_Affine)
    have "cv_P c dvd l * x1 + m - y1" "cv_P c dvd l * x2 + m - y2" using line' by simp_all
    then have "cv_P c dvd l * (x2 - x1) - (y2 - y1)" by algebra
    from ec_slope_cong [OF f(1) u this] show ?thesis
      unfolding add qrs(3) using line' on' by (intro fromLambda_third [where m = m, OF P]) simp_all
  qed
qed

section \<open>Associativity\<close>

lemma ec_neg_neg: "0 < cv_P c \<Longrightarrow> IsOnCurve c q \<Longrightarrow> ec_neg c (ec_neg c q) = q"
  by (cases q) (auto simp: ec_neg_def IsOnCurve_Affine mod_minus_eq)

lemma ec_neg_eq_Infinity [simp]: "ec_neg c q = Infinity \<longleftrightarrow> q = Infinity"
  by (cases q) (simp_all add: ec_neg_def)

lemma ec_Add_eq_Infinity:
  assumes f: "field_char (cv_P c)" and on: "IsOnCurve c q" "IsOnCurve c r"
  shows "ec_Add c q r = Infinity \<longleftrightarrow> r = ec_neg c q"
proof
  assume add: "ec_Add c q r = Infinity"
  have P: "0 < cv_P c" using f by (simp add: field_char_def)
  show "r = ec_neg c q"
  proof (cases q; cases r)
    fix x1 y1 x2 y2 assume qr: "q = Affine x1 y1" "r = Affine x2 y2"
    note on' = on [unfolded qr IsOnCurve_Affine [OF P]]
    have "x1 = x2" using add by (auto simp: qr ec_Add_Affine ec_fromLambda_eq split: if_splits)
    moreover have "(y1 + y2) mod cv_P c = 0"
    proof (rule ccontr)
      assume s: "(y1 + y2) mod cv_P c \<noteq> 0"
      then have "y1 = y2" using same_x [OF f _ _ s] on \<open>x1 = x2\<close> by (simp add: qr)
      then show False using s add \<open>x1 = x2\<close> by (auto simp: qr ec_Add_Affine ec_Double_Affine ec_fromLambda_eq split: if_splits)
    qed
    then have "- y1 mod cv_P c = y2"
      using on' by (metis add_uminus_conv_diff dvd_minus_iff minus_diff_eq mod_eq_dvd_iff mod_pos_pos_trivial diff_minus_eq_add dvd_eq_mod_eq_0 add.commute)
    ultimately show ?thesis by (simp add: qr ec_neg_def)
  qed (use add in \<open>simp_all add: ec_neg_def\<close>)
next
  assume "r = ec_neg c q"
  then show "ec_Add c q r = Infinity" using ec_Add_neg [OF f on(1)] by simp
qed


lemma ec_neg_on_curve: "field_char (cv_P c) \<Longrightarrow> IsOnCurve c q \<Longrightarrow> IsOnCurve c (ec_neg c q)"
  by (rule ec_Add_neg(2))

lemma ec_Add_cancel:
  assumes f: "field_char (cv_P c)" "nonsingular c" and on: "IsOnCurve c q" "IsOnCurve c r"
  shows "ec_Add c (ec_neg c q) (ec_Add c q r) = r"
proof (cases "q = Infinity \<or> r = Infinity \<or> ec_Add c q r = Infinity")
  case True
  have P: "0 < cv_P c" using f by (simp add: field_char_def)
  have "ec_Add c (ec_neg c q) q = Infinity"
    using ec_Add_neg(1) [OF f(1) on(1)] ec_Add_commute [OF f(1) on(1) ec_neg_on_curve [OF f(1) on(1)]] by simp
  then show ?thesis using True ec_Add_eq_Infinity [OF f(1) on] by (auto simp: ec_neg_def)
next
  case False
  have P: "0 < cv_P c" using f by (simp add: field_char_def)
  have sum: "IsOnCurve c (ec_Add c q r)" by (rule ec_Add_on_curve [OF f(1) on])
  obtain l m where "on_line c l m q r (ec_neg c (ec_Add c q r))"
    using ec_Add_on_line [OF f(1) on] False by blast
  then have "on_line c (- l) (- m) (ec_neg c q) (ec_neg c (ec_neg c (ec_Add c q r))) (ec_neg c r)"
    by (rule on_line_neg [OF on_line_swap(2)])
  then have "on_line c (- l) (- m) (ec_neg c q) (ec_Add c q r) (ec_neg c r)"
    using ec_neg_neg [OF P sum] by simp
  from on_line_ec_Add [OF f _ _ _ this] show ?thesis
    using on sum ec_neg_neg [OF P] by (simp add: ec_neg_on_curve f)
qed

lemma ec_neg_Add:
  assumes f: "field_char (cv_P c)" "nonsingular c" and on: "IsOnCurve c q" "IsOnCurve c r"
  shows "ec_Add c (ec_neg c q) (ec_neg c r) = ec_neg c (ec_Add c q r)"
proof (cases "q = Infinity \<or> r = Infinity \<or> ec_Add c q r = Infinity")
  case True
  have "ec_Add c (ec_neg c q) (ec_neg c (ec_neg c q)) = Infinity"
    by (rule ec_Add_neg(1) [OF f(1) ec_neg_on_curve [OF f(1) on(1)]])
  then show ?thesis using True ec_Add_eq_Infinity [OF f(1) on] by (auto simp: ec_neg_def)
next
  case False
  have P: "0 < cv_P c" using f by (simp add: field_char_def)
  have sum: "IsOnCurve c (ec_Add c q r)" by (rule ec_Add_on_curve [OF f(1) on])
  obtain l m where "on_line c l m q r (ec_neg c (ec_Add c q r))"
    using ec_Add_on_line [OF f(1) on] False by blast
  then have "on_line c (- l) (- m) (ec_neg c q) (ec_neg c r) (ec_Add c q r)"
    using on_line_neg [of c l m q r] ec_neg_neg [OF P sum] by metis
  from on_line_ec_Add [OF f _ _ _ this] show ?thesis
    using on sum by (simp add: ec_neg_on_curve f)
qed

lemma neg_residue: "p dvd l * x + m - (- y mod p) \<Longrightarrow> p dvd l * x + m + y" for p :: int
  using dvd_mod_diff [of p "- y"] by algebra

text \<open>The lines of \<open>q + r\<close> and of \<open>(q + r) + s\<close> with opposite slopes are one line.\<close>

lemma opposite_lines:
  assumes f: "field_char (cv_P c)" and on: "IsOnCurve c q" "IsOnCurve c r" "IsOnCurve c s"
    and 1: "on_line c l m q r (ec_neg c t)" and 2: "on_line c L M t s u"
    and opp: "cv_P c dvd l + L"
  shows "s = ec_neg c q \<or> s = ec_neg c r"
proof -
  obtain x1 y1 x2 y2 x3 y3 x12 y12 x4 y4 where pts: "q = Affine x1 y1" "r = Affine x2 y2" "s = Affine x3 y3"
    "t = Affine x12 y12" "u = Affine x4 y4"
    using 1 2 by (auto simp: on_line_def ec_neg_def split: ec_point.splits)
  have P: "0 < cv_P c" using f by (simp add: field_char_def)
  note on' = on [unfolded pts IsOnCurve_Affine [OF P]]
  note l1 = 1 [unfolded pts on_line_def ec_neg_def ec_point.case split, simplified]
    and l2 = 2 [unfolded pts on_line_def ec_neg_def ec_point.case split, simplified]
  have y12: "cv_P c dvd l * x12 + m + y12" using l1 by (intro neg_residue) simp
  have c1: "cv_P c dvd l * x1 + m - y1" "cv_P c dvd l * x2 + m - y2" "cv_P c dvd l * l - (x1 + x2 + x12)"
      "cv_P c dvd cv_A c - 2 * l * m - (x1 * x2 + x1 * x12 + x2 * x12)"
    and c2: "cv_P c dvd L * x12 + M - y12" "cv_P c dvd L * x3 + M - y3" "cv_P c dvd L * L - (x12 + x3 + x4)"
      "cv_P c dvd cv_A c - 2 * L * M - (x12 * x3 + x12 * x4 + x3 * x4)"
    using l1 l2 by simp_all
  have M: "cv_P c dvd m + M" using opp y12 c2(1) by algebra
  have e1: "cv_P c dvd x3 + x4 - (x1 + x2)" using opp c1(3) c2(3) by algebra
  have e2: "cv_P c dvd x3 * x4 - x1 * x2" using opp M e1 c1(4) c2(4) by algebra
  have "cv_P c dvd (x3 - x1) * (x3 - x2)" using e1 e2 by algebra
  then have "x3 = x1 \<or> x3 = x2"
    unfolding field_dvd_mult [OF f] using on' field_residues by blast
  moreover have "y3 = - y' mod cv_P c" if "x3 = x'" "cv_P c dvd l * x' + m - y'" for x' y'
  proof -
    have "cv_P c dvd y3 - (- y')" using that(2) c2(2) opp M unfolding that(1) by algebra
    then have "y3 mod cv_P c = - y' mod cv_P c" by (simp only: mod_eq_dvd_iff)
    then show ?thesis using on' by simp
  qed
  ultimately show ?thesis using c1(1,2) by (auto simp: pts ec_neg_def)
qed

text \<open>In general position the line of \<open>q + (r + s)\<close> is made of the other three.\<close>

lemma assoc_line:
  assumes f: "field_char (cv_P c)" and on: "IsOnCurve c q" "IsOnCurve c r" "IsOnCurve c s"
    and 1: "on_line c l m q r (ec_neg c t)" and 2: "on_line c L M t s u" and 3: "on_line c l' m' r s (ec_neg c v)"
    and n: "\<not> cv_P c dvd l + L" and v: "ec_Add c r s \<noteq> Infinity"
  shows "\<exists>L' M'. on_line c L' M' q v u"
proof -
  obtain x1 y1 x2 y2 x3 y3 x12 y12 x4 y4 x23 y23 where pts: "q = Affine x1 y1" "r = Affine x2 y2" "s = Affine x3 y3"
    "t = Affine x12 y12" "u = Affine x4 y4" "v = Affine x23 y23"
    using 1 2 3 by (auto simp: on_line_def ec_neg_def split: ec_point.splits)
  have P: "0 < cv_P c" using f by (simp add: field_char_def)
  note on' = on [unfolded pts IsOnCurve_Affine [OF P]]
  note l1 = 1 [unfolded pts on_line_def ec_neg_def ec_point.case split, simplified]
    and l2 = 2 [unfolded pts on_line_def ec_neg_def ec_point.case split, simplified]
    and l3 = 3 [unfolded pts on_line_def ec_neg_def ec_point.case split, simplified]
  have y12: "cv_P c dvd l * x12 + m + y12" and y23: "cv_P c dvd l' * x23 + m' + y23"
    using l1 l3 by (simp_all add: neg_residue)
  have c1: "cv_P c dvd l * x1 + m - y1" "cv_P c dvd l * x2 + m - y2" "cv_P c dvd l * l - (x1 + x2 + x12)"
      "cv_P c dvd cv_A c - 2 * l * m - (x1 * x2 + x1 * x12 + x2 * x12)"
    and c2: "cv_P c dvd L * x12 + M - y12" "cv_P c dvd L * x3 + M - y3" "cv_P c dvd L * x4 + M - y4"
      "cv_P c dvd L * L - (x12 + x3 + x4)" "cv_P c dvd cv_A c - 2 * L * M - (x12 * x3 + x12 * x4 + x3 * x4)"
    and c3: "cv_P c dvd l' * x2 + m' - y2" "cv_P c dvd l' * x3 + m' - y3" "cv_P c dvd l' * l' - (x2 + x3 + x23)"
      "cv_P c dvd cv_A c - 2 * l' * m' - (x2 * x3 + x2 * x23 + x3 * x23)" "cv_P c dvd m' * m' - cv_B c - x2 * x3 * x23"
    using l1 l2 l3 by simp_all
  define a where "a = l + L"
  note e = lines_difference [OF c1(1,2) y12 c1(3,4) c2, folded a_def]
  have g: "cv_P c dvd a * (l - l') - (x1 - x3)"
  proof (cases "x2 = x3")
    case False
    then have "\<not> cv_P c dvd x2 - x3" using on' field_residues [of x2 "cv_P c" x3] by auto
    moreover have "cv_P c dvd (x2 - x3) * (a * (l - l') - (x1 - x3))"
      by (rule slope_chord [OF e(2,3) c1(2) c2(2) c3(1,2)])
    ultimately show ?thesis using field_dvd_mult [OF f] by blast
  next
    case True
    then have y: "(y2 + y3) mod cv_P c \<noteq> 0" "y2 \<noteq> 0"
      using v by (auto simp: pts ec_Add_Affine ec_Double_Affine split: if_splits)
    have "y2 = y3" using same_x [OF f _ _ y(1)] on True by (simp add: pts)
    then have "\<not> cv_P c dvd 2 * y2" using double_y_unit [OF f] on' y(2) by simp
    moreover have "cv_P c dvd (2 * y2) * (a * (l - l') - (x1 - x2))"
      by (rule slope_tangent [OF e(1) a_def c1(2,3,4)])
        (use c2(2) c3 True \<open>y2 = y3\<close> in \<open>simp_all add: add_ac\<close>)
    ultimately show ?thesis using field_dvd_mult [OF f] True by blast
  qed
  have unit: "cv_P c dvd a * x \<Longrightarrow> cv_P c dvd x" for x
    using n field_dvd_mult [OF f] unfolding a_def by blast
  show ?thesis
    using regroup [OF a_def unit e g c1(1,2,3) c2(3) c3(1) y23 c3(3,4,5) refl refl]
    by (intro exI [of _ "a - l'"] exI [of _ "- a * x23 - m'"]) (simp add: pts on_line_def)
qed

lemma ec_Add_assoc:
  assumes f: "field_char (cv_P c)" "nonsingular c" and on: "IsOnCurve c q" "IsOnCurve c r" "IsOnCurve c s"
  shows "ec_Add c (ec_Add c q r) s = ec_Add c q (ec_Add c r s)"
proof -
  have P: "0 < cv_P c" using f by (simp add: field_char_def)
  note [simp] = on ec_Add_on_curve [OF f(1)] ec_neg_on_curve [OF f(1)] ec_neg_neg [OF P]
  note comm = ec_Add_commute [OF f(1)] and cancel = ec_Add_cancel [OF f]
  consider "q = Infinity \<or> r = Infinity \<or> s = Infinity" | "s = ec_neg c r" | "r = ec_neg c q" | "s = ec_neg c q"
    | "s = ec_neg c (ec_Add c q r)"
    | "q \<noteq> Infinity" "r \<noteq> Infinity" "s \<noteq> Infinity" "ec_Add c r s \<noteq> Infinity" "ec_Add c q r \<noteq> Infinity"
      "s \<noteq> ec_neg c q" "s \<noteq> ec_neg c r" "ec_Add c (ec_Add c q r) s \<noteq> Infinity"
    using ec_Add_eq_Infinity [OF f(1)] on ec_Add_on_curve [OF f(1)] by metis
  then show ?thesis
  proof cases
    case 2
    have "ec_Add c (ec_neg c r) (ec_Add c r q) = q" by (rule cancel) simp_all
    then show ?thesis
      using 2 comm [of q r] comm [of "ec_neg c r" "ec_Add c r q"] ec_Add_neg(1) [OF f(1), of r] by simp
  next
    case 3
    have "ec_Add c (ec_neg c (ec_neg c q)) (ec_Add c (ec_neg c q) s) = s" by (rule cancel) simp_all
    then show ?thesis using 3 ec_Add_neg(1) [OF f(1), of q] by simp
  next
    case 4
    have "ec_Add c (ec_neg c q) (ec_Add c q r) = r" by (rule cancel) simp_all
    moreover have "ec_Add c (ec_neg c (ec_neg c q)) (ec_Add c (ec_neg c q) r) = r" by (rule cancel) simp_all
    ultimately show ?thesis
      using 4 comm [of "ec_neg c q" "ec_Add c q r"] comm [of r "ec_neg c q"] by simp
  next
    case 5
    have "ec_Add c (ec_neg c r) (ec_Add c r q) = q" by (rule cancel) simp_all
    then have "ec_neg c (ec_Add c (ec_neg c r) (ec_Add c q r)) = ec_neg c q" using comm [of q r] by simp
    then have "ec_Add c r s = ec_neg c q"
      using 5 ec_neg_Add [OF f, of "ec_neg c r" "ec_Add c q r"] by simp
    then show ?thesis using 5 ec_Add_neg(1) [OF f(1), of q] ec_Add_neg(1) [OF f(1), of "ec_Add c q r"] by simp
  next
    case 6
    let ?t = "ec_Add c q r" and ?v = "ec_Add c r s"
    obtain l m where 1: "on_line c l m q r (ec_neg c ?t)" using ec_Add_on_line [OF f(1) on(1,2)] 6 by blast
    obtain L M where 2: "on_line c L M ?t s (ec_neg c (ec_Add c ?t s))"
      using ec_Add_on_line [OF f(1), of ?t s] 6 by auto
    obtain l' m' where 3: "on_line c l' m' r s (ec_neg c ?v)" using ec_Add_on_line [OF f(1) on(2,3)] 6 by blast
    have "\<not> cv_P c dvd l + L" using opposite_lines [OF f(1) on 1 2] 6 by blast
    then obtain L' M' where "on_line c L' M' q ?v (ec_neg c (ec_Add c ?t s))"
      using assoc_line [OF f(1) on 1 2 3] 6 by blast
    from on_line_ec_Add [OF f _ _ _ this] show ?thesis by simp
  qed auto
qed


text \<open>The domain of the curve arithmetic: what \<^verbatim>\<open>CurveByOID\<close> promises of its parameters.\<close>

definition prime_curve :: "curve \<Rightarrow> bool" where
  "prime_curve c \<longleftrightarrow> field_char (cv_P c) \<and> nonsingular c"

lemma prime_curve_group_law: "prime_curve c \<Longrightarrow> group_law c"
  by (simp add: prime_curve_def group_law_def ec_Add_assoc)

lemma curve5_prime_curve: "prime_curve curve5"
  using field_char_5 by (simp add: prime_curve_def nonsingular_def curve5_def)

lemmas curve5_group_law = prime_curve_group_law [OF curve5_prime_curve]

section \<open>Properties\<close>

text \<open>
  C19. The points of a nonsingular curve over a prime field, with the Add and Double of the code,
  are a commutative group: Add is associative in every case (equal and opposite points, the
  identity), and ScalarMult, left-to-right double-and-add over the bits of k, is the k-fold
  sum and distributes over Add.
\<close>

theorem ec_group:
  assumes "prime_curve c" "IsOnCurve c q" "IsOnCurve c r" "IsOnCurve c s"
  shows "ec_Add c (ec_Add c q r) s = ec_Add c q (ec_Add c r s) \<and> ec_Add c q r = ec_Add c r q \<and>
    IsOnCurve c (ec_Add c q r) \<and> ec_Double c q = ec_Add c q q \<and>
    (\<exists>q'. IsOnCurve c q' \<and> ec_Add c q q' = Infinity) \<and>
    ec_ScalarMult c k q = ec_mult c (nat k) q \<and>
    ec_ScalarMult c k (ec_Add c q r) = ec_Add c (ec_ScalarMult c k q) (ec_ScalarMult c k r)"
proof -
  note g = prime_curve_group_law [OF assms(1)] and on = assms(2,3,4)
  note p = group_lawD(1) [OF g]
  have sum: "IsOnCurve c (ec_Add c q r)" by (rule group_lawD(4) [OF g on(1,2)])
  have "ec_ScalarMult c k (ec_Add c q r) = ec_Add c (ec_ScalarMult c k q) (ec_ScalarMult c k r)"
    by (simp only: ec_ScalarMult_mult [OF g sum] ec_ScalarMult_mult [OF g on(1)] ec_ScalarMult_mult [OF g on(2)]
        ec_mult_ec_Add [OF g on(1,2)])
  then show ?thesis
    using group_lawD(2) [OF g on] group_lawD(3) [OF g on(1,2)] sum ec_Add_self [OF p on(1)]
      ec_Add_neg [OF p on(1)] ec_ScalarMult_mult [OF g on(1)] by auto
qed

theorem ec_group_witness:
  "ec_Add curve5 (ec_Add curve5 (Affine 0 1) (Affine 0 1)) (Affine 3 2) =
     ec_Add curve5 (Affine 0 1) (ec_Add curve5 (Affine 0 1) (Affine 3 2)) \<and>
   ec_ScalarMult curve5 6 (ec_Add curve5 (Affine 0 1) (Affine 0 1)) =
     ec_Add curve5 (ec_ScalarMult curve5 6 (Affine 0 1)) (ec_ScalarMult curve5 6 (Affine 0 1))"
  using ec_group [OF curve5_prime_curve, of "Affine 0 1" "Affine 0 1" "Affine 3 2" 6]
  by (simp add: curve5_points curve5_points_def)

end
