(* ===== verification/CTPoint.thy ===== *)
theory CTPoint
  imports CTMont RCB GroupLaw
begin

unbundle bit_operations_syntax

text \<open>
  \<^verbatim>\<open>gost3410curves/ctpoint.go\<close> and \<^verbatim>\<open>ctscalar.go\<close>: points with coordinates in
  Montgomery form, the fixed-window scalar multiplication with its table scan, and the ladder, over any
  field operations \<open>Op\<close> of the contract \<open>mont_ops\<close>. The code of this file is the case
  \<open>ops4\<close>; \<open>CTPoint8\<close> has the eight-limb files. A projective point represents a point of the curve
  (\<open>cprel\<close>), and the operations keep that.
\<close>

section \<open>Points\<close>

record ctCurve =
  cc_f :: ctField
  cc_a :: fe
  cc_b3 :: fe
  cc_orderBits :: nat

definition newCTCurve_n :: "fe_ops \<Rightarrow> (int \<Rightarrow> ctField res) \<Rightarrow> curve \<Rightarrow> ctCurve res" where
  "newCTCurve_n Op newField c = bind_res (newField (cv_P c)) (\<lambda>f.
     let aRed = cv_A c mod cv_P c;
         b3big = cv_B c * 3 mod cv_P c
     in Inr \<lparr>cc_f = f, cc_a = toMont Op f (feFromBig (fo_limbs Op) aRed),
          cc_b3 = toMont Op f (feFromBig (fo_limbs Op) b3big), cc_orderBits = big_BitLen (cv_Q c)\<rparr>)"

definition newCTCurve :: "curve \<Rightarrow> ctCurve res" where
  "newCTCurve c = newCTCurve_n ops4 newCTField c"

definition fe_zero :: "fe_ops \<Rightarrow> fe" where
  "fe_zero Op = replicate (fo_limbs Op) 0"

definition cc_identity :: "fe_ops \<Rightarrow> ctCurve \<Rightarrow> fe ctPoint" where
  "cc_identity Op cc = (fe_zero Op, cf_one (cc_f cc), fe_zero Op)"

definition cc_fromAffine :: "fe_ops \<Rightarrow> ctCurve \<Rightarrow> ec_point \<Rightarrow> fe ctPoint" where
  "cc_fromAffine Op cc p =
     (case p of Infinity \<Rightarrow> cc_identity Op cc
      | Affine px py \<Rightarrow>
        let f = cc_f cc;
            x = toMont Op f (feFromBig (fo_limbs Op) (px mod bigFromFe (cf_p f)));
            y = toMont Op f (feFromBig (fo_limbs Op) (py mod bigFromFe (cf_p f)))
        in (x, y, cf_one f))"

definition cc_toAffine :: "fe_ops \<Rightarrow> ctCurve \<Rightarrow> fe ctPoint \<Rightarrow> ec_point" where
  "cc_toAffine Op cc p =
     (let f = cc_f cc; (px, py, pz) = p
      in if feEqual pz (fe_zero Op) then Infinity
         else let zinv = ctField_inv Op f pz;
                  x = fromMont Op f (fo_mul Op f px zinv);
                  y = fromMont Op f (fo_mul Op f py zinv)
              in Affine (bigFromFe x) (bigFromFe y))"

definition cc_add :: "fe_ops \<Rightarrow> ctCurve \<Rightarrow> fe ctPoint \<Rightarrow> fe ctPoint \<Rightarrow> fe ctPoint" where
  "cc_add Op cc = rcb_add (fo_mul Op (cc_f cc)) (fo_add Op (cc_f cc)) (fo_sub Op (cc_f cc)) (cc_a cc) (cc_b3 cc)"

definition cc_double :: "fe_ops \<Rightarrow> ctCurve \<Rightarrow> fe ctPoint \<Rightarrow> fe ctPoint" where
  "cc_double Op cc = rcb_double (fo_mul Op (cc_f cc)) (fo_add Op (cc_f cc)) (fo_sub Op (cc_f cc)) (cc_a cc) (cc_b3 cc)"

definition fe_swap :: "u64 \<Rightarrow> fe \<Rightarrow> fe \<Rightarrow> fe \<times> fe" where
  "fe_swap msk p q =
     (let d = map2 (\<lambda>x y. msk AND (x XOR y)) p q in (xor_bytes p d, xor_bytes q d))"

definition cc_cswap :: "u64 \<Rightarrow> fe ctPoint \<Rightarrow> fe ctPoint \<Rightarrow> fe ctPoint \<times> fe ctPoint" where
  "cc_cswap b p q =
     (let msk = ct_Mask b; (px, py, pz) = p; (qx, qy, qz) = q;
          (px, qx) = fe_swap msk px qx;
          (py, qy) = fe_swap msk py qy;
          (pz, qz) = fe_swap msk pz qz
      in ((px, py, pz), (qx, qy, qz)))"

section \<open>Scalars\<close>

definition scalarBytesToLimbs :: "nat \<Rightarrow> bytes \<Rightarrow> fe" where
  "scalarBytesToLimbs n b = map (\<lambda>i. be_word (slice ((n - 1 - i) * 8) 8 b)) [0..<n]"

definition scalarToLimbs :: "nat \<Rightarrow> int \<Rightarrow> fe res" where
  "scalarToLimbs n k = bind_res (big_FillBytes k (n * 8)) (\<lambda>buf. Inr (scalarBytesToLimbs n buf))"

text \<open>The bits of the scalar from \<open>pos\<close>; Go panics beyond the last limb.\<close>

definition scalar_bits :: "fe \<Rightarrow> nat \<Rightarrow> u64 \<Rightarrow> u64 res" where
  "scalar_bits kl pos msk =
     (if length kl \<le> drop_bit 6 pos then Inl (Panic ''index out of range'')
      else Inr (drop_bit (pos AND 63) (kl ! drop_bit 6 pos) AND msk))"

definition selectWindow :: "fe_ops \<Rightarrow> fe ctPoint list \<Rightarrow> u64 \<Rightarrow> fe ctPoint" where
  "selectWindow Op tbl digit =
     fold (\<lambda>j (rx, ry, rz).
         let msk = ct_Eq (of_nat j) digit; (tx, ty, tz) = tbl ! j
         in (cmov msk tx rx, cmov msk ty ry, cmov msk tz rz))
       [0..<16] (fe_zero Op, fe_zero Op, fe_zero Op)"

definition window_table :: "fe_ops \<Rightarrow> ctCurve \<Rightarrow> fe ctPoint \<Rightarrow> fe ctPoint list" where
  "window_table Op cc p =
     fold (\<lambda>i tbl. tbl[i := cc_add Op cc (tbl ! (i - 1)) p]) [2..<16]
       ((replicate 16 (fe_zero Op, fe_zero Op, fe_zero Op))[0 := cc_identity Op cc, 1 := p])"

definition scalarMultLimbs :: "fe_ops \<Rightarrow> ctCurve \<Rightarrow> fe \<Rightarrow> fe ctPoint \<Rightarrow> fe ctPoint res" where
  "scalarMultLimbs Op cc kl p =
     (let tbl = window_table Op cc p;
          nWin = (cc_orderBits cc + 4 - 1) div 4
      in fold (\<lambda>wi r. bind_res r (\<lambda>result.
             let result = (cc_double Op cc ^^ 4) result;
                 pos = wi * 4
             in bind_res (scalar_bits kl pos 15) (\<lambda>digit.
                  Inr (cc_add Op cc result (selectWindow Op tbl digit)))))
           (rev [0..<nWin]) (Inr (cc_identity Op cc)))"

definition cc_scalarMult :: "fe_ops \<Rightarrow> ctCurve \<Rightarrow> int \<Rightarrow> fe ctPoint \<Rightarrow> fe ctPoint res" where
  "cc_scalarMult Op cc k p =
     bind_res (scalarToLimbs (fo_limbs Op) k) (\<lambda>kl. scalarMultLimbs Op cc kl p)"

definition scalarMultLadder :: "fe_ops \<Rightarrow> ctCurve \<Rightarrow> int \<Rightarrow> fe ctPoint \<Rightarrow> fe ctPoint res" where
  "scalarMultLadder Op cc k p =
     (let kl = feFromBig (fo_limbs Op) k
      in bind_res (fold (\<lambda>i r. bind_res r (\<lambda>(r0, r1).
             bind_res (scalar_bits kl i 1) (\<lambda>b.
               let (r0, r1) = cc_cswap b r0 r1;
                   r1 = cc_add Op cc r0 r1;
                   r0 = cc_double Op cc r0
               in Inr (cc_cswap b r0 r1))))
           (rev [0..<cc_orderBits cc]) (Inr (cc_identity Op cc, p))) (\<lambda>(r0, r1). Inr r0))"

section \<open>Points represent points\<close>

lemma rcb_add_param:
  assumes m: "\<And>a x b y. R a x \<Longrightarrow> R b y \<Longrightarrow> R (fm a b) (gm x y)"
    and p: "\<And>a x b y. R a x \<Longrightarrow> R b y \<Longrightarrow> R (fa a b) (ga x y)"
    and s: "\<And>a x b y. R a x \<Longrightarrow> R b y \<Longrightarrow> R (fs a b) (gs x y)"
    and c: "R a a'" "R b3 b3'" and t: "rel_prod R (rel_prod R R) t t'" and u: "rel_prod R (rel_prod R R) u u'"
  shows "rel_prod R (rel_prod R R) (rcb_add fm fa fs a b3 t u) (rcb_add gm ga gs a' b3' t' u')"
    and "rel_prod R (rel_prod R R) (rcb_double fm fa fs a b3 t) (rcb_double gm ga gs a' b3' t')"
proof -
  obtain x1 y1 z1 x2 y2 z2 where e: "t = (x1, y1, z1)" "u = (x2, y2, z2)" by (metis prod_cases3)
  obtain x1' y1' z1' x2' y2' z2' where e': "t' = (x1', y1', z1')" "u' = (x2', y2', z2')" by (metis prod_cases3)
  have r: "R x1 x1'" "R y1 y1'" "R z1 z1'" "R x2 x2'" "R y2 y2'" "R z2 z2'" using t u by (simp_all add: e e')
  show "rel_prod R (rel_prod R R) (rcb_add fm fa fs a b3 t u) (rcb_add gm ga gs a' b3' t' u')"
    unfolding rcb_add_def Let_def e e' prod.case rel_prod_inject by (intro conjI m p s c r)
  show "rel_prod R (rel_prod R R) (rcb_double fm fa fs a b3 t) (rcb_double gm ga gs a' b3' t')"
    unfolding rcb_double_def Let_def e e' prod.case rel_prod_inject by (intro conjI m p s c r)
qed

definition cc_ok :: "fe_ops \<Rightarrow> ctCurve \<Rightarrow> curve \<Rightarrow> bool" where
  "cc_ok Op cc c \<longleftrightarrow> ctField_ok (fo_limbs Op) (cc_f cc) (cv_P c) \<and>
     frel (fo_limbs Op) (cc_f cc) (cv_P c) (cc_a cc) (cv_A c) \<and>
     frel (fo_limbs Op) (cc_f cc) (cv_P c) (cc_b3 cc) (3 * cv_B c) \<and> cc_orderBits cc = big_BitLen (cv_Q c)"

definition coords :: "fe_ops \<Rightarrow> ctCurve \<Rightarrow> curve \<Rightarrow> fe ctPoint \<Rightarrow> int ctPoint \<Rightarrow> bool" where
  "coords Op cc c = rel_prod (frel (fo_limbs Op) (cc_f cc) (cv_P c))
     (rel_prod (frel (fo_limbs Op) (cc_f cc) (cv_P c)) (frel (fo_limbs Op) (cc_f cc) (cv_P c)))"

definition cprel :: "fe_ops \<Rightarrow> ctCurve \<Rightarrow> curve \<Rightarrow> fe ctPoint \<Rightarrow> ec_point \<Rightarrow> bool" where
  "cprel Op cc c t q \<longleftrightarrow> (\<exists>v. coords Op cc c t v \<and> proj (cv_P c) v q)"

context mont_ops
begin

lemma coords_add:
  assumes ok: "cc_ok Op cc c" and t: "coords Op cc c t v" and u: "coords Op cc c u w"
  shows "coords Op cc c (cc_add Op cc t u) (int_add (cv_A c) (3 * cv_B c) v w)"
    and "coords Op cc c (cc_double Op cc t) (int_double (cv_A c) (3 * cv_B c) v)"
proof -
  let ?R = "frel (fo_limbs Op) (cc_f cc) (cv_P c)"
  have f: "ctField_ok (fo_limbs Op) (cc_f cc) (cv_P c)" and k: "?R (cc_a cc) (cv_A c)" "?R (cc_b3 cc) (3 * cv_B c)"
    using ok by (simp_all add: cc_ok_def)
  note tu = t [unfolded coords_def Let_def] u [unfolded coords_def Let_def]
  show "coords Op cc c (cc_add Op cc t u) (int_add (cv_A c) (3 * cv_B c) v w)"
    unfolding coords_def Let_def cc_add_def
    by (rule rcb_add_param(1) [OF _ _ _ k tu]; (rule frel_mul [OF f] frel_add [OF f] frel_sub [OF f]; assumption))
  show "coords Op cc c (cc_double Op cc t) (int_double (cv_A c) (3 * cv_B c) v)"
    unfolding coords_def Let_def cc_double_def
    by (rule rcb_add_param(2) [OF _ _ _ k tu]; (rule frel_mul [OF f] frel_add [OF f] frel_sub [OF f]; assumption))
qed

lemma coords_identity: "cc_ok Op cc c \<Longrightarrow> coords Op cc c (cc_identity Op cc) (0, 1, 0)"
  by (simp add: coords_def cc_identity_def cc_ok_def fe_zero_def frel_one frel_zero)

lemma coords_fromAffine:
  assumes ok: "cc_ok Op cc c" and P: "0 < cv_P c" and on: "IsOnCurve c (Affine x y)"
  shows "coords Op cc c (cc_fromAffine Op cc (Affine x y)) (x, y, 1)"
proof -
  have f: "ctField_ok (fo_limbs Op) (cc_f cc) (cv_P c)" using ok by (simp add: cc_ok_def)
  have "bigFromFe (cf_p (cc_f cc)) = cv_P c" using ctField_okD(2) [OF f] by (simp add: bigFromFe_val)
  then show ?thesis
    using on frel_one [OF f] frel_toMont [OF f]
    by (simp add: coords_def cc_fromAffine_def IsOnCurve_Affine [OF P] Let_def)
qed

lemma cprel_ops:
  assumes ok: "cc_ok Op cc c" and p: "field_char (cv_P c)" "two_free c S"
    and on: "q \<in> S" "r \<in> S" and t: "cprel Op cc c t q" "cprel Op cc c u r"
  shows "cprel Op cc c (cc_add Op cc t u) (ec_Add c q r)"
    and "cprel Op cc c (cc_double Op cc t) (ec_Double c q)"
  using t coords_add [OF ok] int_add_proj [OF p on] int_double_proj [OF p on(1)]
  unfolding cprel_def by blast+

lemma cprel_identity: "cc_ok Op cc c \<Longrightarrow> field_char (cv_P c) \<Longrightarrow> cprel Op cc c (cc_identity Op cc) Infinity"
  unfolding cprel_def using coords_identity field_one by (intro exI [of _ "(0, 1, 0)"]) (simp add: proj_def)

lemma cprel_fromAffine:
  assumes ok: "cc_ok Op cc c" and p: "field_char (cv_P c)" and on: "IsOnCurve c q"
  shows "cprel Op cc c (cc_fromAffine Op cc q) q"
proof (cases q)
  case Infinity
  then show ?thesis using cprel_identity [OF ok p] by (simp add: cc_fromAffine_def)
next
  case (Affine x y)
  have "0 < cv_P c" using p by (simp add: field_char_def)
  from coords_fromAffine [OF ok this on [unfolded Affine]] show ?thesis
    unfolding cprel_def Affine using field_one [OF p] by (intro exI [of _ "(x, y, 1)"]) (simp add: proj_def)
qed

lemma toAffine_zero:
  assumes ok: "cc_ok Op cc c" and t: "coords Op cc c t (X, Y, Z)" and z: "cv_P c dvd Z"
  shows "cc_toAffine Op cc t = Infinity"
proof -
  obtain x y zz where e: "t = (x, y, zz)" by (metis prod_cases3)
  have f: "ctField_ok (fo_limbs Op) (cc_f cc) (cv_P c)" using ok by (simp add: cc_ok_def)
  have r: "frel (fo_limbs Op) (cc_f cc) (cv_P c) zz Z" using t by (simp add: e coords_def)
  then have "zz = fe_zero Op" using frel_zero_iff [OF f r] z by (simp add: fe_zero_def)
  then show ?thesis by (simp add: cc_toAffine_def e feEqual_eq)
qed

lemma cprel_toAffine:
  assumes ok: "cc_ok Op cc c" and p: "field_char (cv_P c)" and on: "IsOnCurve c q" and t: "cprel Op cc c t q"
  shows "cc_toAffine Op cc t = q"
proof -
  let ?P = "cv_P c" and ?n = "fo_limbs Op" and ?f = "cc_f cc"
  obtain X Y Z where v: "coords Op cc c t (X, Y, Z)" "proj ?P (X, Y, Z) q" using t by (auto simp: cprel_def)
  have P: "2 < ?P" "0 < ?P" using p by (simp_all add: field_char_def)
  show ?thesis
  proof (cases q)
    case Infinity
    then show ?thesis using toAffine_zero [OF ok v(1)] v(2) by (simp add: proj_def)
  next
    case (Affine x y)
    obtain tx ty tz where e: "t = (tx, ty, tz)" by (metis prod_cases3)
    have f: "ctField_ok ?n ?f ?P" using ok by (simp add: cc_ok_def)
    have r: "frel ?n ?f ?P tx X" "frel ?n ?f ?P ty Y" "frel ?n ?f ?P tz Z" using v(1) by (simp_all add: e coords_def)
    have q: "\<not> ?P dvd Z" "?P dvd X - x * Z" "?P dvd Y - y * Z" using v(2) by (simp_all add: Affine proj_def)
    have "length tz = ?n" using r(3) ctField_okD(1) [OF f] by (simp add: frel_def fe_reduced_def)
    then have z: "\<not> feEqual tz (fe_zero Op)" using frel_zero_iff [OF f r(3)] q(1) by (simp add: fe_zero_def feEqual_eq)
    define i where "i = Z ^ nat (?P - 2)"
    have "nat (?P - 1) = Suc (nat (?P - 2))" using P by simp
    then have i: "?P dvd i * Z - 1" using field_fermat [OF p q(1)] by (simp add: i_def mult.commute)
    have x: "?P dvd X * i - x" and y: "?P dvd Y * i - y" using q(2,3) i by algebra+
    have "?P dvd u - w \<Longrightarrow> 0 \<le> w \<Longrightarrow> w < ?P \<Longrightarrow> u mod ?P = w" for u w
      by (metis mod_eq_dvd_iff mod_pos_pos_trivial)
    then have xy: "X * i mod ?P = x" "Y * i mod ?P = y" using x y on by (simp_all add: Affine IsOnCurve_Affine [OF P(2)])
    note inv = frel_inv [OF f P(1) r(3), folded i_def]
    show ?thesis
      using z fromMont [OF f frel_mul [OF f r(1) inv]] fromMont [OF f frel_mul [OF f r(2) inv]]
      by (simp add: cc_toAffine_def e Affine bigFromFe_val xy)
  qed
qed

lemma newCTCurve_n_ok:
  assumes f: "newField (cv_P c) = Inr f" "ctField_ok (fo_limbs Op) f (cv_P c)"
  obtains cc where "newCTCurve_n Op newField c = Inr cc" "cc_ok Op cc c"
proof -
  have "frel (fo_limbs Op) f (cv_P c) (toMont Op f (feFromBig (fo_limbs Op) (x mod cv_P c))) x" for x
    using frel_toMont [OF f(2), of "x mod cv_P c"] frel_cong dvd_mod_diff ctField_okD(4) [OF f(2)] by simp
  from this [of "cv_A c"] this [of "cv_B c * 3"] show ?thesis
    using f that by (simp add: newCTCurve_n_def cc_ok_def mult.commute)
qed

end

section \<open>The context of a curve\<close>

lemma newCTCurve_ok:
  assumes "0 < cv_P c" "odd (cv_P c)" "big_BitLen (cv_P c) \<le> 256"
  obtains cc where "newCTCurve c = Inr cc" "cc_ok ops4 cc c"
proof -
  obtain f where "newCTField (cv_P c) = Inr f" "ctField_ok (fo_limbs ops4) f (cv_P c)"
    using newCTField_n_ok [of "cv_P c" 4] assms unfolding newCTField_def by (auto simp: ops4_def)
  from mont4.newCTCurve_n_ok [of newCTField c f, OF this] show ?thesis using that unfolding newCTCurve_def by blast
qed

section \<open>Decoding the scalar\<close>

lemma le_bytes_drop: "m \<le> n \<Longrightarrow> drop m (le_bytes n k) = le_bytes (n - m) (k div 256 ^ m)"
proof (induction n arbitrary: m k)
  case (Suc n)
  then show ?case by (cases m) (simp_all add: div_mult2_eq)
qed simp

lemma le_bytes_take: "m \<le> n \<Longrightarrow> take m (le_bytes n k) = le_bytes m k"
proof (induction n arbitrary: m k)
  case (Suc n)
  then show ?case by (cases m) simp_all
qed simp

lemma le_word_le_bytes_8: "le_word (le_bytes 8 k) = (word_of_nat k :: u64)"
proof -
  have "le_bytes 8 k = le_bytes 8 (unat (word_of_nat k :: u64))"
    using le_bytes_mod [of 8 k] by (simp add: unat_of_nat)
  also have "\<dots> = word_le 8 (word_of_nat k :: u64)" by (simp only: word_le_le_bytes)
  finally show ?thesis by simp
qed

lemma scalarToLimbs_ok:
  assumes k: "0 \<le> k" "k < radix n"
  shows "scalarToLimbs n k = Inr (feFromBig n k)"
proof -
  have "(256 :: nat) ^ (n * 8) = (2 ^ 64) ^ n" by (simp add: power_mult mult.commute [of n])
  then have "nat k < 256 ^ (n * 8)" using k by (simp add: nat_less_iff)
  then have f: "big_FillBytes k (n * 8) = Inr (rev (le_bytes (n * 8) (nat k)))"
    using k(1) by (rule big_FillBytes_ok [rotated])
  have "be_word (slice ((n - 1 - i) * 8) 8 (rev (le_bytes (n * 8) (nat k)))) = (word_of_int (\<bar>k\<bar> div radix i) :: u64)"
    if i: "i < n" for i
  proof -
    obtain m where "n = i + Suc m" using i less_imp_Suc_add by auto
    then have l: "n * 8 - (n - Suc i) * 8 = Suc i * 8" "n * 8 - ((n - Suc i) * 8 + 8) = i * 8" by simp_all
    have "slice ((n - 1 - i) * 8) 8 (rev (le_bytes (n * 8) (nat k))) = rev (le_bytes 8 (nat k div 256 ^ (i * 8)))"
      using i by (simp add: slice_def drop_rev take_rev l le_bytes_take le_bytes_drop)
    then have "be_word (slice ((n - 1 - i) * 8) 8 (rev (le_bytes (n * 8) (nat k)))) =
        (word_of_nat (nat k div 256 ^ (i * 8)) :: u64)"
      by (simp add: be_word_def le_word_le_bytes_8)
    also have "int (nat k div 256 ^ (i * 8)) = k div radix i"
    proof -
      have "(256 :: int) ^ (i * 8) = radix i" by (simp add: power_mult mult.commute [of i])
      then show ?thesis using k(1) by (simp add: zdiv_int)
    qed
    then have "(word_of_nat (nat k div 256 ^ (i * 8)) :: u64) = word_of_int (k div radix i)"
      by (metis of_int_of_nat_eq)
    finally show ?thesis using k(1) by simp
  qed
  then show ?thesis
    by (simp add: scalarToLimbs_def f scalarBytesToLimbs_def feFromBig_def)
qed

lemma scalar_bits_ok:
  assumes k: "0 \<le> k" and pos: "pos < 64 * n" "pos mod 64 + w \<le> 64"
  shows "scalar_bits (feFromBig n k) pos (mask w) = Inr (word_of_int (take_bit w (drop_bit pos k)))"
proof -
  have i: "drop_bit 6 pos = pos div 64" "pos AND 63 = pos mod 64"
    using take_bit_eq_mask [of 6 pos] by (simp_all add: drop_bit_eq_div mask_eq_exp_minus_1 take_bit_eq_mod)
  have l: "pos div 64 < n" using pos(1) by (simp add: less_mult_imp_div_less mult.commute)
  have "(2 ^ 64) ^ (pos div 64) = (2 :: int) ^ (64 * (pos div 64))" by (simp only: power_mult)
  then have e: "\<bar>k\<bar> div radix (pos div 64) = drop_bit (64 * (pos div 64)) k" using k by (simp only: drop_bit_eq_div abs_of_nonneg)
  have "drop_bit (pos mod 64) (word_of_int (drop_bit (64 * (pos div 64)) k) :: u64) AND mask w =
      word_of_int (take_bit w (drop_bit pos k))"
  proof (rule bit_word_eqI)
    fix j assume "j < LENGTH(64)"
    moreover have "64 * (pos div 64) + (pos mod 64 + j) = pos + j" by simp
    ultimately show "bit (drop_bit (pos mod 64) (word_of_int (drop_bit (64 * (pos div 64)) k) :: u64) AND mask w) j =
        bit (word_of_int (take_bit w (drop_bit pos k)) :: u64) j"
      using pos(2) by (auto simp: bit_simps bit_word_of_int_iff)
  qed
  moreover have "feFromBig n k ! (pos div 64) = word_of_int (drop_bit (64 * (pos div 64)) k)"
    using l unfolding e [symmetric] feFromBig_def by simp
  ultimately show ?thesis using l by (simp add: scalar_bits_def i)
qed

section \<open>The table scan\<close>

definition point_len :: "nat \<Rightarrow> fe ctPoint \<Rightarrow> bool" where
  "point_len n t \<longleftrightarrow> (case t of (x, y, z) \<Rightarrow> length x = n \<and> length y = n \<and> length z = n)"

lemma cmov_Eq: "length u = length r \<Longrightarrow> cmov (ct_Eq a b) u r = (if a = b then u else r)"
  using cmov_mask [of u r 1] cmov_mask [of u r 0] by (simp add: ct_Eq_eq ct_Mask_eq)

lemma selectWindow_nth:
  assumes len: "\<And>j. j < 16 \<Longrightarrow> point_len (fo_limbs Op) (tbl ! j)" and d: "d < 16"
  shows "selectWindow Op tbl (of_nat d) = tbl ! d"
proof -
  let ?z = "(fe_zero Op, fe_zero Op, fe_zero Op)"
  let ?F = "\<lambda>j (rx, ry, rz).
         let msk = ct_Eq (of_nat j) (of_nat d); (tx, ty, tz) = tbl ! j
         in (cmov msk tx rx, cmov msk ty ry, cmov msk tz rz)"
  have "fold ?F [0..<m] ?z = (if d < m then tbl ! d else ?z)" if "m \<le> 16" for m
    using that
  proof (induction m)
    case (Suc m)
    obtain tx ty tz where t: "tbl ! m = (tx, ty, tz)" by (metis prod_cases3)
    obtain dx dy dz where td: "tbl ! d = (dx, dy, dz)" by (metis prod_cases3)
    have l: "length tx = fo_limbs Op" "length ty = fo_limbs Op" "length tz = fo_limbs Op"
      "length dx = fo_limbs Op" "length dy = fo_limbs Op" "length dz = fo_limbs Op" "length (fe_zero Op) = fo_limbs Op"
      using len [of m] len [OF d] Suc.prems by (simp_all add: t td point_len_def fe_zero_def)
    have "(of_nat m :: u64) = of_nat d \<longleftrightarrow> m = d"
    proof
      assume "(of_nat m :: u64) = of_nat d"
      then have "unat (of_nat m :: u64) = unat (of_nat d :: u64)" by simp
      then show "m = d" using Suc.prems d by (simp add: unat_of_nat)
    qed simp
    then show ?case using Suc t td l by (auto simp: cmov_Eq less_Suc_eq)
  qed simp
  from this [of 16] show ?thesis using d by (simp add: selectWindow_def)
qed

section \<open>Scalar multiplication\<close>

lemma ec_mult_windows:
  assumes g: "group_law c" and on: "IsOnCurve c q"
  shows "ec_Double c (ec_mult c m q) = ec_mult c (2 * m) q"
    and "ec_Add c (ec_mult c m q) (ec_mult c j q) = ec_mult c (m + j) q"
proof -
  show "ec_Double c (ec_mult c m q) = ec_mult c (2 * m) q"
    using ec_Add_self [of c "ec_mult c m q"] on group_lawD(1) [OF g] by (simp add: mult_2 ec_mult_add [OF g on])
qed (simp only: ec_mult_add [OF g on])

lemma cprel_len: "ctField_ok (fo_limbs Op) (cc_f cc) (cv_P c) \<Longrightarrow> cprel Op cc c t q \<Longrightarrow> point_len (fo_limbs Op) t"
  using ctField_okD(1) [of "fo_limbs Op" "cc_f cc" "cv_P c"]
  by (auto simp: cprel_def coords_def point_len_def frel_def fe_reduced_def)

lemma window_table_induct:
  assumes zero: "Pr 0 (cc_identity Op cc)" and one: "Pr 1 t"
    and step: "\<And>j r. 1 \<le> j \<Longrightarrow> Pr j r \<Longrightarrow> Pr (Suc j) (cc_add Op cc r t)"
  shows "j < 16 \<Longrightarrow> Pr j (window_table Op cc t ! j)"
proof -
  let ?F = "\<lambda>i tbl. tbl[i := cc_add Op cc (tbl ! (i - 1)) t]"
  let ?z = "(fe_zero Op, fe_zero Op, fe_zero Op)"
  let ?T = "(replicate 16 ?z)[0 := cc_identity Op cc, 1 := t]"
  define G where "G m = fold ?F [2..<2 + m] ?T" for m
  have G: "G 0 = ?T" "G (Suc m) = (G m)[2 + m := cc_add Op cc (G m ! (1 + m)) t]" for m
  proof -
    have "[2..<2 + Suc m] = [2..<2 + m] @ [2 + m]" by (simp del: upt_rec_numeral)
    then show "G (Suc m) = (G m)[2 + m := cc_add Op cc (G m ! (1 + m)) t]" unfolding G_def by simp
  qed (simp add: G_def)
  have "length (G m) = 16 \<and> (\<forall>j < 2 + m. Pr j (G m ! j))" if "m \<le> 14" for m
    using that
  proof (induction m)
    case 0
    then show ?case using zero one by (auto simp: G less_Suc_eq numeral_2_eq_2)
  next
    case (Suc m)
    then have IH: "length (G m) = 16" "\<And>j. j < 2 + m \<Longrightarrow> Pr j (G m ! j)" by simp_all
    have "Pr (2 + m) (cc_add Op cc (G m ! (1 + m)) t)" using step [OF _ IH(2) [of "1 + m"]] by simp
    then have "Pr j (G (Suc m) ! j)" if "j < 2 + Suc m" for j
      using that IH Suc.prems unfolding G by (cases "j = 2 + m") simp_all
    then show ?case using IH(1) by (simp add: G)
  qed
  from this [of 14] show "j < 16 \<Longrightarrow> Pr j (window_table Op cc t ! j)"
    by (simp add: window_table_def G_def)
qed

lemma window_table_0_1: "window_table Op cc t ! 0 = cc_identity Op cc" "window_table Op cc t ! 1 = t"
  using window_table_induct [of "\<lambda>j r. j = 0 \<longrightarrow> r = cc_identity Op cc" Op cc t 0]
    window_table_induct [of "\<lambda>j r. j = 1 \<longrightarrow> r = t" Op cc t 1] by simp_all

text \<open>Sets of points without one of order two: all of a curve that has none, and the multiples of a point of odd order.\<close>

lemma two_free_mult:
  assumes "field_char (cv_P c)" "two_free c S" "q \<in> S"
  shows "ec_mult c n q \<in> S"
proof (induction n)
  case 0
  have "ec_Add c q (ec_neg c q) \<in> S" by (rule two_freeD(3) [OF assms(2,3) two_freeD(2) [OF assms(2,3)]])
  then show ?case using ec_Add_neg(1) [OF assms(1) two_freeD(1) [OF assms(2,3)]] by simp
next
  case (Suc n)
  then show ?case using two_freeD(3) [OF assms(2,3)] by simp
qed

lemma two_free_curve:
  assumes "field_char (cv_P c)" "no_two_torsion c"
  shows "two_free c {q. IsOnCurve c q}"
  using assms ec_neg_on_curve [OF assms(1)] ec_Add_on_curve [OF assms(1)]
  by (simp add: two_free_def no_two_torsion_def)

lemma two_free_odd_order:
  assumes g: "group_law c" and on: "IsOnCurve c q" and N: "odd N" "ec_mult c N q = Infinity"
  shows "two_free c (range (\<lambda>n. ec_mult c n q))"
proof -
  note p = group_lawD(1) [OF g]
  have mul: "ec_mult c (n * N) q = Infinity" for n
    by (simp add: ec_mult_mult [OF g on] N(2))
  have neg: "ec_neg c (ec_mult c n q) = ec_mult c (n * (N - 1)) q" for n
  proof -
    have "n + n * (N - 1) = n * N" using odd_pos [OF N(1)] by (cases N) simp_all
    then have "ec_Add c (ec_mult c n q) (ec_mult c (n * (N - 1)) q) = Infinity"
      using mul [of n] by (simp flip: ec_mult_add [OF g on])
    then show ?thesis using ec_Add_eq_Infinity [OF p, of "ec_mult c n q" "ec_mult c (n * (N - 1)) q"] on p by simp
  qed
  have "Affine x 0 \<noteq> ec_mult c n q" for n x
  proof
    assume "Affine x 0 = ec_mult c n q"
    note e = this [symmetric]
    obtain k where k: "N = 2 * k + 1" using N(1) by (rule oddE)
    have "ec_mult c (2 * n) q = Infinity"
      unfolding mult_2 ec_mult_add [OF g on] e by (simp add: ec_Add_Affine)
    then have "ec_mult c (k * (2 * n)) q = Infinity" by (simp add: ec_mult_mult [OF g on])
    moreover have "n * N = k * (2 * n) + n" by (simp add: k algebra_simps)
    ultimately have "ec_mult c (n * N) q = Affine x 0" by (simp add: ec_mult_add [OF g on] e)
    then show False using mul [of n] by simp
  qed
  then show ?thesis
    using on p neg by (auto simp: two_free_def simp flip: ec_mult_add [OF g on])
qed

text \<open>The points on which the constant-time path agrees with the reference.\<close>

definition odd_multiples :: "curve \<Rightarrow> ec_point \<Rightarrow> bool" where
  "odd_multiples c q \<longleftrightarrow> no_two_torsion c \<or> (\<exists>N. odd N \<and> ec_mult c N q = Infinity)"

lemma odd_multiples_two_free:
  assumes "group_law c" "IsOnCurve c q" "odd_multiples c q"
  obtains S where "two_free c S" "q \<in> S"
proof -
  from assms(3) have "\<exists>S. two_free c S \<and> q \<in> S"
    unfolding odd_multiples_def
  proof
    assume "no_two_torsion c"
    then show ?thesis using two_free_curve [OF group_lawD(1) [OF assms(1)]] assms(2) by blast
  next
    assume "\<exists>N. odd N \<and> ec_mult c N q = Infinity"
    then obtain N where "odd N" "ec_mult c N q = Infinity" by blast
    from two_free_odd_order [OF assms(1,2) this] show ?thesis
      by (metis ec_mult_1 rangeI)
  qed
  then show ?thesis using that by blast
qed

context mont_ops
begin

lemma cprel_table:
  assumes ok: "cc_ok Op cc c" and g: "group_law c" and n2: "two_free c S"
    and S: "q \<in> S" and t: "cprel Op cc c t q"
  shows "j < 16 \<Longrightarrow> cprel Op cc c (window_table Op cc t ! j) (ec_mult c j q)"
proof (erule window_table_induct [rotated 3])
  note p = group_lawD(1) [OF g] and on = two_freeD(1) [OF n2 S]
  show "cprel Op cc c (cc_identity Op cc) (ec_mult c 0 q)" using cprel_identity [OF ok p] by simp
  show "cprel Op cc c t (ec_mult c 1 q)" using t by simp
  fix j r assume r: "cprel Op cc c r (ec_mult c j q)"
  have "cprel Op cc c (cc_add Op cc r t) (ec_Add c (ec_mult c j q) q)"
    by (rule cprel_ops(1) [OF ok p n2 two_free_mult [OF p n2 S] S r t])
  moreover have "ec_Add c (ec_mult c j q) q = ec_mult c (Suc j) q"
    using ec_mult_windows(2) [OF g on, of j 1] by (simp only: ec_mult_1 One_nat_def add_Suc_right add_0_right)
  ultimately show "cprel Op cc c (cc_add Op cc r t) (ec_mult c (Suc j) q)" by simp
qed

lemma cprel_window:
  assumes ok: "cc_ok Op cc c" and g: "group_law c" and n2: "two_free c S"
    and S: "q \<in> S" and t: "cprel Op cc c t q" and d: "0 \<le> d" "d < 16"
  shows "cprel Op cc c (selectWindow Op (window_table Op cc t) (word_of_int d)) (ec_mult c (nat d) q)"
proof -
  note T = cprel_table [OF ok g n2 S t]
  have "point_len (fo_limbs Op) (window_table Op cc t ! j)" if "j < 16" for j
    using cprel_len T [OF that] ok unfolding cc_ok_def by blast
  moreover have "(word_of_int d :: u64) = of_nat (nat d)" using d by simp
  ultimately show ?thesis using selectWindow_nth [of Op "window_table Op cc t" "nat d"] T [of "nat d"] d by simp
qed

lemma cprel_double4:
  assumes ok: "cc_ok Op cc c" and g: "group_law c" and n2: "two_free c S"
    and S: "q \<in> S" and t: "cprel Op cc c r (ec_mult c m q)"
  shows "cprel Op cc c ((cc_double Op cc ^^ i) r) (ec_mult c (2 ^ i * m) q)"
proof (induction i)
  case (Suc i)
  note p = group_lawD(1) [OF g] and on = two_freeD(1) [OF n2 S]
  have "cprel Op cc c (cc_double Op cc ((cc_double Op cc ^^ i) r)) (ec_Double c (ec_mult c (2 ^ i * m) q))"
    using cprel_ops(2) [OF ok p n2 _ _ Suc Suc] two_free_mult [OF p n2 S] by simp
  then show ?case by (simp add: ec_mult_windows(1) [OF g on] mult.assoc)
qed (simp add: t)

lemma cprel_scalarMultLimbs:
  assumes ok: "cc_ok Op cc c" and g: "group_law c" and n2: "two_free c S"
    and S: "q \<in> S" and t: "cprel Op cc c t q"
    and k: "0 \<le> k" "k < 2 ^ big_BitLen (cv_Q c)" and Q: "big_BitLen (cv_Q c) \<le> 64 * fo_limbs Op"
  obtains r where "scalarMultLimbs Op cc (feFromBig (fo_limbs Op) k) t = Inr r" "cprel Op cc c r (ec_mult c (nat k) q)"
proof -
  note p = group_lawD(1) [OF g] and on = two_freeD(1) [OF n2 S]
  let ?kl = "feFromBig (fo_limbs Op) k" and ?tbl = "window_table Op cc t"
  let ?F = "\<lambda>wi r. bind_res r (\<lambda>result.
             let result = (cc_double Op cc ^^ 4) result;
                 pos = wi * 4
             in bind_res (scalar_bits ?kl pos 15) (\<lambda>digit.
                  Inr (cc_add Op cc result (selectWindow Op ?tbl digit))))"
  have steps: "\<exists>r'. fold ?F (rev [0..<N]) (Inr r) = Inr r' \<and> cprel Op cc c r' (ec_mult c (nat k) q)"
    if "4 * N \<le> 64 * fo_limbs Op" "cprel Op cc c r (ec_mult c (nat (k div 16 ^ N)) q)" for N r
    using that
  proof (induction N arbitrary: r)
    case (Suc N)
    let ?d = "take_bit 4 (drop_bit (N * 4) k)"
    have "(N * 4) mod 64 + 4 \<le> 64"
    proof -
      have "(N * 4) mod 64 = (N mod 16) * 4" using mult_mod_left [of N 16 4] by simp
      moreover have "N mod 16 < 16" by simp
      ultimately show ?thesis by linarith
    qed
    then have s: "scalar_bits ?kl (N * 4) 15 = Inr (word_of_int ?d)"
      using scalar_bits_ok [OF k(1), of "N * 4" "fo_limbs Op" 4] Suc.prems(1) by (simp add: mask_eq_exp_minus_1)
    have e: "k div 16 ^ N = 16 * (k div 16 ^ Suc N) + ?d"
    proof -
      have "(2 :: int) ^ (N * 4) = 16 ^ N" by (simp add: power_mult mult.commute [of N])
      then have "?d = k div 16 ^ N mod 16" by (simp add: take_bit_eq_mod drop_bit_eq_div)
      moreover have "k div 16 ^ Suc N = k div 16 ^ N div 16" by (simp only: power_Suc2) (rule zdiv_zmult2_eq, simp)
      ultimately show ?thesis by simp
    qed
    have d: "0 \<le> ?d" "?d < 16" by (simp_all add: take_bit_eq_mod)
    have "nat (k div 16 ^ N) = 2 ^ 4 * nat (k div 16 ^ Suc N) + nat ?d"
      using k(1) d unfolding e by (simp add: nat_add_distrib nat_mult_distrib pos_imp_zdiv_nonneg_iff)
    moreover have "cprel Op cc c (cc_add Op cc ((cc_double Op cc ^^ 4) r) (selectWindow Op ?tbl (word_of_int ?d)))
        (ec_Add c (ec_mult c (2 ^ 4 * nat (k div 16 ^ Suc N)) q) (ec_mult c (nat ?d) q))"
      by (rule cprel_ops(1) [OF ok p n2 _ _ cprel_double4 [OF ok g n2 S Suc.prems(2)] cprel_window [OF ok g n2 S t d]])
        (rule two_free_mult [OF p n2 S])+
    ultimately have "cprel Op cc c (cc_add Op cc ((cc_double Op cc ^^ 4) r) (selectWindow Op ?tbl (word_of_int ?d)))
        (ec_mult c (nat (k div 16 ^ N)) q)"
      by (simp only: ec_mult_windows(2) [OF g on])
    from Suc.IH [OF _ this] Suc.prems(1) show ?case by (simp add: s Let_def)
  qed simp
  let ?N = "(cc_orderBits cc + 4 - 1) div 4"
  have Qb: "cc_orderBits cc = big_BitLen (cv_Q c)" using ok by (simp add: cc_ok_def)
  then have N: "4 * ?N \<le> 64 * fo_limbs Op" "cc_orderBits cc \<le> 4 * ?N" using Q by simp_all
  have "(2 :: int) ^ cc_orderBits cc \<le> 2 ^ (4 * ?N)" using N(2) by (rule power_increasing) simp
  also have "\<dots> = 16 ^ ?N" by (simp add: power_mult)
  finally have "k div 16 ^ ?N = 0" using k Qb by simp
  then have "cprel Op cc c (cc_identity Op cc) (ec_mult c (nat (k div 16 ^ ?N)) q)"
    using cprel_identity [OF ok p] by simp
  from steps [OF N(1) this] show ?thesis using that by (auto simp: scalarMultLimbs_def Let_def)
qed

text \<open>The ladder: \<open>r1\<close> is one point ahead of \<open>r0\<close>.\<close>

lemma cswap_if:
  assumes "point_len n t" "point_len n u"
  shows "cc_cswap b t u = (if odd b then (u, t) else (t, u))"
proof -
  have "fe_swap (ct_Mask b) p q = (if odd b then (q, p) else (p, q))" if "length p = length q" for p q
  proof -
    have "map2 (\<lambda>x y. ct_Mask b AND (x XOR y)) p q = (if odd b then xor_bytes p q else replicate (length p) 0)"
      using that by (induction p q rule: list_induct2) (simp_all add: ct_Mask_eq)
    moreover have "xor_bytes p (xor_bytes p q) = q" "xor_bytes q (xor_bytes p q) = p"
      using that by (metis xor_bytes_cancel xor_bytes_commute order_refl)+
    moreover have "xor_bytes r (replicate (length r) 0) = r" for r :: fe by (induction r) simp_all
    ultimately show ?thesis using that by (simp add: fe_swap_def Let_def) metis
  qed
  then show ?thesis using assms by (auto simp: cc_cswap_def point_len_def)
qed

lemma cprel_ladder:
  assumes ok: "cc_ok Op cc c" and g: "group_law c" and n2: "two_free c S"
    and S: "q \<in> S" and t: "cprel Op cc c t q"
    and k: "0 \<le> k" "k < 2 ^ big_BitLen (cv_Q c)" and Q: "big_BitLen (cv_Q c) \<le> 64 * fo_limbs Op"
  obtains r where "scalarMultLadder Op cc k t = Inr r" "cprel Op cc c r (ec_mult c (nat k) q)"
proof -
  note p = group_lawD(1) [OF g] and on = two_freeD(1) [OF n2 S]
  have f: "ctField_ok (fo_limbs Op) (cc_f cc) (cv_P c)" using ok by (simp add: cc_ok_def)
  let ?kl = "feFromBig (fo_limbs Op) k"
  let ?F = "\<lambda>i r. bind_res r (\<lambda>(r0, r1).
             bind_res (scalar_bits ?kl i 1) (\<lambda>b.
               let (r0, r1) = cc_cswap b r0 r1;
                   r1 = cc_add Op cc r0 r1;
                   r0 = cc_double Op cc r0
               in Inr (cc_cswap b r0 r1)))"
  let ?M = "\<lambda>r m. cprel Op cc c r (ec_mult c m q)"
  have steps: "\<exists>r0' r1'. fold ?F (rev [0..<N]) (Inr (r0, r1)) = Inr (r0', r1') \<and> ?M r0' (nat k)"
    if "N \<le> 64 * fo_limbs Op" "?M r0 (nat (k div 2 ^ N))" "?M r1 (Suc (nat (k div 2 ^ N)))" for N r0 r1
    using that
  proof (induction N arbitrary: r0 r1)
    case (Suc N)
    let ?b = "take_bit 1 (drop_bit N k)" and ?m = "nat (k div 2 ^ Suc N)"
    have s: "scalar_bits ?kl N 1 = Inr (word_of_int ?b)"
      using scalar_bits_ok [OF k(1), of N "fo_limbs Op" 1] Suc.prems(1) by (simp add: mask_eq_exp_minus_1)
    have "?b = k div 2 ^ N mod 2" by (simp add: take_bit_eq_mod drop_bit_eq_div)
    moreover have "k div 2 ^ Suc N = k div 2 ^ N div 2" by (simp only: power_Suc2) (rule zdiv_zmult2_eq, simp)
    ultimately have e: "k div 2 ^ N = 2 * (k div 2 ^ Suc N) + ?b" "?b = 0 \<or> ?b = 1"
      by (simp, simp only:, presburger)
    have m: "nat (k div 2 ^ N) = 2 * ?m + nat ?b"
      using k(1) e(2) unfolding e(1) by (auto simp: nat_add_distrib nat_mult_distrib pos_imp_zdiv_nonneg_iff)
    have len: "point_len (fo_limbs Op) r" if "?M r j" for r j using cprel_len [OF f that] .
    have A: "?M (cc_add Op cc r s) (i + j)" if "?M r i" "?M s j" for r s i j
      using cprel_ops(1) [OF ok p n2 _ _ that] two_free_mult [OF p n2 S] by (simp add: ec_mult_windows(2) [OF g on])
    have D: "?M (cc_double Op cc r) (2 * i)" if "?M r i" for r i
      using cprel_ops(2) [OF ok p n2 _ _ that that] two_free_mult [OF p n2 S] by (simp add: ec_mult_windows(1) [OF g on])
    note r = Suc.prems(2,3)
    show ?case
    proof (cases "?b = 0")
      case True
      have m0: "nat (k div 2 ^ N) = 2 * ?m" using m unfolding True by simp
      have M: "?M (cc_double Op cc r0) (nat (k div 2 ^ N))" "?M (cc_add Op cc r0 r1) (Suc (nat (k div 2 ^ N)))"
        unfolding m0 using D [OF r(1)] A [OF r] by (simp_all only: add_Suc_right mult_2)
      have "?F N (Inr (r0, r1)) = Inr (cc_double Op cc r0, cc_add Op cc r0 r1)"
        using cswap_if [OF len [OF r(1)] len [OF r(2)]] cswap_if [OF len [OF M(1)] len [OF M(2)]]
        by (simp add: s [unfolded True] Let_def)
      then show ?thesis using Suc.IH [OF _ M] Suc.prems(1) by simp
    next
      case False
      then have b: "?b = 1" using e(2) by simp
      have m1: "nat (k div 2 ^ N) = Suc ?m + ?m" using m unfolding b by simp
      have "2 * Suc ?m = Suc (Suc ?m + ?m)" by simp
      then have M: "?M (cc_add Op cc r1 r0) (nat (k div 2 ^ N))" "?M (cc_double Op cc r1) (Suc (nat (k div 2 ^ N)))"
        unfolding m1 using D [OF r(2)] A [OF r(2,1)] by (simp_all only:)
      have "?F N (Inr (r0, r1)) = Inr (cc_add Op cc r1 r0, cc_double Op cc r1)"
        using cswap_if [OF len [OF r(1)] len [OF r(2)]] cswap_if [OF len [OF M(2)] len [OF M(1)]]
        by (simp add: s [unfolded b] Let_def)
      then show ?thesis using Suc.IH [OF _ M] Suc.prems(1) by simp
    qed
  next
    case 0
    then show ?case by (intro exI conjI) simp_all
  qed
  have Qb: "cc_orderBits cc = big_BitLen (cv_Q c)" using ok by (simp add: cc_ok_def)
  have "k div 2 ^ cc_orderBits cc = 0" using k Qb by simp
  then have "?M (cc_identity Op cc) (nat (k div 2 ^ cc_orderBits cc))" "?M t (Suc (nat (k div 2 ^ cc_orderBits cc)))"
    using cprel_identity [OF ok p] t by simp_all
  from steps [OF _ this] Q Qb show ?thesis using that by (auto simp: scalarMultLadder_def Let_def)
qed

lemma cprel_scalarMult:
  assumes ok: "cc_ok Op cc c" and g: "group_law c" and n2: "two_free c S" and S: "q \<in> S"
    and k: "0 \<le> k" "k < cv_Q c" and Q: "big_BitLen (cv_Q c) \<le> 64 * fo_limbs Op"
  shows "bind_res (cc_scalarMult Op cc k (cc_fromAffine Op cc q)) (\<lambda>r. Inr (cc_toAffine Op cc r)) = Inr (ec_ScalarMult c k q)"
    and "bind_res (scalarMultLadder Op cc k (cc_fromAffine Op cc q)) (\<lambda>r. Inr (cc_toAffine Op cc r)) = Inr (ec_ScalarMult c k q)"
proof -
  note p = group_lawD(1) [OF g] and on = two_freeD(1) [OF n2 S]
  have kQ: "k < 2 ^ big_BitLen (cv_Q c)" using big_BitLen_bound [of "cv_Q c"] k by simp
  have "(2 :: int) ^ big_BitLen (cv_Q c) \<le> 2 ^ (64 * fo_limbs Op)" using Q by (rule power_increasing) simp
  then have kn: "k < radix (fo_limbs Op)" using kQ unfolding power_mult by (rule order_less_le_trans [rotated])
  note t = cprel_fromAffine [OF ok p on]
  have aff: "cc_toAffine Op cc r = ec_ScalarMult c k q" if "cprel Op cc c r (ec_mult c (nat k) q)" for r
    using cprel_toAffine [OF ok p _ that] on p by (simp add: ec_ScalarMult_mult [OF g on])
  obtain r where "scalarMultLimbs Op cc (feFromBig (fo_limbs Op) k) (cc_fromAffine Op cc q) = Inr r"
    "cprel Op cc c r (ec_mult c (nat k) q)"
    by (rule cprel_scalarMultLimbs [OF ok g n2 S t k(1) kQ Q])
  then show "bind_res (cc_scalarMult Op cc k (cc_fromAffine Op cc q)) (\<lambda>r. Inr (cc_toAffine Op cc r)) = Inr (ec_ScalarMult c k q)"
    by (simp add: cc_scalarMult_def scalarToLimbs_ok [OF k(1) kn] aff)
  obtain r where "scalarMultLadder Op cc k (cc_fromAffine Op cc q) = Inr r" "cprel Op cc c r (ec_mult c (nat k) q)"
    by (rule cprel_ladder [OF ok g n2 S t k(1) kQ Q])
  then show "bind_res (scalarMultLadder Op cc k (cc_fromAffine Op cc q)) (\<lambda>r. Inr (cc_toAffine Op cc r)) = Inr (ec_ScalarMult c k q)"
    by (simp add: aff)
qed

text \<open>
  With a point of order two. \<open>flat\<close> triples have first and third coordinate zero; the identity
  is one, and the formulas keep them flat.
\<close>

lemma rcb_flat:
  assumes "P dvd x1" "P dvd z1"
  shows "P dvd rcb_X a b3 x1 y1 z1 x2 y2 z2 \<longleftrightarrow> P dvd y1 * y1 * y2 * x2"
    and "P dvd rcb_Z a b3 x1 y1 z1 x2 y2 z2 \<longleftrightarrow> P dvd y1 * y1 * y2 * z2"
proof -
  have "x1 mod P = 0 mod P" "z1 mod P = 0 mod P" using assms by (simp_all add: dvd_eq_mod_eq_0)
  note C = rcb_cong [OF refl refl this(1) refl this(2) refl refl refl, of a b3 y1 x2 y2 z2, unfolded rcb_infinity]
  show "P dvd rcb_X a b3 x1 y1 z1 x2 y2 z2 \<longleftrightarrow> P dvd y1 * y1 * y2 * x2" by (rule dvd_cong [OF C(1)])
  show "P dvd rcb_Z a b3 x1 y1 z1 x2 y2 z2 \<longleftrightarrow> P dvd y1 * y1 * y2 * z2" by (rule dvd_cong [OF C(3)])
qed

lemma two_torsion_add:
  assumes ok: "cc_ok Op cc c" and P: "0 < cv_P c" and on: "IsOnCurve c (Affine x 0)"
  shows "cc_add Op cc (cc_identity Op cc) (cc_fromAffine Op cc (Affine x 0)) = (fe_zero Op, fe_zero Op, fe_zero Op)"
proof -
  obtain X Y Z where e: "cc_add Op cc (cc_identity Op cc) (cc_fromAffine Op cc (Affine x 0)) = (X, Y, Z)"
    by (metis prod_cases3)
  have f: "ctField_ok (fo_limbs Op) (cc_f cc) (cv_P c)" using ok by (simp add: cc_ok_def)
  have "int_add (cv_A c) (3 * cv_B c) (0, 1, 0) (x, 0, 1) = (0, 0, 0)"
    by (simp add: int_add rcb_infinity)
  with coords_add(1) [OF ok coords_identity [OF ok] coords_fromAffine [OF ok P on]]
  have "frel (fo_limbs Op) (cc_f cc) (cv_P c) X 0" "frel (fo_limbs Op) (cc_f cc) (cv_P c) Y 0"
    "frel (fo_limbs Op) (cc_f cc) (cv_P c) Z 0" by (simp_all add: e coords_def)
  then show ?thesis using frel_zero_iff [OF f] by (simp add: e fe_zero_def)
qed

lemma two_torsion_scalarMult:
  assumes ok: "cc_ok Op cc c" and P: "0 < cv_P c" and on: "IsOnCurve c (Affine x 0)"
    and n: "2 \<le> radix (fo_limbs Op)" and Q: "big_BitLen (cv_Q c) \<le> 64 * fo_limbs Op"
  shows "bind_res (cc_scalarMult Op cc 1 (cc_fromAffine Op cc (Affine x 0))) (\<lambda>r. Inr (cc_toAffine Op cc r)) = Inr Infinity"
proof -
  let ?kl = "feFromBig (fo_limbs Op) 1" and ?t = "cc_fromAffine Op cc (Affine x 0)"
  define tbl where "tbl = window_table Op cc ?t"
  define flat where "flat r \<longleftrightarrow> (\<exists>X Y Z. coords Op cc c r (X, Y, Z) \<and> cv_P c dvd X \<and> cv_P c dvd Z)" for r
  let ?F = "\<lambda>wi r. bind_res r (\<lambda>result.
             let result = (cc_double Op cc ^^ 4) result;
                 pos = wi * 4
             in bind_res (scalar_bits ?kl pos 15) (\<lambda>digit.
                  Inr (cc_add Op cc result (selectWindow Op tbl digit))))"
  have f: "ctField_ok (fo_limbs Op) (cc_f cc) (cv_P c)" using ok by (simp add: cc_ok_def)
  have idt: "flat (cc_identity Op cc)" unfolding flat_def using coords_identity [OF ok] by (intro exI conjI) auto
  have t: "coords Op cc c ?t (x, 0, 1)" by (rule coords_fromAffine [OF ok P on])
  have dbl: "flat (cc_double Op cc r)" if fl: "flat r" for r
  proof -
    obtain X Y Z where r: "coords Op cc c r (X, Y, Z)" "cv_P c dvd X" "cv_P c dvd Z" using fl(1) unfolding flat_def by blast
    have "cv_P c dvd rcb_X (cv_A c) (3 * cv_B c) X Y Z X Y Z"
      using rcb_flat(1) [OF r(2,3), of "cv_A c" "3 * cv_B c" Y X Y Z] r(2) by simp
    moreover have "cv_P c dvd 8 * Y ^ 3 * Z" using r(3) by simp
    ultimately show ?thesis unfolding flat_def
      using coords_add(2) [OF ok r(1) r(1), unfolded int_double] by blast
  qed
  have add: "flat (cc_add Op cc r s)" if fl: "flat r" "flat s \<or> s = ?t" for r s
  proof -
    obtain X Y Z where r: "coords Op cc c r (X, Y, Z)" "cv_P c dvd X" "cv_P c dvd Z" using fl(1) unfolding flat_def by blast
    obtain X' Y' Z' where s: "coords Op cc c s (X', Y', Z')" "cv_P c dvd X' \<and> cv_P c dvd Z' \<or> cv_P c dvd Y'"
      using fl(2) t unfolding flat_def by blast
    have "cv_P c dvd rcb_X (cv_A c) (3 * cv_B c) X Y Z X' Y' Z'" "cv_P c dvd rcb_Z (cv_A c) (3 * cv_B c) X Y Z X' Y' Z'"
      using rcb_flat [OF r(2,3), of "cv_A c" "3 * cv_B c" Y X' Y' Z'] s(2) by auto
    then show ?thesis unfolding flat_def
      using coords_add(1) [OF ok r(1) s(1), unfolded int_add] by blast
  qed
  have len: "coords Op cc c r v \<Longrightarrow> point_len (fo_limbs Op) r" for r v
    using ctField_okD(1) [OF f] by (cases r; cases v; auto simp: coords_def point_len_def frel_def fe_reduced_def)
  have "\<exists>v. coords Op cc c (tbl ! j) v" if "j < 16" for j
    using that unfolding tbl_def
    by (rule window_table_induct [where Pr = "\<lambda>_ r. \<exists>v. coords Op cc c r v", rotated 3])
      (use coords_identity [OF ok] t coords_add(1) [OF ok _ t] in blast)+
  then have sel: "selectWindow Op tbl (of_nat d) = tbl ! d" if "d < 16" for d
    using that len by (intro selectWindow_nth) blast+
  have "\<exists>r'. fold ?F (rev [0..<N]) (Inr r) = Inr r' \<and> flat r'" if "flat r" "4 * N \<le> 64 * fo_limbs Op" for N r
    using that
  proof (induction N arbitrary: r)
    case (Suc N)
    have "(N * 4) mod 64 + 4 \<le> 64"
    proof -
      have "(N * 4) mod 64 = (N mod 16) * 4" using mult_mod_left [of N 16 4] by simp
      moreover have "N mod 16 < 16" by simp
      ultimately show ?thesis by linarith
    qed
    then have s: "scalar_bits ?kl (N * 4) 15 = Inr (word_of_int (take_bit 4 (drop_bit (N * 4) 1)))"
      using scalar_bits_ok [of 1 "N * 4" "fo_limbs Op" 4] Suc.prems(2) by (simp add: mask_eq_exp_minus_1)
    have "take_bit 4 (drop_bit (N * 4) (1 :: int)) = of_bool (N = 0)"
      by (simp add: drop_bit_of_1)
    then have d: "(word_of_int (take_bit 4 (drop_bit (N * 4) 1)) :: u64) = of_nat (of_bool (N = 0))" by simp
    have "(of_bool (N = 0) :: nat) < 16" by simp
    note sel [OF this]
    moreover have "flat (tbl ! of_bool (N = 0)) \<or> tbl ! of_bool (N = 0) = ?t"
      using window_table_0_1 [of Op cc ?t] idt by (simp add: tbl_def)
    moreover have "flat ((cc_double Op cc ^^ i) r)" for i using Suc.prems(1) dbl by (induction i) simp_all
    ultimately have "flat (cc_add Op cc ((cc_double Op cc ^^ 4) r) (selectWindow Op tbl (word_of_int (take_bit 4 (drop_bit (N * 4) 1)))))"
      unfolding d using add by metis
    from Suc.IH [OF this] Suc.prems(2) show ?case by (simp add: s Let_def)
  qed simp
  moreover have "4 * ((cc_orderBits cc + 4 - 1) div 4) \<le> 64 * fo_limbs Op" using Q ok by (simp add: cc_ok_def)
  ultimately obtain r where r: "scalarMultLimbs Op cc ?kl ?t = Inr r" "flat r"
    using idt unfolding scalarMultLimbs_def Let_def tbl_def [symmetric] by blast
  have "cc_toAffine Op cc r = Infinity" using r(2) toAffine_zero [OF ok] unfolding flat_def by blast
  then show ?thesis using r(1) scalarToLimbs_ok [of 1 "fo_limbs Op"] n by (simp add: cc_scalarMult_def)
qed

end

end
