(* ===== verification/CTPoint8.thy ===== *)
theory CTPoint8
  imports CTPoint
begin

unbundle bit_operations_syntax

text \<open>
  \<^verbatim>\<open>gost3410curves/ctpoint8.go\<close> and \<^verbatim>\<open>ctscalar8.go\<close> with the rest of
  \<^verbatim>\<open>ctfield8.go\<close>: the eight-limb copy of the point and scalar code, as it stands. Every function is
  the one of \<open>CTPoint\<close> over the operations \<open>ops8\<close> (\<open>ct8_generic\<close>), so that what is proved there
  once, for any width, holds of it. The structs have the fields of their four-limb counterparts and share
  their records.
\<close>

section \<open>Conversions of the field\<close>

text \<open>\<^verbatim>\<open>big.Int.Bits\<close>: the words of the absolute value, the lowest first, the highest not zero.\<close>

fun nat_words :: "nat \<Rightarrow> fe" where
  "nat_words n = (if n = 0 then [] else of_nat n # nat_words (n div 2 ^ 64))"

declare nat_words.simps [simp del]

definition big_Bits :: "int \<Rightarrow> fe" where
  "big_Bits x = nat_words (nat \<bar>x\<bar>)"

definition feFromBig8 :: "int \<Rightarrow> fe" where
  "feFromBig8 x =
     (let b = big_Bits x in fold (\<lambda>i out. out[i := b ! i]) [0..<min (length b) 8] (replicate 8 0))"

definition bigFromFe8 :: "fe \<Rightarrow> int" where
  "bigFromFe8 a = fold (\<lambda>i out. push_bit 64 out OR uint (a ! i)) (rev [0..<length a]) 0"

definition cmov8 :: "u64 \<Rightarrow> fe \<Rightarrow> fe \<Rightarrow> fe" where
  "cmov8 msk a b = map2 (\<lambda>x y. (x AND msk) OR (y AND NOT msk)) a b"

definition feEqual8 :: "fe \<Rightarrow> fe \<Rightarrow> bool" where
  "feEqual8 a b = (fold (\<lambda>(x, y) diff. diff OR (x XOR y)) (zip a b) 0 = 0)"

definition ctField8_sqr :: "ctField \<Rightarrow> fe \<Rightarrow> fe" where
  "ctField8_sqr f a = ctField8_mul f a a"

definition ctField8_toMont :: "ctField \<Rightarrow> fe \<Rightarrow> fe" where
  "ctField8_toMont f a = ctField8_mul f a (cf_rr f)"

definition ctField8_fromMont :: "ctField \<Rightarrow> fe \<Rightarrow> fe" where
  "ctField8_fromMont f a = (let lit = replicate 8 0; lit = lit[0 := 1] in ctField8_mul f a lit)"

definition ctField8_inv :: "ctField \<Rightarrow> fe \<Rightarrow> fe" where
  "ctField8_inv f a =
     (let e = bigFromFe8 (cf_p f) - 2
      in fold (\<lambda>i result.
           let result = ctField8_sqr f result
           in if big_Bit e i = 1 then ctField8_mul f result a else result)
         (rev [0..<big_BitLen e]) (cf_one f))"

section \<open>Points\<close>

definition newCTCurve8 :: "curve \<Rightarrow> ctCurve res" where
  "newCTCurve8 c = bind_res (newCTField8 (cv_P c)) (\<lambda>f.
     let aRed = cv_A c mod cv_P c;
         b3big = cv_B c * 3 mod cv_P c
     in Inr \<lparr>cc_f = f, cc_a = ctField8_toMont f (feFromBig8 aRed),
          cc_b3 = ctField8_toMont f (feFromBig8 b3big), cc_orderBits = big_BitLen (cv_Q c)\<rparr>)"

definition ct8_identity :: "ctCurve \<Rightarrow> fe ctPoint" where
  "ct8_identity cc = (replicate 8 0, cf_one (cc_f cc), replicate 8 0)"

definition ct8_fromAffine :: "ctCurve \<Rightarrow> ec_point \<Rightarrow> fe ctPoint" where
  "ct8_fromAffine cc p =
     (case p of Infinity \<Rightarrow> ct8_identity cc
      | Affine px py \<Rightarrow>
        let f = cc_f cc;
            md = bigFromFe8 (cf_p f);
            x = ctField8_toMont f (feFromBig8 (px mod md));
            y = ctField8_toMont f (feFromBig8 (py mod md))
        in (x, y, cf_one f))"

definition ct8_toAffine :: "ctCurve \<Rightarrow> fe ctPoint \<Rightarrow> ec_point" where
  "ct8_toAffine cc p =
     (let f = cc_f cc; (px, py, pz) = p
      in if feEqual8 pz (replicate 8 0) then Infinity
         else let zinv = ctField8_inv f pz;
                  x = ctField8_fromMont f (ctField8_mul f px zinv);
                  y = ctField8_fromMont f (ctField8_mul f py zinv)
              in Affine (bigFromFe8 x) (bigFromFe8 y))"

definition ct8_add :: "ctCurve \<Rightarrow> fe ctPoint \<Rightarrow> fe ctPoint \<Rightarrow> fe ctPoint" where
  "ct8_add cc p q =
     (let f = cc_f cc;
          a = cc_a cc;
          b3 = cc_b3 cc;
          (x1, y1, z1) = p;
          (x2, y2, z2) = q;
          t0 = ctField8_mul f x1 x2;
          t1 = ctField8_mul f y1 y2;
          t2 = ctField8_mul f z1 z2;
          t3 = ctField8_add f x1 y1;
          t4 = ctField8_add f x2 y2;
          t3 = ctField8_mul f t3 t4;
          t4 = ctField8_add f t0 t1;
          t3 = ctField8_sub f t3 t4;
          t4 = ctField8_add f x1 z1;
          t5 = ctField8_add f x2 z2;
          t4 = ctField8_mul f t4 t5;
          t5 = ctField8_add f t0 t2;
          t4 = ctField8_sub f t4 t5;
          t5 = ctField8_add f y1 z1;
          x3 = ctField8_add f y2 z2;
          t5 = ctField8_mul f t5 x3;
          x3 = ctField8_add f t1 t2;
          t5 = ctField8_sub f t5 x3;
          z3 = ctField8_mul f a t4;
          x3 = ctField8_mul f b3 t2;
          z3 = ctField8_add f x3 z3;
          x3 = ctField8_sub f t1 z3;
          z3 = ctField8_add f t1 z3;
          y3 = ctField8_mul f x3 z3;
          t1 = ctField8_add f t0 t0;
          t1 = ctField8_add f t1 t0;
          t2 = ctField8_mul f a t2;
          t4 = ctField8_mul f b3 t4;
          t1 = ctField8_add f t1 t2;
          t2 = ctField8_sub f t0 t2;
          t2 = ctField8_mul f a t2;
          t4 = ctField8_add f t4 t2;
          t0 = ctField8_mul f t1 t4;
          y3 = ctField8_add f y3 t0;
          t0 = ctField8_mul f t5 t4;
          x3 = ctField8_mul f t3 x3;
          x3 = ctField8_sub f x3 t0;
          t0 = ctField8_mul f t3 t1;
          z3 = ctField8_mul f t5 z3;
          z3 = ctField8_add f z3 t0
      in (x3, y3, z3))"

definition ct8_double :: "ctCurve \<Rightarrow> fe ctPoint \<Rightarrow> fe ctPoint" where
  "ct8_double cc p =
     (let f = cc_f cc;
          a = cc_a cc;
          b3 = cc_b3 cc;
          (x1, y1, z1) = p;
          t0 = ctField8_sqr f x1;
          t1 = ctField8_sqr f y1;
          t2 = ctField8_sqr f z1;
          t3 = ctField8_mul f x1 y1;
          t3 = ctField8_add f t3 t3;
          z3 = ctField8_mul f x1 z1;
          z3 = ctField8_add f z3 z3;
          x3 = ctField8_mul f a z3;
          y3 = ctField8_mul f b3 t2;
          y3 = ctField8_add f x3 y3;
          x3 = ctField8_sub f t1 y3;
          y3 = ctField8_add f t1 y3;
          y3 = ctField8_mul f x3 y3;
          x3 = ctField8_mul f t3 x3;
          z3 = ctField8_mul f b3 z3;
          t2 = ctField8_mul f a t2;
          t3 = ctField8_sub f t0 t2;
          t3 = ctField8_mul f a t3;
          t3 = ctField8_add f t3 z3;
          z3 = ctField8_add f t0 t0;
          t0 = ctField8_add f z3 t0;
          t0 = ctField8_add f t0 t2;
          t0 = ctField8_mul f t0 t3;
          y3 = ctField8_add f y3 t0;
          t2 = ctField8_mul f y1 z1;
          t2 = ctField8_add f t2 t2;
          t0 = ctField8_mul f t2 t3;
          x3 = ctField8_sub f x3 t0;
          z3 = ctField8_mul f t2 t1;
          z3 = ctField8_add f z3 z3;
          z3 = ctField8_add f z3 z3
      in (x3, y3, z3))"

section \<open>Scalars\<close>

definition scalarBytesToLimbs8 :: "bytes \<Rightarrow> fe" where
  "scalarBytesToLimbs8 b = map (\<lambda>i. be_word (slice ((8 - 1 - i) * 8) 8 b)) [0..<8]"

definition scalarToLimbs8 :: "int \<Rightarrow> fe res" where
  "scalarToLimbs8 k = bind_res (big_FillBytes k (8 * 8)) (\<lambda>buf. Inr (scalarBytesToLimbs8 buf))"

definition selectWindow8 :: "fe ctPoint list \<Rightarrow> u64 \<Rightarrow> fe ctPoint" where
  "selectWindow8 tbl digit =
     fold (\<lambda>j (rx, ry, rz).
         let msk = ct_Eq (of_nat j) digit; (tx, ty, tz) = tbl ! j
         in (cmov8 msk tx rx, cmov8 msk ty ry, cmov8 msk tz rz))
       [0..<16] (replicate 8 0, replicate 8 0, replicate 8 0)"

definition scalarMultLimbs8 :: "ctCurve \<Rightarrow> fe \<Rightarrow> fe ctPoint \<Rightarrow> fe ctPoint res" where
  "scalarMultLimbs8 cc kl p =
     (let tbl = replicate 16 (replicate 8 0, replicate 8 0, replicate 8 0);
          tbl = tbl[0 := ct8_identity cc, 1 := p];
          tbl = fold (\<lambda>i tbl. tbl[i := ct8_add cc (tbl ! (i - 1)) p]) [2..<16] tbl;
          nWin = (cc_orderBits cc + 4 - 1) div 4
      in fold (\<lambda>wi r. bind_res r (\<lambda>result.
             let result = (ct8_double cc ^^ 4) result;
                 pos = wi * 4
             in bind_res (scalar_bits kl pos 15) (\<lambda>digit.
                  Inr (ct8_add cc result (selectWindow8 tbl digit)))))
           (rev [0..<nWin]) (Inr (ct8_identity cc)))"

definition ct8_scalarMult :: "ctCurve \<Rightarrow> int \<Rightarrow> fe ctPoint \<Rightarrow> fe ctPoint res" where
  "ct8_scalarMult cc k p = bind_res (scalarToLimbs8 k) (\<lambda>kl. scalarMultLimbs8 cc kl p)"

section \<open>The generic code at eight limbs\<close>

lemma nat_words_nth:
  "i < length (nat_words n) \<Longrightarrow> nat_words n ! i = of_nat (n div (2 ^ 64) ^ i)"
  "length (nat_words n) \<le> i \<Longrightarrow> n div (2 ^ 64) ^ i = 0"
proof (induction n arbitrary: i rule: nat_words.induct)
  case (1 n)
  { case 1
    then show ?case using "1.IH"(1) [of "i - 1"]
      by (subst nat_words.simps, cases i) (auto simp: nat_words.simps [of n] div_mult2_eq split: if_splits)
  next
    case 2
    then show ?case using "1.IH"(2) [of "i - 1"]
      by (cases i) (auto simp: nat_words.simps [of n] div_mult2_eq split: if_splits)
  }
qed

lemma fold_update_length: "length (fold (\<lambda>i out. out[i := b ! i]) is xs) = length xs"
  by (induction "is" arbitrary: xs) simp_all

lemma fold_update_nth:
  "j < length xs \<Longrightarrow> fold (\<lambda>i out. out[i := b ! i]) [0..<m] xs ! j = (if j < m then b ! j else xs ! j)"
  by (induction m) (auto simp: nth_list_update fold_update_length less_Suc_eq)

lemma feFromBig8_eq: "feFromBig8 x = feFromBig 8 x"
proof (rule nth_equalityI)
  let ?n = "nat \<bar>x\<bar>"
  fix j assume "j < length (feFromBig8 x)"
  then have j: "j < 8" by (simp add: feFromBig8_def fold_update_length Let_def)
  have "int (?n div (2 ^ 64) ^ j) = \<bar>x\<bar> div radix j" by (simp add: zdiv_int)
  then have e: "word_of_int (\<bar>x\<bar> div radix j) = (of_nat (?n div (2 ^ 64) ^ j) :: u64)"
    by (metis of_int_of_nat_eq)
  have "feFromBig8 x ! j = (if j < length (nat_words ?n) then nat_words ?n ! j else 0)"
    using j by (simp add: feFromBig8_def big_Bits_def fold_update_nth Let_def del: upt_rec_numeral)
  also have "\<dots> = of_nat (?n div (2 ^ 64) ^ j)"
    using nat_words_nth(1) [of j ?n] nat_words_nth(2) [of ?n j] by (cases "j < length (nat_words ?n)") simp_all
  finally show "feFromBig8 x ! j = feFromBig 8 x ! j" using j unfolding e [symmetric] feFromBig_def by simp
qed (simp add: feFromBig8_def feFromBig_def fold_update_length Let_def)

lemma ops8_simps [simp]:
  "fo_limbs ops8 = 8" "fo_mul ops8 = ctField8_mul" "fo_add ops8 = ctField8_add" "fo_sub ops8 = ctField8_sub"
  by (simp_all add: ops8_def)

lemma ct8_field:
  "bigFromFe8 = bigFromFe" "cmov8 = cmov" "feEqual8 = feEqual"
  "ctField8_toMont = toMont ops8" "ctField8_fromMont = fromMont ops8" "ctField8_inv = ctField_inv ops8"
  by (simp_all cong: if_cong add: fun_eq_iff bigFromFe8_def bigFromFe_def cmov8_def cmov_def feEqual8_def feEqual_def
      ctField8_toMont_def toMont_def ctField8_fromMont_def fromMont_def ctField8_inv_def ctField_inv_def
      ctField8_sqr_def)

lemma ct8_points:
  "newCTCurve8 = newCTCurve_n ops8 newCTField8" "ct8_identity = cc_identity ops8"
  "ct8_fromAffine = cc_fromAffine ops8" "ct8_toAffine = cc_toAffine ops8"
  by (simp_all add: fun_eq_iff newCTCurve8_def newCTCurve_n_def ct8_identity_def cc_identity_def fe_zero_def
      ct8_fromAffine_def cc_fromAffine_def ct8_toAffine_def cc_toAffine_def ct8_field feFromBig8_eq Let_def
      split: ec_point.splits)

lemma ct8_add: "ct8_add = cc_add ops8"
  by (intro ext) (simp only: ct8_add_def cc_add_def rcb_add_def ops8_simps Let_def)

lemma ct8_double: "ct8_double = cc_double ops8"
  by (intro ext) (simp only: ct8_double_def cc_double_def rcb_double_def ctField8_sqr_def ops8_simps Let_def)

lemma ct8_scalars:
  "scalarBytesToLimbs8 = scalarBytesToLimbs 8" "scalarToLimbs8 = scalarToLimbs 8"
  "selectWindow8 = selectWindow ops8" "scalarMultLimbs8 = scalarMultLimbs ops8" "ct8_scalarMult = cc_scalarMult ops8"
proof -
  show a: "scalarBytesToLimbs8 = scalarBytesToLimbs 8"
    by (intro ext) (simp only: scalarBytesToLimbs8_def scalarBytesToLimbs_def)
  show b: "scalarToLimbs8 = scalarToLimbs 8"
    by (intro ext) (simp only: scalarToLimbs8_def scalarToLimbs_def a)
  show c: "selectWindow8 = selectWindow ops8"
    by (intro ext) (simp only: selectWindow8_def selectWindow_def fe_zero_def ct8_field ops8_simps)
  show d: "scalarMultLimbs8 = scalarMultLimbs ops8"
    by (intro ext) (simp only: scalarMultLimbs8_def scalarMultLimbs_def window_table_def fe_zero_def
        c ct8_points ct8_add ct8_double ops8_simps Let_def)
  show "ct8_scalarMult = cc_scalarMult ops8"
    by (intro ext) (simp only: ct8_scalarMult_def cc_scalarMult_def b d ops8_simps)
qed

lemmas ct8_generic = ct8_field feFromBig8_eq ct8_points ct8_add ct8_double ct8_scalars

lemma newCTCurve8_ok:
  assumes "0 < cv_P c" "odd (cv_P c)" "big_BitLen (cv_P c) \<le> 512"
  obtains cc where "newCTCurve8 c = Inr cc" "cc_ok ops8 cc c"
proof -
  obtain f where "newCTField8 (cv_P c) = Inr f" "ctField_ok (fo_limbs ops8) f (cv_P c)"
    using newCTField_n_ok [of "cv_P c" 8] assms unfolding newCTField8_def by auto
  from mont8.newCTCurve_n_ok [of newCTField8 c f, OF this] show ?thesis using that unfolding ct8_points by blast
qed

end
