(* ===== verification/CTScalar.thy ===== *)
theory CTScalar
  imports CTPoint8
begin

text \<open>
  The exported entry points of \<^verbatim>\<open>gost3410curves/ctscalar.go\<close>: the contexts memoised in the
  curve, and the scalar multiplication of the width of its field.
\<close>

section \<open>Entry points\<close>

definition ScalarMultCT :: "curve \<Rightarrow> int \<Rightarrow> ec_point \<Rightarrow> ec_point res" where
  "ScalarMultCT c k p =
     (if k \<le> 0 \<or> IsInfinity p then Inr Infinity
      else if big_BitLen (cv_P c) \<le> 256
      then bind_res (newCTCurve c) (\<lambda>cc.
             bind_res (cc_scalarMult ops4 cc k (cc_fromAffine ops4 cc p)) (\<lambda>r. Inr (cc_toAffine ops4 cc r)))
      else if big_BitLen (cv_P c) \<le> 8 * 64
      then bind_res (newCTCurve8 c) (\<lambda>cc8.
             bind_res (ct8_scalarMult cc8 k (ct8_fromAffine cc8 p)) (\<lambda>r. Inr (ct8_toAffine cc8 r)))
      else Inr (ec_ScalarMult c k p))"

text \<open>
  The curve memoises the two contexts, each built by the first call that asks for it
  (\<^verbatim>\<open>sync.Once\<close>); the pointers are nil before that and for the widths they do not serve. A
  panic of a constructor ends the run.
\<close>

record ct_cache =
  ch_ctOnce :: bool
  ch_ctCached :: "ctCurve option"
  ch_ctOnce8 :: bool
  ch_ctCached8 :: "ctCurve option"

definition ct_fresh :: ct_cache where
  "ct_fresh = \<lparr>ch_ctOnce = False, ch_ctCached = None, ch_ctOnce8 = False, ch_ctCached8 = None\<rparr>"

definition Curve_ctCurve :: "curve \<Rightarrow> ct_cache \<Rightarrow> (ctCurve option \<times> ct_cache) res" where
  "Curve_ctCurve c s =
     (if ch_ctOnce s then Inr (ch_ctCached s, s)
      else let s = s\<lparr>ch_ctOnce := True\<rparr>
           in if big_BitLen (cv_P c) \<le> 256
              then bind_res (newCTCurve c) (\<lambda>cc. Inr (Some cc, s\<lparr>ch_ctCached := Some cc\<rparr>))
              else Inr (ch_ctCached s, s))"

definition Curve_ctCurve8 :: "curve \<Rightarrow> ct_cache \<Rightarrow> (ctCurve option \<times> ct_cache) res" where
  "Curve_ctCurve8 c s =
     (if ch_ctOnce8 s then Inr (ch_ctCached8 s, s)
      else let s = s\<lparr>ch_ctOnce8 := True\<rparr>; n = big_BitLen (cv_P c)
           in if n > 256 \<and> n \<le> 8 * 64
              then bind_res (newCTCurve8 c) (\<lambda>cc. Inr (Some cc, s\<lparr>ch_ctCached8 := Some cc\<rparr>))
              else Inr (ch_ctCached8 s, s))"

definition ScalarMultCT_memo :: "curve \<Rightarrow> int \<Rightarrow> ec_point \<Rightarrow> ct_cache \<Rightarrow> (ec_point \<times> ct_cache) res" where
  "ScalarMultCT_memo c k p s =
     (if k \<le> 0 \<or> IsInfinity p then Inr (Infinity, s)
      else bind_res (Curve_ctCurve c s) (\<lambda>(cc, s).
        case cc of
          Some cc \<Rightarrow> bind_res (cc_scalarMult ops4 cc k (cc_fromAffine ops4 cc p)) (\<lambda>r. Inr (cc_toAffine ops4 cc r, s))
        | None \<Rightarrow> bind_res (Curve_ctCurve8 c s) (\<lambda>(cc8, s).
            case cc8 of
              Some cc8 \<Rightarrow> bind_res (ct8_scalarMult cc8 k (ct8_fromAffine cc8 p)) (\<lambda>r. Inr (ct8_toAffine cc8 r, s))
            | None \<Rightarrow> Inr (ec_ScalarMult c k p, s))))"

definition ScalarMultSecret :: "curve \<Rightarrow> int \<Rightarrow> ec_point \<Rightarrow> ec_point res" where
  "ScalarMultSecret c k p = (if cv_ConstantTime c then ScalarMultCT c k p else Inr (ec_ScalarMult c k p))"

section \<open>The entry point\<close>

lemma ScalarMultCT_correct:
  assumes g: "group_law c" and n2: "odd_multiples c q" and on: "IsOnCurve c q"
    and k: "0 \<le> k" "k < cv_Q c" and Q: "big_BitLen (cv_Q c) \<le> 8 * PointSize c"
  shows "ScalarMultCT c k q = Inr (ec_ScalarMult c k q)"
proof -
  obtain S where S: "two_free c S" "q \<in> S" by (rule odd_multiples_two_free [OF g on n2])
  have P: "0 < cv_P c" "odd (cv_P c)"
  proof -
    note p = group_lawD(1) [OF g]
    show "0 < cv_P c" using p by (simp add: field_char_def)
    show "odd (cv_P c)"
    proof
      assume "even (cv_P c)"
      moreover have "coprime 2 (cv_P c)"
        using p unfolding field_char_def by (metis greaterThanLessThan_iff zero_less_numeral)
      ultimately show False by simp
    qed
  qed
  consider "k \<le> 0 \<or> IsInfinity q" | "0 < k" "\<not> IsInfinity q" "big_BitLen (cv_P c) \<le> 256"
    | "0 < k" "\<not> IsInfinity q" "\<not> big_BitLen (cv_P c) \<le> 256" "big_BitLen (cv_P c) \<le> 512"
    | "0 < k" "\<not> IsInfinity q" "\<not> big_BitLen (cv_P c) \<le> 512" by linarith
  then show ?thesis
  proof cases
    case 1
    then show ?thesis by (auto simp: ScalarMultCT_def ec_ScalarMult_def)
  next
    case 2
    obtain cc where cc: "newCTCurve c = Inr cc" "cc_ok ops4 cc c" by (rule newCTCurve_ok [OF P 2(3)])
    have "big_BitLen (cv_Q c) \<le> 64 * fo_limbs ops4" using Q 2(3) by (simp add: PointSize_def ops4_def)
    from mont4.cprel_scalarMult(1) [OF cc(2) g S k this] show ?thesis
      using 2 by (simp add: ScalarMultCT_def cc)
  next
    case 3
    obtain cc where cc: "newCTCurve8 c = Inr cc" "cc_ok ops8 cc c" by (rule newCTCurve8_ok [OF P 3(4)])
    have "big_BitLen (cv_Q c) \<le> 64 * fo_limbs ops8" using Q 3(3) by (simp add: PointSize_def ops8_def)
    from mont8.cprel_scalarMult(1) [OF cc(2) g S k this] show ?thesis
      using 3 by (simp add: ScalarMultCT_def cc ct8_points(2-) ct8_scalars)
  qed (simp add: ScalarMultCT_def)
qed

section \<open>Memoised contexts\<close>

text \<open>A cache is valid when each pointer is nil or the context its constructor builds.\<close>

definition ct_valid :: "curve \<Rightarrow> ct_cache \<Rightarrow> bool" where
  "ct_valid c s \<longleftrightarrow>
     (if ch_ctOnce s \<and> big_BitLen (cv_P c) \<le> 256
      then (case newCTCurve c of Inr cc \<Rightarrow> ch_ctCached s = Some cc | Inl e \<Rightarrow> False) else ch_ctCached s = None) \<and>
     (if ch_ctOnce8 s \<and> 256 < big_BitLen (cv_P c) \<and> big_BitLen (cv_P c) \<le> 512
      then (case newCTCurve8 c of Inr cc \<Rightarrow> ch_ctCached8 s = Some cc | Inl e \<Rightarrow> False) else ch_ctCached8 s = None)"

lemma ct_valid_fresh: "ct_valid c ct_fresh"
  by (simp add: ct_valid_def ct_fresh_def)

lemma Curve_ctCurve_valid:
  assumes "ct_valid c s"
  shows "case Curve_ctCurve c s of
      Inl e \<Rightarrow> big_BitLen (cv_P c) \<le> 256 \<and> newCTCurve c = Inl e
    | Inr (cc, s') \<Rightarrow> ct_valid c s' \<and>
        (if big_BitLen (cv_P c) \<le> 256 then \<exists>x. newCTCurve c = Inr x \<and> cc = Some x else cc = None)"
  using assms by (auto simp: Curve_ctCurve_def ct_valid_def Let_def bind_res_def split: sum.splits if_splits)

lemma Curve_ctCurve8_valid:
  assumes "ct_valid c s" "256 < big_BitLen (cv_P c)"
  shows "case Curve_ctCurve8 c s of
      Inl e \<Rightarrow> big_BitLen (cv_P c) \<le> 512 \<and> newCTCurve8 c = Inl e
    | Inr (cc, s') \<Rightarrow> ct_valid c s' \<and>
        (if big_BitLen (cv_P c) \<le> 512 then \<exists>x. newCTCurve8 c = Inr x \<and> cc = Some x else cc = None)"
  using assms by (auto simp: Curve_ctCurve8_def ct_valid_def Let_def bind_res_def split: sum.splits if_splits)

lemma ScalarMultCT_memo_valid:
  assumes "ct_valid c s"
  shows "case ScalarMultCT_memo c k p s of
      Inl e \<Rightarrow> ScalarMultCT c k p = Inl e
    | Inr (r, s') \<Rightarrow> ScalarMultCT c k p = Inr r \<and> ct_valid c s'"
proof (cases "k \<le> 0 \<or> IsInfinity p")
  case True
  then show ?thesis using assms by (simp add: ScalarMultCT_memo_def ScalarMultCT_def)
next
  case False
  note first = Curve_ctCurve_valid [OF assms]
  show ?thesis
  proof (cases "Curve_ctCurve c s")
    case (Inl e)
    then show ?thesis using first False by (auto simp: ScalarMultCT_memo_def ScalarMultCT_def)
  next
    case (Inr r)
    then obtain cc s1 where s1: "Curve_ctCurve c s = Inr (cc, s1)" by (cases r) simp
    show ?thesis
    proof (cases "big_BitLen (cv_P c) \<le> 256")
      case True
      then show ?thesis using first False
        by (auto simp: s1 ScalarMultCT_memo_def ScalarMultCT_def bind_res_def split: sum.splits)
    next
      case wide: False
      then have cc: "cc = None" "ct_valid c s1" using first by (simp_all add: s1)
      show ?thesis
        using Curve_ctCurve8_valid [OF cc(2)] wide False
        by (auto simp: s1 cc(1) ScalarMultCT_memo_def ScalarMultCT_def bind_res_def
            split: sum.splits prod.splits option.splits if_splits)
    qed
  qed
qed

text \<open>Any sequence of calls on one curve: each call gives what it would give on a fresh curve.\<close>

fun ScalarMultCT_calls :: "curve \<Rightarrow> (int \<times> ec_point) list \<Rightarrow> ct_cache \<Rightarrow> (ec_point list \<times> ct_cache) res" where
  "ScalarMultCT_calls c [] s = Inr ([], s)"
| "ScalarMultCT_calls c ((k, p) # calls) s =
     bind_res (ScalarMultCT_memo c k p s) (\<lambda>(r, s).
       bind_res (ScalarMultCT_calls c calls s) (\<lambda>(rs, s). Inr (r # rs, s)))"

lemma ScalarMultCT_calls_valid:
  assumes "ct_valid c s" "ScalarMultCT_calls c calls s = Inr (rs, s')"
  shows "map Inr rs = map (\<lambda>(k, p). ScalarMultCT c k p) calls \<and> ct_valid c s'"
  using assms
proof (induction calls arbitrary: s rs)
  case (Cons a calls)
  obtain k p where a: "a = (k, p)" by (cases a)
  obtain r s1 where r: "ScalarMultCT_memo c k p s = Inr (r, s1)"
    using Cons.prems(2) by (cases "ScalarMultCT_memo c k p s") (auto simp: a)
  with ScalarMultCT_memo_valid [OF Cons.prems(1), of k p]
  have s1: "ScalarMultCT c k p = Inr r" "ct_valid c s1" by simp_all
  obtain rs1 where "ScalarMultCT_calls c calls s1 = Inr (rs1, s')" "rs = r # rs1"
    using Cons.prems(2) by (cases "ScalarMultCT_calls c calls s1") (auto simp: a r)
  then show ?case using Cons.IH [OF s1(2)] by (simp add: a s1(1))
qed simp

lemma curve5_BitLen: "big_BitLen (cv_P curve5) = 3" "big_BitLen (cv_Q curve5) = 3"
  using big_BitLen_eqI [of 2 5] big_BitLen_eqI [of 2 7] by (simp_all add: curve5_def)

lemma curve5_no_two_torsion: "no_two_torsion curve5"
  by (simp add: no_two_torsion_def curve5_points curve5_points_def)

section \<open>Properties\<close>

text \<open>
  C18. The Montgomery fields of four flat limbs and of eight limbs in loops, in the contexts newCTField
  and newCTField8 return. For limb vectors a and b below the modulus: the product is below it and
  congruent to the product of the values divided by R, two to the 64 times the limbs; sum and
  difference are those modulo it; over a prime modulus, inv of a nonzero a times a is R, the one of the field.
  For a residue x: toMont gives x R, and fromMont takes it back to x.
\<close>

theorem ctField_arithmetic:
  assumes "newCTField P = Inr f" "fe_reduced f a" "fe_reduced f b" "0 \<le> x" "x < P"
    and "newCTField8 P8 = Inr f8" "fe_reduced f8 a8" "fe_reduced f8 b8" "0 \<le> x8" "x8 < P8"
  shows "(fe_reduced f (ctField_mul f a b) \<and>
      P dvd limbs_val (ctField_mul f a b) * 2 ^ 256 - limbs_val a * limbs_val b \<and>
      limbs_val (ctField_add f a b) = (limbs_val a + limbs_val b) mod P \<and>
      limbs_val (ctField_sub f a b) = (limbs_val a - limbs_val b) mod P \<and>
      (field_char P \<and> limbs_val a \<noteq> 0 \<longrightarrow> limbs_val (ctField_mul f (ctField_inv ops4 f a) a) = 2 ^ 256 mod P) \<and>
      limbs_val (toMont ops4 f (feFromBig 4 x)) = x * 2 ^ 256 mod P \<and>
      limbs_val (fromMont ops4 f (toMont ops4 f (feFromBig 4 x))) = x) \<and>
    (fe_reduced f8 (ctField8_mul f8 a8 b8) \<and>
      P8 dvd limbs_val (ctField8_mul f8 a8 b8) * 2 ^ 512 - limbs_val a8 * limbs_val b8 \<and>
      limbs_val (ctField8_add f8 a8 b8) = (limbs_val a8 + limbs_val b8) mod P8 \<and>
      limbs_val (ctField8_sub f8 a8 b8) = (limbs_val a8 - limbs_val b8) mod P8 \<and>
      (field_char P8 \<and> limbs_val a8 \<noteq> 0 \<longrightarrow> limbs_val (ctField8_mul f8 (ctField8_inv f8 a8) a8) = 2 ^ 512 mod P8) \<and>
      limbs_val (ctField8_toMont f8 (feFromBig8 x8)) = x8 * 2 ^ 512 mod P8 \<and>
      limbs_val (ctField8_fromMont f8 (ctField8_toMont f8 (feFromBig8 x8))) = x8)"
proof -
  have ok: "ctField_ok 4 f P" "ctField_ok 8 f8 P8"
    using newCTField_n_Inr [of 4 _ P f] newCTField_n_Inr [of 8 _ P8 f8] assms(1,6) by (simp_all add: newCTField_def newCTField8_def)
  have R: "radix 4 = 2 ^ 256" "radix 8 = 2 ^ 512" by (simp_all only: power_mult [symmetric]) simp_all
  have one: "limbs_val (cf_one f) = 2 ^ 256 mod P" "limbs_val (cf_one f8) = 2 ^ 512 mod P8"
    using ok R by (simp_all only: ctField_ok_def simp_thms)
  have len: "length b = 4" "length b8 = 8"
    using assms(3,8) ctField_okD(1) [OF ok(1)] ctField_okD(1) [OF ok(2)] by (simp_all add: fe_reduced_def)
  have "field_char P \<and> limbs_val a \<noteq> 0 \<longrightarrow> limbs_val (ctField_mul f (ctField_inv ops4 f a) a) = 2 ^ 256 mod P"
    "field_char P8 \<and> limbs_val a8 \<noteq> 0 \<longrightarrow> limbs_val (ctField8_mul f8 (ctField8_inv f8 a8) a8) = 2 ^ 512 mod P8"
    using mont4.inv_mul(2) [of f P a] mont8.inv_mul(2) [of f8 P8 a8] ok assms(2,7) one
    unfolding ct8_field by (simp_all add: ops4_def)
  then show ?thesis
    using mont4.mul [of f P a b] mont4.add [of f P a b] mont4.sub [of f P a b]
      mont8.mul [of f8 P8 a8 b8] mont8.add [of f8 P8 a8 b8] mont8.sub [of f8 P8 a8 b8]
      mont4.toMont_fromMont(2,3) [of f P x] mont8.toMont_fromMont(2,3) [of f8 P8 x8] assms ok R len
    unfolding ct8_field feFromBig8_eq ops8_simps ops4_def fe_ops.simps by (simp only: simp_thms)
qed

theorem ctField_arithmetic_witness:
  "\<exists>f f8. newCTField 5 = Inr f \<and> newCTField8 5 = Inr f8 \<and>
     5 dvd limbs_val (ctField_mul f [2, 0, 0, 0] [3, 0, 0, 0]) * 2 ^ 256 - 2 * 3 \<and>
     limbs_val (ctField_mul f (ctField_inv ops4 f [2, 0, 0, 0]) [2, 0, 0, 0]) = 1 \<and>
     limbs_val (fromMont ops4 f (toMont ops4 f (feFromBig 4 3))) = 3 \<and>
     limbs_val (ctField8_sub f8 [2, 0, 0, 0, 0, 0, 0, 0] [3, 0, 0, 0, 0, 0, 0, 0]) = 4"
proof -
  have bl: "big_BitLen 5 = 3" using big_BitLen_eqI [of 2 5] by simp
  obtain f where f: "newCTField 5 = Inr f" "ctField_ok 4 f 5"
    using newCTField_n_ok [of 5 4] bl unfolding newCTField_def by auto
  obtain f8 where f8: "newCTField8 5 = Inr f8" "ctField_ok 8 f8 5"
    using newCTField_n_ok [of 5 8] bl unfolding newCTField8_def by auto
  have red: "fe_reduced f [2, 0, 0, 0]" "fe_reduced f [3, 0, 0, 0]"
    "fe_reduced f8 [2, 0, 0, 0, 0, 0, 0, 0]" "fe_reduced f8 [3, 0, 0, 0, 0, 0, 0, 0]"
    using ctField_okD(1,2) [OF f(2)] ctField_okD(1,2) [OF f8(2)] by (simp_all add: fe_reduced_def)
  note W = ctField_arithmetic [OF f(1) red(1,2) _ _ f8(1) red(3,4), of 3 3]
  have p: "field_char 5" using curve5_prime_curve by (simp add: prime_curve_def curve5_def)
  have v: "limbs_val [2, 0, 0, 0] = 2" "limbs_val [3, 0, 0, 0] = 3"
    "limbs_val [2, 0, 0, 0, 0, 0, 0, 0] = 2" "limbs_val [3, 0, 0, 0, 0, 0, 0, 0] = 3" by simp_all
  have n: "(2 :: int) \<noteq> 0" "(2 :: int) ^ 256 mod 5 = 1" "(2 - 3 :: int) mod 5 = 4" "(0 :: int) \<le> 3" "(3 :: int) < 5" by simp_all
  show ?thesis
    using f(1) f8(1) W [OF n(4,5) n(4,5), unfolded v n(2,3)] p n(1) by (intro exI [of _ f] exI [of _ f8]) (simp only: simp_thms)
qed

text \<open>
  C2. ScalarMultCT returns the same point as the reference ScalarMult, for a point of a nonsingular
  curve over a prime field and a scalar below an order that fits the field's width, where the curve has
  no point of order two or the point has odd order; no index or buffer panics. So it does with the memoised
  contexts in every valid cache, which the call keeps valid.
\<close>

theorem ScalarMultCT_agrees:
  assumes "prime_curve c" "odd_multiples c q" "IsOnCurve c q" "k < cv_Q c" "big_BitLen (cv_Q c) \<le> 8 * PointSize c"
    and "ct_valid c s"
  shows "ScalarMultCT c k q = Inr (ec_ScalarMult c k q) \<and> ScalarMultSecret c k q = Inr (ec_ScalarMult c k q) \<and>
    (\<exists>s'. ScalarMultCT_memo c k q s = Inr (ec_ScalarMult c k q, s') \<and> ct_valid c s')"
proof (intro conjI)
  show e: "ScalarMultCT c k q = Inr (ec_ScalarMult c k q)"
    using ScalarMultCT_correct [OF prime_curve_group_law [OF assms(1)] assms(2,3) _ assms(4,5)]
    by (cases "0 \<le> k") (simp_all add: ScalarMultCT_def ec_ScalarMult_def)
  then show "ScalarMultSecret c k q = Inr (ec_ScalarMult c k q)" by (simp add: ScalarMultSecret_def)
  show "\<exists>s'. ScalarMultCT_memo c k q s = Inr (ec_ScalarMult c k q, s') \<and> ct_valid c s'"
    using ScalarMultCT_memo_valid [OF assms(6), of k q] e by (cases "ScalarMultCT_memo c k q s") auto
qed

theorem ScalarMultCT_agrees_witness:
  "ScalarMultCT curve5 6 (Affine 0 1) = Inr (Affine 0 4) \<and>
   (\<exists>s'. ScalarMultCT_memo curve5 6 (Affine 0 1) ct_fresh = Inr (Affine 0 4, s'))"
proof -
  have "ec_mult curve5 6 (Affine 0 1) = Affine 0 4" by code_simp
  then have "ec_ScalarMult curve5 6 (Affine 0 1) = Affine 0 4"
    using ec_ScalarMult_mult [OF curve5_group_law, of "Affine 0 1" 6] by (simp add: curve5_points curve5_points_def)
  moreover have "IsOnCurve curve5 (Affine 0 1)" by (simp add: curve5_points curve5_points_def)
  moreover have "6 < cv_Q curve5" by (simp add: curve5_def)
  moreover have "big_BitLen (cv_Q curve5) \<le> 8 * PointSize curve5" by (simp add: PointSize_def curve5_BitLen)
  moreover have "odd_multiples curve5 (Affine 0 1)" using curve5_no_two_torsion by (simp add: odd_multiples_def)
  ultimately show ?thesis
    using ScalarMultCT_agrees [of curve5 "Affine 0 1" 6 ct_fresh] curve5_prime_curve ct_valid_fresh
    by metis
qed

text \<open>
  C35. On a curve with a point T of order two, over an odd modulus of at most 512 bits, the constant-time
  path is wrong: the addition formulas of either width give the triple of zeros for the identity plus T,
  and ScalarMultCT returns the identity as one times T, where ScalarMult returns T. The witness
  is a point of tc26-256-A and one of tc26-512-C.
\<close>

theorem ScalarMultCT_two_torsion:
  assumes "0 < cv_P c" "odd (cv_P c)" "IsOnCurve c (Affine x 0)" "big_BitLen (cv_P c) \<le> 512"
    and "big_BitLen (cv_Q c) \<le> 8 * PointSize c"
  shows "ScalarMultCT c 1 (Affine x 0) = Inr Infinity \<and> ec_ScalarMult c 1 (Affine x 0) = Affine x 0 \<and>
    (if big_BitLen (cv_P c) \<le> 256
     then \<exists>cc. newCTCurve c = Inr cc \<and>
       cc_add ops4 cc (cc_identity ops4 cc) (cc_fromAffine ops4 cc (Affine x 0)) = (replicate 4 0, replicate 4 0, replicate 4 0)
     else \<exists>cc. newCTCurve8 c = Inr cc \<and>
       ct8_add cc (ct8_identity cc) (ct8_fromAffine cc (Affine x 0)) = (replicate 8 0, replicate 8 0, replicate 8 0))"
proof (intro conjI)
  have "big_BitLen 1 = 1" using big_BitLen_eqI [of 0 1] by simp
  then show "ec_ScalarMult c 1 (Affine x 0) = Affine x 0"
    by (simp add: ec_ScalarMult_def IsInfinity_def big_Bit_def)
  show "ScalarMultCT c 1 (Affine x 0) = Inr Infinity"
  proof (cases "big_BitLen (cv_P c) \<le> 256")
    case True
    obtain cc where cc: "newCTCurve c = Inr cc" "cc_ok ops4 cc c" by (rule newCTCurve_ok [OF assms(1,2) True])
    have "2 \<le> radix (fo_limbs ops4)" "big_BitLen (cv_Q c) \<le> 64 * fo_limbs ops4"
      using assms(5) True by (simp_all add: ops4_def PointSize_def)
    from mont4.two_torsion_scalarMult [OF cc(2) assms(1,3) this] show ?thesis
      using True by (simp add: ScalarMultCT_def cc IsInfinity_def)
  next
    case False
    obtain cc where cc: "newCTCurve8 c = Inr cc" "cc_ok ops8 cc c" by (rule newCTCurve8_ok [OF assms(1,2,4)])
    have "2 \<le> radix (fo_limbs ops8)" "big_BitLen (cv_Q c) \<le> 64 * fo_limbs ops8"
      using assms(5) False by (simp_all add: PointSize_def)
    from mont8.two_torsion_scalarMult [OF cc(2) assms(1,3) this] show ?thesis
      using False assms(4) by (simp add: ScalarMultCT_def cc IsInfinity_def ct8_points(2-) ct8_scalars)
  qed
  show "if big_BitLen (cv_P c) \<le> 256
     then \<exists>cc. newCTCurve c = Inr cc \<and>
       cc_add ops4 cc (cc_identity ops4 cc) (cc_fromAffine ops4 cc (Affine x 0)) = (replicate 4 0, replicate 4 0, replicate 4 0)
     else \<exists>cc. newCTCurve8 c = Inr cc \<and>
       ct8_add cc (ct8_identity cc) (ct8_fromAffine cc (Affine x 0)) = (replicate 8 0, replicate 8 0, replicate 8 0)"
  proof (cases "big_BitLen (cv_P c) \<le> 256")
    case True
    obtain cc where cc: "newCTCurve c = Inr cc" "cc_ok ops4 cc c" by (rule newCTCurve_ok [OF assms(1,2) True])
    have "fe_zero ops4 = replicate 4 0" by (simp add: fe_zero_def ops4_def)
    with True cc(1) mont4.two_torsion_add [OF cc(2) assms(1,3)] show ?thesis by simp
  next
    case False
    obtain cc where cc: "newCTCurve8 c = Inr cc" "cc_ok ops8 cc c" by (rule newCTCurve8_ok [OF assms(1,2,4)])
    have "fe_zero ops8 = replicate 8 0" by (simp add: fe_zero_def)
    with False cc(1) mont8.two_torsion_add [OF cc(2) assms(1,3)] show ?thesis
      unfolding ct8_add ct8_points(2,3) by simp
  qed
qed

lemma two_torsion_root:
  assumes "curve_eq c x 0 = 2 ^ n * k - e * k" "cv_P c = 2 ^ n - e" "0 < cv_P c" "0 \<le> x" "x < cv_P c"
  shows "IsOnCurve c (Affine x 0)"
proof -
  have "curve_eq c x 0 = cv_P c * k" using assms(1,2) by (simp only: left_diff_distrib)
  then have "cv_P c dvd curve_eq c x 0" by simp
  then show ?thesis by (subst IsOnCurve_Affine) (simp_all add: assms(3-))
qed

lemma tc26_BitLen:
  "big_BitLen (cv_P curveTc26256A) = 256" "big_BitLen (cv_Q curveTc26256A) \<le> 256"
  "big_BitLen (cv_P curveTc26512C) = 512" "big_BitLen (cv_Q curveTc26512C) \<le> 512"
  using big_BitLen_eqI [of 255 "cv_P curveTc26256A"] big_BitLen_eqI [of 254 "cv_Q curveTc26256A"]
    big_BitLen_eqI [of 511 "cv_P curveTc26512C"] big_BitLen_eqI [of 509 "cv_Q curveTc26512C"]
  by (simp_all add: curveTc26256A_def curveTc26512C_def)

lemma tc26256A_torsion: "IsOnCurve curveTc26256A (Affine 0x100fe73f595ff158e974b44d478d9588744fe5c192ac47ea63075dce7a14aaa 0)"
proof (rule two_torsion_root)
  show "curve_eq curveTc26256A 0x100fe73f595ff158e974b44d478d9588744fe5c192ac47ea63075dce7a14aaa 0 =
      2 ^ 256 * (- 0x102fe539b149d0317d3fe351e4340e13be5b936c87930e936b3126ca7a4ebb86b8f04344317d19228d4c0ed1b77f8b0c60d0483640d810f246f31cd055b) -
      617 * (- 0x102fe539b149d0317d3fe351e4340e13be5b936c87930e936b3126ca7a4ebb86b8f04344317d19228d4c0ed1b77f8b0c60d0483640d810f246f31cd055b)"
    by (simp add: curveTc26256A_def curve_eq_def)
  show "cv_P curveTc26256A = 2 ^ 256 - 617" by (simp add: curveTc26256A_def)
qed (simp_all add: curveTc26256A_def)

lemma tc26256A_size: "0 < cv_P curveTc26256A" "odd (cv_P curveTc26256A)" "big_BitLen (cv_P curveTc26256A) \<le> 512"
    "big_BitLen (cv_Q curveTc26256A) \<le> 8 * PointSize curveTc26256A"
  using tc26_BitLen by (simp_all add: PointSize_def) (simp_all add: curveTc26256A_def)

lemma tc26512C_torsion: "IsOnCurve curveTc26512C (Affine 0x9a628f975594ecefd89ba28a2539ffb79c8ab238aeed0851fa5c1abb02b80b44c6734501b83a011dd625cd0b5145091a6d9acd4b1f5c5b1e21b2b249ddfd1271 0)"
proof (rule two_torsion_root)
  show "curve_eq curveTc26512C 0x9a628f975594ecefd89ba28a2539ffb79c8ab238aeed0851fa5c1abb02b80b44c6734501b83a011dd625cd0b5145091a6d9acd4b1f5c5b1e21b2b249ddfd1271 0 =
      2 ^ 512 * (- 0x3825ecc4eb5e071ad9b7775874c31efc74f209667cb3c546293d285f97c48bd7dc7fc58a2fa68b3837fd7eb487675c64025e9e790c5707758643c52683c8354efbe186c98db12dac8d640b63e1f8a888ebb0ea82e81dc247eafb84b96f92f85f73c576212c977368d098edb7dc7851189f6c74395f614b7dc7c00f3240bbd103) -
      569 * (- 0x3825ecc4eb5e071ad9b7775874c31efc74f209667cb3c546293d285f97c48bd7dc7fc58a2fa68b3837fd7eb487675c64025e9e790c5707758643c52683c8354efbe186c98db12dac8d640b63e1f8a888ebb0ea82e81dc247eafb84b96f92f85f73c576212c977368d098edb7dc7851189f6c74395f614b7dc7c00f3240bbd103)"
    by code_simp
  show "cv_P curveTc26512C = 2 ^ 512 - 569" by (simp add: curveTc26512C_def)
qed (simp_all add: curveTc26512C_def)

lemma tc26512C_size: "0 < cv_P curveTc26512C" "odd (cv_P curveTc26512C)" "big_BitLen (cv_P curveTc26512C) \<le> 512"
    "big_BitLen (cv_Q curveTc26512C) \<le> 8 * PointSize curveTc26512C"
  using tc26_BitLen by (simp_all add: PointSize_def) (simp_all add: curveTc26512C_def)

theorem ScalarMultCT_two_torsion_witness:
  "ScalarMultCT curveTc26256A 1 (Affine 0x100fe73f595ff158e974b44d478d9588744fe5c192ac47ea63075dce7a14aaa 0) = Inr Infinity \<and>
   ScalarMultCT curveTc26512C 1 (Affine 0x9a628f975594ecefd89ba28a2539ffb79c8ab238aeed0851fa5c1abb02b80b44c6734501b83a011dd625cd0b5145091a6d9acd4b1f5c5b1e21b2b249ddfd1271 0) = Inr Infinity"
  by (rule conjI [OF ScalarMultCT_two_torsion [OF tc26256A_size(1,2) tc26256A_torsion tc26256A_size(3,4), THEN conjunct1]
      ScalarMultCT_two_torsion [OF tc26512C_size(1,2) tc26512C_torsion tc26512C_size(3,4), THEN conjunct1]])

end
