(* ===== verification/Sign.thy ===== *)
theory Sign
  imports CTScalar
begin

text \<open>
  \<^verbatim>\<open>gost3410sign/gost3410sign.go\<close>: signature generation and verification over the curves,
  and the raw public key. Go's nil result is \<open>None\<close>; a panic of the scalar multiplication is an
  \<open>Inl\<close>.
\<close>

section \<open>Byte helpers\<close>

definition reverse :: "bytes \<Rightarrow> bytes" where
  "reverse b = rev b"

text \<open>\<^verbatim>\<open>fillBE\<close> and \<^verbatim>\<open>putLE\<close> into a buffer of the given length.\<close>

definition fillBE :: "nat \<Rightarrow> int \<Rightarrow> bytes" where
  "fillBE len n =
     (let b = big_Bytes n;
          b = (if length b > len then drop (length b - len) b else b)
      in replicate (len - length b) 0 @ b)"

definition putLE :: "nat \<Rightarrow> int \<Rightarrow> bytes" where
  "putLE len n =
     (let b = big_Bytes n;
          b = (if length b > len then drop (length b - len) b else b)
      in rev b @ replicate (len - length b) 0)"

section \<open>Signing and verification\<close>

text \<open>The digest as a number: e is 1 when it would be 0.\<close>

definition sign_digest_e :: "int \<Rightarrow> bytes \<Rightarrow> int" where
  "sign_digest_e q digest = (let e = big_SetBytes digest mod q in if e = 0 then 1 else e)"

definition SignDigest :: "curve \<Rightarrow> bytes \<Rightarrow> bytes \<Rightarrow> bytes \<Rightarrow> bytes option res" where
  "SignDigest c prv digest k =
     (let q = cv_Q c;
          pointSize = PointSize c;
          d = big_SetBytes (reverse prv) mod q
      in if d = 0 then Inr None
         else
           let e = sign_digest_e q digest;
               kk = big_SetBytes k mod q
           in if kk = 0 then Inr None
              else bind_res (ScalarMultSecret c kk (ec_Base c)) (\<lambda>cPoint.
                case cPoint of Infinity \<Rightarrow> Inr None
                | Affine cx cy \<Rightarrow>
                  let r = cx mod q
                  in if r = 0 then Inr None
                     else let rd = r * d;
                              ke = kk * e;
                              s = (rd + ke) mod q
                          in if s = 0 then Inr None
                             else Inr (Some (fillBE pointSize s @ fillBE pointSize r))))"

definition VerifyDigest :: "curve \<Rightarrow> bytes \<Rightarrow> bytes \<Rightarrow> bytes \<Rightarrow> bool" where
  "VerifyDigest c pubRaw digest sig =
     (let q = cv_Q c;
          pointSize = PointSize c
      in if length sig \<noteq> 2 * pointSize \<or> length pubRaw \<noteq> 2 * pointSize then False
         else
           let s = big_SetBytes (take pointSize sig);
               r = big_SetBytes (drop pointSize sig)
           in if r \<le> 0 \<or> r \<ge> q \<or> s \<le> 0 \<or> s \<ge> q then False
              else
                let x = big_SetBytes (reverse (take pointSize pubRaw));
                    y = big_SetBytes (reverse (drop pointSize pubRaw));
                    pub = Affine x y
                in if \<not> IsOnCurve c pub \<or> IsInfinity pub then False
                   else
                     let e = sign_digest_e q digest
                     in case big_ModInverse e q of
                          None \<Rightarrow> False
                        | Some v \<Rightarrow>
                          let z1 = s * v mod q;
                              z2 = (q - r * v mod q) mod q;
                              p1 = ec_ScalarMult c z1 (ec_Base c);
                              p2 = ec_ScalarMult c z2 pub
                          in case ec_Add c p1 p2 of
                               Infinity \<Rightarrow> False
                             | Affine cx cy \<Rightarrow> cx mod q = r)"

definition PublicKeyRaw :: "curve \<Rightarrow> bytes \<Rightarrow> bytes option res" where
  "PublicKeyRaw c prv =
     (let q = cv_Q c;
          pointSize = PointSize c;
          d = big_SetBytes (reverse prv) mod q
      in if d = 0 then Inr None
         else bind_res (ScalarMultSecret c d (ec_Base c)) (\<lambda>pub.
           case pub of Infinity \<Rightarrow> Inr None
           | Affine px py \<Rightarrow> Inr (Some (putLE pointSize px @ putLE pointSize py))))"

section \<open>Encodings\<close>

lemma big_Bytes_pad:
  assumes "0 \<le> n" "nat n < 256 ^ len"
  shows "replicate (len - length (big_Bytes n)) 0 @ big_Bytes n = rev (le_bytes len (nat n))"
    and "length (big_Bytes n) \<le> len"
  using big_FillBytes_ok [OF assms] by (simp_all add: big_FillBytes_def Let_def split: if_splits)

lemma fillBE_eq: "0 \<le> n \<Longrightarrow> nat n < 256 ^ len \<Longrightarrow> fillBE len n = rev (le_bytes len (nat n))"
  using big_Bytes_pad [of n len] by (simp add: fillBE_def Let_def)

lemma putLE_eq: "0 \<le> n \<Longrightarrow> nat n < 256 ^ len \<Longrightarrow> putLE len n = le_bytes len (nat n)"
proof -
  assume n: "0 \<le> n" "nat n < 256 ^ len"
  have "rev (replicate (len - length (big_Bytes n)) 0 @ big_Bytes n) = le_bytes len (nat n)"
    unfolding big_Bytes_pad(1) [OF n] by simp
  then show ?thesis using big_Bytes_pad(2) [OF n] by (simp add: putLE_def Let_def)
qed

lemma big_SetBytes_rev_le: "0 \<le> n \<Longrightarrow> nat n < 256 ^ len \<Longrightarrow> big_SetBytes (rev (le_bytes len (nat n))) = n"
  by (simp add: big_SetBytes_def be_nat_def le_nat_le_bytes)

lemma rev_le_big_SetBytes: "length b = len \<Longrightarrow> rev (le_bytes len (nat (big_SetBytes b))) = b"
  using le_bytes_le_nat [of "rev b" len] by (simp add: big_SetBytes_def be_nat_def)

lemma sign_digest_e_range: "0 < q \<Longrightarrow> q \<noteq> 1 \<Longrightarrow> 0 < sign_digest_e q digest \<and> sign_digest_e q digest < q"
proof -
  assume q: "0 < q" "q \<noteq> 1"
  then have "0 \<le> big_SetBytes digest mod q" "big_SetBytes digest mod q < q" by simp_all
  then show ?thesis using q unfolding sign_digest_e_def Let_def
    by (cases "big_SetBytes digest mod q = 0") (simp_all add: order_less_le)
qed

section \<open>Correctness\<close>

text \<open>
  The domain the scheme is meant for: a nonsingular curve over a prime field, a base point on it of
  prime order Q above 2, and P and Q that fit the encodings. The multiples of such a base point have odd
  order, so the constant-time path is covered on every such curve, of cofactor 4 too.
\<close>

definition sign_domain :: "curve \<Rightarrow> bool" where
  "sign_domain c \<longleftrightarrow> prime_curve c \<and> IsOnCurve c (ec_Base c) \<and> field_char (cv_Q c) \<and>
     ec_mult c (nat (cv_Q c)) (ec_Base c) = Infinity \<and>
     big_BitLen (cv_P c) \<le> 8 * PointSize c \<and> big_BitLen (cv_Q c) \<le> 8 * PointSize c"

lemma fits:
  assumes "big_BitLen m \<le> 8 * len" "0 \<le> n" "n < m"
  shows "nat n < 256 ^ len"
proof -
  have "m < 2 ^ big_BitLen m" using assms(2,3) by (intro big_BitLen_bound) simp
  also have "\<dots> \<le> 2 ^ (8 * len)" using assms(1) by (rule power_increasing) simp
  also have "\<dots> = 256 ^ len" by (simp add: power_mult)
  finally show ?thesis using assms(2,3) by (simp add: nat_less_iff)
qed

lemma sign_domainD:
  assumes "sign_domain c"
  shows "group_law c" "IsOnCurve c (ec_Base c)" "field_char (cv_Q c)" "2 < cv_Q c" "0 < cv_P c" "field_char (cv_P c)"
    and "0 \<le> n \<Longrightarrow> n < cv_Q c \<Longrightarrow> nat n < 256 ^ PointSize c"
    and "0 \<le> n \<Longrightarrow> n < cv_P c \<Longrightarrow> nat n < 256 ^ PointSize c"
    and "IsOnCurve c p \<Longrightarrow> 0 \<le> n \<Longrightarrow> n < cv_Q c \<Longrightarrow> cv_ConstantTime c \<longrightarrow> odd_multiples c p \<Longrightarrow>
      ScalarMultSecret c n p = Inr (ec_mult c (nat n) p)"
    and "ec_mult c (m mod nat (cv_Q c)) (ec_Base c) = ec_mult c m (ec_Base c)"
    and "odd_multiples c (ec_mult c m (ec_Base c))" "odd_multiples c (ec_Base c)"
proof -
  show g: "group_law c" and b: "IsOnCurve c (ec_Base c)" and q: "field_char (cv_Q c)"
    using assms by (simp_all add: sign_domain_def prime_curve_group_law)
  show "2 < cv_Q c" using q by (simp add: field_char_def)
  show "field_char (cv_P c)" by (rule group_lawD(1) [OF g])
  then show "0 < cv_P c" by (simp add: field_char_def)
  show "0 \<le> n \<Longrightarrow> n < cv_Q c \<Longrightarrow> nat n < 256 ^ PointSize c" "0 \<le> n \<Longrightarrow> n < cv_P c \<Longrightarrow> nat n < 256 ^ PointSize c"
    using assms unfolding sign_domain_def by (blast intro: fits)+
  show "ScalarMultSecret c n p = Inr (ec_mult c (nat n) p)" if "IsOnCurve c p" "0 \<le> n" "n < cv_Q c"
    "cv_ConstantTime c \<longrightarrow> odd_multiples c p"
    using ScalarMultCT_correct [OF g _ that(1-3)] ec_ScalarMult_mult [OF g that(1)] assms that(4)
    by (simp add: ScalarMultSecret_def sign_domain_def)
  show "ec_mult c (m mod nat (cv_Q c)) (ec_Base c) = ec_mult c m (ec_Base c)"
    using ec_mult_order [OF g b] assms by (simp add: sign_domain_def)
  have "2 \<in> {0<..<cv_Q c}" using \<open>2 < cv_Q c\<close> by simp
  then have "coprime 2 (cv_Q c)" using q unfolding field_char_def by blast
  then have o: "odd (nat (cv_Q c))" using \<open>2 < cv_Q c\<close> by (simp add: even_nat_iff)
  have Q: "ec_mult c (nat (cv_Q c)) (ec_Base c) = Infinity" using assms by (simp add: sign_domain_def)
  show "odd_multiples c (ec_Base c)" unfolding odd_multiples_def using o Q by blast
  have "ec_mult c (nat (cv_Q c)) (ec_mult c m (ec_Base c)) = ec_mult c m (ec_mult c (nat (cv_Q c)) (ec_Base c))"
    by (simp only: ec_mult_mult [OF g b, symmetric] mult.commute)
  then show "odd_multiples c (ec_mult c m (ec_Base c))" unfolding odd_multiples_def using o by (auto simp: Q)
qed

text \<open>The multiple the verifier adds up is the nonce.\<close>

lemma verify_scalar:
  assumes q: "field_char q" and v: "q dvd v * e - 1"
  shows "(s * v mod q + (q - r * v mod q) mod q * d) mod q = (s - r * d) * v mod q"
proof -
  have "q dvd (s * v mod q + (q - r * v mod q) mod q * d) - (s - r * d) * v"
  proof -
    have "q dvd s * v mod q - s * v" "q dvd (q - r * v mod q) mod q - (q - r * v mod q)" "q dvd r * v mod q - r * v"
      by (rule dvd_mod_diff)+
    then show ?thesis by algebra
  qed
  then show ?thesis by (simp only: mod_eq_dvd_iff)
qed

lemma scalar_equation:
  assumes q: "field_char q" and v: "q dvd v * e - 1" and s: "0 \<le> s" "s < q" and k: "0 \<le> k" "k < q"
  shows "s = (r * d + k * e) mod q \<longleftrightarrow> (s - r * d) * v mod q = k"
proof -
  have "s = (r * d + k * e) mod q \<longleftrightarrow> q dvd s - (r * d + k * e)"
    using s by (simp add: mod_eq_dvd_iff [symmetric])
  also have "\<dots> \<longleftrightarrow> q dvd (s - r * d) * v - k"
  proof
    assume "q dvd s - (r * d + k * e)"
    then show "q dvd (s - r * d) * v - k" using v by algebra
  next
    assume "q dvd (s - r * d) * v - k"
    then show "q dvd s - (r * d + k * e)" using v by algebra
  qed
  also have "\<dots> \<longleftrightarrow> (s - r * d) * v mod q = k"
    using k by (simp add: mod_eq_dvd_iff [symmetric])
  finally show ?thesis .
qed

lemma PublicKeyRaw_Some:
  assumes dom: "sign_domain c" and pub: "PublicKeyRaw c prv = Inr (Some pub)"
  obtains x y where
    "ec_mult c (nat (big_SetBytes (reverse prv) mod cv_Q c)) (ec_Base c) = Affine x y"
    "IsOnCurve c (Affine x y)" "big_SetBytes (reverse prv) mod cv_Q c \<noteq> 0" "length pub = 2 * PointSize c"
    "big_SetBytes (reverse (take (PointSize c) pub)) = x" "big_SetBytes (reverse (drop (PointSize c) pub)) = y"
proof -
  let ?d = "big_SetBytes (reverse prv) mod cv_Q c"
  note D = sign_domainD [OF dom]
  have d: "0 \<le> ?d" "?d < cv_Q c" using D(4) by simp_all
  have nz: "?d \<noteq> 0" using pub by (auto simp: PublicKeyRaw_def Let_def)
  then obtain x y where xy: "ec_mult c (nat ?d) (ec_Base c) = Affine x y"
    and p: "pub = putLE (PointSize c) x @ putLE (PointSize c) y"
    using pub D(9) [OF D(2) d] D(12) by (auto simp: PublicKeyRaw_def Let_def split: ec_point.splits)
  have on: "IsOnCurve c (Affine x y)" using ec_mult_on_curve [OF D(6,2)] xy by metis
  then have b: "0 \<le> x" "nat x < 256 ^ PointSize c" "0 \<le> y" "nat y < 256 ^ PointSize c"
    using D(8) by (simp_all add: IsOnCurve_Affine [OF D(5)])
  show ?thesis
    using that [OF xy on nz] b by (simp add: p putLE_eq reverse_def big_SetBytes_rev_le)
qed

text \<open>Verification accepts exactly the signatures that some nonce produces.\<close>

lemma VerifyDigest_iff:
  assumes dom: "sign_domain c" and pub: "PublicKeyRaw c prv = Inr (Some pub)"
  shows "VerifyDigest c pub digest sig \<longleftrightarrow> (\<exists>k. SignDigest c prv digest k = Inr (Some sig))"
proof -
  let ?q = "cv_Q c" and ?ps = "PointSize c" and ?d = "big_SetBytes (reverse prv) mod cv_Q c"
  let ?e = "sign_digest_e ?q digest" and ?G = "ec_Base c"
  note D = sign_domainD [OF dom]
  obtain x y where xy: "ec_mult c (nat ?d) ?G = Affine x y" "IsOnCurve c (Affine x y)" "?d \<noteq> 0" "length pub = 2 * ?ps"
    "big_SetBytes (reverse (take ?ps pub)) = x" "big_SetBytes (reverse (drop ?ps pub)) = y"
    by (rule PublicKeyRaw_Some [OF dom pub])
  have d: "0 \<le> ?d" "?d < ?q" using D(4) by simp_all
  have "0 < ?e \<and> ?e < ?q" using D(4) by (intro sign_digest_e_range) simp_all
  then have "coprime ?e ?q" using D(3) by (simp add: field_char_def)
  then obtain v where v: "big_ModInverse ?e ?q = Some v" using big_ModInverse_coprime [of ?q ?e] D(4) by auto
  then have ve: "?q dvd v * ?e - 1" using big_ModInverse_Some(3) D(4) by simp
  define K where "K s r = (s - r * ?d) * v mod ?q" for s r
  have K: "0 \<le> K s r" "K s r < ?q" for s r using D(4) by (simp_all add: K_def)
  have C: "ec_Add c (ec_ScalarMult c (s * v mod ?q) ?G) (ec_ScalarMult c ((?q - r * v mod ?q) mod ?q) (Affine x y)) =
      ec_mult c (nat (K s r)) ?G" for s r
  proof -
    let ?z1 = "s * v mod ?q" and ?z2 = "(?q - r * v mod ?q) mod ?q"
    have z: "0 \<le> ?z1" "0 \<le> ?z2" using D(4) by simp_all
    have "ec_ScalarMult c ?z2 (Affine x y) = ec_mult c (nat ?z2 * nat ?d) ?G"
      using ec_ScalarMult_mult [OF D(1) xy(2)] ec_mult_mult [OF D(1,2), of "nat ?z2" "nat ?d"] by (simp add: xy(1))
    then have "ec_Add c (ec_ScalarMult c ?z1 ?G) (ec_ScalarMult c ?z2 (Affine x y)) = ec_mult c (nat ?z1 + nat ?z2 * nat ?d) ?G"
      using ec_ScalarMult_mult [OF D(1,2)] ec_mult_add [OF D(1,2)] by simp
    also have "\<dots> = ec_mult c ((nat ?z1 + nat ?z2 * nat ?d) mod nat ?q) ?G" by (rule D(10) [symmetric])
    also have "(nat ?z1 + nat ?z2 * nat ?d) mod nat ?q = nat ((?z1 + ?z2 * ?d) mod ?q)"
      using z d D(4) by (simp add: nat_mod_distrib nat_add_distrib nat_mult_distrib)
    finally show ?thesis unfolding verify_scalar [OF D(3) ve] K_def .
  qed
  define valid where "valid s r \<longleftrightarrow> 0 < r \<and> r < ?q \<and> 0 < s \<and> s < ?q \<and>
    (\<exists>cx cy. ec_mult c (nat (K s r)) ?G = Affine cx cy \<and> cx mod ?q = r)" for s r
  have ver: "VerifyDigest c pub digest sig \<longleftrightarrow> length sig = 2 * ?ps \<and>
      valid (big_SetBytes (take ?ps sig)) (big_SetBytes (drop ?ps sig))"
    unfolding VerifyDigest_def Let_def xy(5,6) v C option.case
    using xy(2,4) by (auto simp: IsInfinity_def valid_def split: ec_point.splits)
  have sgn: "SignDigest c prv digest k = Inr (Some sig) \<longleftrightarrow>
      (\<exists>s r. valid s r \<and> big_SetBytes k mod ?q = K s r \<and> sig = fillBE ?ps s @ fillBE ?ps r)" for k
  proof -
    let ?k = "big_SetBytes k mod ?q"
    have k: "0 \<le> ?k" "?k < ?q" using D(4) by simp_all
    have eq: "s = (r * ?d + ?k * ?e) mod ?q \<longleftrightarrow> K s r = ?k" if "0 \<le> s" "s < ?q" for s r
      unfolding K_def by (rule scalar_equation [OF D(3) ve that k])
    have "SignDigest c prv digest k = Inr (Some sig) \<longleftrightarrow>
        ?k \<noteq> 0 \<and> (\<exists>cx cy s r. ec_mult c (nat ?k) ?G = Affine cx cy \<and> r = cx mod ?q \<and> r \<noteq> 0 \<and>
          s = (r * ?d + ?k * ?e) mod ?q \<and> s \<noteq> 0 \<and> sig = fillBE ?ps s @ fillBE ?ps r)"
      using xy(3) D(9) [OF D(2) k] D(12) by (auto simp: SignDigest_def Let_def split: ec_point.splits)
    also have "\<dots> \<longleftrightarrow> (\<exists>s r. valid s r \<and> ?k = K s r \<and> sig = fillBE ?ps s @ fillBE ?ps r)"
    proof
      assume "?k \<noteq> 0 \<and> (\<exists>cx cy s r. ec_mult c (nat ?k) ?G = Affine cx cy \<and> r = cx mod ?q \<and> r \<noteq> 0 \<and>
          s = (r * ?d + ?k * ?e) mod ?q \<and> s \<noteq> 0 \<and> sig = fillBE ?ps s @ fillBE ?ps r)"
      then obtain cx cy s r where c: "ec_mult c (nat ?k) ?G = Affine cx cy" "r = cx mod ?q" "r \<noteq> 0"
        "s = (r * ?d + ?k * ?e) mod ?q" "s \<noteq> 0" "sig = fillBE ?ps s @ fillBE ?ps r" by blast
      have b: "0 \<le> s" "s < ?q" "0 \<le> r" "r < ?q" unfolding c(2,4) using D(4) by simp_all
      then have "K s r = ?k" using eq c(4) by blast
      moreover have "0 < r" "0 < s" using b c(3,5) by linarith+
      ultimately have "valid s r \<and> ?k = K s r" unfolding valid_def using b c(1,2) by auto
      then show "\<exists>s r. valid s r \<and> ?k = K s r \<and> sig = fillBE ?ps s @ fillBE ?ps r" using c(6) by blast
    next
      assume "\<exists>s r. valid s r \<and> ?k = K s r \<and> sig = fillBE ?ps s @ fillBE ?ps r"
      then obtain s r cx cy where c: "0 < r" "0 < s" "s < ?q" "ec_mult c (nat ?k) ?G = Affine cx cy" "cx mod ?q = r"
        "?k = K s r" "sig = fillBE ?ps s @ fillBE ?ps r" unfolding valid_def by metis
      then have "s = (r * ?d + ?k * ?e) mod ?q" using eq by simp
      moreover have "?k \<noteq> 0"
      proof
        assume z: "?k = 0"
        have "ec_mult c (nat 0) ?G = Affine cx cy" using c(4) unfolding z .
        then show False by simp
      qed
      ultimately show "?k \<noteq> 0 \<and> (\<exists>cx cy s r. ec_mult c (nat ?k) ?G = Affine cx cy \<and> r = cx mod ?q \<and> r \<noteq> 0 \<and>
          s = (r * ?d + ?k * ?e) mod ?q \<and> s \<noteq> 0 \<and> sig = fillBE ?ps s @ fillBE ?ps r)"
        using c by (metis order_less_irrefl)
    qed
    finally show ?thesis .
  qed
  have enc: "fillBE ?ps n = rev (le_bytes ?ps (nat n))" "big_SetBytes (rev (le_bytes ?ps (nat n))) = n"
    if "0 < n" "n < ?q" for n
    using that D(7) [of n] by (simp_all add: fillBE_eq big_SetBytes_rev_le)
  show ?thesis
  proof
    assume "VerifyDigest c pub digest sig"
    then have l: "length sig = 2 * ?ps" and va: "valid (big_SetBytes (take ?ps sig)) (big_SetBytes (drop ?ps sig))"
      by (simp_all add: ver)
    let ?s = "big_SetBytes (take ?ps sig)" and ?r = "big_SetBytes (drop ?ps sig)"
    have "fillBE ?ps ?s = take ?ps sig" "fillBE ?ps ?r = drop ?ps sig"
      using va l by (simp_all add: valid_def enc(1) rev_le_big_SetBytes)
    then have "sig = fillBE ?ps ?s @ fillBE ?ps ?r" by simp
    moreover have "big_SetBytes (rev (le_bytes ?ps (nat (K ?s ?r)))) mod ?q = K ?s ?r"
      using K D(7) by (simp add: big_SetBytes_rev_le)
    ultimately show "\<exists>k. SignDigest c prv digest k = Inr (Some sig)" using sgn va by blast
  next
    assume "\<exists>k. SignDigest c prv digest k = Inr (Some sig)"
    then obtain s r where va: "valid s r" "sig = fillBE ?ps s @ fillBE ?ps r" using sgn by blast
    then have "sig = rev (le_bytes ?ps (nat s)) @ rev (le_bytes ?ps (nat r))" "big_SetBytes (rev (le_bytes ?ps (nat s))) = s"
      "big_SetBytes (rev (le_bytes ?ps (nat r))) = r"
      using enc by (simp_all add: valid_def)
    then show "VerifyDigest c pub digest sig" unfolding ver using va(1) by simp
  qed
qed

lemma field_char_7: "field_char 7"
proof -
  have "coprime x 7" if "x \<in> {0<..<7}" for x :: int
  proof -
    have "x = 1 \<or> x = 2 \<or> x = 3 \<or> x = 4 \<or> x = 5 \<or> x = 6" using that by auto
    then show ?thesis by (auto simp: coprime_iff_gcd_eq_1 gcd_non_0_int)
  qed
  then show ?thesis by (simp add: field_char_def)
qed

lemma curve5_base: "ec_Base curve5 = Affine 0 1" "IsOnCurve curve5 (Affine 0 1)" "cv_Q curve5 = 7"
  by (simp_all add: ec_Base_def curve5_points curve5_points_def) (simp_all add: curve5_def)

lemma curve5_mult:
  "ec_mult curve5 2 (Affine 0 1) = Affine 1 3" "ec_mult curve5 4 (Affine 0 1) = Affine 3 2"
  "ec_mult curve5 7 (Affine 0 1) = Infinity"
  by code_simp+

lemma curve5_PointSize: "PointSize curve5 = 32"
  by (simp add: PointSize_def curve5_BitLen)

lemma curve5_sign_domain: "sign_domain curve5"
  using curve5_prime_curve field_char_7 curve5_mult(3) curve5_BitLen
  by (simp add: sign_domain_def curve5_base curve5_PointSize)

lemma curve5_ScalarMultSecret: "0 \<le> k \<Longrightarrow> k < 7 \<Longrightarrow> ScalarMultSecret curve5 k (Affine 0 1) = Inr (ec_mult curve5 (nat k) (Affine 0 1))"
  using sign_domainD(9) [OF curve5_sign_domain curve5_base(2)] sign_domainD(12) [OF curve5_sign_domain] by (simp add: curve5_base)

lemma curve5_PublicKeyRaw: "PublicKeyRaw curve5 [2] = Inr (Some (putLE 32 1 @ putLE 32 3))"
  using curve5_ScalarMultSecret [of 2] curve5_mult(1)
  by (simp add: PublicKeyRaw_def curve5_base curve5_PointSize reverse_def big_SetBytes_def be_nat_def Let_def)

section \<open>Properties\<close>

text \<open>
  C1. For a nonsingular curve over a prime field, a base point on it of prime order Q above 2, P and Q of at
  most 8 PointSize bits, either scalar path and any cofactor, and a public key PublicKeyRaw
  derives: VerifyDigest accepts a byte string for a digest exactly if SignDigest returns it for some nonce. So every signature verifies, and
  nothing is accepted that signing could not have returned.
\<close>

theorem sign_verify_exact:
  assumes "sign_domain c" "PublicKeyRaw c prv = Inr (Some pub)"
  shows "VerifyDigest c pub digest sig \<longleftrightarrow> (\<exists>k. SignDigest c prv digest k = Inr (Some sig))"
  using assms by (rule VerifyDigest_iff)

theorem sign_verify_exact_witness:
  "VerifyDigest curve5 (putLE 32 1 @ putLE 32 3) [5] (fillBE 32 5 @ fillBE 32 3)"
proof -
  have "SignDigest curve5 [2] [5] [4] = Inr (Some (fillBE 32 5 @ fillBE 32 3))"
    using curve5_ScalarMultSecret [of 4] curve5_mult(2)
    by (simp add: SignDigest_def sign_digest_e_def curve5_base curve5_PointSize reverse_def big_SetBytes_def be_nat_def Let_def)
  then show ?thesis using sign_verify_exact [OF curve5_sign_domain curve5_PublicKeyRaw] by blast
qed

end
