(* ===== verification/Streaming.thy ===== *)
theory Streaming
  imports Prelude
begin

text \<open>
  The two streaming contracts of the program. An \<open>absorber\<close> (OMAC, Streebog, GOST R 34.11-94)
  takes a message in pieces; a \<open>keystream\<close> (CTR, CTR-ACPKM, CNT) encrypts one in pieces. The
  locales state the contract through an abstraction of the state, because the
  code leaves stale bytes in its buffers, and give once what every user of such a component
  relies on: the result depends on the concatenation of the pieces only.
\<close>

section \<open>Absorbing byte by byte\<close>

text \<open>
  The states are a chaining value and the buffered bytes. The hashes compress a block as soon
  as it is complete (\<open>eager_step\<close>); OMAC keeps a complete block until more data follows
  (\<open>lazy_step\<close>).
\<close>

definition eager_step :: "nat \<Rightarrow> ('a \<Rightarrow> bytes \<Rightarrow> 'a) \<Rightarrow> byte \<Rightarrow> 'a \<times> bytes \<Rightarrow> 'a \<times> bytes" where
  "eager_step B f b = (\<lambda>(a, buf).
     if length (buf @ [b]) = B then (f a (buf @ [b]), []) else (a, buf @ [b]))"

definition lazy_step :: "nat \<Rightarrow> ('a \<Rightarrow> bytes \<Rightarrow> 'a) \<Rightarrow> byte \<Rightarrow> 'a \<times> bytes \<Rightarrow> 'a \<times> bytes" where
  "lazy_step B f b = (\<lambda>(a, buf).
     if length buf = B then (f a buf, [b]) else (a, buf @ [b]))"

lemma fold_eager_short:
  "length buf + length p < B \<Longrightarrow> fold (eager_step B f) p (a, buf) = (a, buf @ p)"
  by (induction p arbitrary: buf) (simp_all add: eager_step_def)

lemma fold_eager_block:
  assumes "length buf < B" "length buf + length p = B"
  shows "fold (eager_step B f) p (a, buf) = (f a (buf @ p), [])"
proof (cases p rule: rev_cases)
  case Nil
  then show ?thesis using assms by simp
next
  case (snoc q b)
  then show ?thesis
    using assms fold_eager_short [of buf q B f a] by (simp add: eager_step_def)
qed

lemma fold_eager_take:
  assumes "0 < B" "B \<le> length p"
  shows "fold (eager_step B f) p (a, []) = fold (eager_step B f) (drop B p) (f a (take B p), [])"
proof -
  have "fold (eager_step B f) (take B p @ drop B p) (a, []) =
      fold (eager_step B f) (drop B p) (f a (take B p), [])"
    using fold_eager_block [of "[]" B "take B p" f a] assms by (simp only: fold_append o_apply) simp
  then show ?thesis by simp
qed

lemma fold_lazy_short:
  "length buf + length p \<le> B \<Longrightarrow> fold (lazy_step B f) p (a, buf) = (a, buf @ p)"
  by (induction p arbitrary: buf) (simp_all add: lazy_step_def)

lemma fold_lazy_flush:
  assumes "length buf = B" "0 < B" "p \<noteq> []"
  shows "fold (lazy_step B f) p (a, buf) = fold (lazy_step B f) p (f a buf, [])"
  using assms by (cases p) (simp_all add: lazy_step_def)

text \<open>The closed forms: which blocks have been compressed, and what is left in the buffer.\<close>

lemma eager_closed:
  assumes "0 < B"
  shows "fold (eager_step B f) p (a, []) =
    (fold (\<lambda>b a. f a b) (full_blocks B (length p div B) p) a, drop (B * (length p div B)) p)"
proof (induction "length p div B" arbitrary: p a)
  case 0
  then have "length p < B" using assms by (simp add: div_eq_0_iff)
  then show ?case
    using fold_eager_short [of "[]" p B f a] by (simp add: full_blocks_def)
next
  case (Suc n)
  have le: "B * Suc n \<le> length p"
    by (simp only: Suc.hyps(2) times_div_less_eq_dividend)
  then have B: "B \<le> length p" by simp
  have n: "n = length (drop B p) div B"
    using Suc.hyps(2) le_div_geq [OF assms B] by simp
  have "fold (eager_step B f) p (a, []) = fold (eager_step B f) (drop B p) (f a (take B p), [])"
    by (rule fold_eager_take [OF assms B])
  also have "\<dots> = (fold (\<lambda>b a. f a b) (full_blocks B n (drop B p)) (f a (take B p)),
      drop (B * n) (drop B p))"
    using Suc.hyps(1) [OF n, of "f a (take B p)"] by (simp only: n [symmetric])
  also have "\<dots> = (fold (\<lambda>b a. f a b) (full_blocks B (Suc n) p) a, drop (B * Suc n) p)"
    by (simp add: full_blocks_Suc [OF le] drop_drop add.commute)
  finally show ?case
    by (simp only: Suc.hyps(2))
qed

lemma lazy_closed:
  assumes "0 < B"
  shows "fold (lazy_step B f) p (a, []) =
    (fold (\<lambda>b a. f a b) (full_blocks B ((length p - 1) div B) p) a, drop (B * ((length p - 1) div B)) p)"
proof (induction "(length p - 1) div B" arbitrary: p a)
  case 0
  then have "length p \<le> B" using assms by (auto simp: div_eq_0_iff)
  then show ?case
    using fold_lazy_short [of "[]" p B f a] 0 by (simp add: full_blocks_def)
next
  case (Suc n)
  have le1: "B * Suc n \<le> length p - 1"
    by (simp only: Suc.hyps(2) times_div_less_eq_dividend)
  then have le: "B * Suc n \<le> length p" and B1: "B \<le> length p - 1"
    by simp_all
  then have B: "B < length p"
    using assms by linarith
  have "(length p - 1 - B) div B = (length (drop B p) - 1) div B"
    by (simp add: diff_commute)
  then have n: "n = (length (drop B p) - 1) div B"
    using Suc.hyps(2) le_div_geq [OF assms B1] by simp
  have "fold (lazy_step B f) p (a, []) =
      fold (lazy_step B f) (drop B p) (fold (lazy_step B f) (take B p) (a, []))"
    by (metis append_take_drop_id fold_append o_apply)
  also have "fold (lazy_step B f) (take B p) (a, []) = (a, take B p)"
    using fold_lazy_short [of "[]" "take B p" B f a] by simp
  also have "fold (lazy_step B f) (drop B p) (a, take B p) =
      fold (lazy_step B f) (drop B p) (f a (take B p), [])"
    using B assms by (intro fold_lazy_flush) auto
  also have "\<dots> = (fold (\<lambda>b a. f a b) (full_blocks B n (drop B p)) (f a (take B p)),
      drop (B * n) (drop B p))"
    using Suc.hyps(1) [OF n, of "f a (take B p)"] by (simp only: n [symmetric])
  also have "\<dots> = (fold (\<lambda>b a. f a b) (full_blocks B (Suc n) p) a, drop (B * Suc n) p)"
    by (simp add: full_blocks_Suc [OF le] drop_drop add.commute)
  finally show ?case
    by (simp only: Suc.hyps(2))
qed

section \<open>The buffered write of the hashes\<close>

text \<open>
  The body of \<^verbatim>\<open>Write\<close> in \<^verbatim>\<open>streebog\<close> and in \<^verbatim>\<open>gostr341194\<close>: a fixed array with a fill count, filled
  first, then whole blocks straight from the input, then the remainder buffered.
  Bytes of the array beyond the fill count are stale.
\<close>

record 'a buffered =
  bf_core :: 'a
  bf_buf :: bytes
  bf_nbuf :: nat

definition buf_fill :: "nat \<Rightarrow> ('a \<Rightarrow> bytes \<Rightarrow> 'a) \<Rightarrow> 'a buffered \<Rightarrow> bytes \<Rightarrow> 'a buffered \<times> bytes" where
  "buf_fill B f d p =
     (if bf_nbuf d > 0
      then let k = min (B - bf_nbuf d) (length p);
               d = d\<lparr>bf_buf := put_slice (bf_nbuf d) (take k p) (bf_buf d), bf_nbuf := bf_nbuf d + k\<rparr>;
               p = drop k p
           in (if bf_nbuf d = B then d\<lparr>bf_core := f (bf_core d) (bf_buf d), bf_nbuf := 0\<rparr> else d, p)
      else (d, p))"

function buf_blocks :: "nat \<Rightarrow> ('a \<Rightarrow> bytes \<Rightarrow> 'a) \<Rightarrow> 'a \<Rightarrow> bytes \<Rightarrow> 'a \<times> bytes" where
  "buf_blocks B f a p =
     (if 0 < B \<and> B \<le> length p then buf_blocks B f (f a (take B p)) (drop B p) else (a, p))"
  by pat_completeness auto
termination
  by (relation "measure (\<lambda>(B, f, a, p). length p)") auto

declare buf_blocks.simps [simp del]

definition buf_write :: "nat \<Rightarrow> ('a \<Rightarrow> bytes \<Rightarrow> 'a) \<Rightarrow> 'a buffered \<Rightarrow> bytes \<Rightarrow> 'a buffered" where
  "buf_write B f d p =
     (let (d, p) = buf_fill B f d p;
          (a, p) = buf_blocks B f (bf_core d) p;
          d = d\<lparr>bf_core := a\<rparr>
      in if length p > 0 then d\<lparr>bf_buf := put_slice 0 p (bf_buf d), bf_nbuf := length p\<rparr> else d)"

definition buf_wf :: "nat \<Rightarrow> 'a buffered \<Rightarrow> bool" where
  "buf_wf B d \<longleftrightarrow> 0 < B \<and> length (bf_buf d) = B \<and> bf_nbuf d < B"

definition buf_view :: "'a buffered \<Rightarrow> 'a \<times> bytes" where
  "buf_view d = (bf_core d, take (bf_nbuf d) (bf_buf d))"

lemma buf_blocks_eager:
  assumes "0 < B"
  shows "fold (eager_step B f) p (a, []) = (let (a', r) = buf_blocks B f a p in (a', r))
    \<and> length (snd (buf_blocks B f a p)) < B"
proof (induction "length p" arbitrary: a p rule: less_induct)
  case less
  show ?case
  proof (cases "B \<le> length p")
    case True
    have "length (drop B p) < length p" using True assms by simp
    from less [OF this, of "f a (take B p)"] show ?thesis
      using True assms fold_eager_take [OF assms True, of f a] by (simp add: buf_blocks.simps [of B f a p])
  next
    case False
    then show ?thesis
      using fold_eager_short [of "[]" p B f a] by (simp add: buf_blocks.simps [of B f a p])
  qed
qed

lemma buf_fill_wf:
  assumes wf: "buf_wf B d" and fill: "buf_fill B f d p = (d', q)"
  shows "buf_wf B d'" "fold (eager_step B f) q (buf_view d') = fold (eager_step B f) p (buf_view d)"
    "q \<noteq> [] \<Longrightarrow> bf_nbuf d' = 0"
proof -
  have "buf_wf B d' \<and> fold (eager_step B f) q (buf_view d') = fold (eager_step B f) p (buf_view d) \<and>
    (q \<noteq> [] \<longrightarrow> bf_nbuf d' = 0)"
  proof (cases "bf_nbuf d > 0")
    case False
    then show ?thesis using wf fill by (simp add: buf_fill_def)
  next
    case True
    define k where "k = min (B - bf_nbuf d) (length p)"
    define buf where "buf = put_slice (bf_nbuf d) (take k p) (bf_buf d)"
    have k: "k \<le> length p" "bf_nbuf d + k \<le> B" "k = length p \<or> bf_nbuf d + k = B"
      using wf by (auto simp: k_def buf_wf_def)
    have buf: "length buf = B" "take (bf_nbuf d + k) buf = take (bf_nbuf d) (bf_buf d) @ take k p"
      using wf k by (simp_all add: buf_def buf_wf_def put_slice_def)
    have fill': "buf_fill B f d p =
        (if bf_nbuf d + k = B then d\<lparr>bf_core := f (bf_core d) buf, bf_buf := buf, bf_nbuf := 0\<rparr>
         else d\<lparr>bf_buf := buf, bf_nbuf := bf_nbuf d + k\<rparr>, drop k p)"
      using True unfolding buf_fill_def Let_def k_def [symmetric] buf_def [symmetric] by simp
    have split: "fold (eager_step B f) p (buf_view d) =
        fold (eager_step B f) (drop k p) (fold (eager_step B f) (take k p) (buf_view d))"
      by (metis append_take_drop_id fold_append o_apply)
    have nb: "length (take (bf_nbuf d) (bf_buf d)) = bf_nbuf d" using wf by (simp add: buf_wf_def)
    show ?thesis
    proof (cases "bf_nbuf d + k = B")
      case full: True
      then have "d' = d\<lparr>bf_core := f (bf_core d) buf, bf_buf := buf, bf_nbuf := 0\<rparr>" "q = drop k p"
        using fill full unfolding fill' by simp_all
      moreover have "fold (eager_step B f) (take k p) (buf_view d) = (f (bf_core d) buf, [])"
        using fold_eager_block [of "take (bf_nbuf d) (bf_buf d)" B "take k p" f "bf_core d"] wf k full buf nb
        by (simp add: buf_view_def buf_wf_def)
      ultimately show ?thesis
        using wf buf split by (simp add: buf_wf_def buf_view_def)
    next
      case False
      then have lt: "bf_nbuf d + k < B" "k = length p" using k by auto
      then have "d' = d\<lparr>bf_buf := buf, bf_nbuf := bf_nbuf d + k\<rparr>" "q = []"
        using fill lt unfolding fill' by simp_all
      moreover have "fold (eager_step B f) p (buf_view d) = (bf_core d, take (bf_nbuf d + k) buf)"
        using fold_eager_short [of "take (bf_nbuf d) (bf_buf d)" p B f "bf_core d"] lt nb buf(2)
        by (simp add: buf_view_def)
      ultimately show ?thesis
        using wf buf lt by (simp add: buf_wf_def buf_view_def)
    qed
  qed
  then show "buf_wf B d'" "fold (eager_step B f) q (buf_view d') = fold (eager_step B f) p (buf_view d)"
    "q \<noteq> [] \<Longrightarrow> bf_nbuf d' = 0" by simp_all
qed

lemma buf_write_eager:
  assumes wf: "buf_wf B d"
  shows "buf_wf B (buf_write B f d p)" "buf_view (buf_write B f d p) = fold (eager_step B f) p (buf_view d)"
proof -
  obtain d1 q where fill: "buf_fill B f d p = (d1, q)" by fastforce
  note F = buf_fill_wf [OF wf fill]
  obtain a r where blocks: "buf_blocks B f (bf_core d1) q = (a, r)" by fastforce
  have B: "0 < B" using wf by (simp add: buf_wf_def)
  have res: "buf_write B f d p =
      (if length r > 0 then d1\<lparr>bf_core := a, bf_buf := put_slice 0 r (bf_buf d1), bf_nbuf := length r\<rparr>
       else d1\<lparr>bf_core := a\<rparr>)"
    by (simp add: buf_write_def fill blocks Let_def)
  have E: "fold (eager_step B f) q (bf_core d1, []) = (a, r)" "length r < B"
    using buf_blocks_eager [OF B, of f q "bf_core d1"] by (simp_all add: blocks)
  have "buf_wf B (buf_write B f d p) \<and> buf_view (buf_write B f d p) = fold (eager_step B f) p (buf_view d)"
  proof (cases "q = []")
    case True
    then have "r = []" "a = bf_core d1" using E by simp_all
    then show ?thesis using F True by (simp add: res buf_wf_def buf_view_def)
  next
    case False
    then have view: "buf_view d1 = (bf_core d1, [])" using F(3) by (simp add: buf_view_def)
    have "take (length r) (put_slice 0 r (bf_buf d1)) = r" by (simp add: put_slice_def)
    moreover have "length (put_slice 0 r (bf_buf d1)) = B"
      using E(2) F(1) by (simp add: buf_wf_def)
    ultimately show ?thesis
      using F E view False by (auto simp: res buf_wf_def buf_view_def)
  qed
  then show "buf_wf B (buf_write B f d p)" "buf_view (buf_write B f d p) = fold (eager_step B f) p (buf_view d)"
    by simp_all
qed

section \<open>The absorber contract\<close>

locale absorber =
  fixes absorb :: "'s \<Rightarrow> bytes \<Rightarrow> 's"
    and wf :: "'s \<Rightarrow> bool"
    and view :: "'s \<Rightarrow> 'a"
    and step :: "byte \<Rightarrow> 'a \<Rightarrow> 'a"
  assumes view_absorb: "wf s \<Longrightarrow> view (absorb s p) = fold step p (view s)"
    and wf_absorb: "wf s \<Longrightarrow> wf (absorb s p)"
begin

lemma absorb_append:
  assumes "wf s"
  shows "view (absorb (absorb s p) q) = view (absorb s (p @ q))"
  using assms by (simp add: view_absorb wf_absorb)

lemma absorb_pieces:
  assumes "wf s"
  shows "wf (fold (\<lambda>p s. absorb s p) ps s)"
    and "view (fold (\<lambda>p s. absorb s p) ps s) = view (absorb s (concat ps))"
proof -
  have "wf (fold (\<lambda>p s. absorb s p) ps s) \<and>
      view (fold (\<lambda>p s. absorb s p) ps s) = fold step (concat ps) (view s)"
    using assms by (induction ps arbitrary: s) (simp_all add: view_absorb wf_absorb)
  then show "wf (fold (\<lambda>p s. absorb s p) ps s)"
    and "view (fold (\<lambda>p s. absorb s p) ps s) = view (absorb s (concat ps))"
    using assms by (simp_all add: view_absorb)
qed

end

section \<open>The keystream contract\<close>

primrec gen :: "('a \<Rightarrow> byte \<times> 'a) \<Rightarrow> nat \<Rightarrow> 'a \<Rightarrow> bytes" where
  "gen nxt 0 a = []"
| "gen nxt (Suc n) a = fst (nxt a) # gen nxt n (snd (nxt a))"

primrec adv :: "('a \<Rightarrow> byte \<times> 'a) \<Rightarrow> nat \<Rightarrow> 'a \<Rightarrow> 'a" where
  "adv nxt 0 a = a"
| "adv nxt (Suc n) a = adv nxt n (snd (nxt a))"

lemma length_gen [simp, len_simps]: "length (gen nxt n a) = n"
  by (induction n arbitrary: a) auto

lemma gen_add: "gen nxt (m + n) a = gen nxt m a @ gen nxt n (adv nxt m a)"
  by (induction m arbitrary: a) auto

lemma adv_add: "adv nxt (m + n) a = adv nxt n (adv nxt m a)"
  by (induction m arbitrary: a) auto

locale keystream =
  fixes xks :: "'s \<Rightarrow> bytes \<Rightarrow> bytes \<times> 's"
    and wf :: "'s \<Rightarrow> bool"
    and view :: "'s \<Rightarrow> 'a"
    and nxt :: "'a \<Rightarrow> byte \<times> 'a"
  assumes xks_out: "wf s \<Longrightarrow> fst (xks s src) = xor_bytes src (gen nxt (length src) (view s))"
    and xks_view: "wf s \<Longrightarrow> view (snd (xks s src)) = adv nxt (length src) (view s)"
    and xks_wf: "wf s \<Longrightarrow> wf (snd (xks s src))"
begin

lemma xks_length: "wf s \<Longrightarrow> length (fst (xks s src)) = length src"
  by (simp add: xks_out)

text \<open>Splitting a call at any point gives the same output and the same abstract state.\<close>

lemma xks_split:
  assumes "wf s" "xks s p = (u, s')" "xks s' q = (v, s'')"
  shows "fst (xks s (p @ q)) = u @ v" and "view (snd (xks s (p @ q))) = view s''"
proof -
  have s': "wf s'" "view s' = adv nxt (length p) (view s)"
    using xks_wf [OF assms(1), of p] xks_view [OF assms(1), of p] assms(2) by simp_all
  have "u = xor_bytes p (gen nxt (length p) (view s))"
    using xks_out [OF assms(1), of p] assms(2) by simp
  moreover have "v = xor_bytes q (gen nxt (length q) (view s'))"
    using xks_out [OF s'(1), of q] assms(3) by simp
  ultimately show "fst (xks s (p @ q)) = u @ v"
    using assms(1) by (simp add: xks_out gen_add s' xor_bytes_append)
  show "view (snd (xks s (p @ q))) = view s''"
    using xks_view [OF s'(1), of q] assms by (simp add: xks_view adv_add s')
qed

text \<open>Two generators in the same abstract state undo each other: decryption is encryption.\<close>

lemma xks_involution:
  assumes "wf s" "wf s'" "view s' = view s"
  shows "fst (xks s' (fst (xks s src))) = src"
  using assms by (simp add: xks_out xor_bytes_cancel)

end

text \<open>The buffered write meets the absorber contract, whatever the compression.\<close>

interpretation buf: absorber "buf_write B f" "buf_wf B" buf_view "eager_step B f" for B f
  by unfold_locales (simp_all add: buf_write_eager)

end
