(* ===== verification/Streebog.thy ===== *)
theory Streebog
  imports Streaming
begin

text \<open>
  \<^verbatim>\<open>streebog/streebog.go\<close>: the hash of RFC 6986 for both output sizes. The tables are the
  source's; \<open>sb_lps\<close> is the table-driven round function, shown to be \<open>L\<close> after \<open>P\<close> after \<open>S\<close>; the
  512-bit adder is addition of numbers; and every sequence of writes gives
  the one-shot digest, stated with the counter and the checksum as natural numbers.
\<close>

section \<open>Tables\<close>

definition sb_pi :: bytes where
  "sb_pi =
    [252, 238, 221, 17, 207, 110, 49, 22, 251, 196, 250, 218, 35, 197, 4, 77,
     233, 119, 240, 219, 147, 46, 153, 186, 23, 54, 241, 187, 20, 205, 95, 193,
     249, 24, 101, 90, 226, 92, 239, 33, 129, 28, 60, 66, 139, 1, 142, 79,
     5, 132, 2, 174, 227, 106, 143, 160, 6, 11, 237, 152, 127, 212, 211, 31,
     235, 52, 44, 81, 234, 200, 72, 171, 242, 42, 104, 162, 253, 58, 206, 204,
     181, 112, 14, 86, 8, 12, 118, 18, 191, 114, 19, 71, 156, 183, 93, 135,
     21, 161, 150, 41, 16, 123, 154, 199, 243, 145, 120, 111, 157, 158, 178, 177,
     50, 117, 25, 61, 255, 53, 138, 126, 109, 84, 198, 128, 195, 189, 13, 87,
     223, 245, 36, 169, 62, 168, 67, 201, 215, 121, 214, 246, 124, 34, 185, 3,
     224, 15, 236, 222, 122, 148, 176, 188, 220, 232, 40, 80, 78, 51, 10, 74,
     167, 151, 96, 115, 30, 0, 98, 68, 26, 184, 56, 130, 100, 159, 38, 65,
     173, 69, 70, 146, 39, 94, 85, 47, 140, 163, 165, 125, 105, 213, 149, 59,
     7, 88, 179, 64, 134, 172, 29, 247, 48, 55, 107, 228, 136, 217, 231, 137,
     225, 27, 131, 73, 76, 63, 248, 254, 141, 83, 170, 144, 202, 216, 133, 97,
     32, 113, 103, 164, 45, 43, 9, 91, 203, 155, 37, 208, 190, 229, 108, 82,
     89, 166, 116, 210, 230, 244, 180, 192, 209, 102, 175, 194, 57, 75, 99, 182]"

definition sb_tau :: "nat list" where
  "sb_tau =
    [0, 8, 16, 24, 32, 40, 48, 56, 1, 9, 17, 25, 33, 41, 49, 57,
     2, 10, 18, 26, 34, 42, 50, 58, 3, 11, 19, 27, 35, 43, 51, 59,
     4, 12, 20, 28, 36, 44, 52, 60, 5, 13, 21, 29, 37, 45, 53, 61,
     6, 14, 22, 30, 38, 46, 54, 62, 7, 15, 23, 31, 39, 47, 55, 63]"

definition sb_matrixA :: "u64 list" where
  "sb_matrixA =
    [0x8e20faa72ba0b470, 0x47107ddd9b505a38, 0xad08b0e0c3282d1c, 0xd8045870ef14980e,
     0x6c022c38f90a4c07, 0x3601161cf205268d, 0x1b8e0b0e798c13c8, 0x83478b07b2468764,
     0xa011d380818e8f40, 0x5086e740ce47c920, 0x2843fd2067adea10, 0x14aff010bdd87508,
     0x0ad97808d06cb404, 0x05e23c0468365a02, 0x8c711e02341b2d01, 0x46b60f011a83988e,
     0x90dab52a387ae76f, 0x486dd4151c3dfdb9, 0x24b86a840e90f0d2, 0x125c354207487869,
     0x092e94218d243cba, 0x8a174a9ec8121e5d, 0x4585254f64090fa0, 0xaccc9ca9328a8950,
     0x9d4df05d5f661451, 0xc0a878a0a1330aa6, 0x60543c50de970553, 0x302a1e286fc58ca7,
     0x18150f14b9ec46dd, 0x0c84890ad27623e0, 0x0642ca05693b9f70, 0x0321658cba93c138,
     0x86275df09ce8aaa8, 0x439da0784e745554, 0xafc0503c273aa42a, 0xd960281e9d1d5215,
     0xe230140fc0802984, 0x71180a8960409a42, 0xb60c05ca30204d21, 0x5b068c651810a89e,
     0x456c34887a3805b9, 0xac361a443d1c8cd2, 0x561b0d22900e4669, 0x2b838811480723ba,
     0x9bcf4486248d9f5d, 0xc3e9224312c8c1a0, 0xeffa11af0964ee50, 0xf97d86d98a327728,
     0xe4fa2054a80b329c, 0x727d102a548b194e, 0x39b008152acb8227, 0x9258048415eb419d,
     0x492c024284fbaec0, 0xaa16012142f35760, 0x550b8e9e21f7a530, 0xa48b474f9ef5dc18,
     0x70a6a56e2440598e, 0x3853dc371220a247, 0x1ca76e95091051ad, 0x0edd37c48a08a6d8,
     0x07e095624504536c, 0x8d70c431ac02a736, 0xc83862965601dd1b, 0x641c314b2b8ee083]"

definition sb_roundConstants :: "bytes list" where
  "sb_roundConstants = [
    [0x07, 0x45, 0xa6, 0xf2, 0x59, 0x65, 0x80, 0xdd, 0x23, 0x4d, 0x74, 0xcc, 0x36, 0x74, 0x76, 0x05,
     0x15, 0xd3, 0x60, 0xa4, 0x08, 0x2a, 0x42, 0xa2, 0x01, 0x69, 0x67, 0x92, 0x91, 0xe0, 0x7c, 0x4b,
     0xfc, 0xc4, 0x85, 0x75, 0x8d, 0xb8, 0x4e, 0x71, 0x16, 0xd0, 0x45, 0x2e, 0x43, 0x76, 0x6a, 0x2f,
     0x1f, 0x7c, 0x65, 0xc0, 0x81, 0x2f, 0xcb, 0xeb, 0xe9, 0xda, 0xca, 0x1e, 0xda, 0x5b, 0x08, 0xb1],
    [0xb7, 0x9b, 0xb1, 0x21, 0x70, 0x04, 0x79, 0xe6, 0x56, 0xcd, 0xcb, 0xd7, 0x1b, 0xa2, 0xdd, 0x55,
     0xca, 0xa7, 0x0a, 0xdb, 0xc2, 0x61, 0xb5, 0x5c, 0x58, 0x99, 0xd6, 0x12, 0x6b, 0x17, 0xb5, 0x9a,
     0x31, 0x01, 0xb5, 0x16, 0x0f, 0x5e, 0xd5, 0x61, 0x98, 0x2b, 0x23, 0x0a, 0x72, 0xea, 0xfe, 0xf3,
     0xd7, 0xb5, 0x70, 0x0f, 0x46, 0x9d, 0xe3, 0x4f, 0x1a, 0x2f, 0x9d, 0xa9, 0x8a, 0xb5, 0xa3, 0x6f],
    [0xb2, 0x0a, 0xba, 0x0a, 0xf5, 0x96, 0x1e, 0x99, 0x31, 0xdb, 0x7a, 0x86, 0x43, 0xf4, 0xb6, 0xc2,
     0x09, 0xdb, 0x62, 0x60, 0x37, 0x3a, 0xc9, 0xc1, 0xb1, 0x9e, 0x35, 0x90, 0xe4, 0x0f, 0xe2, 0xd3,
     0x7b, 0x7b, 0x29, 0xb1, 0x14, 0x75, 0xea, 0xf2, 0x8b, 0x1f, 0x9c, 0x52, 0x5f, 0x5e, 0xf1, 0x06,
     0x35, 0x84, 0x3d, 0x6a, 0x28, 0xfc, 0x39, 0x0a, 0xc7, 0x2f, 0xce, 0x2b, 0xac, 0xdc, 0x74, 0xf5],
    [0x2e, 0xd1, 0xe3, 0x84, 0xbc, 0xbe, 0x0c, 0x22, 0xf1, 0x37, 0xe8, 0x93, 0xa1, 0xea, 0x53, 0x34,
     0xbe, 0x03, 0x52, 0x93, 0x33, 0x13, 0xb7, 0xd8, 0x75, 0xd6, 0x03, 0xed, 0x82, 0x2c, 0xd7, 0xa9,
     0x3f, 0x35, 0x5e, 0x68, 0xad, 0x1c, 0x72, 0x9d, 0x7d, 0x3c, 0x5c, 0x33, 0x7e, 0x85, 0x8e, 0x48,
     0xdd, 0xe4, 0x71, 0x5d, 0xa0, 0xe1, 0x48, 0xf9, 0xd2, 0x66, 0x15, 0xe8, 0xb3, 0xdf, 0x1f, 0xef],
    [0x57, 0xfe, 0x6c, 0x7c, 0xfd, 0x58, 0x17, 0x60, 0xf5, 0x63, 0xea, 0xa9, 0x7e, 0xa2, 0x56, 0x7a,
     0x16, 0x1a, 0x27, 0x23, 0xb7, 0x00, 0xff, 0xdf, 0xa3, 0xf5, 0x3a, 0x25, 0x47, 0x17, 0xcd, 0xbf,
     0xbd, 0xff, 0x0f, 0x80, 0xd7, 0x35, 0x9e, 0x35, 0x4a, 0x10, 0x86, 0x16, 0x1f, 0x1c, 0x15, 0x7f,
     0x63, 0x23, 0xa9, 0x6c, 0x0c, 0x41, 0x3f, 0x9a, 0x99, 0x47, 0x47, 0xad, 0xac, 0x6b, 0xea, 0x4b],
    [0x6e, 0x7d, 0x64, 0x46, 0x7a, 0x40, 0x68, 0xfa, 0x35, 0x4f, 0x90, 0x36, 0x72, 0xc5, 0x71, 0xbf,
     0xb6, 0xc6, 0xbe, 0xc2, 0x66, 0x1f, 0xf2, 0x0a, 0xb4, 0xb7, 0x9a, 0x1c, 0xb7, 0xa6, 0xfa, 0xcf,
     0xc6, 0x8e, 0xf0, 0x9a, 0xb4, 0x9a, 0x7f, 0x18, 0x6c, 0xa4, 0x42, 0x51, 0xf9, 0xc4, 0x66, 0x2d,
     0xc0, 0x39, 0x30, 0x7a, 0x3b, 0xc3, 0xa4, 0x6f, 0xd9, 0xd3, 0x3a, 0x1d, 0xae, 0xae, 0x4f, 0xae],
    [0x93, 0xd4, 0x14, 0x3a, 0x4d, 0x56, 0x86, 0x88, 0xf3, 0x4a, 0x3c, 0xa2, 0x4c, 0x45, 0x17, 0x35,
     0x04, 0x05, 0x4a, 0x28, 0x83, 0x69, 0x47, 0x06, 0x37, 0x2c, 0x82, 0x2d, 0xc5, 0xab, 0x92, 0x09,
     0xc9, 0x93, 0x7a, 0x19, 0x33, 0x3e, 0x47, 0xd3, 0xc9, 0x87, 0xbf, 0xe6, 0xc7, 0xc6, 0x9e, 0x39,
     0x54, 0x09, 0x24, 0xbf, 0xfe, 0x86, 0xac, 0x51, 0xec, 0xc5, 0xaa, 0xee, 0x16, 0x0e, 0xc7, 0xf4],
    [0x1e, 0xe7, 0x02, 0xbf, 0xd4, 0x0d, 0x7f, 0xa4, 0xd9, 0xa8, 0x51, 0x59, 0x35, 0xc2, 0xac, 0x36,
     0x2f, 0xc4, 0xa5, 0xd1, 0x2b, 0x8d, 0xd1, 0x69, 0x90, 0x06, 0x9b, 0x92, 0xcb, 0x2b, 0x89, 0xf4,
     0x9a, 0xc4, 0xdb, 0x4d, 0x3b, 0x44, 0xb4, 0x89, 0x1e, 0xde, 0x36, 0x9c, 0x71, 0xf8, 0xb7, 0x4e,
     0x41, 0x41, 0x6e, 0x0c, 0x02, 0xaa, 0xe7, 0x03, 0xa7, 0xc9, 0x93, 0x4d, 0x42, 0x5b, 0x1f, 0x9b],
    [0xdb, 0x5a, 0x23, 0x83, 0x51, 0x44, 0x61, 0x72, 0x60, 0x2a, 0x1f, 0xcb, 0x92, 0xdc, 0x38, 0x0e,
     0x54, 0x9c, 0x07, 0xa6, 0x9a, 0x8a, 0x2b, 0x7b, 0xb1, 0xce, 0xb2, 0xdb, 0x0b, 0x44, 0x0a, 0x80,
     0x84, 0x09, 0x0d, 0xe0, 0xb7, 0x55, 0xd9, 0x3c, 0x24, 0x42, 0x89, 0x25, 0x1b, 0x3a, 0x7d, 0x3a,
     0xde, 0x5f, 0x16, 0xec, 0xd8, 0x9a, 0x4c, 0x94, 0x9b, 0x22, 0x31, 0x16, 0x54, 0x5a, 0x8f, 0x37],
    [0xed, 0x9c, 0x45, 0x98, 0xfb, 0xc7, 0xb4, 0x74, 0xc3, 0xb6, 0x3b, 0x15, 0xd1, 0xfa, 0x98, 0x36,
     0xf4, 0x52, 0x76, 0x3b, 0x30, 0x6c, 0x1e, 0x7a, 0x4b, 0x33, 0x69, 0xaf, 0x02, 0x67, 0xe7, 0x9f,
     0x03, 0x61, 0x33, 0x1b, 0x8a, 0xe1, 0xff, 0x1f, 0xdb, 0x78, 0x8a, 0xff, 0x1c, 0xe7, 0x41, 0x89,
     0xf3, 0xf3, 0xe4, 0xb2, 0x48, 0xe5, 0x2a, 0x38, 0x52, 0x6f, 0x05, 0x80, 0xa6, 0xde, 0xbe, 0xab],
    [0x1b, 0x2d, 0xf3, 0x81, 0xcd, 0xa4, 0xca, 0x6b, 0x5d, 0xd8, 0x6f, 0xc0, 0x4a, 0x59, 0xa2, 0xde,
     0x98, 0x6e, 0x47, 0x7d, 0x1d, 0xcd, 0xba, 0xef, 0xca, 0xb9, 0x48, 0xea, 0xef, 0x71, 0x1d, 0x8a,
     0x79, 0x66, 0x84, 0x14, 0x21, 0x80, 0x01, 0x20, 0x61, 0x07, 0xab, 0xeb, 0xbb, 0x6b, 0xfa, 0xd8,
     0x94, 0xfe, 0x5a, 0x63, 0xcd, 0xc6, 0x02, 0x30, 0xfb, 0x89, 0xc8, 0xef, 0xd0, 0x9e, 0xcd, 0x7b],
    [0x20, 0xd7, 0x1b, 0xf1, 0x4a, 0x92, 0xbc, 0x48, 0x99, 0x1b, 0xb2, 0xd9, 0xd5, 0x17, 0xf4, 0xfa,
     0x52, 0x28, 0xe1, 0x88, 0xaa, 0xa4, 0x1d, 0xe7, 0x86, 0xcc, 0x91, 0x18, 0x9d, 0xef, 0x80, 0x5d,
     0x9b, 0x9f, 0x21, 0x30, 0xd4, 0x12, 0x20, 0xf8, 0x77, 0x1d, 0xdf, 0xbc, 0x32, 0x3c, 0xa4, 0xcd,
     0x7a, 0xb1, 0x49, 0x04, 0xb0, 0x80, 0x13, 0xd2, 0xba, 0x31, 0x16, 0xf1, 0x67, 0xe7, 0x8e, 0x37]]"

section \<open>The round function\<close>

text \<open>\<open>sb_l\<close> is the inner loop of \<^verbatim>\<open>linearLP\<close>, over the bits of one word.\<close>

definition sb_l :: "u64 \<Rightarrow> u64" where
  "sb_l word = fold (\<lambda>bit acc. if word AND push_bit bit 1 \<noteq> 0 then acc XOR (sb_matrixA ! (63 - bit)) else acc)
     [0..<64] 0"

definition sb_linearLP :: "bytes \<Rightarrow> bytes" where
  "sb_linearLP a =
     (let p = map (\<lambda>s. a ! (sb_tau ! s)) [0..<64]
      in concat (map (\<lambda>w. word_le 8 (sb_l (le_word (slice (8 * w) 8 p)))) [0..<8]))"

definition sb_bytesToWords :: "bytes \<Rightarrow> u64 list" where
  "sb_bytesToWords b = map (\<lambda>i. le_word (slice (8 * i) 8 b)) [0..<8]"

definition sb_wordsToBytes :: "u64 list \<Rightarrow> bytes" where
  "sb_wordsToBytes w = concat (map (\<lambda>i. word_le 8 (w ! i)) [0..<8])"

definition sb_lpTable :: "nat \<Rightarrow> byte \<Rightarrow> u64 list" where
  "sb_lpTable p v = sb_bytesToWords (sb_linearLP ((replicate 64 0)[p := v]))"

definition sb_lps :: "u64 list \<Rightarrow> u64 list" where
  "sb_lps x =
     fold (\<lambda>p r. fold (\<lambda>k r.
         let b = sb_pi ! unat (ucast (drop_bit (8 * k) (x ! p)) :: byte)
         in xor_bytes r (sb_lpTable (p * 8 + k) b)) [0..<8] r) [0..<8] (replicate 8 0)"

definition sb_xor512 :: "u64 list \<Rightarrow> u64 list \<Rightarrow> u64 list" where
  "sb_xor512 a b = map (\<lambda>i. a ! i XOR b ! i) [0..<8]"

definition sb_roundConstantWords :: "u64 list list" where
  "sb_roundConstantWords = map sb_bytesToWords sb_roundConstants"

definition sb_e :: "u64 list \<Rightarrow> u64 list \<Rightarrow> u64 list" where
  "sb_e k m =
     snd (fold (\<lambda>i (k, state).
         let k = sb_lps (sb_xor512 k (sb_roundConstantWords ! i))
         in (k, sb_xor512 (sb_lps state) k)) [0..<12] (k, sb_xor512 m k))"

definition sb_g :: "u64 list \<Rightarrow> u64 list \<Rightarrow> u64 list \<Rightarrow> u64 list" where
  "sb_g h m n =
     (let k = sb_lps (sb_xor512 h n); t = sb_e k m
      in sb_xor512 (sb_xor512 t h) m)"

definition sb_add512 :: "bytes \<Rightarrow> bytes \<Rightarrow> bytes" where
  "sb_add512 a b = add_carry a b 0"

section \<open>The digest\<close>

text \<open>The chaining value, the bit counter and the checksum; the partial block is the shared buffer.\<close>

type_synonym sb_core = "u64 list \<times> bytes \<times> bytes"

record sb_digest =
  sb_d :: "sb_core buffered"
  sb_size :: nat

definition sb_block512le :: bytes where
  "sb_block512le = (replicate 64 0)[0 := 0x00, 1 := 0x02]"

definition sb_compress :: "sb_core \<Rightarrow> bytes \<Rightarrow> sb_core" where
  "sb_compress = (\<lambda>(h, n, sum) blk.
     let m = sb_bytesToWords blk
     in (sb_g h m (sb_bytesToWords n), sb_add512 n sb_block512le, sb_add512 sum blk))"

definition sb_iv :: "nat \<Rightarrow> u64 list" where
  "sb_iv sz = sb_bytesToWords (if sz = 32 then replicate 64 0x01 else replicate 64 0)"

definition sb_Reset :: "sb_digest \<Rightarrow> sb_digest" where
  "sb_Reset d = d\<lparr>sb_d := \<lparr>bf_core = (sb_iv (sb_size d), replicate 64 0, replicate 64 0),
     bf_buf = replicate 64 0, bf_nbuf = 0\<rparr>\<rparr>"

definition sb_New :: "nat \<Rightarrow> sb_digest" where
  "sb_New sz = sb_Reset \<lparr>sb_d = \<lparr>bf_core = (replicate 8 0, replicate 64 0, replicate 64 0),
     bf_buf = replicate 64 0, bf_nbuf = 0\<rparr>, sb_size = sz\<rparr>"

definition sb_New256 :: sb_digest where "sb_New256 = sb_New 32"

definition sb_New512 :: sb_digest where "sb_New512 = sb_New 64"

definition sb_Write :: "sb_digest \<Rightarrow> bytes \<Rightarrow> sb_digest" where
  "sb_Write d p = d\<lparr>sb_d := buf_write 64 sb_compress (sb_d d) p\<rparr>"

definition sb_Sum :: "sb_digest \<Rightarrow> bytes \<Rightarrow> bytes" where
  "sb_Sum d inp =
     (let (h, n, sum) = bf_core (sb_d d);
          nbuf = bf_nbuf (sb_d d);
          m = (copy_into 64 (take nbuf (bf_buf (sb_d d))))[nbuf := 0x01];
          mw = sb_bytesToWords m;
          h = sb_g h mw (sb_bytesToWords n);
          bits = of_nat nbuf * 8 :: u64;
          tailBits = put_slice 0 (word_le 8 bits) (replicate 64 0);
          n = sb_add512 n tailBits;
          sum = sb_add512 sum m;
          zero = replicate 8 0;
          h = sb_g h (sb_bytesToWords n) zero;
          h = sb_g h (sb_bytesToWords sum) zero;
          out = sb_wordsToBytes h
      in if sb_size d = 32 then inp @ slice 32 32 out else inp @ out)"

definition sb_Sum256 :: "bytes \<Rightarrow> bytes" where
  "sb_Sum256 b = copy_into 32 (sb_Sum (sb_Write sb_New256 b) [])"

definition sb_Sum512 :: "bytes \<Rightarrow> bytes" where
  "sb_Sum512 b = copy_into 64 (sb_Sum (sb_Write sb_New512 b) [])"

section \<open>The table computes L, P and S\<close>

lemma fold_xor_xsum:
  "fold (\<lambda>i acc. if P i then acc XOR A i else acc) [0..<n] 0 = xsum (\<lambda>i. if P i then A i else 0) n"
  by (induction n) simp_all

lemma sb_l_xsum: "sb_l w = xsum (\<lambda>i. if bit w i then sb_matrixA ! (63 - i) else 0) 64"
proof -
  have "xsum (\<lambda>i. if w AND push_bit i 1 \<noteq> 0 then sb_matrixA ! (63 - i) else 0) 64 =
      xsum (\<lambda>i. if bit w i then sb_matrixA ! (63 - i) else 0) 64"
    by (rule xsum_cong) (simp add: bit_iff_and_push_bit_not_eq_0)
  then show ?thesis unfolding sb_l_def fold_xor_xsum .
qed

lemma sb_l_xor: "sb_l (v XOR w) = sb_l v XOR sb_l w"
  unfolding sb_l_xsum xsum_xor [symmetric] by (rule xsum_cong) (auto simp: bit_xor_iff)

lemma length_sb_linearLP [simp, len_simps]: "length (sb_linearLP a) = 64"
  unfolding sb_linearLP_def Let_def by (subst length_concat_upt [where m = 8]) simp_all

lemma length_sb_words [simp, len_simps]:
  "length (sb_bytesToWords b) = 8" "length (sb_wordsToBytes w) = 64"
  unfolding sb_bytesToWords_def sb_wordsToBytes_def
  by (simp, subst length_concat_upt [where m = 8]) simp_all

lemma sb_tau_less: "s < 64 \<Longrightarrow> sb_tau ! s < 64"
proof -
  have "\<forall>x \<in> set sb_tau. x < 64" by (simp add: sb_tau_def)
  moreover have "length sb_tau = 64" by (simp add: sb_tau_def)
  ultimately show "s < 64 \<Longrightarrow> sb_tau ! s < 64" by simp
qed

text \<open>\<open>LP\<close>: the linear part, on the words.\<close>

definition sb_LP :: "bytes \<Rightarrow> u64 list" where
  "sb_LP a = sb_bytesToWords (sb_linearLP a)"

lemma sb_LP_words:
  "sb_LP a = map (\<lambda>w. sb_l (le_word (slice (8 * w) 8 (map (\<lambda>s. a ! (sb_tau ! s)) [0..<64])))) [0..<8]"
proof -
  let ?F = "\<lambda>w. word_le 8 (sb_l (le_word (slice (8 * w) 8 (map (\<lambda>s. a ! (sb_tau ! s)) [0..<64]))))"
  have "map (\<lambda>i. slice (8 * i) 8 (concat (map ?F [0..<8]))) [0..<8] = map ?F [0..<8]"
    using full_blocks_concat [of 8 ?F 8] unfolding full_blocks_def by simp
  then have "map le_word (map (\<lambda>i. slice (8 * i) 8 (concat (map ?F [0..<8]))) [0..<8]) =
      (map le_word (map ?F [0..<8]) :: u64 list)"
    by (simp only:)
  moreover have "map le_word (map ?F [0..<8]) =
      map (\<lambda>w. sb_l (le_word (slice (8 * w) 8 (map (\<lambda>s. a ! (sb_tau ! s)) [0..<64])))) [0..<8]"
    unfolding map_map o_def by (intro map_cong refl le_word_word_le) simp
  ultimately show ?thesis
    unfolding sb_LP_def sb_bytesToWords_def sb_linearLP_def Let_def map_map o_def by (simp only:)
qed

lemma sb_LP_xor:
  assumes "length a = 64" "length b = 64"
  shows "sb_LP (xor_bytes a b) = xor_bytes (sb_LP a) (sb_LP b)"
proof (rule nth_equalityI)
  fix w assume "w < length (sb_LP (xor_bytes a b))"
  then have w: "w < 8" by (simp add: sb_LP_def)
  let ?P = "\<lambda>a. map (\<lambda>s. a ! (sb_tau ! s)) [0..<64]"
  have "?P (xor_bytes a b) = xor_bytes (?P a) (?P b)"
    using assms sb_tau_less by (intro nth_equalityI) (simp_all del: upt_rec_numeral)
  then have "slice (8 * w) 8 (?P (xor_bytes a b)) = xor_bytes (slice (8 * w) 8 (?P a)) (slice (8 * w) 8 (?P b))"
    by (simp only: slice_def drop_xor_bytes take_xor_bytes)
  moreover have "length (slice (8 * w) 8 (?P c)) = 8" for c :: bytes
    using w by (intro length_slice) simp
  ultimately show "sb_LP (xor_bytes a b) ! w = xor_bytes (sb_LP a) (sb_LP b) ! w"
    using w by (simp add: sb_LP_words le_word_xor sb_l_xor del: upt_rec_numeral)
qed (simp add: sb_LP_def)

lemma length_sb_LP [simp]: "length (sb_LP a) = 8"
  by (simp add: sb_LP_def)

lemma sb_LP_zero: "sb_LP (replicate 64 0) = replicate 8 0"
  using sb_LP_xor [of "replicate 64 0" "replicate 64 0"] by (simp add: xor_bytes_self)

text \<open>The bytes of the state are combined one at a time.\<close>

definition upto_byte :: "nat \<Rightarrow> bytes \<Rightarrow> bytes" where
  "upto_byte n b = take n b @ replicate (64 - n) 0"

lemma upto_byte_Suc:
  assumes "length b = 64" "n < 64"
  shows "xor_bytes (upto_byte n b) ((replicate 64 0)[n := b ! n]) = upto_byte (Suc n) b"
  using assms by (intro nth_equalityI) (auto simp: upto_byte_def nth_append nth_list_update less_Suc_eq)

lemma sb_table_fold:
  assumes "length b = 64" "n \<le> 64"
  shows "fold (\<lambda>i r. xor_bytes r (sb_lpTable i (b ! i))) [0..<n] (replicate 8 0) = sb_LP (upto_byte n b)"
  using assms(2)
proof (induction n)
  case 0
  then show ?case by (simp add: upto_byte_def sb_LP_zero)
next
  case (Suc n)
  have len: "length (upto_byte n b) = 64" "length ((replicate 64 0)[n := b ! n]) = 64"
    using Suc.prems assms(1) by (simp_all add: upto_byte_def)
  have "xor_bytes (sb_LP (upto_byte n b)) (sb_lpTable n (b ! n)) =
      sb_LP (xor_bytes (upto_byte n b) ((replicate 64 0)[n := b ! n]))"
    unfolding sb_LP_xor [OF len] by (simp only: sb_lpTable_def sb_LP_def)
  also have "xor_bytes (upto_byte n b) ((replicate 64 0)[n := b ! n]) = upto_byte (Suc n) b"
    using Suc.prems assms(1) by (intro upto_byte_Suc) simp_all
  finally have "xor_bytes (sb_LP (upto_byte n b)) (sb_lpTable n (b ! n)) = sb_LP (upto_byte (Suc n) b)" .
  then show ?case using Suc by simp
qed

lemma nth_sb_wordsToBytes:
  assumes "p < 8" "k < 8"
  shows "sb_wordsToBytes x ! (8 * p + k) = ucast (drop_bit (8 * k) (x ! p))"
proof -
  have "slice (8 * p) 8 (sb_wordsToBytes x) = word_le 8 (x ! p)"
    using full_blocks_concat [of 8 "\<lambda>i. word_le 8 (x ! i)" 8] assms(1)
    unfolding full_blocks_def sb_wordsToBytes_def by (metis (no_types, lifting) add_0 length_upt
      length_word_le minus_nat.diff_0 nth_map nth_upt)
  moreover have "slice (8 * p) 8 (sb_wordsToBytes x) ! k = sb_wordsToBytes x ! (8 * p + k)"
    using assms by (intro nth_slice) simp_all
  ultimately show ?thesis using assms by (simp add: nth_word_le)
qed

definition sb_S :: "bytes \<Rightarrow> bytes" where
  "sb_S b = map (\<lambda>x. sb_pi ! unat x) b"

lemma sb_lps_LPS: "sb_lps x = sb_LP (sb_S (sb_wordsToBytes x))"
proof -
  define b where "b = sb_S (sb_wordsToBytes x)"
  have b: "length b = 64" by (simp add: b_def sb_S_def)
  have byte: "sb_pi ! unat (ucast (drop_bit (8 * k) (x ! p)) :: byte) = b ! (8 * p + k)" if "p < 8" "k < 8" for p k
    using that by (simp add: b_def sb_S_def nth_sb_wordsToBytes)
  have "sb_lps x = fold (\<lambda>p r. fold (\<lambda>k r. xor_bytes r (sb_lpTable (8 * p + k) (b ! (8 * p + k)))) [0..<8] r)
      [0..<8] (replicate 8 0)"
    unfolding sb_lps_def Let_def
    by (intro fold_cong refl ext) (simp_all add: byte mult.commute [of _ 8])
  also have "\<dots> = fold (\<lambda>i r. xor_bytes r (sb_lpTable i (b ! i))) [0..<8 * 8] (replicate 8 0)"
    by (rule fold_nested)
  also have "\<dots> = sb_LP (upto_byte 64 b)"
    using sb_table_fold [OF b, of 64] by simp
  finally show ?thesis using b by (simp add: upto_byte_def b_def)
qed

section \<open>Writes and the one-shot digest\<close>

interpretation sbh: absorber sb_Write "\<lambda>d. buf_wf 64 (sb_d d)" "\<lambda>d. buf_view (sb_d d)" "eager_step 64 sb_compress"
  by unfold_locales (simp_all add: sb_Write_def buf_write_eager)

text \<open>
  RFC 6986, section 8, with the counter \<open>N\<close> and the checksum as natural numbers: \<open>N\<close> is the
  number of bits before the block, the checksum the sum of the blocks, both modulo \<open>2^512\<close>.
\<close>

definition sb_hash_blocks :: "nat \<Rightarrow> bytes \<Rightarrow> nat \<Rightarrow> u64 list" where
  "sb_hash_blocks sz m k =
     fold (\<lambda>i h. sb_g h (sb_bytesToWords (slice (64 * i) 64 m)) (sb_bytesToWords (le_bytes 64 (512 * i))))
       [0..<k] (sb_iv sz)"

definition sb_checksum :: "bytes \<Rightarrow> nat \<Rightarrow> nat" where
  "sb_checksum m k = (\<Sum>i<k. le_nat (slice (64 * i) 64 m))"

definition sb_spec :: "nat \<Rightarrow> bytes \<Rightarrow> bytes" where
  "sb_spec sz m =
     (let k = length m div 64;
          r = drop (64 * k) m;
          m' = r @ 0x01 # replicate (63 - length r) 0;
          h = sb_g (sb_hash_blocks sz m k) (sb_bytesToWords m') (sb_bytesToWords (le_bytes 64 (512 * k)));
          h = sb_g h (sb_bytesToWords (le_bytes 64 (8 * length m))) (replicate 8 0);
          h = sb_g h (sb_bytesToWords (le_bytes 64 (sb_checksum m k + le_nat m'))) (replicate 8 0)
      in if sz = 32 then slice 32 32 (sb_wordsToBytes h) else sb_wordsToBytes h)"

lemma sb_block512le_bytes: "sb_block512le = le_bytes 64 512"
proof -
  have "replicate 64 (0 :: byte) = 0 # 0 # replicate 62 0"
    by (rule nth_equalityI) (auto simp: nth_Cons split: nat.splits)
  then have "sb_block512le = [0, 2] @ replicate 62 0"
    unfolding sb_block512le_def by (simp only:) simp
  also have "[0, 2] = le_bytes 2 512" by code_simp
  also have "\<dots> @ replicate 62 0 = le_bytes (2 + 62) 512"
    by (rule le_bytes_append_zeros) simp
  finally show ?thesis by simp
qed

lemma sb_add512_bytes:
  "sb_add512 (le_bytes 64 m) (le_bytes 64 n) = le_bytes 64 (m + n)"
  by (simp add: sb_add512_def add_carry_le_bytes2)

lemma sb_add512_block:
  "length b = 64 \<Longrightarrow> sb_add512 (le_bytes 64 m) b = le_bytes 64 (m + le_nat b)"
  using sb_add512_bytes [of m "le_nat b"] by (simp add: le_bytes_le_nat)

text \<open>The core after the whole blocks of a message.\<close>

lemma sb_compress_blocks:
  assumes "64 * k \<le> length m"
  shows "fold (\<lambda>b a. sb_compress a b) (full_blocks 64 k m) (sb_iv sz, replicate 64 0, replicate 64 0) =
    (sb_hash_blocks sz m k, le_bytes 64 (512 * k), le_bytes 64 (sb_checksum m k))"
  using assms
proof (induction k)
  case 0
  then show ?case by (simp add: full_blocks_def sb_hash_blocks_def sb_checksum_def le_bytes_0)
next
  case (Suc k)
  have "full_blocks 64 (Suc k) m = full_blocks 64 k m @ [slice (64 * k) 64 m]"
    by (simp add: full_blocks_def)
  moreover have "length (slice (64 * k) 64 m) = 64"
    using Suc.prems by simp
  ultimately show ?case
    using Suc
    by (simp add: sb_compress_def Let_def sb_hash_blocks_def sb_checksum_def sb_add512_block
        sb_block512le_bytes sb_add512_bytes add.commute)
qed

lemma sb_New_facts:
  "buf_wf 64 (sb_d (sb_New sz))" "sb_size (sb_New sz) = sz"
  "buf_view (sb_d (sb_New sz)) = ((sb_iv sz, replicate 64 0, replicate 64 0), [])"
  by (simp_all add: sb_New_def sb_Reset_def buf_wf_def buf_view_def)

lemma sb_tail_bits:
  assumes "n < 64"
  shows "put_slice 0 (word_le 8 (of_nat n * 8 :: u64)) (replicate 64 0) = le_bytes 64 (8 * n)"
proof -
  have "unat (of_nat n * 8 :: u64) = 8 * n"
    using assms by (simp add: unat_word_ariths unat_of_nat)
  then have "word_le 8 (of_nat n * 8 :: u64) = le_bytes 8 (8 * n)"
    by (simp only: word_le_le_bytes)
  then show ?thesis
    using le_bytes_append_zeros [of "8 * n" 8 56] assms by (simp add: put_slice_def)
qed

text \<open>A digest that has absorbed \<open>m\<close>, in whatever pieces, finalises to the specification.\<close>

lemma sb_Sum_spec:
  assumes wf: "buf_wf 64 (sb_d d)" and view: "buf_view (sb_d d) =
      fold (eager_step 64 sb_compress) m ((sb_iv (sb_size d), replicate 64 0, replicate 64 0), [])"
  shows "sb_Sum d pre = pre @ sb_spec (sb_size d) m"
proof -
  define k r where "k = length m div 64" and "r = drop (64 * k) m"
  have k: "64 * k \<le> length m" by (simp add: k_def)
  have "buf_view (sb_d d) = ((sb_hash_blocks (sb_size d) m k, le_bytes 64 (512 * k), le_bytes 64 (sb_checksum m k)), r)"
    unfolding view using eager_closed [of 64 sb_compress m] sb_compress_blocks [OF k]
    by (simp add: k_def r_def)
  then have core: "bf_core (sb_d d) = (sb_hash_blocks (sb_size d) m k, le_bytes 64 (512 * k), le_bytes 64 (sb_checksum m k))"
    and buf: "take (bf_nbuf (sb_d d)) (bf_buf (sb_d d)) = r"
    by (simp_all add: buf_view_def)
  have nbuf: "bf_nbuf (sb_d d) = length r"
    using wf buf by (auto simp: buf_wf_def)
  have r: "length r < 64" "length m = 64 * k + length r"
    by (simp_all add: r_def k_def)
  define m' where "m' = r @ 0x01 # replicate (63 - length r) (0 :: byte)"
  have pad: "(copy_into 64 r)[length r := 0x01] = m'"
    using copy_into_update [of r 64 "0x01"] r(1) by (simp add: m'_def)
  have len: "length m' = 64" using r(1) by (simp add: m'_def)
  have n: "sb_add512 (le_bytes 64 (512 * k)) (le_bytes 64 (8 * length r)) = le_bytes 64 (8 * length m)"
    using r(2) by (simp add: sb_add512_bytes)
  have spec: "sb_spec (sb_size d) m =
     (let h = sb_g (sb_hash_blocks (sb_size d) m k) (sb_bytesToWords m') (sb_bytesToWords (le_bytes 64 (512 * k)));
          h = sb_g h (sb_bytesToWords (le_bytes 64 (8 * length m))) (replicate 8 0);
          h = sb_g h (sb_bytesToWords (le_bytes 64 (sb_checksum m k + le_nat m'))) (replicate 8 0)
      in if sb_size d = 32 then slice 32 32 (sb_wordsToBytes h) else sb_wordsToBytes h)"
    unfolding sb_spec_def Let_def k_def [symmetric] r_def [symmetric] m'_def [symmetric] ..
  show ?thesis
    unfolding sb_Sum_def core split_conv Let_def nbuf buf [unfolded nbuf] pad sb_tail_bits [OF r(1)] n
      sb_add512_block [OF len] spec
    by simp
qed

text \<open>A caller's session: construct, write the pieces, finalise.\<close>

lemma sb_session:
  "sb_Sum (fold (\<lambda>p d. sb_Write d p) ps (sb_New sz)) pre = pre @ sb_spec sz (concat ps)"
proof -
  let ?d = "fold (\<lambda>p d. sb_Write d p) ps (sb_New sz)"
  note P = sbh.absorb_pieces [OF sb_New_facts(1) [of sz], of ps]
  have size: "sb_size ?d = sz"
  proof -
    have "sb_size (fold (\<lambda>p d. sb_Write d p) ps d) = sb_size d" for d
      by (induction ps arbitrary: d) (simp_all add: sb_Write_def)
    then show ?thesis by (simp add: sb_New_facts)
  qed
  have "buf_view (sb_d ?d) = fold (eager_step 64 sb_compress) (concat ps) ((sb_iv sz, replicate 64 0, replicate 64 0), [])"
    using P(2) sbh.view_absorb [OF sb_New_facts(1)] by (simp add: sb_New_facts)
  then show ?thesis
    using sb_Sum_spec [OF P(1)] size by simp
qed

lemma length_sb_spec: "length (sb_spec sz m) = (if sz = 32 then 32 else 64)"
  by (simp add: sb_spec_def Let_def)

lemma sb_one_shot: "sb_Sum256 m = sb_spec 32 m" "sb_Sum512 m = sb_spec 64 m"
  using sb_session [of "[m]" 32 "[]"] sb_session [of "[m]" 64 "[]"]
  by (simp_all add: sb_Sum256_def sb_Sum512_def sb_New256_def sb_New512_def length_sb_spec)

section \<open>Properties\<close>

text \<open>
  C12. Streebog: whatever the pieces a message is written in, Sum appends the hash RFC 6986
  defines for their concatenation, for both digest sizes.
\<close>

theorem streebog_any_pieces:
  "sb_Sum (fold (\<lambda>p d. sb_Write d p) ps (sb_New sz)) pre = pre @ sb_spec sz (concat ps)"
  by (rule sb_session)

text \<open>
  The table-driven LPS transform of Streebog is the composition of the reference S, P
  and L transforms.
\<close>

theorem streebog_tables: "sb_lps x = sb_LP (sb_S (sb_wordsToBytes x))"
  by (rule sb_lps_LPS)

end
