(* ===== verification/Block_Cipher.thy ===== *)
theory Block_Cipher
  imports Prelude
begin

text \<open>
  The contract of Go's \<^verbatim>\<open>crypto/cipher.Block\<close>, through which the modes (CTR, OMAC, MGM, KExp15)
  use a block cipher: a block size, an encryption and a decryption of one block. A mode gets
  the record; the locale states what it may rely on. The ciphers of the program
  interpret the locale in their own theories. The two optional fields are the capabilities
  a mode finds by type assertion: \<^verbatim>\<open>EncryptBlocks\<close> over a run of whole blocks, and the fused
  \<^verbatim>\<open>CTRXORBlocks\<close>, which takes the source and the counter and returns the output and the
  advanced counter.
\<close>

record block_cipher =
  bsize :: nat
  enc :: "bytes \<Rightarrow> bytes"
  dec :: "bytes \<Rightarrow> bytes"
  enc_blocks :: "(bytes \<Rightarrow> bytes) option"
  ctr_xor_blocks :: "(bytes \<Rightarrow> bytes \<Rightarrow> bytes \<times> bytes) option"

locale block_enc =
  fixes b :: block_cipher
  assumes bsize_pos: "0 < bsize b"
    and enc_length: "length x = bsize b \<Longrightarrow> length (enc b x) = bsize b"

locale block_perm = block_enc +
  assumes dec_length: "length x = bsize b \<Longrightarrow> length (dec b x) = bsize b"
    and dec_enc: "length x = bsize b \<Longrightarrow> dec b (enc b x) = x"
    and enc_dec: "length x = bsize b \<Longrightarrow> enc b (dec b x) = x"
begin

lemma enc_inj:
  assumes "length x = bsize b" "length y = bsize b" "enc b x = enc b y"
  shows "x = y"
  using assms dec_enc by metis

lemma bij_enc: "bij_betw (enc b) {x. length x = bsize b} {x. length x = bsize b}"
  by (rule bij_betw_byWitness [where f' = "dec b"])
    (auto simp: dec_enc enc_dec enc_length dec_length)

end

end
