(* ===== verification/Gost28147.thy ===== *)
theory Gost28147
  imports Block_Cipher
begin

unbundle bit_operations_syntax

text \<open>
  \<^verbatim>\<open>gost28147/gost28147.go\<close>: the GOST 28147-89 block cipher core. A cipher is its eight
  little-endian subkeys and its S-box (eight rows of sixteen nibbles); encryption runs the
  32-round Feistel ladder over the subkey order \<^verbatim>\<open>seqEncrypt\<close>, decryption over \<^verbatim>\<open>seqDecrypt\<close>.
\<close>

section \<open>Data\<close>

type_synonym SBox = "byte list list"

definition SboxCryptoProA :: SBox where
  "SboxCryptoProA = [
    [9, 6, 3, 2, 8, 11, 1, 7, 10, 4, 14, 15, 12, 0, 13, 5],
    [3, 7, 14, 9, 8, 10, 15, 0, 5, 2, 6, 12, 11, 4, 13, 1],
    [14, 4, 6, 2, 11, 3, 13, 8, 12, 15, 5, 10, 0, 7, 1, 9],
    [14, 7, 10, 12, 13, 1, 3, 9, 0, 2, 11, 4, 15, 8, 5, 6],
    [11, 5, 1, 9, 8, 13, 15, 0, 14, 4, 2, 3, 12, 7, 10, 6],
    [3, 10, 13, 12, 1, 2, 0, 11, 7, 5, 9, 4, 8, 15, 14, 6],
    [1, 13, 2, 9, 7, 10, 6, 0, 8, 12, 4, 5, 15, 3, 11, 14],
    [11, 10, 15, 5, 0, 12, 14, 8, 6, 2, 3, 9, 1, 7, 13, 4]]"

definition SboxTC26Z :: SBox where
  "SboxTC26Z = [
    [12, 4, 6, 2, 10, 5, 11, 9, 14, 8, 13, 7, 0, 3, 15, 1],
    [6, 8, 2, 3, 9, 10, 5, 12, 1, 14, 4, 7, 11, 13, 0, 15],
    [11, 3, 5, 8, 2, 15, 10, 13, 14, 1, 7, 4, 12, 9, 6, 0],
    [12, 8, 2, 1, 13, 4, 15, 6, 7, 0, 10, 5, 3, 14, 9, 11],
    [7, 15, 5, 10, 8, 1, 6, 13, 0, 9, 3, 14, 11, 4, 2, 12],
    [5, 13, 15, 6, 9, 2, 12, 10, 11, 7, 8, 1, 4, 3, 14, 0],
    [8, 14, 2, 5, 6, 9, 1, 12, 15, 4, 11, 0, 13, 10, 3, 7],
    [1, 7, 14, 13, 0, 5, 8, 3, 4, 15, 10, 6, 9, 12, 11, 2]]"

definition seqEncrypt :: "nat list" where
  "seqEncrypt = [
    0, 1, 2, 3, 4, 5, 6, 7, 0, 1, 2, 3, 4, 5, 6, 7,
    0, 1, 2, 3, 4, 5, 6, 7, 7, 6, 5, 4, 3, 2, 1, 0]"

definition seqDecrypt :: "nat list" where
  "seqDecrypt = [
    0, 1, 2, 3, 4, 5, 6, 7, 7, 6, 5, 4, 3, 2, 1, 0,
    7, 6, 5, 4, 3, 2, 1, 0, 7, 6, 5, 4, 3, 2, 1, 0]"

record gost_cipher =
  gc_x :: "u32 list"
  gc_sbox :: SBox

section \<open>Operations\<close>

text \<open>
  \<open>gost_subkeys\<close> is the loop of \<^verbatim>\<open>NewCipher\<close>; \<open>gost_cipher_of\<close> the cipher it builds
  once the length check has passed.
\<close>

definition gost_subkeys :: "bytes \<Rightarrow> u32 list" where
  "gost_subkeys key = map (\<lambda>i. le_word (slice (4 * i) 4 key)) [0..<8]"

definition gost_cipher_of :: "bytes \<Rightarrow> SBox \<Rightarrow> gost_cipher" where
  "gost_cipher_of key s = \<lparr>gc_x = gost_subkeys key, gc_sbox = s\<rparr>"

definition gost_NewCipher :: "bytes \<Rightarrow> SBox \<Rightarrow> gost_cipher res" where
  "gost_NewCipher key s =
     (if length key \<noteq> 32 then Inl (Panic ''gost28147: bad key size'')
      else Inr (gost_cipher_of key s))"

text \<open>\<^verbatim>\<open>t\<close>: each nibble of the word through its S-box row.\<close>

definition gost_t :: "SBox \<Rightarrow> u32 \<Rightarrow> u32" where
  "gost_t s x =
     fold (\<lambda>i out. out OR push_bit (4 * i) (ucast (s ! i ! unat (drop_bit (4 * i) x AND 0xF))))
       [0..<8] 0"

definition gost_f :: "SBox \<Rightarrow> u32 \<Rightarrow> u32" where
  "gost_f s x = (let y = gost_t s x in push_bit 11 y OR drop_bit (32 - 11) y)"

definition gost_xcrypt :: "gost_cipher \<Rightarrow> nat list \<Rightarrow> u32 \<times> u32 \<Rightarrow> u32 \<times> u32" where
  "gost_xcrypt c sq p =
     fold (\<lambda>i (n1, n2). (gost_f (gc_sbox c) (n1 + gc_x c ! i) XOR n2, n1)) sq p"

text \<open>
  The bodies of \<^verbatim>\<open>Encrypt\<close> and \<^verbatim>\<open>Decrypt\<close> after their length checks: the block read
  little-endian, the halves written back swapped.
\<close>

definition gost_crypt_block :: "gost_cipher \<Rightarrow> nat list \<Rightarrow> bytes \<Rightarrow> bytes" where
  "gost_crypt_block c sq src =
     (let (n1, n2) = gost_xcrypt c sq (le_word (slice 0 4 src), le_word (slice 4 4 src))
      in word_le 4 n2 @ word_le 4 n1)"

definition gost_encrypt_block :: "gost_cipher \<Rightarrow> bytes \<Rightarrow> bytes" where
  "gost_encrypt_block c src = gost_crypt_block c seqEncrypt src"

definition gost_decrypt_block :: "gost_cipher \<Rightarrow> bytes \<Rightarrow> bytes" where
  "gost_decrypt_block c src = gost_crypt_block c seqDecrypt src"

text \<open>The first eight bytes of \<open>dst\<close> are overwritten, the rest is left as it was.\<close>

definition gost_Encrypt :: "gost_cipher \<Rightarrow> bytes \<Rightarrow> bytes \<Rightarrow> bytes res" where
  "gost_Encrypt c dst src =
     (if length src < 8 \<or> length dst < 8 then Inl (Panic ''gost28147: short buffer'')
      else Inr (gost_encrypt_block c src @ drop 8 dst))"

definition gost_Decrypt :: "gost_cipher \<Rightarrow> bytes \<Rightarrow> bytes \<Rightarrow> bytes res" where
  "gost_Decrypt c dst src =
     (if length src < 8 \<or> length dst < 8 then Inl (Panic ''gost28147: short buffer'')
      else Inr (gost_decrypt_block c src @ drop 8 dst))"

text \<open>The cipher as a \<^verbatim>\<open>cipher.Block\<close> (\<^verbatim>\<open>BlockSize\<close> is 8).\<close>

definition gost_block :: "gost_cipher \<Rightarrow> block_cipher" where
  "gost_block c = \<lparr>bsize = 8, enc = gost_encrypt_block c, dec = gost_decrypt_block c,
     enc_blocks = None, ctr_xor_blocks = None\<rparr>"

section \<open>Lemmas\<close>

lemma gost_block_sel [simp]:
  "bsize (gost_block c) = 8"
  "enc (gost_block c) = gost_encrypt_block c"
  "dec (gost_block c) = gost_decrypt_block c"
  by (simp_all add: gost_block_def)

lemma length_gost_subkeys [simp, len_simps]: "length (gost_subkeys key) = 8"
  by (simp add: gost_subkeys_def)

lemma length_gost_crypt_block [simp, len_simps]: "length (gost_crypt_block c sq src) = 8"
  by (simp add: gost_crypt_block_def split: prod.splits)

lemma length_gost_encrypt_block [simp, len_simps]: "length (gost_encrypt_block c src) = 8"
  by (simp add: gost_encrypt_block_def)

lemma length_gost_decrypt_block [simp, len_simps]: "length (gost_decrypt_block c src) = 8"
  by (simp add: gost_decrypt_block_def)

lemma gost_xcrypt_feistel:
  "gost_xcrypt c sq = feistel (\<lambda>i a. gost_f (gc_sbox c) (a + gc_x c ! i)) sq"
  by (simp add: gost_xcrypt_def feistel_def fun_eq_iff)

lemma seqDecrypt_rev: "seqDecrypt = rev seqEncrypt"
  by (simp add: seqDecrypt_def seqEncrypt_def)

lemma gost_xcrypt_inverse:
  "prod.swap (gost_xcrypt c (rev sq) (prod.swap (gost_xcrypt c sq p))) = p"
  by (simp add: gost_xcrypt_feistel feistel_inverse)

lemma split_block8: "length b = 8 \<Longrightarrow> slice 0 4 b @ slice 4 4 b = b"
  by (simp add: slice_def)

lemma gost_crypt_block_inverse:
  assumes "length b = 8"
  shows "gost_crypt_block c (rev sq) (gost_crypt_block c sq b) = b"
proof -
  obtain n1 n2 where run:
    "gost_xcrypt c sq (le_word (slice 0 4 b), le_word (slice 4 4 b)) = (n1, n2)"
    by fastforce
  have "gost_xcrypt c (rev sq) (n2, n1) = prod.swap (le_word (slice 0 4 b), le_word (slice 4 4 b))"
    using gost_xcrypt_inverse [of c sq "(le_word (slice 0 4 b), le_word (slice 4 4 b))"] run
    by (metis swap_simp swap_swap)
  moreover have "slice 0 4 (word_le 4 n2 @ word_le 4 n1) = word_le 4 n2"
    "slice 4 4 (word_le 4 n2 @ word_le 4 n1) = word_le 4 n1"
    by (simp_all add: slice_def)
  ultimately show ?thesis
    using assms by (simp add: gost_crypt_block_def run split_block8)
qed

lemma gost_dec_enc:
  "length b = 8 \<Longrightarrow> gost_decrypt_block c (gost_encrypt_block c b) = b"
  by (simp add: gost_decrypt_block_def gost_encrypt_block_def seqDecrypt_rev gost_crypt_block_inverse)

lemma gost_enc_dec:
  "length b = 8 \<Longrightarrow> gost_encrypt_block c (gost_decrypt_block c b) = b"
  using gost_crypt_block_inverse [of b c seqDecrypt]
  by (simp add: gost_decrypt_block_def gost_encrypt_block_def seqDecrypt_rev)

interpretation gost: block_perm "gost_block c" for c
  by unfold_locales (simp_all add: gost_dec_enc gost_enc_dec)

text \<open>A block is read through its first eight bytes only.\<close>

lemma gost_encrypt_block_take: "8 \<le> length b \<Longrightarrow> gost_encrypt_block c (take 8 b) = gost_encrypt_block c b"
  by (simp add: gost_encrypt_block_def gost_crypt_block_def slice_def drop_take)

section \<open>Properties\<close>

text \<open>
  Decrypt undoes Encrypt in the GOST 28147-89 package: for every cipher the constructor
  returns and every pair of buffers Encrypt accepts, decrypting the ciphertext writes the
  plaintext block and leaves the rest of the destination alone, and a short destination
  panics.
\<close>

theorem gost_Decrypt_Encrypt:
  assumes "gost_NewCipher key s = Inr c" "gost_Encrypt c dst src = Inr ct"
  shows "gost_Decrypt c dst' (take 8 ct) = (if length dst' < 8 then Inl (Panic ''gost28147: short buffer'')
      else Inr (take 8 src @ drop 8 dst'))"
  using assms gost_dec_enc [of "take 8 src" c]
  by (auto simp: gost_Encrypt_def gost_Decrypt_def gost_encrypt_block_take split: if_splits)

theorem gost_Decrypt_Encrypt_witness:
  "\<exists>ct. gost_Encrypt (gost_cipher_of (replicate 32 7) SboxTC26Z) (replicate 8 0) (replicate 8 1) = Inr ct \<and>
     gost_Decrypt (gost_cipher_of (replicate 32 7) SboxTC26Z) (replicate 9 5) (take 8 ct) = Inr (replicate 8 1 @ [5])"
  using gost_Decrypt_Encrypt [of "replicate 32 7" SboxTC26Z "gost_cipher_of (replicate 32 7) SboxTC26Z"
      "replicate 8 0" "replicate 8 1" _ "replicate 9 5"]
  by (simp add: gost_NewCipher_def gost_Encrypt_def)

end
