(* ===== verification/GostR341194.thy ===== *)
theory GostR341194
  imports Gost28147 Streaming
begin

text \<open>
  \<^verbatim>\<open>gostr341194/gostr341194.go\<close>: the legacy hash with the CryptoPro parameters, over the cipher
  of \<^verbatim>\<open>gost28147\<close>. Blocks are 32 bytes, least significant first. The buffered write is the
  one \<^verbatim>\<open>streebog\<close> has; every sequence of writes gives the one-shot digest, including the
  special rule for the empty message.
\<close>

section \<open>Constants\<close>

definition sboxCryptoProHash :: SBox where
  "sboxCryptoProHash = [
    [10, 4, 5, 6, 8, 1, 3, 7, 13, 12, 14, 0, 9, 2, 11, 15],
    [5, 15, 4, 0, 2, 13, 11, 9, 1, 7, 6, 3, 12, 14, 10, 8],
    [7, 15, 12, 14, 9, 4, 1, 0, 3, 11, 5, 2, 6, 10, 8, 13],
    [4, 10, 7, 12, 0, 15, 2, 8, 14, 1, 6, 5, 13, 11, 9, 3],
    [7, 6, 4, 11, 9, 12, 2, 10, 1, 8, 0, 14, 15, 13, 3, 5],
    [7, 6, 2, 4, 13, 9, 15, 0, 10, 1, 5, 11, 8, 14, 12, 3],
    [13, 14, 4, 1, 7, 0, 5, 10, 3, 12, 8, 15, 6, 2, 9, 11],
    [1, 3, 10, 9, 5, 11, 4, 15, 8, 6, 7, 14, 13, 0, 2, 12]]"

definition gh_c3_msb :: bytes where
  "gh_c3_msb =
     [0xff, 0x00, 0xff, 0xff, 0x00, 0x00, 0x00, 0xff, 0xff, 0x00,
      0x00, 0xff, 0x00, 0xff, 0xff, 0x00,
      0x00, 0xff, 0x00, 0xff, 0x00, 0xff, 0x00, 0xff,
      0xff, 0x00, 0xff, 0x00, 0xff, 0x00, 0xff, 0x00]"

definition gh_c3 :: bytes where
  "gh_c3 = map (\<lambda>i. gh_c3_msb ! (32 - 1 - i)) [0..<32]"

section \<open>Key generation\<close>

definition gh_fA :: "bytes \<Rightarrow> bytes" where
  "gh_fA inp = slice 8 8 inp @ slice 16 8 inp @ slice 24 8 inp @ xor_bytes (slice 0 8 inp) (slice 8 8 inp)"

definition gh_pPerm :: "nat list" where
  "gh_pPerm =
     fold (\<lambda>i p. fold (\<lambda>k p. p[i + 1 + 4 * (k - 1) - 1 := 8 * i + k - 1]) [1..<9] p) [0..<4] (replicate 32 0)"

definition gh_fP :: "bytes \<Rightarrow> bytes" where
  "gh_fP inp = map (\<lambda>i. inp ! (gh_pPerm ! i)) [0..<32]"

definition gh_xor32 :: "bytes \<Rightarrow> bytes \<Rightarrow> bytes" where
  "gh_xor32 a b = map (\<lambda>i. a ! i XOR b ! i) [0..<32]"

section \<open>The shuffle\<close>

definition gh_w :: "bytes \<Rightarrow> nat \<Rightarrow> 16 word" where
  "gh_w inp j = ucast (inp ! (2 * (j - 1))) OR push_bit 8 (ucast (inp ! (2 * (j - 1) + 1)))"

definition gh_psiFoldWords :: "nat list" where
  "gh_psiFoldWords = [1, 2, 3, 4, 13, 16]"

definition gh_fPsi :: "bytes \<Rightarrow> bytes" where
  "gh_fPsi inp =
     (let w = fold (\<lambda>j acc. acc XOR gh_w inp j) gh_psiFoldWords 0
      in concat (map (\<lambda>m. [inp ! (2 * m), inp ! (2 * m + 1)]) [1..<16]) @ [ucast w, ucast (drop_bit 8 w)])"

definition gh_fPsiN :: "bytes \<Rightarrow> nat \<Rightarrow> bytes" where
  "gh_fPsiN inp n = (gh_fPsi ^^ n) inp"

section \<open>The compression function\<close>

definition gh_encryptH :: "bytes \<Rightarrow> bytes list \<Rightarrow> bytes" where
  "gh_encryptH h keys =
     concat (map (\<lambda>i. gost_encrypt_block (gost_cipher_of (keys ! i) sboxCryptoProHash) (slice (i * 8) 8 h)) [0..<4])"

definition gh_chi :: "bytes \<Rightarrow> bytes \<Rightarrow> bytes" where
  "gh_chi m h =
     (let u = h; v = m;
          k1 = gh_fP (gh_xor32 u v);
          u = gh_fA u; v = gh_fA (gh_fA v);
          k2 = gh_fP (gh_xor32 u v);
          u = gh_xor32 (gh_fA u) gh_c3; v = gh_fA (gh_fA v);
          k3 = gh_fP (gh_xor32 u v);
          u = gh_fA u; v = gh_fA (gh_fA v);
          k4 = gh_fP (gh_xor32 u v);
          s = gh_encryptH h [k1, k2, k3, k4];
          t = gh_fPsiN s 12;
          t = gh_xor32 m t;
          t = gh_fPsi t;
          t = gh_xor32 h t
      in gh_fPsiN t 61)"

definition gh_addMod :: "bytes \<Rightarrow> bytes \<Rightarrow> bytes" where
  "gh_addMod acc b = add_carry acc b 0"

section \<open>The digest\<close>

text \<open>The chaining value, the checksum and the bit length; the partial block is the shared buffer.\<close>

type_synonym gh_core = "bytes \<times> bytes \<times> u64"

type_synonym gh_digest = "gh_core buffered"

definition gh_New :: gh_digest where
  "gh_New = \<lparr>bf_core = (replicate 32 0, replicate 32 0, 0), bf_buf = replicate 32 0, bf_nbuf = 0\<rparr>"

definition gh_Reset :: "gh_digest \<Rightarrow> gh_digest" where
  "gh_Reset d = gh_New"

definition gh_processBlock :: "gh_core \<Rightarrow> bytes \<Rightarrow> gh_core" where
  "gh_processBlock = (\<lambda>(h, sum, len) m. (gh_chi m h, gh_addMod sum m, len + 256))"

definition gh_Write :: "gh_digest \<Rightarrow> bytes \<Rightarrow> gh_digest" where
  "gh_Write d p = buf_write 32 gh_processBlock d p"

definition gh_lenBlock :: "u64 \<Rightarrow> bytes" where
  "gh_lenBlock bitLen = map (\<lambda>i. ucast (drop_bit (8 * i) bitLen)) [0..<8] @ replicate 24 0"

definition gh_Sum :: "gh_digest \<Rightarrow> bytes \<Rightarrow> bytes" where
  "gh_Sum d inp =
     (let (h, sum, totalBits) = bf_core d;
          nbuf = bf_nbuf d;
          (h, sum, totalBits) =
            (if nbuf > 0
             then let m = copy_into 32 (take nbuf (bf_buf d))
                  in (gh_chi m h, gh_addMod sum m, totalBits + of_nat nbuf * 8)
             else if totalBits = 0 then (gh_chi (replicate 32 0) h, sum, totalBits)
             else (h, sum, totalBits));
          h = gh_chi (gh_lenBlock totalBits) h;
          h = gh_chi sum h
      in inp @ h)"

definition gh_Sum_bytes :: "bytes \<Rightarrow> bytes" where
  "gh_Sum_bytes b = copy_into 32 (gh_Sum (gh_Write gh_New b) [])"

section \<open>The transforms\<close>

lemma gh_pPerm_eq: "gh_pPerm = concat (map (\<lambda>k. map (\<lambda>i. 8 * i + k) [0..<4]) [0..<8])"
  by code_simp

lemma gh_pPerm_perm: "distinct gh_pPerm" "set gh_pPerm = {0..<32}" "length gh_pPerm = 32"
proof -
  have "sorted_list_of_set (set gh_pPerm) = [0..<32] \<and> distinct gh_pPerm \<and> length gh_pPerm = 32"
    by code_simp
  moreover have "finite (set gh_pPerm)" by simp
  ultimately show "distinct gh_pPerm" "set gh_pPerm = {0..<32}" "length gh_pPerm = 32"
    by (metis atLeastLessThan_upt set_sorted_list_of_set)+
qed

lemma length_gh [simp, len_simps]:
  "length (gh_fP x) = 32" "length (gh_xor32 a b) = 32" "length gh_c3 = 32"
  "length (gh_lenBlock n) = 32"
  by (simp_all add: gh_fP_def gh_xor32_def gh_c3_def gh_lenBlock_def del: upt_rec_numeral)

lemma length_gh_fA [simp, len_simps]: "length x = 32 \<Longrightarrow> length (gh_fA x) = 32"
  by (simp add: gh_fA_def)

lemma length_gh_fPsi [simp, len_simps]: "length (gh_fPsi x) = 32"
proof -
  have "length (concat (map (\<lambda>m. [x ! (2 * m), x ! (2 * m + 1)]) js)) = 2 * length js" for js
    by (induction js) simp_all
  then show ?thesis by (simp add: gh_fPsi_def Let_def del: upt_rec_numeral)
qed

lemma length_gh_chi [simp, len_simps]: "length (gh_chi m h) = 32"
proof -
  have "61 = Suc 60" by simp
  then have "length (gh_fPsiN t 61) = 32" for t
    unfolding gh_fPsiN_def by (simp only: funpow.simps o_apply length_gh_fPsi)
  then show ?thesis by (simp add: gh_chi_def Let_def)
qed

text \<open>
  \<open>\<psi>\<close> is invertible: the dropped word is recovered from the folded one. So the 61 final
  rounds lose nothing of \<open>H\<close> and the mixed message.
\<close>

definition gh_psi_inv :: "bytes \<Rightarrow> bytes" where
  "gh_psi_inv out =
     (let b = [0, 0] @ take 30 out;
          w = (ucast (out ! 30) OR push_bit 8 (ucast (out ! 31))) XOR fold (\<lambda>j acc. acc XOR gh_w b j) [2, 3, 4, 13, 16] 0 :: 16 word
      in [ucast w, ucast (drop_bit 8 w)] @ take 30 out)"

lemma gh_fPsi_shift:
  assumes "length x = 32"
  shows "take 30 (gh_fPsi x) = drop 2 x" "gh_fPsi x ! 30 = ucast (fold (\<lambda>j acc. acc XOR gh_w x j) gh_psiFoldWords 0)"
    "gh_fPsi x ! 31 = ucast (drop_bit 8 (fold (\<lambda>j acc. acc XOR gh_w x j) gh_psiFoldWords 0))"
proof -
  have pairs: "concat (map (\<lambda>m. [x ! (2 * m), x ! (2 * m + 1)]) [1..<Suc n]) = take (2 * n) (drop 2 x)" if "n \<le> 15" for n
    using that
  proof (induction n)
    case (Suc n)
    have "take (2 * Suc n) (drop 2 x) = take (2 * n) (drop 2 x) @ [drop 2 x ! (2 * n), drop 2 x ! (2 * n + 1)]"
      using Suc.prems assms by (simp add: take_Suc_conv_app_nth)
    moreover have "drop 2 x ! (2 * n) = x ! (2 * Suc n)" "drop 2 x ! (2 * n + 1) = x ! (2 * Suc n + 1)"
      using Suc.prems assms by simp_all
    ultimately show ?case using Suc by simp
  qed simp
  have "concat (map (\<lambda>m. [x ! (2 * m), x ! (2 * m + 1)]) [1..<16]) = drop 2 x"
    using pairs [of 15] assms by simp
  then have eq: "gh_fPsi x = drop 2 x @ [ucast (fold (\<lambda>j acc. acc XOR gh_w x j) gh_psiFoldWords 0),
      ucast (drop_bit 8 (fold (\<lambda>j acc. acc XOR gh_w x j) gh_psiFoldWords 0))]"
    by (simp only: gh_fPsi_def Let_def)
  show "take 30 (gh_fPsi x) = drop 2 x" "gh_fPsi x ! 30 = ucast (fold (\<lambda>j acc. acc XOR gh_w x j) gh_psiFoldWords 0)"
    "gh_fPsi x ! 31 = ucast (drop_bit 8 (fold (\<lambda>j acc. acc XOR gh_w x j) gh_psiFoldWords 0))"
    using assms by (simp_all add: eq nth_append)
qed

lemma word_le_2: "word_le 2 (w :: 16 word) = [ucast w, ucast (drop_bit 8 w)]"
  by (simp only: numeral_2_eq_2 word_le.simps)

lemma le_word_2: "(le_word [a, b] :: 16 word) = ucast a OR push_bit 8 (ucast b)"
  by simp

lemma gh_psi_inv_fPsi:
  assumes "length x = 32"
  shows "gh_psi_inv (gh_fPsi x) = x"
proof -
  define W where "W = fold (\<lambda>j acc. acc XOR gh_w x j) gh_psiFoldWords 0"
  define b where "b = [0, 0] @ drop 2 x"
  note shift = gh_fPsi_shift [OF assms, folded W_def]
  have nth: "b ! i = x ! i" if "2 \<le> i" "i < 32" for i
    using that assms by (simp add: b_def nth_append nth_Cons split: nat.splits)
  have w: "gh_w b 2 = gh_w x 2" "gh_w b 3 = gh_w x 3" "gh_w b 4 = gh_w x 4" "gh_w b 13 = gh_w x 13" "gh_w b 16 = gh_w x 16"
    by (simp_all add: gh_w_def nth)
  have W: "W XOR fold (\<lambda>j acc. acc XOR gh_w b j) [2, 3, 4, 13, 16] 0 = gh_w x 1"
  proof -
    have "W = gh_w x 1 XOR fold (\<lambda>j acc. acc XOR gh_w x j) [2, 3, 4, 13, 16] 0"
      by (simp add: W_def gh_psiFoldWords_def xor.assoc)
    then show ?thesis by (simp add: w xor.assoc)
  qed
  have top: "(ucast (gh_fPsi x ! 30) OR push_bit 8 (ucast (gh_fPsi x ! 31)) :: 16 word) = W"
    using le_word_word_le [of 2 W] by (simp only: shift(2,3) word_le_2 le_word_2) simp
  have "gh_psi_inv (gh_fPsi x) = [ucast (gh_w x 1), ucast (drop_bit 8 (gh_w x 1))] @ drop 2 x"
    unfolding gh_psi_inv_def Let_def shift(1) b_def [symmetric] top W ..
  also have "[ucast (gh_w x 1), ucast (drop_bit 8 (gh_w x 1))] = [x ! 0, x ! 1]"
  proof -
    have "gh_w x 1 = le_word [x ! 0, x ! 1]"
      unfolding le_word_2 by (simp add: gh_w_def)
    moreover have "word_le 2 (le_word [x ! 0, x ! 1] :: 16 word) = [x ! 0, x ! 1]"
      by (rule word_le_le_word) simp_all
    ultimately show ?thesis unfolding word_le_2 by simp
  qed
  also have "[x ! 0, x ! 1] @ drop 2 x = x"
    using assms by (intro nth_equalityI) (auto simp: nth_Cons split: nat.splits)
  finally show ?thesis .
qed

lemma gh_fPsiN_inj:
  assumes "length x = 32" "length y = 32" "gh_fPsiN x n = gh_fPsiN y n"
  shows "x = y"
  using assms
proof (induction n arbitrary: x y)
  case (Suc n)
  have "gh_fPsiN (gh_fPsi x) n = gh_fPsiN (gh_fPsi y) n"
    using Suc.prems(3) by (simp only: gh_fPsiN_def funpow_Suc_right o_apply)
  with Suc.IH [of "gh_fPsi x" "gh_fPsi y"] have "gh_fPsi x = gh_fPsi y"
    by (simp only: length_gh_fPsi simp_thms)
  then have "gh_psi_inv (gh_fPsi x) = gh_psi_inv (gh_fPsi y)" by (rule arg_cong)
  then show ?case
    unfolding gh_psi_inv_fPsi [OF Suc.prems(1)] gh_psi_inv_fPsi [OF Suc.prems(2)] .
qed (simp add: gh_fPsiN_def)

section \<open>Writes and the one-shot digest\<close>

interpretation ghh: absorber gh_Write "buf_wf 32" buf_view "eager_step 32 gh_processBlock"
  by unfold_locales (simp_all add: gh_Write_def buf_write_eager)

definition gh_hash_blocks :: "bytes \<Rightarrow> nat \<Rightarrow> bytes" where
  "gh_hash_blocks m k = fold (\<lambda>i h. gh_chi (slice (32 * i) 32 m) h) [0..<k] (replicate 32 0)"

definition gh_checksum :: "bytes \<Rightarrow> nat \<Rightarrow> nat" where
  "gh_checksum m k = (\<Sum>i<k. le_nat (slice (32 * i) 32 m))"

text \<open>
  RFC 5831, section 6, on the whole message: the last fragment zero-padded, then the bit
  length modulo \<open>2^64\<close> and the sum of all blocks modulo \<open>2^256\<close>. A message whose length field
  is zero and that has no fragment gets one more zero block (the rule for the empty message).
\<close>

definition gh_spec :: "bytes \<Rightarrow> bytes" where
  "gh_spec m =
     (let k = length m div 32;
          r = drop (32 * k) m;
          m' = r @ replicate (32 - length r) 0;
          bits = 8 * length m mod 2 ^ 64;
          h = gh_hash_blocks m k;
          h = (if r \<noteq> [] then gh_chi m' h else if bits = 0 then gh_chi (replicate 32 0) h else h);
          h = gh_chi (le_bytes 32 bits) h
      in gh_chi (le_bytes 32 (gh_checksum m k + (if r \<noteq> [] then le_nat m' else 0))) h)"

lemma gh_addMod_bytes: "length b = 32 \<Longrightarrow> gh_addMod (le_bytes 32 m) b = le_bytes 32 (m + le_nat b)"
  using add_carry_le_bytes2 [of 32 m "le_nat b"] by (simp add: gh_addMod_def le_bytes_le_nat)

lemma gh_lenBlock_bytes: "gh_lenBlock n = le_bytes 32 (unat n)"
proof -
  have "map (\<lambda>i. ucast (drop_bit (8 * i) n)) [0..<8] = (word_le 8 n :: bytes)"
    by (rule nth_equalityI) (simp_all add: nth_word_le del: upt_rec_numeral)
  moreover have "unat n < 256 ^ 8" using unsigned_less [of n] by simp
  ultimately show ?thesis
    using le_bytes_append_zeros [of "unat n" 8 24] by (simp add: gh_lenBlock_def word_le_le_bytes del: upt_rec_numeral)
qed

lemma gh_process_blocks:
  assumes "32 * k \<le> length m"
  shows "fold (\<lambda>b a. gh_processBlock a b) (full_blocks 32 k m) (replicate 32 0, replicate 32 0, 0) =
    (gh_hash_blocks m k, le_bytes 32 (gh_checksum m k), of_nat (256 * k))"
  using assms
proof (induction k)
  case 0
  then show ?case by (simp add: full_blocks_def gh_hash_blocks_def gh_checksum_def le_bytes_0)
next
  case (Suc k)
  have "full_blocks 32 (Suc k) m = full_blocks 32 k m @ [slice (32 * k) 32 m]"
    by (simp add: full_blocks_def)
  moreover have "length (slice (32 * k) 32 m) = 32"
    using Suc.prems by simp
  ultimately show ?case
    using Suc by (simp add: gh_processBlock_def gh_hash_blocks_def gh_checksum_def gh_addMod_bytes add.commute)
qed

lemma gh_New_facts:
  "buf_wf 32 gh_New" "buf_view gh_New = ((replicate 32 0, replicate 32 0, 0), [])"
  by (simp_all add: gh_New_def buf_wf_def buf_view_def)

lemma gh_Sum_spec:
  assumes wf: "buf_wf 32 d" and view: "buf_view d =
      fold (eager_step 32 gh_processBlock) m ((replicate 32 0, replicate 32 0, 0), [])"
  shows "gh_Sum d pre = pre @ gh_spec m"
proof -
  define k r where "k = length m div 32" and "r = drop (32 * k) m"
  have k: "32 * k \<le> length m" by (simp add: k_def)
  have "buf_view d = ((gh_hash_blocks m k, le_bytes 32 (gh_checksum m k), of_nat (256 * k)), r)"
    unfolding view using eager_closed [of 32 gh_processBlock m] gh_process_blocks [OF k]
    by (simp add: k_def r_def)
  then have core: "bf_core d = (gh_hash_blocks m k, le_bytes 32 (gh_checksum m k), of_nat (256 * k))"
    and buf: "take (bf_nbuf d) (bf_buf d) = r"
    by (simp_all add: buf_view_def)
  have nbuf: "bf_nbuf d = length r"
    using wf buf by (auto simp: buf_wf_def)
  have r: "length r < 32" "length m = 32 * k + length r"
    by (simp_all add: r_def k_def)
  define m' where "m' = r @ replicate (32 - length r) (0 :: byte)"
  have pad: "copy_into 32 r = m'" "length m' = 32"
    using r(1) by (simp_all add: copy_into_def m'_def)
  have bits: "unat (of_nat (256 * k) + of_nat (length r) * 8 :: u64) = 8 * length m mod 2 ^ 64"
  proof -
    have "(of_nat (256 * k) + of_nat (length r) * 8 :: u64) = of_nat (8 * length m)"
      by (simp add: r(2) algebra_simps)
    then show ?thesis by (simp only: unat_of_nat) simp
  qed
  have bits0: "r = [] \<Longrightarrow> unat (of_nat (256 * k) :: u64) = 8 * length m mod 2 ^ 64"
    using bits by simp
  have zero: "(of_nat (256 * k) :: u64) = 0 \<longleftrightarrow> unat (of_nat (256 * k) :: u64) = 0"
    by (simp only: unat_eq_0)
  show ?thesis
  proof (cases "r = []")
    case True
    then show ?thesis
      using bits0 [OF True]
      unfolding gh_Sum_def gh_spec_def core nbuf k_def [symmetric] r_def [symmetric] Let_def split_conv
        gh_lenBlock_bytes zero
      by simp
  next
    case False
    then have "length r > 0" by simp
    then show ?thesis
      using False pad bits
      unfolding gh_Sum_def gh_spec_def core nbuf buf [unfolded nbuf] k_def [symmetric] r_def [symmetric]
        m'_def [symmetric] Let_def split_conv
      by (simp add: gh_lenBlock_bytes gh_addMod_bytes)
  qed
qed

lemma gh_session:
  "gh_Sum (fold (\<lambda>p d. gh_Write d p) ps gh_New) pre = pre @ gh_spec (concat ps)"
proof -
  note P = ghh.absorb_pieces [OF gh_New_facts(1), of ps]
  show ?thesis
    using P(2) ghh.view_absorb [OF gh_New_facts(1)]
    by (intro gh_Sum_spec [OF P(1)]) (simp add: gh_New_facts)
qed

section \<open>Properties\<close>

text \<open>
  C13. GOST R 34.11-94: whatever the pieces a message is written in, Sum appends the hash RFC
  5831 defines for their concatenation.
\<close>

theorem gost94_any_pieces:
  "gh_Sum (fold (\<lambda>p d. gh_Write d p) ps gh_New) pre = pre @ gh_spec (concat ps)"
  by (rule gh_session)

text \<open>
  The output mixing of GOST R 34.11-94 loses nothing: every power of the shuffle is
  injective on 32-byte blocks, and the key permutation P is a permutation.
\<close>

theorem gost94_shuffle_injective:
  "inj_on (\<lambda>x. gh_fPsiN x n) {x. length x = 32} \<and> distinct gh_pPerm \<and> set gh_pPerm = {0..<32}"
  using gh_pPerm_perm by (auto intro: inj_onI gh_fPsiN_inj)

end
