(* ===== verification/VKO.thy ===== *)
theory VKO
  imports Sign Streebog GostR341194
begin

text \<open>
  \<^verbatim>\<open>vko/vko.go\<close>: key agreement. A hash constructor with its Write and Sum is the function
  from the written bytes to the digest.
\<close>

section \<open>Little-endian helpers\<close>

definition leBytes2big :: "bytes \<Rightarrow> int" where
  "leBytes2big b = big_SetBytes (reverse b)"

definition big2leFixed :: "int \<Rightarrow> nat \<Rightarrow> bytes res" where
  "big2leFixed n sz =
     (let be = big_Bytes n
      in if sz < length be then Inl (Panic ''slice bounds out of range'')
         else let beFixed = replicate (sz - length be) 0 @ be in Inr (rev beFixed))"

section \<open>Key material\<close>

definition ErrZeroPrivate :: fault where "ErrZeroPrivate = Err ''vko: private key is zero mod q''"
definition ErrBadPubLen :: fault where "ErrBadPubLen = Err ''vko: public key has wrong length''"
definition ErrBadPrivLen :: fault where "ErrBadPrivLen = Err ''vko: private key has wrong length''"
definition ErrPubNotOn :: fault where "ErrPubNotOn = Err ''vko: public point is not on the curve''"
definition errZeroUKM :: fault where "errZeroUKM = Err ''vko: UKM is zero''"
definition errIdentity :: fault where "errIdentity = Err ''vko: agreement point is the identity''"
definition errDerivedID :: fault where "errDerivedID = Err ''vko: derived public point is the identity''"
definition errUnsupportedCofactor :: fault where
  "errUnsupportedCofactor = Err ''vko: unsupported cofactor (only 1 and 4 are valid for GOST curves)''"

definition loadPrivateLE :: "curve \<Rightarrow> bytes \<Rightarrow> int res" where
  "loadPrivateLE c raw =
     (if length raw \<noteq> PointSize c then Inl ErrBadPrivLen
      else let d = leBytes2big raw
           in if d = 0 then Inl ErrZeroPrivate
              else let d = d mod cv_Q c
                   in if d = 0 then Inl ErrZeroPrivate else Inr d)"

definition loadPublicLE :: "curve \<Rightarrow> bytes \<Rightarrow> ec_point res" where
  "loadPublicLE c raw =
     (let sz = PointSize c
      in if length raw \<noteq> 2 * sz then Inl ErrBadPubLen
         else let x = leBytes2big (take sz raw);
                  y = leBytes2big (drop sz raw);
                  p = Affine x y
              in if \<not> IsOnCurve c p then Inl ErrPubNotOn else Inr p)"

definition vko_cofactor :: "curve \<Rightarrow> int res" where
  "vko_cofactor c =
     (if cv_Cofactor c = 4 then Inr 4
      else if cv_Cofactor c = 1 then Inr 1
      else Inl errUnsupportedCofactor)"

section \<open>Agreement\<close>

text \<open>The coordinates of a point that is not the identity, each at \<^verbatim>\<open>PointSize\<close> bytes.\<close>

definition vko_point :: "curve \<Rightarrow> fault \<Rightarrow> ec_point \<Rightarrow> bytes res" where
  "vko_point c err k =
     (case k of Infinity \<Rightarrow> Inl err
      | Affine kx ky \<Rightarrow>
        bind_res (big2leFixed kx (PointSize c)) (\<lambda>x.
        bind_res (big2leFixed ky (PointSize c)) (\<lambda>y. Inr (x @ y))))"

definition agreementRaw :: "curve \<Rightarrow> int \<Rightarrow> int \<Rightarrow> ec_point \<Rightarrow> bytes res" where
  "agreementRaw c d ukm q =
     (if ukm = 0 then Inl errZeroUKM
      else bind_res (ScalarMultSecret c d q) (\<lambda>k1.
        if IsInfinity k1 then Inl errIdentity
        else bind_res (vko_cofactor c) (\<lambda>cof.
          let u = ukm * cof;
              fullOrder = cof * cv_Q c;
              u = u mod fullOrder
          in if u = 0 then Inl errIdentity
             else let k = (if u = 1 then k1 else ec_ScalarMult c u k1)
                  in vko_point c errIdentity k)))"

definition vko_kek :: "curve \<Rightarrow> bytes \<Rightarrow> bytes \<Rightarrow> bytes \<Rightarrow> (bytes \<Rightarrow> bytes) \<Rightarrow> bytes res" where
  "vko_kek c prvLE pubLE ukmRaw newHash =
     bind_res (loadPrivateLE c prvLE) (\<lambda>d.
     bind_res (loadPublicLE c pubLE) (\<lambda>q.
       let ukm = leBytes2big ukmRaw
       in bind_res (agreementRaw c d ukm q) (\<lambda>raw. Inr (newHash raw))))"

definition KEK2001 :: "curve \<Rightarrow> bytes \<Rightarrow> bytes \<Rightarrow> bytes \<Rightarrow> bytes res" where
  "KEK2001 c prvLE pubLE ukmRaw = vko_kek c prvLE pubLE ukmRaw (\<lambda>raw. gh_Sum (gh_Write gh_New raw) [])"

definition KEK2012256 :: "curve \<Rightarrow> bytes \<Rightarrow> bytes \<Rightarrow> bytes \<Rightarrow> bytes res" where
  "KEK2012256 c prvLE pubLE ukmRaw = vko_kek c prvLE pubLE ukmRaw (\<lambda>raw. sb_Sum (sb_Write sb_New256 raw) [])"

definition KEK2012512 :: "curve \<Rightarrow> bytes \<Rightarrow> bytes \<Rightarrow> bytes \<Rightarrow> bytes res" where
  "KEK2012512 c prvLE pubLE ukmRaw = vko_kek c prvLE pubLE ukmRaw (\<lambda>raw. sb_Sum (sb_Write sb_New512 raw) [])"

definition curve2001Test :: curve where
  "curve2001Test = \<lparr>
     cv_P = 0x8000000000000000000000000000000000000000000000000000000000000431,
     cv_A = 0x7,
     cv_B = 0x5FBFF498AA938CE739B8E022FBAFEF40563F6E6A3472FC2A514C0CE9DAE23B7E,
     cv_Q = 0x8000000000000000000000000000000150FE8A1892976154C59CFC193ACCF5B3,
     cv_X = 0x2,
     cv_Y = 0x08E2A8A0E65147D4BD6316030E16D19C85C97F0A9CA267122B96ABBCEA7E8FC8,
     cv_Name = ''id-GostR3410-2001-TestParamSet'', cv_Cofactor = 1, cv_ConstantTime = False\<rparr>"

definition curve2012paramSetA :: "curve res" where
  "curve2012paramSetA =
     (case CurveByOID ''1.2.643.7.1.2.1.2.1'' of
        Inl err \<Rightarrow> Inl (Panic ''vko: 512-paramSetA missing: '') | Inr c \<Rightarrow> Inr c)"

definition DeriveQLE :: "curve \<Rightarrow> bytes \<Rightarrow> bytes res" where
  "DeriveQLE c dLE =
     bind_res (loadPrivateLE c dLE) (\<lambda>d.
     bind_res (ScalarMultSecret c d (ec_Base c)) (\<lambda>q. vko_point c errDerivedID q))"

definition VKO2001TestCurve :: "bytes \<Rightarrow> bytes \<Rightarrow> bytes \<Rightarrow> bytes res" where
  "VKO2001TestCurve prvLE pubLE ukmRaw = KEK2001 curve2001Test prvLE pubLE ukmRaw"

definition VKO2012_256 :: "bytes \<Rightarrow> bytes \<Rightarrow> bytes \<Rightarrow> bytes res" where
  "VKO2012_256 prvLE pubLE ukmRaw = bind_res curve2012paramSetA (\<lambda>c. KEK2012256 c prvLE pubLE ukmRaw)"

definition VKO2012_512 :: "bytes \<Rightarrow> bytes \<Rightarrow> bytes \<Rightarrow> bytes res" where
  "VKO2012_512 prvLE pubLE ukmRaw = bind_res curve2012paramSetA (\<lambda>c. KEK2012512 c prvLE pubLE ukmRaw)"

section \<open>Encodings\<close>

lemma big2leFixed_eq: "0 \<le> n \<Longrightarrow> nat n < 256 ^ sz \<Longrightarrow> big2leFixed n sz = Inr (le_bytes sz (nat n))"
proof -
  assume n: "0 \<le> n" "nat n < 256 ^ sz"
  have "rev (replicate (sz - length (big_Bytes n)) 0 @ big_Bytes n) = le_bytes sz (nat n)"
    unfolding big_Bytes_pad(1) [OF n] by simp
  then show ?thesis using big_Bytes_pad(2) [OF n] by (simp add: big2leFixed_def Let_def)
qed

lemma vko_point_Affine:
  assumes dom: "sign_domain c" and on: "IsOnCurve c (Affine x y)"
  shows "vko_point c err (Affine x y) = Inr (le_bytes (PointSize c) (nat x) @ le_bytes (PointSize c) (nat y))"
  using on sign_domainD(8) [OF dom] by (simp add: vko_point_def big2leFixed_eq IsOnCurve_Affine [OF sign_domainD(5) [OF dom]])

lemma loadPublicLE_point:
  assumes dom: "sign_domain c" and on: "IsOnCurve c (Affine x y)"
  shows "loadPublicLE c (le_bytes (PointSize c) (nat x) @ le_bytes (PointSize c) (nat y)) = Inr (Affine x y)"
  using on sign_domainD(8) [OF dom]
  by (simp add: loadPublicLE_def leBytes2big_def reverse_def big_SetBytes_rev_le IsOnCurve_Affine [OF sign_domainD(5) [OF dom]])

lemma loadPrivateLE_range: "loadPrivateLE c raw = Inr d \<Longrightarrow> 0 < cv_Q c \<Longrightarrow> 0 < d \<and> d < cv_Q c"
proof -
  assume l: "loadPrivateLE c raw = Inr d" and q: "0 < cv_Q c"
  then have "d = leBytes2big raw mod cv_Q c" "d \<noteq> 0" by (auto simp: loadPrivateLE_def Let_def split: if_splits)
  moreover from this have "0 \<le> d" "d < cv_Q c" using q by simp_all
  ultimately show ?thesis by linarith
qed

section \<open>What the parties compute\<close>

text \<open>
  The reduction of the factor modulo the full group order does not change the point, for a peer
  point whose order divides it.
\<close>

lemma agreementRaw_eq:
  assumes dom: "sign_domain c" and on: "IsOnCurve c q" and d: "0 < d" "d < cv_Q c" and u: "0 < ukm"
    and cof: "vko_cofactor c = Inr h" and ord: "ec_mult c (nat (h * cv_Q c)) q = Infinity"
    and ct: "cv_ConstantTime c \<longrightarrow> odd_multiples c q"
  shows "agreementRaw c d ukm q = vko_point c errIdentity (ec_mult c (nat (ukm * h) * nat d) q)"
proof -
  note D = sign_domainD [OF dom]
  let ?k1 = "ec_mult c (nat d) q" and ?N = "h * cv_Q c"
  have h: "0 < h" using cof by (auto simp: vko_cofactor_def split: if_splits)
  have k1: "ScalarMultSecret c d q = Inr ?k1" "IsOnCurve c ?k1"
    using D(9) [OF on] ec_mult_on_curve [OF D(6) on] d ct by simp_all
  have N: "0 < ?N" using h D(4) by simp
  let ?u = "ukm * h mod ?N"
  have "ec_mult c (nat ?N) ?k1 = ec_mult c (nat d) (ec_mult c (nat ?N) q)"
    by (simp only: ec_mult_mult [OF D(1) on, symmetric] mult.commute)
  then have "ec_mult c (nat ?N) ?k1 = Infinity" by (simp add: ord)
  then have "ec_mult c (nat (ukm * h) mod nat ?N) ?k1 = ec_mult c (nat (ukm * h)) ?k1"
    by (rule ec_mult_order [OF D(1) k1(2)])
  moreover have "nat (ukm * h) mod nat ?N = nat ?u"
    by (rule nat_mod_distrib [symmetric]) (use u h N in simp_all)
  ultimately have e: "ec_mult c (nat ?u) ?k1 = ec_mult c (nat (ukm * h) * nat d) q"
    by (simp add: ec_mult_mult [OF D(1) on])
  show ?thesis
  proof (cases "?k1 = Infinity")
    case True
    then show ?thesis using u k1 e by (simp add: agreementRaw_def IsInfinity_def vko_point_def)
  next
    case False
    then have nI: "\<not> IsInfinity ?k1" by (simp add: IsInfinity_def split: ec_point.split)
    have z: "vko_point c errIdentity (ec_mult c (nat (ukm * h) * nat d) q) = Inl errIdentity" if "?u = 0"
      using e unfolding that by (simp add: vko_point_def flip: e)
    have "vko_point c errIdentity (if ?u = 1 then ?k1 else ec_ScalarMult c ?u ?k1) =
        vko_point c errIdentity (ec_mult c (nat (ukm * h) * nat d) q)" if "?u \<noteq> 0"
    proof (cases "?u = 1")
      case True
      then have "?k1 = ec_mult c (nat (ukm * h) * nat d) q" using e by simp
      then show ?thesis using True by simp
    next
      case False
      then show ?thesis using e ec_ScalarMult_mult [OF D(1) k1(2)] by simp
    qed
    then show ?thesis using u k1 nI z cof unfolding agreementRaw_def Let_def by simp
  qed
qed

lemma DeriveQLE_Inr:
  assumes dom: "sign_domain c" and der: "DeriveQLE c prv = Inr pub"
  obtains d q where "loadPrivateLE c prv = Inr d" "0 < d" "d < cv_Q c" "q = ec_mult c (nat d) (ec_Base c)"
    "loadPublicLE c pub = Inr q" "IsOnCurve c q" "odd_multiples c q"
proof -
  note D = sign_domainD [OF dom]
  obtain d where d: "loadPrivateLE c prv = Inr d" using der by (auto simp: DeriveQLE_def bind_res_Inr_iff)
  note r = loadPrivateLE_range [OF d]
  have r: "0 < d" "d < cv_Q c" using r D(4) by simp_all
  let ?q = "ec_mult c (nat d) (ec_Base c)"
  have p: "vko_point c errDerivedID ?q = Inr pub" using der D(9) [OF D(2)] d r D(12) by (simp add: DeriveQLE_def)
  have on: "IsOnCurve c ?q" using ec_mult_on_curve [OF D(6,2)] .
  show ?thesis
  proof (cases ?q)
    case Infinity
    then show ?thesis using p by (simp add: vko_point_def)
  next
    case (Affine x y)
    then have "loadPublicLE c pub = Inr ?q"
      using p vko_point_Affine [OF dom, of x y errDerivedID] loadPublicLE_point [OF dom, of x y] on by simp
    then show ?thesis using that d r on D(11) by blast
  qed
qed

lemma vko_symmetric:
  assumes dom: "sign_domain c" and A: "DeriveQLE c prvA = Inr pubA" and B: "DeriveQLE c prvB = Inr pubB"
  shows "vko_kek c prvA pubB ukm h = vko_kek c prvB pubA ukm h"
proof -
  note D = sign_domainD [OF dom]
  obtain a qa where a: "loadPrivateLE c prvA = Inr a" "0 < a" "a < cv_Q c" "qa = ec_mult c (nat a) (ec_Base c)"
    "loadPublicLE c pubA = Inr qa" "IsOnCurve c qa" "odd_multiples c qa" by (rule DeriveQLE_Inr [OF dom A])
  obtain b qb where b: "loadPrivateLE c prvB = Inr b" "0 < b" "b < cv_Q c" "qb = ec_mult c (nat b) (ec_Base c)"
    "loadPublicLE c pubB = Inr qb" "IsOnCurve c qb" "odd_multiples c qb" by (rule DeriveQLE_Inr [OF dom B])
  have "ec_mult c (nat a) qb = ec_mult c (nat b) qa"
    by (simp only: a(4) b(4) ec_mult_mult [OF D(1,2), symmetric] mult.commute)
  then have "ScalarMultSecret c a qb = ScalarMultSecret c b qa"
    using D(9) [OF b(6)] D(9) [OF a(6)] a(2,3,7) b(2,3,7) by simp
  then show ?thesis by (simp add: vko_kek_def a(1,5) b(1,5) agreementRaw_def Let_def)
qed

section \<open>Properties\<close>

text \<open>
  VKO is symmetric: for two private keys with the public keys DeriveQLE gives, both
  parties get the same KEK for every UKM, or the same error, in all three variants.
\<close>

theorem VKO_symmetric:
  assumes "sign_domain c" "DeriveQLE c prvA = Inr pubA" "DeriveQLE c prvB = Inr pubB"
  shows "KEK2001 c prvA pubB ukm = KEK2001 c prvB pubA ukm \<and> KEK2012256 c prvA pubB ukm = KEK2012256 c prvB pubA ukm \<and>
    KEK2012512 c prvA pubB ukm = KEK2012512 c prvB pubA ukm"
  using vko_symmetric [OF assms] by (simp add: KEK2001_def KEK2012256_def KEK2012512_def)

text \<open>
  C7. The agreement on a curve C1 describes, with cofactor h of 1 or 4, a private key d with 0 < d < Q, and a peer
  point q on the curve that h Q takes to the identity (on the constant-time path: of odd order,
  or the curve has no point of order two): a UKM of zero is errZeroUKM; with any other, the agreement
  serializes the point UKM h d q, the reduction of the factor by h Q notwithstanding, and is errIdentity
  exactly when that point is the identity, so whenever h takes q to the identity.
\<close>

theorem VKO_agreement_point:
  assumes "sign_domain c" "IsOnCurve c q" "0 < d" "d < cv_Q c" "0 \<le> ukm" "vko_cofactor c = Inr h"
    and "ec_mult c (nat (h * cv_Q c)) q = Infinity" "cv_ConstantTime c \<longrightarrow> odd_multiples c q"
  shows "(agreementRaw c d ukm q = (if ukm = 0 then Inl errZeroUKM
      else case ec_mult c (nat (ukm * h) * nat d) q of Infinity \<Rightarrow> Inl errIdentity
        | Affine x y \<Rightarrow> Inr (le_bytes (PointSize c) (nat x) @ le_bytes (PointSize c) (nat y)))) \<and>
    (ukm \<noteq> 0 \<and> ec_mult c (nat h) q = Infinity \<longrightarrow> agreementRaw c d ukm q = Inl errIdentity)"
proof (cases "ukm = 0")
  case False
  let ?n = "nat (ukm * h) * nat d"
  note D = sign_domainD [OF assms(1)]
  have ukm: "0 < ukm" using False assms(5) by simp
  have e: "agreementRaw c d ukm q = vko_point c errIdentity (ec_mult c ?n q)"
    by (rule agreementRaw_eq [OF assms(1-4) ukm assms(6-)])
  have on: "IsOnCurve c (ec_mult c ?n q)" by (rule ec_mult_on_curve [OF D(6) assms(2)])
  have "0 < h" using assms(6) by (auto simp: vko_cofactor_def split: if_splits)
  then have n: "?n = nat ukm * nat d * nat h" using assms(5) by (simp add: nat_mult_distrib)
  have "ec_mult c ?n q = Infinity" if "ec_mult c (nat h) q = Infinity"
    unfolding n ec_mult_mult [OF D(1) assms(2), of "nat ukm * nat d" "nat h"] that by simp
  then show ?thesis
    using False e on vko_point_Affine [OF assms(1)] by (auto simp: vko_point_def split: ec_point.split)
qed (simp add: agreementRaw_def)

section \<open>Witnesses\<close>

text \<open>On the small curve with the keys 2 and 4.\<close>

definition key5 :: "byte \<Rightarrow> bytes" where
  "key5 k = k # replicate 31 0"

lemma curve5_loadPrivateLE: "loadPrivateLE curve5 (key5 2) = Inr 2" "loadPrivateLE curve5 (key5 4) = Inr 4"
proof -
  have "le_nat (replicate n 0) = 0" for n by (induction n) simp_all
  then show "loadPrivateLE curve5 (key5 2) = Inr 2" "loadPrivateLE curve5 (key5 4) = Inr 4"
    by (simp_all add: loadPrivateLE_def key5_def curve5_PointSize curve5_base leBytes2big_def reverse_def
        big_SetBytes_def be_nat_def Let_def)
qed

lemma curve5_DeriveQLE:
  "DeriveQLE curve5 (key5 2) = Inr (le_bytes 32 1 @ le_bytes 32 3)"
  "DeriveQLE curve5 (key5 4) = Inr (le_bytes 32 3 @ le_bytes 32 2)"
proof -
  have on: "IsOnCurve curve5 (Affine 1 3)" "IsOnCurve curve5 (Affine 3 2)" by (simp_all add: curve5_points curve5_points_def)
  note P = vko_point_Affine [OF curve5_sign_domain on(1), of errDerivedID] vko_point_Affine [OF curve5_sign_domain on(2), of errDerivedID]
  show "DeriveQLE curve5 (key5 2) = Inr (le_bytes 32 1 @ le_bytes 32 3)"
    "DeriveQLE curve5 (key5 4) = Inr (le_bytes 32 3 @ le_bytes 32 2)"
    using curve5_ScalarMultSecret [of 2] curve5_ScalarMultSecret [of 4] P
    by (simp_all add: DeriveQLE_def curve5_loadPrivateLE curve5_base curve5_mult curve5_PointSize)
qed

theorem VKO_symmetric_witness:
  "KEK2012256 curve5 (key5 2) (le_bytes 32 3 @ le_bytes 32 2) [5] = KEK2012256 curve5 (key5 4) (le_bytes 32 1 @ le_bytes 32 3) [5]"
  using VKO_symmetric [OF curve5_sign_domain curve5_DeriveQLE] by simp

theorem VKO_agreement_point_witness:
  "agreementRaw curve5 2 2 (Affine 0 1) = Inr (le_bytes 32 3 @ le_bytes 32 2) \<and>
   agreementRaw curve5 2 0 (Affine 0 1) = Inl errZeroUKM \<and> agreementRaw curve5 2 7 (Affine 0 1) = Inl errIdentity"
proof -
  have h: "vko_cofactor curve5 = Inr 1" by (simp add: vko_cofactor_def curve5_def)
  have ct: "cv_ConstantTime curve5 \<longrightarrow> odd_multiples curve5 (Affine 0 1)"
    using sign_domainD(12) [OF curve5_sign_domain] by (simp add: curve5_base)
  have "ec_mult curve5 14 (Affine 0 1) = Infinity" by code_simp
  then show ?thesis
    using VKO_agreement_point [OF curve5_sign_domain curve5_base(2), of 2 _ 1] h ct curve5_mult
    by (simp add: curve5_base curve5_PointSize del: le_bytes.simps)
qed

end
