(* ===== verification/KDF.thy ===== *)
theory KDF
  imports Streebog
begin

text \<open>
  The key derivations: \<^verbatim>\<open>kdftree/kdftree.go\<close> and \<^verbatim>\<open>tlstree/tlstree.go\<close>, over Go's \<^verbatim>\<open>crypto/hmac\<close> with
  Streebog-256. HMAC is modelled as the object the code drives (construct, write, sum) and
  reduced to its one-shot form; the KDF tree is reduced to its specification, and the record
  key tree is shown to use it and to change keys exactly at its window boundaries.
\<close>

section \<open>HMAC with Streebog-256\<close>

text \<open>The inner digest, which has absorbed the inner pad, and the outer pad.\<close>

type_synonym hmac = "sb_digest \<times> bytes"

definition hmac_block_key :: "bytes \<Rightarrow> bytes" where
  "hmac_block_key key = copy_into 64 (if length key > 64 then sb_Sum (sb_Write sb_New256 key) [] else key)"

definition hmac_New :: "bytes \<Rightarrow> hmac" where
  "hmac_New key =
     (sb_Write sb_New256 (map (\<lambda>b. b XOR 0x36) (hmac_block_key key)), map (\<lambda>b. b XOR 0x5c) (hmac_block_key key))"

definition hmac_Write :: "hmac \<Rightarrow> bytes \<Rightarrow> hmac" where
  "hmac_Write = (\<lambda>(d, opad) p. (sb_Write d p, opad))"

definition hmac_Sum :: "hmac \<Rightarrow> bytes \<Rightarrow> bytes" where
  "hmac_Sum = (\<lambda>(d, opad) pre. pre @ sb_Sum (sb_Write (sb_Write sb_New256 opad) (sb_Sum d [])) [])"

text \<open>RFC 2104 on the whole message.\<close>

definition hmac256 :: "bytes \<Rightarrow> bytes \<Rightarrow> bytes" where
  "hmac256 key msg =
     (let k = copy_into 64 (if length key > 64 then sb_spec 32 key else key)
      in sb_spec 32 (map (\<lambda>b. b XOR 0x5c) k @ sb_spec 32 (map (\<lambda>b. b XOR 0x36) k @ msg)))"

lemma hmac_block_key_spec: "hmac_block_key key = copy_into 64 (if length key > 64 then sb_spec 32 key else key)"
  using sb_session [of "[key]" 32 "[]"] by (simp add: hmac_block_key_def sb_New256_def)

lemma hmac_session:
  "hmac_Sum (fold (\<lambda>p h. hmac_Write h p) ps (hmac_New key)) pre = pre @ hmac256 key (concat ps)"
proof -
  define ipad opad where "ipad = map (\<lambda>b. b XOR 0x36) (hmac_block_key key)"
    and "opad = map (\<lambda>b. b XOR 0x5c) (hmac_block_key key)"
  have run: "fold (\<lambda>p h. hmac_Write h p) ps (d, opad) = (fold (\<lambda>p d. sb_Write d p) ps d, opad)" for d
    by (induction ps arbitrary: d) (simp_all add: hmac_Write_def)
  have "fold (\<lambda>p d. sb_Write d p) ps (sb_Write sb_New256 ipad) = fold (\<lambda>p d. sb_Write d p) (ipad # ps) (sb_New 32)"
    by (simp add: sb_New256_def)
  then have inner: "sb_Sum (fold (\<lambda>p d. sb_Write d p) ps (sb_Write sb_New256 ipad)) [] = sb_spec 32 (ipad @ concat ps)"
    using sb_session [of "ipad # ps" 32 "[]"] by simp
  have outer: "sb_Sum (sb_Write (sb_Write sb_New256 opad) x) [] = sb_spec 32 (opad @ x)" for x
    using sb_session [of "[opad, x]" 32 "[]"] by (simp add: sb_New256_def)
  have new: "hmac_New key = (sb_Write sb_New256 ipad, opad)"
    by (simp add: hmac_New_def ipad_def opad_def)
  have "hmac256 key m = sb_spec 32 (opad @ sb_spec 32 (ipad @ m))" for m
    by (simp only: hmac256_def Let_def ipad_def opad_def hmac_block_key_spec)
  then show ?thesis
    by (simp add: new run hmac_Sum_def inner outer)
qed

lemma length_hmac256 [simp]: "length (hmac256 key msg) = 32"
  by (simp add: hmac256_def Let_def length_sb_spec)

section \<open>KDF_TREE\<close>

definition kdf_counterBytes :: "u64 \<Rightarrow> nat \<Rightarrow> bytes" where
  "kdf_counterBytes v r = drop (8 - r) (word_be 8 v)"

function kdf_nlz :: "bytes \<Rightarrow> nat \<Rightarrow> nat" where
  "kdf_nlz full i = (if i < 7 \<and> full ! i = 0 then kdf_nlz full (i + 1) else i)"
  by pat_completeness auto
termination
  by (relation "measure (\<lambda>(full, i). 7 - i)") auto

declare kdf_nlz.simps [simp del]

definition kdf_encodeNoLeadingZeros :: "u64 \<Rightarrow> bytes" where
  "kdf_encodeNoLeadingZeros v = (let full = word_be 8 v in drop (kdf_nlz full 0) full)"

definition kdf_block :: "bytes \<Rightarrow> bytes \<Rightarrow> bytes \<Rightarrow> bytes \<Rightarrow> nat \<Rightarrow> nat \<Rightarrow> bytes \<Rightarrow> bytes" where
  "kdf_block key label seed lRepr r i out =
     (let h = hmac_New key;
          h = hmac_Write h (kdf_counterBytes (of_nat i) r);
          h = hmac_Write h label;
          h = hmac_Write h [0x00];
          h = hmac_Write h seed;
          h = hmac_Write h lRepr
      in hmac_Sum h out)"

definition KDFTree256 :: "bytes \<Rightarrow> bytes \<Rightarrow> bytes \<Rightarrow> int \<Rightarrow> int \<Rightarrow> bytes res" where
  "KDFTree256 key label seed r outLen =
     (if r < 1 \<or> r > 4 then Inl (Panic ''kdftree: r must be in 1..4'')
      else if outLen \<le> 0 then Inl (Panic ''kdftree: outLen must be positive'')
      else
        let iters = (nat outLen + 32 - 1) div 32;
            maxIters = push_bit (8 * nat r) 1 - 1 :: u64
        in if r < 8 \<and> (of_nat iters :: u64) > maxIters
           then Inl (Panic ''kdftree: outLen too large for r-byte counter'')
           else
             let lBits = of_nat (nat outLen) * 8 :: u64;
                 lRepr = kdf_encodeNoLeadingZeros lBits;
                 out = fold (kdf_block key label seed lRepr (nat r)) [1..<iters + 1] []
             in Inr (take (nat outLen) out))"

text \<open>RFC 7836, section 4.4: the blocks \<open>K(1), K(2), \<dots>\<close> and the truncation.\<close>

definition kdf_K :: "bytes \<Rightarrow> bytes \<Rightarrow> bytes \<Rightarrow> nat \<Rightarrow> nat \<Rightarrow> nat \<Rightarrow> bytes" where
  "kdf_K key label seed r L i =
     hmac256 key (kdf_counterBytes (of_nat i) r @ label @ [0x00] @ seed @ kdf_encodeNoLeadingZeros (of_nat L))"

lemma kdf_block_K:
  "kdf_block key label seed (kdf_encodeNoLeadingZeros (of_nat L)) r i out = out @ kdf_K key label seed r L i"
  using hmac_session [of "[kdf_counterBytes (of_nat i) r, label, [0x00], seed, kdf_encodeNoLeadingZeros (of_nat L)]" key out]
  by (simp add: kdf_block_def kdf_K_def Let_def)

lemma fold_append_blocks: "fold (\<lambda>i out. out @ F i) js out = out @ concat (map F js)"
  by (induction js arbitrary: out) simp_all

lemma KDFTree256_spec:
  assumes "KDFTree256 key label seed r n = Inr out"
  shows "out = take (nat n) (concat (map (kdf_K key label seed (nat r) (8 * nat n)) [1..<(nat n + 31) div 32 + 1]))"
    and "length out = nat n" "1 \<le> r" "r \<le> 4" "0 < n"
proof -
  have n: "1 \<le> r" "r \<le> 4" "0 < n"
    and out: "out = take (nat n) (fold (kdf_block key label seed (kdf_encodeNoLeadingZeros (of_nat (nat n) * 8)) (nat r))
        [1..<(nat n + 32 - 1) div 32 + 1] [])"
    using assms by (auto simp: KDFTree256_def Let_def split: if_splits)
  have L: "(of_nat (nat n) * 8 :: u64) = of_nat (8 * nat n)"
    by simp
  have blk: "kdf_block key label seed (kdf_encodeNoLeadingZeros (of_nat (nat n) * 8)) (nat r) =
      (\<lambda>i out. out @ kdf_K key label seed (nat r) (8 * nat n) i)"
    unfolding L by (intro ext) (rule kdf_block_K)
  show spec: "out = take (nat n) (concat (map (kdf_K key label seed (nat r) (8 * nat n)) [1..<(nat n + 31) div 32 + 1]))"
  proof -
    have "nat n + 32 - 1 = nat n + 31" by simp
    then show ?thesis unfolding out blk fold_append_blocks by (simp only: append_Nil)
  qed
  have len: "length (concat (map (kdf_K key label seed (nat r) (8 * nat n)) js)) = 32 * length js" for js
    by (induction js) (simp_all add: kdf_K_def)
  have "nat n \<le> 32 * ((nat n + 31) div 32)" by linarith
  then show "length out = nat n" unfolding spec by (simp add: len del: upt_Suc)
  show "1 \<le> r" "r \<le> 4" "0 < n" by (rule n)+
qed

section \<open>The encodings\<close>

lemma be_nat_word_be: "be_nat (word_be n w) = unat w mod 256 ^ n"
  by (simp add: be_nat_def word_be_def word_le_le_bytes le_nat_le_bytes)

lemma be_nat_leading_zeros: "\<forall>x \<in> set zs. x = 0 \<Longrightarrow> be_nat (zs @ bs) = be_nat bs"
proof -
  assume "\<forall>x \<in> set zs. x = 0"
  then have "be_nat zs = 0" unfolding be_nat_def
    by (induction zs) (simp_all add: le_nat_append)
  then show ?thesis by (simp add: be_nat_append)
qed

lemma be_nat_drop: "length bs = n \<Longrightarrow> k \<le> n \<Longrightarrow> be_nat (drop k bs) = be_nat bs mod 256 ^ (n - k)"
proof -
  assume len: "length bs = n" "k \<le> n"
  have "be_nat bs = be_nat (take k bs) * 256 ^ (n - k) + be_nat (drop k bs)"
    using be_nat_append [of "take k bs" "drop k bs"] len by simp
  moreover have "be_nat (drop k bs) < 256 ^ (n - k)"
    using be_nat_less [of "drop k bs"] len by simp
  ultimately show ?thesis by simp
qed

text \<open>The counter field is the counter modulo \<open>256^r\<close>, so distinct blocks have distinct fields.\<close>

lemma kdf_counter_value: "r \<le> 8 \<Longrightarrow> be_nat (kdf_counterBytes v r) = unat v mod 256 ^ r"
proof -
  assume "r \<le> 8"
  then have "be_nat (kdf_counterBytes v r) = unat v mod 256 ^ 8 mod 256 ^ r"
    using be_nat_drop [of "word_be 8 v" 8 "8 - r"] by (simp add: kdf_counterBytes_def be_nat_word_be)
  moreover have "unat v < 256 ^ 8" using unsigned_less [of v] by simp
  ultimately show ?thesis by simp
qed

lemma counter_limit:
  assumes "1 \<le> r" "r \<le> 4" "\<not> (w :: u64) > push_bit (8 * r) 1 - 1"
  shows "unat w < 256 ^ r"
proof -
  have "unat w \<le> unat (push_bit (8 * r) 1 - 1 :: u64)"
    using assms(3) unfolding not_less word_le_nat_alt .
  moreover have "r = 1 \<or> r = 2 \<or> r = 3 \<or> r = 4" using assms by linarith
  then have "unat (push_bit (8 * r) 1 - 1 :: u64) < 256 ^ r"
    by (elim disjE) simp_all
  ultimately show ?thesis by (rule le_less_trans)
qed

lemma KDFTree256_iters:
  assumes "KDFTree256 key label seed r n = Inr out" "nat n < 2 ^ 60"
  shows "(nat n + 31) div 32 < 256 ^ nat r" "(nat n + 31) div 32 < 2 ^ 60"
proof -
  define iters where "iters = (nat n + 31) div 32"
  have r: "1 \<le> r" "r \<le> 4" "0 < n" using KDFTree256_spec(3,4,5) [OF assms(1)] .
  show small: "(nat n + 31) div 32 < 2 ^ 60" using assms(2) by simp
  have it: "(nat n + 32 - 1) div 32 = iters" by (simp add: iters_def)
  have "\<not> (of_nat iters :: u64) > push_bit (8 * nat r) 1 - 1"
  proof
    assume a: "(of_nat iters :: u64) > push_bit (8 * nat r) 1 - 1"
    have "KDFTree256 key label seed r n = Inl (Panic ''kdftree: outLen too large for r-byte counter'')"
      unfolding KDFTree256_def Let_def it using r a by simp
    then show False using assms(1) by simp
  qed
  then have "unat (of_nat iters :: u64) < 256 ^ nat r"
    using r by (intro counter_limit) auto
  moreover have "unat (of_nat iters :: u64) = iters"
    using small by (simp add: unat_of_nat iters_def)
  ultimately show "(nat n + 31) div 32 < 256 ^ nat r" by (simp add: iters_def)
qed

lemma KDFTree256_counters:
  assumes "KDFTree256 key label seed r n = Inr out" "nat n < 2 ^ 60"
    and "i \<in> {1..(nat n + 31) div 32}" "j \<in> {1..(nat n + 31) div 32}"
    and "kdf_counterBytes (of_nat i) (nat r) = kdf_counterBytes (of_nat j) (nat r)"
  shows "i = j"
proof -
  note it = KDFTree256_iters [OF assms(1,2)]
  have r8: "nat r \<le> 8" using KDFTree256_spec(4) [OF assms(1)] by simp
  have val: "be_nat (kdf_counterBytes (of_nat k) (nat r)) = k" if "k \<in> {1..(nat n + 31) div 32}" for k
  proof -
    have k: "k \<le> (nat n + 31) div 32" using that by simp
    have "k < 2 ^ 60" using k it(2) by (rule le_less_trans)
    then have "unat (of_nat k :: u64) = k" by (simp add: unat_of_nat)
    moreover have "k mod 256 ^ nat r = k" using le_less_trans [OF k it(1)] by (rule mod_less)
    ultimately show ?thesis by (simp only: kdf_counter_value [OF r8])
  qed
  have "i = be_nat (kdf_counterBytes (of_nat i) (nat r))" using val [OF assms(3)] by (rule sym)
  also have "\<dots> = j" using val [OF assms(4)] by (simp only: assms(5))
  finally show ?thesis .
qed

lemma kdf_nlz_zeros:
  "i \<le> 7 \<Longrightarrow> i \<le> kdf_nlz full i \<and> kdf_nlz full i \<le> 7 \<and>
    (\<forall>k. i \<le> k \<and> k < kdf_nlz full i \<longrightarrow> full ! k = 0) \<and> (kdf_nlz full i < 7 \<longrightarrow> full ! kdf_nlz full i \<noteq> 0)"
proof (induction full i rule: kdf_nlz.induct)
  case (1 full i)
  show ?case
  proof (cases "i < 7 \<and> full ! i = 0")
    case True
    then have "kdf_nlz full i = kdf_nlz full (i + 1)" by (subst kdf_nlz.simps) simp
    then show ?thesis using 1 True by (auto simp: le_Suc_eq dest: le_antisym)
      (metis Suc_leI le_neq_implies_less)+
  next
    case False
    then have eq: "kdf_nlz full i = i" by (subst kdf_nlz.simps) (simp only: if_False)
    show ?thesis unfolding eq using 1(2) False by auto
  qed
qed

text \<open>The length field: it denotes the length, and it has no leading zero byte.\<close>

lemma kdf_encode_value: "be_nat (kdf_encodeNoLeadingZeros v) = unat v"
proof -
  define k where "k = kdf_nlz (word_be 8 v) 0"
  have k: "k \<le> 7" "\<And>i. i < k \<Longrightarrow> word_be 8 v ! i = 0"
    using kdf_nlz_zeros [of 0 "word_be 8 v"] by (auto simp: k_def)
  have "\<forall>x \<in> set (take k (word_be 8 v)). x = 0"
    using k by (auto simp: set_conv_nth)
  then have "be_nat (word_be 8 v) = be_nat (drop k (word_be 8 v))"
    using be_nat_leading_zeros [of "take k (word_be 8 v)" "drop k (word_be 8 v)"] by simp
  moreover have "unat v < 256 ^ 8" using unsigned_less [of v] by simp
  ultimately show ?thesis
    by (simp add: kdf_encodeNoLeadingZeros_def Let_def be_nat_word_be k_def)
qed

lemma kdf_encode_minimal:
  "length (kdf_encodeNoLeadingZeros v) = 1 \<or> hd (kdf_encodeNoLeadingZeros v) \<noteq> 0"
proof -
  define k where "k = kdf_nlz (word_be 8 v) 0"
  have k: "k \<le> 7" "k < 7 \<Longrightarrow> word_be 8 v ! k \<noteq> 0"
    using kdf_nlz_zeros [of 0 "word_be 8 v"] by (auto simp: k_def)
  then show ?thesis
    by (cases "k = 7") (simp_all add: kdf_encodeNoLeadingZeros_def Let_def hd_drop_conv_nth flip: k_def)
qed

section \<open>The record key tree\<close>

record tls_tree =
  tt_root :: bytes
  tt_c1 :: u64
  tt_c2 :: u64
  tt_c3 :: u64

definition tls_newTree :: "bytes \<Rightarrow> u64 \<Rightarrow> u64 \<Rightarrow> u64 \<Rightarrow> tls_tree res" where
  "tls_newTree master c1 c2 c3 =
     (if length master \<noteq> 32 then Inl (Panic ''tlstree: master key must be exactly 32 bytes'')
      else Inr \<lparr>tt_root = master, tt_c1 = c1, tt_c2 = c2, tt_c3 = c3\<rparr>)"

definition NewTLSTreeKuznyechikCTROMAC :: "bytes \<Rightarrow> tls_tree res" where
  "NewTLSTreeKuznyechikCTROMAC master =
     tls_newTree master 0xFFFFFFFF00000000 0xFFFFFFFFFFF80000 0xFFFFFFFFFFFFFFC0"

definition NewTLSTreeMagmaCTROMAC :: "bytes \<Rightarrow> tls_tree res" where
  "NewTLSTreeMagmaCTROMAC master =
     tls_newTree master 0xFFFFFFC000000000 0xFFFFFFFFFE000000 0xFFFFFFFFFFFFF000"

definition tls_labels :: "bytes list" where
  "tls_labels = [[0x6c, 0x65, 0x76, 0x65, 0x6c, 0x31], [0x6c, 0x65, 0x76, 0x65, 0x6c, 0x32],
     [0x6c, 0x65, 0x76, 0x65, 0x6c, 0x33]]"

definition tls_kdf :: "bytes \<Rightarrow> bytes \<Rightarrow> bytes \<Rightarrow> bytes" where
  "tls_kdf key label seed =
     (let h = hmac_New key;
          h = hmac_Write h [0x01];
          h = hmac_Write h label;
          h = hmac_Write h [0x00];
          h = hmac_Write h seed;
          h = hmac_Write h [0x01, 0x00]
      in copy_into 32 (hmac_Sum h []))"

definition tls_Derive :: "tls_tree \<Rightarrow> u64 \<Rightarrow> bytes" where
  "tls_Derive t seqNum =
     (let k1 = tls_kdf (tt_root t) (tls_labels ! 0) (word_be 8 (seqNum AND tt_c1 t));
          k2 = tls_kdf k1 (tls_labels ! 1) (word_be 8 (seqNum AND tt_c2 t));
          k3 = tls_kdf k2 (tls_labels ! 2) (word_be 8 (seqNum AND tt_c3 t))
      in copy_into 32 k3)"

lemma tls_kdf_hmac: "tls_kdf key label seed = hmac256 key ([0x01] @ label @ [0x00] @ seed @ [0x01, 0x00])"
  using hmac_session [of "[[0x01], label, [0x00], seed, [0x01, 0x00]]" key "[]"]
  by (simp add: tls_kdf_def Let_def)

text \<open>The private copy of the derivation is one block of the tree of \<^verbatim>\<open>kdftree\<close>.\<close>

lemma kdf_encode_256: "kdf_encodeNoLeadingZeros 256 = [1, 0]"
  by code_simp

lemma kdf_counter_1: "kdf_counterBytes 1 1 = [1]"
  by code_simp

lemma tls_kdf_KDFTree: "KDFTree256 key label seed 1 32 = Inr (tls_kdf key label seed)"
proof -
  have blk: "kdf_block key label seed (kdf_encodeNoLeadingZeros (of_nat (8 * 32))) 1 i [] =
      kdf_K key label seed 1 (8 * 32) i" for i
    using kdf_block_K [of key label seed "8 * 32" 1 i "[]"] by simp
  have K: "kdf_K key label seed 1 (8 * 32) 1 = tls_kdf key label seed"
    by (simp add: kdf_K_def tls_kdf_hmac kdf_encode_256 kdf_counter_1 [simplified])
  have "(nat 32 + 32 - 1) div 32 = 1" "[1..<1 + 1] = [1 :: nat]" by simp_all
  then have "KDFTree256 key label seed 1 32 = Inr (take 32 (kdf_block key label seed (kdf_encodeNoLeadingZeros 256) 1 1 []))"
    unfolding KDFTree256_def Let_def by simp
  also have "kdf_block key label seed (kdf_encodeNoLeadingZeros 256) 1 1 [] = tls_kdf key label seed"
    using blk [of 1] K by simp
  finally show ?thesis by (simp add: tls_kdf_hmac)
qed

text \<open>
  The windows: record numbers that agree above the low 6 bits (12 for Magma) share all three
  masked seeds, so they share the leaf key.
\<close>

definition tls_window :: "tls_tree \<Rightarrow> u64 \<Rightarrow> u64" where
  "tls_window t seqNum = seqNum AND tt_c3 t"

definition tls_nested :: "tls_tree \<Rightarrow> bool" where
  "tls_nested t \<longleftrightarrow> tt_c1 t AND tt_c3 t = tt_c1 t \<and> tt_c2 t AND tt_c3 t = tt_c2 t"

lemma tls_new_nested:
  "NewTLSTreeKuznyechikCTROMAC m = Inr t \<Longrightarrow> tls_nested t \<and> tt_root t = m \<and> length m = 32 \<and> tt_c3 t = NOT (mask 6)"
  "NewTLSTreeMagmaCTROMAC m = Inr t \<Longrightarrow> tls_nested t \<and> tt_root t = m \<and> length m = 32 \<and> tt_c3 t = NOT (mask 12)"
  by (auto simp: NewTLSTreeKuznyechikCTROMAC_def NewTLSTreeMagmaCTROMAC_def tls_newTree_def tls_nested_def
      mask_eq_exp_minus_1 split: if_splits)

lemma tls_Derive_window:
  assumes "tls_nested t" "tls_window t s = tls_window t s'"
  shows "tls_Derive t s = tls_Derive t s'"
proof -
  have "s AND c = s' AND c" if "c AND tt_c3 t = c" for c
  proof -
    have "s AND c = (s AND tt_c3 t) AND c" using that by (metis and.assoc and.commute)
    also have "\<dots> = (s' AND tt_c3 t) AND c" using assms(2) by (simp add: tls_window_def)
    also have "\<dots> = s' AND c" using that by (metis and.assoc and.commute)
    finally show ?thesis .
  qed
  then show ?thesis
    using assms by (simp add: tls_Derive_def Let_def tls_nested_def)
qed

lemma tls_window_div:
  assumes "tt_c3 t = NOT (mask n)" "n < 64"
  shows "tls_window t s = tls_window t s' \<longleftrightarrow> drop_bit n s = drop_bit n s'"
proof -
  have w: "tls_window t x = push_bit n (drop_bit n x)" for x
    by (rule bit_word_eqI) (auto simp: tls_window_def assms(1) bit_simps)
  have "drop_bit n (push_bit n (drop_bit n x)) = drop_bit n x" for x :: u64
    by (rule bit_word_eqI) (auto simp: bit_simps dest: bit_imp_le_length)
  then show ?thesis unfolding w by metis
qed

section \<open>Properties\<close>

text \<open>
  C30. KDF_TREE: a successful call returns the requested number of bytes of the HMAC blocks
  of successive counters, and no two counters of one call are encoded alike.
\<close>

theorem KDFTree256_output:
  assumes "KDFTree256 key label seed r n = Inr out"
  shows "out = take (nat n) (concat (map (kdf_K key label seed (nat r) (8 * nat n)) [1..<(nat n + 31) div 32 + 1])) \<and>
    length out = nat n \<and>
    (nat n < 2 ^ 60 \<longrightarrow> inj_on (\<lambda>i. kdf_counterBytes (of_nat i) (nat r)) {1..(nat n + 31) div 32})"
proof (intro conjI impI inj_onI)
  show "out = take (nat n) (concat (map (kdf_K key label seed (nat r) (8 * nat n)) [1..<(nat n + 31) div 32 + 1]))"
    "length out = nat n"
    by (rule KDFTree256_spec(1,2) [OF assms])+
qed (rule KDFTree256_counters [OF assms])

theorem KDFTree256_output_witness:
  "\<exists>out. KDFTree256 (replicate 32 1) [2] [3] 1 64 = Inr out \<and> length out = 64 \<and>
     out = kdf_K (replicate 32 1) [2] [3] 1 512 1 @ kdf_K (replicate 32 1) [2] [3] 1 512 2"
proof -
  obtain out where out: "KDFTree256 (replicate 32 1) [2] [3] 1 64 = Inr out"
    by (simp add: KDFTree256_def Let_def)
  show ?thesis
    using KDFTree256_output [OF out] out by (simp add: upt_conv_Cons kdf_K_def numeral_2_eq_2 [symmetric])
qed

text \<open>
  C40. TLSTREE: record numbers that agree above the low 6 bits (12 for Magma) get the same
  leaf key.
\<close>

theorem TLSTree_leaf_keys:
  assumes "NewTLSTreeKuznyechikCTROMAC m = Inr t \<and> n = 6 \<or> NewTLSTreeMagmaCTROMAC m = Inr t \<and> n = 12"
    and "drop_bit n i = drop_bit n j"
  shows "tls_Derive t i = tls_Derive t j"
proof -
  have "tls_nested t" "tt_c3 t = NOT (mask n)" "n < 64"
    using assms(1) tls_new_nested by auto
  then show ?thesis
    using tls_Derive_window [of t i j] tls_window_div [of t n i j] assms(2) by simp
qed

theorem TLSTree_leaf_keys_witness:
  "\<exists>t. NewTLSTreeKuznyechikCTROMAC (replicate 32 7) = Inr t \<and> tls_Derive t 64 = tls_Derive t 127"
  using TLSTree_leaf_keys [of "replicate 32 7" _ 6 64 127]
  by (simp add: NewTLSTreeKuznyechikCTROMAC_def tls_newTree_def drop_bit_eq_div)

text \<open>
  The derivation TLSTREE carries its own copy of is one block of KDF_TREE.
\<close>

theorem TLSTree_kdf: "KDFTree256 key label seed 1 32 = Inr (tls_kdf key label seed)"
  by (rule tls_kdf_KDFTree)

end
