(* ===== verification/KEG.thy ===== *)
theory KEG
  imports VKO KDF
begin

text \<open>
  \<^verbatim>\<open>keg/keg.go\<close>: the export key block of the TLS suites, VKO followed by KDF_TREE. A nil
  curve is \<open>None\<close>.
\<close>

definition ErrUKMSourceLen :: fault where
  "ErrUKMSourceLen = Err ''keg: ukm_source must be exactly 32 bytes''"

definition ErrCurve512 :: fault where
  "ErrCurve512 = Err ''keg: KEG2012_256 supports only 256-bit curves; 512-bit curve rejected''"

text \<open>The ASCII bytes of \<^verbatim>\<open>kdf tree\<close>.\<close>

definition kdfLabel :: bytes where
  "kdfLabel = [0x6b, 0x64, 0x66, 0x20, 0x74, 0x72, 0x65, 0x65]"

definition keg_curveTC26256A :: "curve res" where
  "keg_curveTC26256A =
     (case CurveByOID ''1.2.643.7.1.2.1.1.1'' of
        Inl err \<Rightarrow> Inl (Panic ''keg: tc26-256-A curve missing: '') | Inr c \<Rightarrow> Inr c)"

definition keg_realUKM :: "bytes \<Rightarrow> bytes" where
  "keg_realUKM ukmSource =
     (let src = take 16 ukmSource
      in if list_all (\<lambda>b. b = 0) src then (replicate 16 0)[15 := 1]
         else map (\<lambda>i. src ! (15 - i)) [0..<16])"

definition KEG2012_256 :: "curve option \<Rightarrow> bytes \<Rightarrow> bytes \<Rightarrow> bytes \<Rightarrow> bytes res" where
  "KEG2012_256 curve serverPub clientPriv ukmSource =
     (if length ukmSource \<noteq> 32 then Inl ErrUKMSourceLen
      else bind_res
        (case curve of None \<Rightarrow> keg_curveTC26256A
         | Some c \<Rightarrow> if big_BitLen (cv_P c) > 256 then Inl ErrCurve512 else Inr c) (\<lambda>c.
        let realUKM = keg_realUKM ukmSource
        in bind_res (KEK2012256 c clientPriv serverPub realUKM) (\<lambda>tmpkey.
          let seed = take 8 (drop 16 ukmSource)
          in bind_res (KDFTree256 tmpkey kdfLabel seed 1 64) (\<lambda>keyout. Inr (copy_into 64 keyout)))))"

lemma KDFTree256_64: "KDFTree256 key label seed 1 64 = Inr (kdf_K key label seed 1 512 1 @ kdf_K key label seed 1 512 2)"
proof -
  obtain out where out: "KDFTree256 key label seed 1 64 = Inr out"
    by (simp add: KDFTree256_def Let_def)
  from KDFTree256_spec(1) [OF this]
  have "out = take 64 (kdf_K key label seed 1 512 1 @ kdf_K key label seed 1 512 2)"
    by (simp add: upt_conv_Cons numeral_2_eq_2 [symmetric])
  then show ?thesis using out by (simp add: kdf_K_def)
qed

lemma KEG2012_256_eq:
  assumes "length ukmSource = 32" "big_BitLen (cv_P c) \<le> 256"
  shows "KEG2012_256 (Some c) serverPub clientPriv ukmSource =
    bind_res (KEK2012256 c clientPriv serverPub (keg_realUKM ukmSource)) (\<lambda>k.
      Inr (kdf_K k kdfLabel (take 8 (drop 16 ukmSource)) 1 512 1 @ kdf_K k kdfLabel (take 8 (drop 16 ukmSource)) 1 512 2))"
  using assms by (simp add: KEG2012_256_def Let_def KDFTree256_64 kdf_K_def not_less)

lemma KEG2012_256_default: "KEG2012_256 None = KEG2012_256 (Some curveTc26256A)"
proof -
  have "big_BitLen (cv_P curveTc26256A) = 256"
    using big_BitLen_eqI [of 255 "cv_P curveTc26256A"] by (simp add: curveTc26256A_def)
  then show ?thesis by (intro ext) (simp add: KEG2012_256_def keg_curveTC26256A_def CurveByOID_def)
qed

section \<open>Properties\<close>

text \<open>
  The two sides of the key exchange derive the same 64 bytes, or the same error, from the same
  source: the first two KDF_TREE blocks of the VKO key, MAC key and cipher key; no panic of
  the expansion is possible. Without a curve it is that of tc26-256-A.
\<close>

theorem KEG_symmetric:
  assumes "sign_domain c" "big_BitLen (cv_P c) \<le> 256" "DeriveQLE c prvA = Inr pubA" "DeriveQLE c prvB = Inr pubB"
    and "length src = 32"
  shows "KEG2012_256 (Some c) pubB prvA src = KEG2012_256 (Some c) pubA prvB src \<and>
    KEG2012_256 (Some c) pubB prvA src = bind_res (KEK2012256 c prvA pubB (keg_realUKM src)) (\<lambda>k.
      Inr (kdf_K k kdfLabel (take 8 (drop 16 src)) 1 512 1 @ kdf_K k kdfLabel (take 8 (drop 16 src)) 1 512 2)) \<and>
    KEG2012_256 None = KEG2012_256 (Some curveTc26256A)"
proof -
  have "KEK2012256 c prvA pubB u = KEK2012256 c prvB pubA u" for u
    using vko_symmetric [OF assms(1,3,4)] by (simp add: KEK2012256_def)
  then show ?thesis using KEG2012_256_eq [OF assms(5,2)] KEG2012_256_default by simp
qed

theorem KEG_symmetric_witness:
  "KEG2012_256 (Some curve5) (le_bytes 32 3 @ le_bytes 32 2) (key5 2) (replicate 32 1) =
   KEG2012_256 (Some curve5) (le_bytes 32 1 @ le_bytes 32 3) (key5 4) (replicate 32 1)"
  using KEG_symmetric [OF curve5_sign_domain _ curve5_DeriveQLE, of "replicate 32 1"] by (simp add: curve5_BitLen)

end
