(* ===== verification/Alias.thy ===== *)
theory Alias
  imports Prelude
begin

text \<open>
  \<^verbatim>\<open>internal/alias\<close>: the overlap checks of the streaming primitives, and what they are for. A
  Go slice is its address and its length in one flat memory; the loops of the stream
  ciphers read \<^verbatim>\<open>src\<close> and write \<^verbatim>\<open>dst\<close> block by block in that memory. When the slices do not
  overlap inexactly, such a loop computes what the list models of the modes compute.
\<close>

section \<open>Slices in memory\<close>

type_synonym memory = "nat \<Rightarrow> byte"
type_synonym mslice = "nat \<times> nat"

definition load :: "memory \<Rightarrow> nat \<Rightarrow> nat \<Rightarrow> bytes" where
  "load mem a n = map mem [a..<a + n]"

definition store :: "memory \<Rightarrow> nat \<Rightarrow> bytes \<Rightarrow> memory" where
  "store mem a bs = (\<lambda>x. if a \<le> x \<and> x < a + length bs then bs ! (x - a) else mem x)"

definition addresses :: "mslice \<Rightarrow> nat set" where
  "addresses = (\<lambda>(a, n). {a..<a + n})"

lemma length_load [simp, len_simps]: "length (load mem a n) = n"
  by (simp add: load_def)

lemma nth_load [simp]: "i < n \<Longrightarrow> load mem a n ! i = mem (a + i)"
  by (simp add: load_def)

lemma load_store_same: "length bs = n \<Longrightarrow> load (store mem a bs) a n = bs"
  by (rule nth_equalityI) (auto simp: store_def)

lemma load_store_other:
  "a + length bs \<le> b \<or> b + n \<le> a \<Longrightarrow> load (store mem a bs) b n = load mem b n"
  by (rule nth_equalityI) (auto simp: store_def)

lemma store_outside: "x < a \<or> a + length bs \<le> x \<Longrightarrow> store mem a bs x = mem x"
  by (auto simp: store_def)

lemma load_append: "load mem a (m + n) = load mem a m @ load mem (a + m) n"
  by (rule nth_equalityI) (auto simp: nth_append)

lemma store_append: "store (store mem a xs) (a + length xs) ys = store mem a (xs @ ys)"
  by (rule ext) (auto simp: store_def nth_append)

lemma store_Nil [simp]: "store mem a [] = mem"
  by (rule ext) (auto simp: store_def)

section \<open>The checks\<close>

text \<open>\<^verbatim>\<open>AnyOverlap\<close> and \<^verbatim>\<open>InexactOverlap\<close>, with the addresses of the first and the last bytes.\<close>

definition alias_AnyOverlap :: "mslice \<Rightarrow> mslice \<Rightarrow> bool" where
  "alias_AnyOverlap = (\<lambda>(x, nx) (y, ny).
     nx > 0 \<and> ny > 0 \<and> x \<le> y + (ny - 1) \<and> y \<le> x + (nx - 1))"

definition alias_InexactOverlap :: "mslice \<Rightarrow> mslice \<Rightarrow> bool" where
  "alias_InexactOverlap = (\<lambda>(x, nx) (y, ny).
     if nx = 0 \<or> ny = 0 \<or> x = y then False else alias_AnyOverlap (x, nx) (y, ny))"

lemma alias_AnyOverlap_iff:
  "alias_AnyOverlap x y \<longleftrightarrow> addresses x \<inter> addresses y \<noteq> {}"
proof -
  obtain a n b m where xy: "x = (a, n)" "y = (b, m)" by (metis surj_pair)
  show ?thesis
  proof
    assume "alias_AnyOverlap x y"
    then have "max a b \<in> {a..<a + n} \<inter> {b..<b + m}"
      by (auto simp: xy alias_AnyOverlap_def)
    then show "addresses x \<inter> addresses y \<noteq> {}"
      by (auto simp: xy addresses_def)
  next
    assume "addresses x \<inter> addresses y \<noteq> {}"
    then show "alias_AnyOverlap x y"
      by (auto simp: xy alias_AnyOverlap_def addresses_def)
  qed
qed

lemma not_inexact_cases:
  assumes "\<not> alias_InexactOverlap (d, n) (s, n)" "0 < n"
  obtains "d = s" | "d + n \<le> s" | "s + n \<le> d"
  using assms by (auto simp: alias_InexactOverlap_def alias_AnyOverlap_def split: if_splits)

section \<open>Block loops in memory\<close>

text \<open>
  \<open>block_loop F m n d s mem\<close> runs \<open>n\<close> steps; step \<open>i\<close> reads the \<open>i\<close>-th block of \<open>m\<close> bytes at
  \<open>s\<close>, transforms it with \<open>F i\<close>, and writes the result as the \<open>i\<close>-th block at \<open>d\<close>.
\<close>

definition block_loop ::
  "(nat \<Rightarrow> bytes \<Rightarrow> bytes) \<Rightarrow> nat \<Rightarrow> nat \<Rightarrow> nat \<Rightarrow> nat \<Rightarrow> memory \<Rightarrow> memory" where
  "block_loop F m n d s mem =
     fold (\<lambda>i mem. store mem (d + m * i) (F i (load mem (s + m * i) m))) [0..<n] mem"

lemma block_loop_Suc:
  "block_loop F m (Suc n) d s mem =
     (let mem' = block_loop F m n d s mem
      in store mem' (d + m * n) (F n (load mem' (s + m * n) m)))"
  by (simp add: block_loop_def Let_def)

lemma block_loop_outside:
  assumes "\<And>i bs. length bs = m \<Longrightarrow> length (F i bs) = m" "x < d \<or> d + m * n \<le> x"
  shows "block_loop F m n d s mem x = mem x"
  using assms(2)
proof (induction n)
  case (Suc n)
  have "length (F n (load mem' a m)) = m" for mem' a
    using assms(1) by simp
  then show ?case
    using Suc by (auto simp: block_loop_Suc Let_def store_def)
qed (simp add: block_loop_def)

lemma block_loop_prefix:
  assumes F: "\<And>i bs. length bs = m \<Longrightarrow> length (F i bs) = m"
    and apart: "d = s \<or> d + m * N \<le> s \<or> s + m * N \<le> d" and "n \<le> N"
  shows "load (block_loop F m n d s mem) d (m * n) =
    concat (map (\<lambda>i. F i (load mem (s + m * i) m)) [0..<n])"
  using \<open>n \<le> N\<close>
proof (induction n)
  case (Suc n)
  let ?mem = "block_loop F m n d s mem"
  have le: "m * n + m \<le> m * N"
    using Suc.prems mult_le_mono2 [of "Suc n" N m] by simp
  have src: "load ?mem (s + m * n) m = load mem (s + m * n) m"
  proof (rule nth_equalityI)
    fix i assume "i < length (load ?mem (s + m * n) m)"
    then have "i < m" by simp
    then have "s + m * n + i < d \<or> d + m * n \<le> s + m * n + i"
      using apart le by auto
    then show "load ?mem (s + m * n) m ! i = load mem (s + m * n) m ! i"
      using block_loop_outside [of m F "s + m * n + i" d n s mem] F \<open>i < m\<close> by (simp add: add.assoc)
  qed simp
  have new: "length (F n (load mem (s + m * n) m)) = m"
    using F by simp
  have "load (block_loop F m (Suc n) d s mem) d (m * n + m) =
      load ?mem d (m * n) @ F n (load mem (s + m * n) m)"
    using new by (simp add: block_loop_Suc Let_def src load_append load_store_same load_store_other)
  then show ?case
    using Suc by (simp add: add.commute)
qed (simp add: block_loop_def load_def)

text \<open>A block loop over slices that do not overlap inexactly writes its result in one store.\<close>

lemma block_loop_store:
  assumes F: "\<And>i bs. length bs = m \<Longrightarrow> length (F i bs) = m"
    and apart: "d = s \<or> d + m * n \<le> s \<or> s + m * n \<le> d"
  shows "block_loop F m n d s mem = store mem d (concat (map (\<lambda>i. F i (load mem (s + m * i) m)) [0..<n]))"
proof (rule ext)
  fix x
  let ?r = "block_loop F m n d s mem" and ?out = "concat (map (\<lambda>i. F i (load mem (s + m * i) m)) [0..<n])"
  have out: "length ?out = m * n" by (intro length_concat_upt F) simp
  show "?r x = store mem d ?out x"
  proof (cases "d \<le> x \<and> x < d + m * n")
    case True
    have "load ?r d (m * n) = ?out" by (rule block_loop_prefix [OF F apart order.refl])
    then have "load ?r d (m * n) ! (x - d) = ?out ! (x - d)" by simp
    moreover have "load ?r d (m * n) ! (x - d) = ?r x" using True by (subst nth_load) auto
    ultimately show ?thesis using True out by (simp add: store_def)
  next
    case False
    then show ?thesis using block_loop_outside [of m F x d n s mem] F out by (auto simp: store_def)
  qed
qed


text \<open>A block loop in two parts.\<close>

lemma block_loop_add:
  "block_loop F m (j + n) d s mem = block_loop (\<lambda>i. F (j + i)) m n (d + m * j) (s + m * j) (block_loop F m j d s mem)"
proof (induction n)
  case (Suc n)
  then show ?case by (simp add: block_loop_Suc Let_def algebra_simps)
qed (simp add: block_loop_def)

text \<open>The contract of a block loop over slices that passed the check.\<close>

lemma block_loop_result:
  assumes F: "\<And>i bs. length bs = m \<Longrightarrow> length (F i bs) = m"
    and ok: "\<not> alias_InexactOverlap (d, m * n) (s, m * n)"
  shows "load (block_loop F m n d s mem) d (m * n) =
    concat (map (\<lambda>i. F i (load mem (s + m * i) m)) [0..<n])"
proof (cases "m * n = 0")
  case True
  then have "length (concat (map (\<lambda>i. F i (load mem (s + m * i) m)) [0..<n])) = 0"
    using length_concat_upt [of n "\<lambda>i. F i (load mem (s + m * i) m)" m] F by simp
  then show ?thesis
    using True by (simp add: load_def)
next
  case False
  then have "d = s \<or> d + m * n \<le> s \<or> s + m * n \<le> d"
    using not_inexact_cases [OF ok] by blast
  then show ?thesis
    by (intro block_loop_prefix [where N = n] F) auto
qed

text \<open>The byte loop \<^verbatim>\<open>dst[i] = src[i] ^ ks[i]\<close> of the stream ciphers is the loop of size one.\<close>

definition xor_loop :: "bytes \<Rightarrow> nat \<Rightarrow> nat \<Rightarrow> memory \<Rightarrow> memory" where
  "xor_loop ks d s mem = fold (\<lambda>i mem. mem(d + i := mem (s + i) XOR ks ! i)) [0..<length ks] mem"

lemma xor_loop_block_loop:
  "xor_loop ks d s mem = block_loop (\<lambda>i bs. [bs ! 0 XOR ks ! i]) 1 (length ks) d s mem"
proof -
  have "mem(d + i := mem (s + i) XOR ks ! i) = store mem (d + 1 * i) [load mem (s + 1 * i) 1 ! 0 XOR ks ! i]"
    for i and mem :: memory
    by (rule ext) (auto simp: store_def)
  then show ?thesis
    by (simp only: xor_loop_def block_loop_def)
qed

lemma xor_loop_result:
  assumes "\<not> alias_InexactOverlap (d, length ks) (s, length ks)"
  shows "load (xor_loop ks d s mem) d (length ks) = xor_bytes (load mem s (length ks)) ks"
proof -
  have "load (xor_loop ks d s mem) d (length ks) =
      concat (map (\<lambda>i. [load mem (s + i) 1 ! 0 XOR ks ! i]) [0..<length ks])"
    using block_loop_result [of 1 "\<lambda>i bs. [bs ! 0 XOR ks ! i]" d "length ks" s mem] assms
    by (simp add: xor_loop_block_loop)
  also have "\<dots> = map (\<lambda>i. mem (s + i) XOR ks ! i) [0..<length ks]"
    by (simp add: concat_map_singleton)
  also have "\<dots> = xor_bytes (load mem s (length ks)) ks"
    by (rule nth_equalityI) auto
  finally show ?thesis .
qed

lemma xor_loop_outside:
  "x < d \<or> d + length ks \<le> x \<Longrightarrow> xor_loop ks d s mem x = mem x"
  using block_loop_outside [of 1 "\<lambda>i bs. [bs ! 0 XOR ks ! i]" x d "length ks" s mem]
  by (simp add: xor_loop_block_loop)

text \<open>The byte loop over slices that do not overlap inexactly is one store.\<close>

lemma xor_loop_store:
  assumes "\<not> alias_InexactOverlap (d, length ks) (s, length ks)"
  shows "xor_loop ks d s mem = store mem d (xor_bytes (load mem s (length ks)) ks)"
proof (rule ext)
  fix x
  show "xor_loop ks d s mem x = store mem d (xor_bytes (load mem s (length ks)) ks) x"
  proof (cases "d \<le> x \<and> x < d + length ks")
    case True
    then have "xor_loop ks d s mem x = load (xor_loop ks d s mem) d (length ks) ! (x - d)"
      by (subst nth_load) auto
    then show ?thesis using True by (simp add: xor_loop_result [OF assms] store_def)
  next
    case False
    then show ?thesis using xor_loop_outside [of x d ks s mem] by (auto simp: store_def)
  qed
qed

section \<open>Properties\<close>

text \<open>
  The overlap check decides what it promises: two slices overlap inexactly if and only
  if they share an address and do not start at the same one.
\<close>

theorem alias_InexactOverlap_exact:
  "alias_InexactOverlap x y \<longleftrightarrow> addresses x \<inter> addresses y \<noteq> {} \<and> fst x \<noteq> fst y"
  by (cases x; cases y) (auto simp: alias_InexactOverlap_def alias_AnyOverlap_iff addresses_def)

end
