(* ===== verification/Kuznyechik.thy ===== *)
theory Kuznyechik
  imports Block_Cipher
begin

unbundle bit_operations_syntax

text \<open>
  \<^verbatim>\<open>kuznyechik/kuznyechik.go\<close>: the GOST R 34.12-2015 cipher Kuznyechik. The reference
  transforms (\<^verbatim>\<open>gf\<close>, \<^verbatim>\<open>s\<close>, \<^verbatim>\<open>r\<close>, \<^verbatim>\<open>l\<close> and their inverses), the tables the package
  builds from them, and the rounds over the tables. A block is a list of 16 bytes, most
  significant first, as the Go arrays are.
\<close>

section \<open>Tables of the source\<close>

definition kuz_pi :: "byte list" where
  "kuz_pi = [
    0xFC, 0xEE, 0xDD, 0x11, 0xCF, 0x6E, 0x31, 0x16, 0xFB, 0xC4, 0xFA, 0xDA, 0x23, 0xC5, 0x04, 0x4D,
    0xE9, 0x77, 0xF0, 0xDB, 0x93, 0x2E, 0x99, 0xBA, 0x17, 0x36, 0xF1, 0xBB, 0x14, 0xCD, 0x5F, 0xC1,
    0xF9, 0x18, 0x65, 0x5A, 0xE2, 0x5C, 0xEF, 0x21, 0x81, 0x1C, 0x3C, 0x42, 0x8B, 0x01, 0x8E, 0x4F,
    0x05, 0x84, 0x02, 0xAE, 0xE3, 0x6A, 0x8F, 0xA0, 0x06, 0x0B, 0xED, 0x98, 0x7F, 0xD4, 0xD3, 0x1F,
    0xEB, 0x34, 0x2C, 0x51, 0xEA, 0xC8, 0x48, 0xAB, 0xF2, 0x2A, 0x68, 0xA2, 0xFD, 0x3A, 0xCE, 0xCC,
    0xB5, 0x70, 0x0E, 0x56, 0x08, 0x0C, 0x76, 0x12, 0xBF, 0x72, 0x13, 0x47, 0x9C, 0xB7, 0x5D, 0x87,
    0x15, 0xA1, 0x96, 0x29, 0x10, 0x7B, 0x9A, 0xC7, 0xF3, 0x91, 0x78, 0x6F, 0x9D, 0x9E, 0xB2, 0xB1,
    0x32, 0x75, 0x19, 0x3D, 0xFF, 0x35, 0x8A, 0x7E, 0x6D, 0x54, 0xC6, 0x80, 0xC3, 0xBD, 0x0D, 0x57,
    0xDF, 0xF5, 0x24, 0xA9, 0x3E, 0xA8, 0x43, 0xC9, 0xD7, 0x79, 0xD6, 0xF6, 0x7C, 0x22, 0xB9, 0x03,
    0xE0, 0x0F, 0xEC, 0xDE, 0x7A, 0x94, 0xB0, 0xBC, 0xDC, 0xE8, 0x28, 0x50, 0x4E, 0x33, 0x0A, 0x4A,
    0xA7, 0x97, 0x60, 0x73, 0x1E, 0x00, 0x62, 0x44, 0x1A, 0xB8, 0x38, 0x82, 0x64, 0x9F, 0x26, 0x41,
    0xAD, 0x45, 0x46, 0x92, 0x27, 0x5E, 0x55, 0x2F, 0x8C, 0xA3, 0xA5, 0x7D, 0x69, 0xD5, 0x95, 0x3B,
    0x07, 0x58, 0xB3, 0x40, 0x86, 0xAC, 0x1D, 0xF7, 0x30, 0x37, 0x6B, 0xE4, 0x88, 0xD9, 0xE7, 0x89,
    0xE1, 0x1B, 0x83, 0x49, 0x4C, 0x3F, 0xF8, 0xFE, 0x8D, 0x53, 0xAA, 0x90, 0xCA, 0xD8, 0x85, 0x61,
    0x20, 0x71, 0x67, 0xA4, 0x2D, 0x2B, 0x09, 0x5B, 0xCB, 0x9B, 0x25, 0xD0, 0xBE, 0xE5, 0x6C, 0x52,
    0x59, 0xA6, 0x74, 0xD2, 0xE6, 0xF4, 0xB4, 0xC0, 0xD1, 0x66, 0xAF, 0xC2, 0x39, 0x4B, 0x63, 0xB6]"

text \<open>\<^verbatim>\<open>piInv\<close> is filled by the loop \<^verbatim>\<open>piInv[pi[i]] = byte(i)\<close> of \<^verbatim>\<open>init\<close>.\<close>

definition kuz_piInv :: "byte list" where
  "kuz_piInv = fold (\<lambda>i t. t[unat (kuz_pi ! i) := word_of_nat i]) [0..<256] (replicate 256 0)"

definition kuz_lc :: "byte list" where
  "kuz_lc = [
    0x94, 0x20, 0x85, 0x10, 0xC2, 0xC0, 0x01, 0xFB,
    0x01, 0xC0, 0xC2, 0x10, 0x85, 0x20, 0x94, 0x01]"

section \<open>The reference transforms\<close>

text \<open>The loop of \<^verbatim>\<open>gf\<close>: \<open>c\<close> accumulates, \<open>a\<close> is multiplied by \<open>x\<close>, \<open>b\<close> shifts out.\<close>

definition gf_xtime :: "byte \<Rightarrow> byte" where
  "gf_xtime a = (if a AND 0x80 \<noteq> 0 then push_bit 1 a XOR 0xC3 else push_bit 1 a)"

function gf_loop :: "byte \<Rightarrow> byte \<Rightarrow> byte \<Rightarrow> byte" where
  "gf_loop a b c =
     (if 0 < b
      then gf_loop (gf_xtime a) (drop_bit 1 b) (if b AND 1 \<noteq> 0 then c XOR a else c)
      else c)"
  by pat_completeness auto
termination
proof (relation "measure (\<lambda>(a, b, c). unat b)", goal_cases)
  case (2 a b c)
  then have "unat b div 2 < unat b"
    by (simp add: unat_gt_0 word_gt_0_no)
  then show ?case
    by (simp add: drop_bit_Suc unat_div)
qed simp

definition kuz_gf :: "byte \<Rightarrow> byte \<Rightarrow> byte" where
  "kuz_gf a b = gf_loop a b 0"

definition kuz_s :: "bytes \<Rightarrow> bytes" where
  "kuz_s blk = map (\<lambda>b. kuz_pi ! unat b) blk"

definition kuz_sInv :: "bytes \<Rightarrow> bytes" where
  "kuz_sInv blk = map (\<lambda>b. kuz_piInv ! unat b) blk"

definition kuz_r :: "bytes \<Rightarrow> bytes" where
  "kuz_r blk =
     (let t = fold (\<lambda>i t. t XOR kuz_gf (blk ! i) (kuz_lc ! i)) [0..<15] (blk ! 15)
      in t # take 15 blk)"

definition kuz_rInv :: "bytes \<Rightarrow> bytes" where
  "kuz_rInv blk =
     (let t = blk ! 0;
          acc = fold (\<lambda>i acc. acc XOR kuz_gf (blk ! (i + 1)) (kuz_lc ! i)) [0..<15] 0
      in drop 1 blk @ [t XOR acc])"

definition kuz_l :: "bytes \<Rightarrow> bytes" where
  "kuz_l blk = (kuz_r ^^ 16) blk"

definition kuz_lInv :: "bytes \<Rightarrow> bytes" where
  "kuz_lInv blk = (kuz_rInv ^^ 16) blk"

text \<open>\<open>unit16 pos b\<close> is the otherwise zero block the tables are built from.\<close>

definition unit16 :: "nat \<Rightarrow> byte \<Rightarrow> bytes" where
  "unit16 pos b = (replicate 16 0)[pos := b]"

definition kuz_cnst :: "bytes list" where
  "kuz_cnst = map (\<lambda>i. kuz_l (unit16 15 (word_of_nat (i + 1)))) [0..<32]"

section \<open>Packed entries and the fused tables\<close>

type_synonym entry = "u64 \<times> u64"

definition packEntry :: "bytes \<Rightarrow> entry" where
  "packEntry b = (be_word (slice 0 8 b), be_word (slice 8 8 b))"

definition unpackEntry :: "entry \<Rightarrow> bytes" where
  "unpackEntry e = word_be 8 (fst e) @ word_be 8 (snd e)"

definition encTable :: "entry list list" where
  "encTable = map (\<lambda>pos. map (\<lambda>b. packEntry (kuz_l (unit16 pos (kuz_pi ! b)))) [0..<256]) [0..<16]"

definition lInvTable :: "entry list list" where
  "lInvTable = map (\<lambda>pos. map (\<lambda>b. packEntry (kuz_lInv (unit16 pos (word_of_nat b)))) [0..<256]) [0..<16]"

text \<open>The common body of \<^verbatim>\<open>slEncrypt\<close> and \<^verbatim>\<open>lInvFast\<close>: sixteen loads folded with XOR.\<close>

definition table_fold :: "entry list list \<Rightarrow> bytes \<Rightarrow> bytes" where
  "table_fold tbl blk =
     unpackEntry (fold (\<lambda>pos (hi, lo).
         (hi XOR fst (tbl ! pos ! unat (blk ! pos)), lo XOR snd (tbl ! pos ! unat (blk ! pos))))
       [0..<16] (0, 0))"

definition slEncrypt :: "bytes \<Rightarrow> bytes" where
  "slEncrypt blk = table_fold encTable blk"

definition lInvFast :: "bytes \<Rightarrow> bytes" where
  "lInvFast blk = table_fold lInvTable blk"

section \<open>GF(2)-linearity of the linear half\<close>

lemma gf_xtime_xor: "gf_xtime (a XOR b) = gf_xtime a XOR gf_xtime b"
proof -
  have b7: "x AND 0x80 \<noteq> 0 \<longleftrightarrow> bit x 7" for x :: byte
    using and_exp_eq_0_iff_not_bit [of x 7] by simp
  show ?thesis
    by (rule bit_word_eqI) (simp add: gf_xtime_def b7 bit_simps; blast)
qed

declare gf_loop.simps [simp del]

lemma gf_loop_xor:
  "gf_loop (a XOR a') b (c XOR c') = gf_loop a b c XOR gf_loop a' b c'"
proof (induction a b c arbitrary: a' c' rule: gf_loop.induct)
  case (1 a b c)
  show ?case
  proof (cases "0 < b")
    case True
    have "gf_loop (gf_xtime a XOR gf_xtime a') (drop_bit 1 b)
        ((if b AND 1 \<noteq> 0 then c XOR a else c) XOR (if b AND 1 \<noteq> 0 then c' XOR a' else c')) =
      gf_loop (gf_xtime a) (drop_bit 1 b) (if b AND 1 \<noteq> 0 then c XOR a else c) XOR
      gf_loop (gf_xtime a') (drop_bit 1 b) (if b AND 1 \<noteq> 0 then c' XOR a' else c')"
      by (rule "1.IH" [OF True])
    moreover have "(if b AND 1 \<noteq> 0 then (c XOR c') XOR (a XOR a') else c XOR c') =
      (if b AND 1 \<noteq> 0 then c XOR a else c) XOR (if b AND 1 \<noteq> 0 then c' XOR a' else c')"
      by (simp add: ac_simps)
    ultimately show ?thesis
      using True by (simp only: gf_loop.simps [of _ b] gf_xtime_xor if_True)
  next
    case False
    then show ?thesis by (simp add: gf_loop.simps [of _ b])
  qed
qed

lemma kuz_gf_xor: "kuz_gf (a XOR a') b = kuz_gf a b XOR kuz_gf a' b"
  using gf_loop_xor [of a a' b 0 0] by (simp add: kuz_gf_def)

text \<open>A map on 16-byte blocks that is linear over GF(2) and keeps the length.\<close>

definition lin16 :: "(bytes \<Rightarrow> bytes) \<Rightarrow> bool" where
  "lin16 f \<longleftrightarrow>
     (\<forall>x. length x = 16 \<longrightarrow> length (f x) = 16) \<and>
     (\<forall>x y. length x = 16 \<longrightarrow> length y = 16 \<longrightarrow> f (xor_bytes x y) = xor_bytes (f x) (f y))"

lemma lin16_length: "lin16 f \<Longrightarrow> length x = 16 \<Longrightarrow> length (f x) = 16"
  by (simp add: lin16_def)

lemma lin16_xor:
  "lin16 f \<Longrightarrow> length x = 16 \<Longrightarrow> length y = 16 \<Longrightarrow> f (xor_bytes x y) = xor_bytes (f x) (f y)"
  by (simp add: lin16_def)

lemma lin16_funpow: "lin16 f \<Longrightarrow> lin16 (f ^^ n)"
  by (induction n) (auto simp: lin16_def)

lemma lin16_zero: "lin16 f \<Longrightarrow> f (replicate 16 0) = replicate 16 0"
  using lin16_xor [of f "replicate 16 0" "replicate 16 0"] lin16_length [of f "replicate 16 0"]
  by (simp add: xor_bytes_self)

text \<open>A fold of XORs of terms that are additive in the block is additive in the block.\<close>

lemma fold_xor_acc:
  fixes g :: "nat \<Rightarrow> 'a::len word"
  shows "fold (\<lambda>i t. t XOR g i) xs t0 = t0 XOR fold (\<lambda>i t. t XOR g i) xs 0"
proof (induction xs arbitrary: t0)
  case (Cons i xs)
  show ?case
    using Cons.IH [of "t0 XOR g i"] Cons.IH [of "g i"] by (simp add: xor.assoc)
qed simp

lemma fold_xor_add:
  fixes g h k :: "nat \<Rightarrow> 'a::len word"
  assumes "\<And>i. i \<in> set xs \<Longrightarrow> k i = g i XOR h i"
  shows "fold (\<lambda>i t. t XOR k i) xs (t XOR u) =
    fold (\<lambda>i t. t XOR g i) xs t XOR fold (\<lambda>i t. t XOR h i) xs u"
  using assms
proof (induction xs arbitrary: t u)
  case (Cons i xs)
  have "(t XOR u) XOR k i = (t XOR g i) XOR (u XOR h i)"
    using Cons.prems [of i] by (simp add: ac_simps)
  then show ?case
    using Cons.IH [of "t XOR g i" "u XOR h i"] Cons.prems by simp
qed simp

lemma kuz_r_lin: "lin16 kuz_r"
proof -
  have "kuz_r (xor_bytes x y) = xor_bytes (kuz_r x) (kuz_r y)"
    if "length x = 16" "length y = 16" for x y
  proof -
    have "fold (\<lambda>i t. t XOR kuz_gf (xor_bytes x y ! i) (kuz_lc ! i)) [0..<15] (xor_bytes x y ! 15) =
      fold (\<lambda>i t. t XOR kuz_gf (x ! i) (kuz_lc ! i)) [0..<15] (x ! 15) XOR
      fold (\<lambda>i t. t XOR kuz_gf (y ! i) (kuz_lc ! i)) [0..<15] (y ! 15)"
     
    proof -
      have "xor_bytes x y ! 15 = x ! 15 XOR y ! 15"
        using that by simp
      then show ?thesis
        using that by (simp only:) (rule fold_xor_add, simp add: kuz_gf_xor)
    qed
    then show ?thesis
      by (simp add: kuz_r_def Let_def take_xor_bytes del: upt_rec_numeral)
  qed
  then show ?thesis
    by (simp add: lin16_def kuz_r_def Let_def)
qed

lemma kuz_rInv_lin: "lin16 kuz_rInv"
proof -
  have "kuz_rInv (xor_bytes x y) = xor_bytes (kuz_rInv x) (kuz_rInv y)"
    if "length x = 16" "length y = 16" for x y
  proof -
    have "fold (\<lambda>i t. t XOR kuz_gf (xor_bytes x y ! (i + 1)) (kuz_lc ! i)) [0..<15] 0 =
      fold (\<lambda>i t. t XOR kuz_gf (x ! (i + 1)) (kuz_lc ! i)) [0..<15] 0 XOR
      fold (\<lambda>i t. t XOR kuz_gf (y ! (i + 1)) (kuz_lc ! i)) [0..<15] 0"
    proof -
      have "fold (\<lambda>i t. t XOR kuz_gf (xor_bytes x y ! (i + 1)) (kuz_lc ! i)) [0..<15] (0 XOR 0) =
        fold (\<lambda>i t. t XOR kuz_gf (x ! (i + 1)) (kuz_lc ! i)) [0..<15] 0 XOR
        fold (\<lambda>i t. t XOR kuz_gf (y ! (i + 1)) (kuz_lc ! i)) [0..<15] 0"
        using that by (intro fold_xor_add) (simp add: kuz_gf_xor)
      then show ?thesis by simp
    qed
    then show ?thesis
      using that
      by (simp add: kuz_rInv_def Let_def drop_xor_bytes xor_bytes_append ac_simps del: upt_rec_numeral)
  qed
  then show ?thesis
    by (simp add: lin16_def kuz_rInv_def Let_def)
qed

lemma kuz_l_lin: "lin16 kuz_l"
  using lin16_funpow [OF kuz_r_lin, of 16] by (simp add: lin16_def kuz_l_def)

lemma kuz_lInv_lin: "lin16 kuz_lInv"
  using lin16_funpow [OF kuz_rInv_lin, of 16] by (simp add: lin16_def kuz_lInv_def)

lemmas length_kuz_lin [len_simps] =
  lin16_length [OF kuz_r_lin] lin16_length [OF kuz_rInv_lin]
  lin16_length [OF kuz_l_lin] lin16_length [OF kuz_lInv_lin]

section \<open>The transforms and their inverses\<close>

lemma kuz_rInv_r:
  assumes "length x = 16"
  shows "kuz_rInv (kuz_r x) = x"
proof -
  let ?g = "\<lambda>i t. t XOR kuz_gf (x ! i) (kuz_lc ! i)"
  have "fold (\<lambda>i acc. acc XOR kuz_gf (take 15 x ! i) (kuz_lc ! i)) [0..<15] 0 = fold ?g [0..<15] 0"
    by (rule fold_cong) (auto simp del: upt_rec_numeral)
  moreover have "fold ?g [0..<15] (x ! 15) = x ! 15 XOR fold ?g [0..<15] 0"
    by (rule fold_xor_acc)
  moreover have "take 15 x @ [x ! 15] = x"
    using assms take_Suc_conv_app_nth [of 15 x] by simp
  ultimately show ?thesis
    by (simp add: kuz_rInv_def kuz_r_def Let_def xor.assoc del: upt_rec_numeral)
qed

lemma kuz_r_rInv:
  assumes "length x = 16"
  shows "kuz_r (kuz_rInv x) = x"
proof -
  let ?g = "\<lambda>i t. t XOR kuz_gf (x ! (i + 1)) (kuz_lc ! i)"
  define acc where "acc = fold ?g [0..<15] 0"
  define y where "y = drop 1 x @ [x ! 0 XOR acc]"
  have y: "kuz_rInv x = y"
    by (simp add: kuz_rInv_def Let_def y_def acc_def del: upt_rec_numeral)
  have "fold (\<lambda>i t. t XOR kuz_gf (y ! i) (kuz_lc ! i)) [0..<15] (y ! 15) = fold ?g [0..<15] (y ! 15)"
    using assms by (intro fold_cong) (auto simp: y_def nth_append simp del: upt_rec_numeral)
  also have "\<dots> = (x ! 0 XOR acc) XOR acc"
    using assms fold_xor_acc [of "\<lambda>i. kuz_gf (x ! (i + 1)) (kuz_lc ! i)" "[0..<15]" "y ! 15"]
    by (simp add: y_def acc_def nth_append del: upt_rec_numeral)
  finally have "kuz_r y = x ! 0 # take 15 y"
    by (simp add: kuz_r_def Let_def xor.assoc del: upt_rec_numeral)
  also have "\<dots> = x"
    using assms by (cases x) (simp_all add: y_def)
  finally show ?thesis by (simp add: y)
qed

lemma funpow_length:
  fixes f :: "bytes \<Rightarrow> bytes"
  assumes "\<And>x. length x = n \<Longrightarrow> length (f x) = n" "length x = n"
  shows "length ((f ^^ k) x) = n"
  by (induction k) (simp_all add: assms)

lemma funpow_inverse:
  fixes f g :: "bytes \<Rightarrow> bytes"
  assumes "\<And>x. length x = n \<Longrightarrow> g (f x) = x" "\<And>x. length x = n \<Longrightarrow> length (f x) = n"
    and "length x = n"
  shows "(g ^^ k) ((f ^^ k) x) = x"
  using assms(3)
proof (induction k arbitrary: x)
  case (Suc k)
  have "length ((f ^^ k) x) = n"
    using assms(2) Suc.prems by (rule funpow_length)
  then have "(g ^^ k) (g (f ((f ^^ k) x))) = (g ^^ k) ((f ^^ k) x)"
    by (simp add: assms(1))
  then show ?case
    using Suc by (simp add: funpow_swap1)
qed simp

lemma kuz_lInv_l: "length x = 16 \<Longrightarrow> kuz_lInv (kuz_l x) = x"
  unfolding kuz_l_def kuz_lInv_def
  by (rule funpow_inverse [where n = 16]) (auto simp: kuz_rInv_r len_simps)

lemma kuz_l_lInv: "length x = 16 \<Longrightarrow> kuz_l (kuz_lInv x) = x"
  unfolding kuz_l_def kuz_lInv_def
  by (rule funpow_inverse [where n = 16]) (auto simp: kuz_r_rInv len_simps)

section \<open>The S-box and its inverse table\<close>

lemma length_kuz_pi [simp]: "length kuz_pi = 256"
  by (simp add: kuz_pi_def)

text \<open>The inverse table written out, only to show that \<^verbatim>\<open>pi\<close> is a permutation.\<close>

definition pi_inverse_list :: "nat list" where
  "pi_inverse_list = [
    0xA5, 0x2D, 0x32, 0x8F, 0x0E, 0x30, 0x38, 0xC0, 0x54, 0xE6, 0x9E, 0x39, 0x55, 0x7E, 0x52, 0x91,
    0x64, 0x03, 0x57, 0x5A, 0x1C, 0x60, 0x07, 0x18, 0x21, 0x72, 0xA8, 0xD1, 0x29, 0xC6, 0xA4, 0x3F,
    0xE0, 0x27, 0x8D, 0x0C, 0x82, 0xEA, 0xAE, 0xB4, 0x9A, 0x63, 0x49, 0xE5, 0x42, 0xE4, 0x15, 0xB7,
    0xC8, 0x06, 0x70, 0x9D, 0x41, 0x75, 0x19, 0xC9, 0xAA, 0xFC, 0x4D, 0xBF, 0x2A, 0x73, 0x84, 0xD5,
    0xC3, 0xAF, 0x2B, 0x86, 0xA7, 0xB1, 0xB2, 0x5B, 0x46, 0xD3, 0x9F, 0xFD, 0xD4, 0x0F, 0x9C, 0x2F,
    0x9B, 0x43, 0xEF, 0xD9, 0x79, 0xB6, 0x53, 0x7F, 0xC1, 0xF0, 0x23, 0xE7, 0x25, 0x5E, 0xB5, 0x1E,
    0xA2, 0xDF, 0xA6, 0xFE, 0xAC, 0x22, 0xF9, 0xE2, 0x4A, 0xBC, 0x35, 0xCA, 0xEE, 0x78, 0x05, 0x6B,
    0x51, 0xE1, 0x59, 0xA3, 0xF2, 0x71, 0x56, 0x11, 0x6A, 0x89, 0x94, 0x65, 0x8C, 0xBB, 0x77, 0x3C,
    0x7B, 0x28, 0xAB, 0xD2, 0x31, 0xDE, 0xC4, 0x5F, 0xCC, 0xCF, 0x76, 0x2C, 0xB8, 0xD8, 0x2E, 0x36,
    0xDB, 0x69, 0xB3, 0x14, 0x95, 0xBE, 0x62, 0xA1, 0x3B, 0x16, 0x66, 0xE9, 0x5C, 0x6C, 0x6D, 0xAD,
    0x37, 0x61, 0x4B, 0xB9, 0xE3, 0xBA, 0xF1, 0xA0, 0x85, 0x83, 0xDA, 0x47, 0xC5, 0xB0, 0x33, 0xFA,
    0x96, 0x6F, 0x6E, 0xC2, 0xF6, 0x50, 0xFF, 0x5D, 0xA9, 0x8E, 0x17, 0x1B, 0x97, 0x7D, 0xEC, 0x58,
    0xF7, 0x1F, 0xFB, 0x7C, 0x09, 0x0D, 0x7A, 0x67, 0x45, 0x87, 0xDC, 0xE8, 0x4F, 0x1D, 0x4E, 0x04,
    0xEB, 0xF8, 0xF3, 0x3E, 0x3D, 0xBD, 0x8A, 0x88, 0xDD, 0xCD, 0x0B, 0x13, 0x98, 0x02, 0x93, 0x80,
    0x90, 0xD0, 0x24, 0x34, 0xCB, 0xED, 0xF4, 0xCE, 0x99, 0x10, 0x44, 0x40, 0x92, 0x3A, 0x01, 0x26,
    0x12, 0x1A, 0x48, 0x68, 0xF5, 0x81, 0x8B, 0xC7, 0xD6, 0x20, 0x0A, 0x08, 0x00, 0x4C, 0xD7, 0x74]"

lemma pi_inverse_ascending: "sorted_wrt (<) (map (\<lambda>v. pi_inverse_list ! unat v) kuz_pi)"
  by (simp add: kuz_pi_def pi_inverse_list_def sorted_wrt1 sorted_wrt2 transp_on_less del: sorted_wrt.simps(2))

lemma distinct_kuz_pi: "distinct kuz_pi"
  using pi_inverse_ascending by (simp add: strict_sorted_iff distinct_map)

lemma length_fold_update:
  "length (fold (\<lambda>i t. t[f i := g i]) xs t0) = length t0"
  by (induction xs arbitrary: t0) auto

lemma nth_fold_update_other:
  "k \<notin> f ` set xs \<Longrightarrow> fold (\<lambda>i t. t[f i := g i]) xs t0 ! k = t0 ! k"
  by (induction xs arbitrary: t0) auto

lemma nth_fold_update:
  assumes "distinct (map f xs)" "i \<in> set xs" "f i < length t0"
  shows "fold (\<lambda>i t. t[f i := g i]) xs t0 ! f i = g i"
  using assms
proof (induction xs arbitrary: t0)
  case (Cons x xs)
  then show ?case
    by (cases "i = x") (auto simp: nth_fold_update_other image_iff)
qed simp

lemma kuz_piInv_pi:
  assumes "i < 256"
  shows "kuz_piInv ! unat (kuz_pi ! i) = word_of_nat i"
proof -
  have "distinct (map (\<lambda>i. unat (kuz_pi ! i)) [0..<256])"
    using distinct_kuz_pi
    by (auto simp: distinct_map inj_on_def distinct_conv_nth word_unat_eq_iff simp del: upt_rec_numeral)
  moreover have "unat (kuz_pi ! i) < length (replicate 256 (0 :: byte))"
    using unsigned_less [of "kuz_pi ! i", where ?'a = nat] by simp
  ultimately show ?thesis
    unfolding kuz_piInv_def
    using assms by (intro nth_fold_update) (simp_all del: upt_rec_numeral)
qed

lemma kuz_piInv_pi_byte [simp]: "kuz_piInv ! unat (kuz_pi ! unat b) = b"
  by (simp add: kuz_piInv_pi)

lemma kuz_pi_piInv_byte [simp]: "kuz_pi ! unat (kuz_piInv ! unat b) = b"
proof -
  have "inj (\<lambda>b :: byte. kuz_pi ! unat b)"
    by (metis injI kuz_piInv_pi_byte)
  then have "surj (\<lambda>b :: byte. kuz_pi ! unat b)"
    by (simp add: finite_UNIV_inj_surj)
  then obtain a where "b = kuz_pi ! unat (a :: byte)"
    by (metis surjD)
  then show ?thesis by simp
qed

lemma kuz_sInv_s [simp]: "kuz_sInv (kuz_s x) = x"
  by (simp add: kuz_sInv_def kuz_s_def map_idI)

lemma kuz_s_sInv [simp]: "kuz_s (kuz_sInv x) = x"
  by (simp add: kuz_sInv_def kuz_s_def map_idI)

lemma length_kuz_s [simp, len_simps]: "length (kuz_s x) = length x" "length (kuz_sInv x) = length x"
  by (simp_all add: kuz_s_def kuz_sInv_def)

section \<open>The table path computes the reference transforms\<close>

lemma unpack_packEntry [simp]: "length b = 16 \<Longrightarrow> unpackEntry (packEntry b) = b"
  by (simp add: unpackEntry_def packEntry_def slice_def)

lemma length_unpackEntry [simp, len_simps]: "length (unpackEntry e) = 16"
  by (simp add: unpackEntry_def)

lemma word_be_xor: "word_be n (v XOR w) = xor_bytes (word_be n v) (word_be n w)"
  by (simp add: word_be_def word_le_xor xor_bytes_def zip_rev rev_map)

lemma unpackEntry_xor:
  "unpackEntry (fst e XOR fst f, snd e XOR snd f) = xor_bytes (unpackEntry e) (unpackEntry f)"
  by (simp add: unpackEntry_def word_be_xor xor_bytes_append)

lemma unpackEntry_0: "unpackEntry (0, 0) = replicate 16 0"
proof -
  have "word_be 8 (0 :: u64) = replicate 8 0"
    by (simp add: word_be_def numeral_eq_Suc)
  then show ?thesis by (simp add: unpackEntry_def flip: replicate_add)
qed

lemma length_unit16 [simp, len_simps]: "length (unit16 pos b) = 16"
  by (simp add: unit16_def)

text \<open>
  The first \<open>k\<close> bytes of a block with zeros behind them: what \<open>k\<close> iterations of a table
  loop have accounted for.
\<close>

definition prefix16 :: "nat \<Rightarrow> bytes \<Rightarrow> bytes" where
  "prefix16 k x = take k x @ replicate (16 - k) 0"

lemma length_prefix16 [simp]: "length x = 16 \<Longrightarrow> k \<le> 16 \<Longrightarrow> length (prefix16 k x) = 16"
  by (simp add: prefix16_def)

lemma prefix16_Suc:
  assumes "length x = 16" "k < 16"
  shows "prefix16 (Suc k) x = xor_bytes (prefix16 k x) (unit16 k (x ! k))"
proof (rule nth_equalityI)
  show "length (prefix16 (Suc k) x) = length (xor_bytes (prefix16 k x) (unit16 k (x ! k)))"
    using assms by simp
next
  fix i assume "i < length (prefix16 (Suc k) x)"
  then have "i < 16"
    using assms by simp
  then show "prefix16 (Suc k) x ! i = xor_bytes (prefix16 k x) (unit16 k (x ! k)) ! i"
    using assms by (auto simp: prefix16_def unit16_def nth_append nth_list_update)
qed

lemma fold_table_prefix:
  assumes f: "lin16 f" and x: "length x = 16" and "k \<le> 16"
    and tbl: "\<And>pos. pos < 16 \<Longrightarrow> T pos = packEntry (f (unit16 pos (x ! pos)))"
  shows "unpackEntry (fold (\<lambda>pos (hi, lo). (hi XOR fst (T pos), lo XOR snd (T pos))) [0..<k] (0, 0)) =
    f (prefix16 k x)"
  using \<open>k \<le> 16\<close>
proof (induction k)
  case 0
  then show ?case
    using lin16_zero [OF f] by (simp add: prefix16_def unpackEntry_0)
next
  case (Suc k)
  obtain hi lo where acc:
    "fold (\<lambda>pos (hi, lo). (hi XOR fst (T pos), lo XOR snd (T pos))) [0..<k] (0, 0) = (hi, lo)"
    by fastforce
  have "f (prefix16 (Suc k) x) = xor_bytes (f (prefix16 k x)) (f (unit16 k (x ! k)))"
    using Suc.prems x by (simp add: prefix16_Suc lin16_xor [OF f])
  also have "f (prefix16 k x) = unpackEntry (hi, lo)"
    using Suc by (simp add: acc)
  also have "f (unit16 k (x ! k)) = unpackEntry (T k)"
    using Suc.prems by (simp add: tbl lin16_length [OF f])
  finally show ?case
    using unpackEntry_xor [of "(hi, lo)" "T k"] by (simp add: acc)
qed

lemma table_fold_lin:
  assumes f: "lin16 f" and x: "length x = 16" and g: "length (map g x) = 16"
    and tbl: "\<And>pos b. pos < 16 \<Longrightarrow> tbl ! pos ! unat b = packEntry (f (unit16 pos (g b)))"
  shows "table_fold tbl x = f (map g x)"
proof -
  have "table_fold tbl x = f (prefix16 16 (map g x))"
    unfolding table_fold_def
    by (rule fold_table_prefix [OF f g order.refl]) (simp add: x tbl)
  then show ?thesis
    using x by (simp add: prefix16_def)
qed

lemma encTable_nth:
  "pos < 16 \<Longrightarrow> encTable ! pos ! unat b = packEntry (kuz_l (unit16 pos (kuz_pi ! unat (b :: byte))))"
  by (simp add: encTable_def del: upt_rec_numeral)

lemma lInvTable_nth:
  "pos < 16 \<Longrightarrow> lInvTable ! pos ! unat b = packEntry (kuz_lInv (unit16 pos (b :: byte)))"
  by (simp add: lInvTable_def del: upt_rec_numeral)

lemma slEncrypt_eq: "length x = 16 \<Longrightarrow> slEncrypt x = kuz_l (kuz_s x)"
  unfolding slEncrypt_def kuz_s_def
  by (rule table_fold_lin [OF kuz_l_lin]) (simp_all add: encTable_nth)

lemma lInvFast_eq: "length x = 16 \<Longrightarrow> lInvFast x = kuz_lInv x"
  using table_fold_lin [OF kuz_lInv_lin, of x "\<lambda>b. b" lInvTable]
  by (simp add: lInvFast_def lInvTable_nth)

end
