(* ===== verification/KuznyechikCT.thy ===== *)
theory KuznyechikCT
  imports Kuznyechik CT
begin

unbundle bit_operations_syntax

text \<open>
  \<^verbatim>\<open>kuznyechik/ctkuznyechik.go\<close> and the cipher proper: the constant-time round (a SWAR scan of
  the whole S-box and a masked sum of bit columns), the dispatch on the \<^verbatim>\<open>constantTime\<close> flag,
  the key schedule, \<^verbatim>\<open>Encrypt\<close>, \<^verbatim>\<open>Decrypt\<close> and \<^verbatim>\<open>EncryptBlocks\<close>. The theorems show that both paths
  compute the reference transforms, so the two constructors give the same cipher.
\<close>

section \<open>The constant-time round\<close>

definition lCol :: "entry list list" where
  "lCol = map (\<lambda>pos. map (\<lambda>j. packEntry (kuz_l (unit16 pos (push_bit j 1)))) [0..<8]) [0..<16]"

definition lInvCol :: "entry list list" where
  "lInvCol = map (\<lambda>pos. map (\<lambda>j. packEntry (kuz_lInv (unit16 pos (push_bit j 1)))) [0..<8]) [0..<16]"

definition ctBcast01 :: u64 where "ctBcast01 = 0x0101010101010101"
definition ctLo7 :: u64 where "ctLo7 = 0x7f7f7f7f7f7f7f7f"
definition ctHi1 :: u64 where "ctHi1 = 0x8080808080808080"

text \<open>
  One lane mask of \<^verbatim>\<open>ctSbox\<close>: \<open>d\<close> is the packed word XORed with the broadcast index; the result
  has \<open>0xff\<close> in the byte lanes where \<open>d\<close> is zero.
\<close>

definition ct_lane_mask :: "u64 \<Rightarrow> u64" where
  "ct_lane_mask d =
     (let m = NOT (((d AND ctLo7) + ctLo7) OR d) AND ctHi1;
          m = drop_bit 7 m;
          m = m OR push_bit 1 m;
          m = m OR push_bit 2 m;
          m = m OR push_bit 4 m
      in m)"

definition ctSbox :: "u64 \<Rightarrow> u64 \<Rightarrow> byte list \<Rightarrow> u64 \<times> u64" where
  "ctSbox hi lo tbl =
     fold (\<lambda>b (ah, al).
        let bb = ctBcast01 * word_of_nat b;
            tv = ctBcast01 * ucast (tbl ! b)
        in (ah OR (tv AND ct_lane_mask (hi XOR bb)), al OR (tv AND ct_lane_mask (lo XOR bb))))
      [0..<256] (0, 0)"

definition ctLinear :: "u64 \<Rightarrow> u64 \<Rightarrow> entry list list \<Rightarrow> u64 \<times> u64" where
  "ctLinear hi lo col =
     (let t = unpackEntry (hi, lo)
      in fold (\<lambda>pos acc.
           let bv = t ! pos
           in fold (\<lambda>j (rh, rl).
                let m = ct_Mask (ucast (drop_bit j bv))
                in (rh XOR (fst (col ! pos ! j) AND m), rl XOR (snd (col ! pos ! j) AND m)))
              [0..<8] acc)
         [0..<16] (0, 0))"

definition ctSLEncrypt :: "bytes \<Rightarrow> bytes" where
  "ctSLEncrypt blk =
     (let (hi, lo) = packEntry blk;
          (hi, lo) = ctSbox hi lo kuz_pi
      in unpackEntry (ctLinear hi lo lCol))"

definition ctLInvFast :: "bytes \<Rightarrow> bytes" where
  "ctLInvFast blk = (let (hi, lo) = packEntry blk in unpackEntry (ctLinear hi lo lInvCol))"

definition ctSInv :: "bytes \<Rightarrow> bytes" where
  "ctSInv blk = (let (hi, lo) = packEntry blk in unpackEntry (ctSbox hi lo kuz_piInv))"

section \<open>The cipher\<close>

record kuz_cipher =
  kc_ks :: "bytes list"
  kc_constantTime :: bool

definition kuz_sl :: "bool \<Rightarrow> bytes \<Rightarrow> bytes" where
  "kuz_sl ct blk = (if ct then ctSLEncrypt blk else slEncrypt blk)"

definition kuz_linv :: "bool \<Rightarrow> bytes \<Rightarrow> bytes" where
  "kuz_linv ct blk = (if ct then ctLInvFast blk else lInvFast blk)"

definition kuz_sinv :: "bool \<Rightarrow> bytes \<Rightarrow> bytes" where
  "kuz_sinv ct blk = (if ct then ctSInv blk else kuz_sInv blk)"

text \<open>\<^verbatim>\<open>expandKey\<close>: the inner loop is one group of eight Feistel rounds.\<close>

definition kuz_expand_inner :: "bool \<Rightarrow> nat \<Rightarrow> bytes \<times> bytes \<Rightarrow> bytes \<times> bytes" where
  "kuz_expand_inner ct i p =
     fold (\<lambda>j (kr0, kr1).
        let krt = xor_bytes kr0 (kuz_cnst ! (8 * i + j));
            krt = kuz_sl ct krt;
            krt = xor_bytes krt kr1
        in (krt, kr0)) [0..<8] p"

definition kuz_expand_group ::
  "bool \<Rightarrow> nat \<Rightarrow> bytes \<times> bytes \<times> bytes list \<Rightarrow> bytes \<times> bytes \<times> bytes list" where
  "kuz_expand_group ct i = (\<lambda>(kr0, kr1, ks).
     let (kr0, kr1) = kuz_expand_inner ct i (kr0, kr1)
     in (kr0, kr1, ks[2 + 2 * i := kr0, 2 + 2 * i + 1 := kr1]))"

definition kuz_expandKey :: "bool \<Rightarrow> bytes \<Rightarrow> bytes list" where
  "kuz_expandKey ct key =
     (let kr0 = copy_into 16 (slice 0 16 key);
          kr1 = copy_into 16 (slice 16 16 key);
          ks0 = (replicate 10 (replicate 16 0))[0 := kr0, 1 := kr1];
          (_, _, ks) = fold (kuz_expand_group ct) [0..<4] (kr0, kr1, ks0)
      in ks)"

definition kuz_cipher_of :: "bool \<Rightarrow> bytes \<Rightarrow> kuz_cipher" where
  "kuz_cipher_of ct key = \<lparr>kc_ks = kuz_expandKey ct key, kc_constantTime = ct\<rparr>"

definition kuz_NewCipher :: "bytes \<Rightarrow> kuz_cipher res" where
  "kuz_NewCipher key =
     (if length key \<noteq> 32 then Inl (Panic ''kuznyechik: invalid key size, want 32 bytes'')
      else Inr (kuz_cipher_of False key))"

definition kuz_NewCipherCT :: "bytes \<Rightarrow> kuz_cipher res" where
  "kuz_NewCipherCT key =
     (if length key \<noteq> 32 then Inl (Panic ''kuznyechik: invalid key size, want 32 bytes'')
      else Inr (kuz_cipher_of True key))"

definition kuz_encrypt_block :: "kuz_cipher \<Rightarrow> bytes \<Rightarrow> bytes" where
  "kuz_encrypt_block c src =
     (let blk = copy_into 16 src;
          blk = fold (\<lambda>i blk. kuz_sl (kc_constantTime c) (xor_bytes blk (kc_ks c ! i))) [0..<9] blk
      in xor_bytes blk (kc_ks c ! 9))"

definition kuz_decrypt_block :: "kuz_cipher \<Rightarrow> bytes \<Rightarrow> bytes" where
  "kuz_decrypt_block c src =
     (let blk = copy_into 16 src;
          blk = fold (\<lambda>i blk. kuz_sinv (kc_constantTime c)
                    (kuz_linv (kc_constantTime c) (xor_bytes blk (kc_ks c ! i)))) (rev [1..<10]) blk
      in xor_bytes blk (kc_ks c ! 0))"

definition kuz_Encrypt :: "kuz_cipher \<Rightarrow> bytes \<Rightarrow> bytes \<Rightarrow> bytes res" where
  "kuz_Encrypt c dst src =
     (if length src < 16 then Inl (Panic ''kuznyechik: input not full block'')
      else if length dst < 16 then Inl (Panic ''kuznyechik: output not full block'')
      else Inr (kuz_encrypt_block c src @ drop 16 dst))"

definition kuz_Decrypt :: "kuz_cipher \<Rightarrow> bytes \<Rightarrow> bytes \<Rightarrow> bytes res" where
  "kuz_Decrypt c dst src =
     (if length src < 16 then Inl (Panic ''kuznyechik: input not full block'')
      else if length dst < 16 then Inl (Panic ''kuznyechik: output not full block'')
      else Inr (kuz_decrypt_block c src @ drop 16 dst))"

text \<open>
  \<^verbatim>\<open>EncryptBlocks\<close> on a destination apart from the source: what a mode gets from the
  capability. The call in memory is \<open>kuz_EncryptBlocks\<close> of \<open>KuznyechikBulk\<close>.
\<close>

definition kuz_enc_blocks :: "kuz_cipher \<Rightarrow> bytes \<Rightarrow> bytes" where
  "kuz_enc_blocks c src = concat (map (kuz_encrypt_block c) (full_blocks 16 (length src div 16) src))"

definition kuz_block :: "kuz_cipher \<Rightarrow> block_cipher" where
  "kuz_block c = \<lparr>bsize = 16, enc = kuz_encrypt_block c, dec = kuz_decrypt_block c,
     enc_blocks = Some (kuz_enc_blocks c), ctr_xor_blocks = None\<rparr>"

section \<open>Byte lanes of a packed word\<close>

lemma le_word_Cons_add: "le_word (x # xs) = ucast x + 256 * (le_word xs :: u64)"
proof -
  have "ucast x + push_bit 8 (le_word xs :: u64) = ucast x OR push_bit 8 (le_word xs)"
    by (rule disjunctive_add) (auto simp: bit_simps dest: bit_imp_le_length)
  then show ?thesis
    by (simp add: push_bit_eq_mult mult.commute)
qed

lemma ucast_add_lane:
  assumes "unat x + unat y < 256"
  shows "ucast (x + y :: byte) = (ucast x + ucast y :: u64)"
  using assms by (simp add: word_unat_eq_iff unat_word_ariths unsigned_ucast_eq take_bit_eq_mod)

lemma le_word_add_lanes:
  assumes "length xs = length ys" "\<And>i. i < length xs \<Longrightarrow> unat (xs ! i) + unat (ys ! i) < 256"
  shows "le_word xs + le_word ys = (le_word (map2 (+) xs ys) :: u64)"
  using assms
proof (induction xs ys rule: list_induct2)
  case (Cons x xs y ys)
  have "unat x + unat y < 256" "\<And>i. i < length xs \<Longrightarrow> unat (xs ! i) + unat (ys ! i) < 256"
    using Cons.prems [of 0] Cons.prems [of "Suc _"] by auto
  then show ?case
    by (simp add: le_word_Cons_add ucast_add_lane algebra_simps Cons.IH [symmetric] del: le_word.simps)
qed simp

lemma le_word_map2_and:
  "length xs = length ys \<Longrightarrow> le_word xs AND le_word ys = (le_word (map2 (AND) xs ys) :: u64)"
  by (rule bit_word_eqI) (auto simp: bit_le_word bit_simps)

lemma le_word_map2_or:
  "length xs = length ys \<Longrightarrow> le_word xs OR le_word ys = (le_word (map2 (OR) xs ys) :: u64)"
  by (rule bit_word_eqI) (auto simp: bit_le_word bit_simps)

lemma le_word_map_not:
  "length xs = 8 \<Longrightarrow> NOT (le_word xs) = (le_word (map NOT xs) :: u64)"
  by (rule bit_word_eqI) (auto simp: bit_le_word bit_simps)

lemma map2_replicate_right:
  "map2 f xs (replicate (length xs) c) = map (\<lambda>x. f x c) xs"
  by (rule nth_equalityI) auto

text \<open>
  \<open>lanes k ps w\<close>: the low \<open>k\<close> bits of the lanes selected by \<open>ps\<close> are the set bits of \<open>w\<close>.
  Each fill step of the mask doubles \<open>k\<close>.
\<close>

definition lanes :: "nat \<Rightarrow> bool list \<Rightarrow> u64 \<Rightarrow> bool" where
  "lanes k ps w \<longleftrightarrow> (\<forall>i < 64. bit w i \<longleftrightarrow> ps ! (i div 8) \<and> i mod 8 < k)"

lemma lanes_fill:
  assumes w: "lanes k ps w" and k: "2 * k \<le> 8"
  shows "lanes (2 * k) ps (w OR push_bit k w)"
  unfolding lanes_def
proof (intro allI impI)
  fix i :: nat assume i: "i < 64"
  have "bit (push_bit k w) i \<longleftrightarrow> k \<le> i \<and> ps ! ((i - k) div 8) \<and> (i - k) mod 8 < k"
    using w i by (auto simp: bit_simps lanes_def)
  also have "\<dots> \<longleftrightarrow> ps ! (i div 8) \<and> k \<le> i mod 8 \<and> i mod 8 < 2 * k"
  proof (cases "k \<le> i mod 8")
    case True
    then have "k \<le> i" by (metis mod_less_eq_dividend order_trans)
    moreover have "i - k = 8 * (i div 8) + (i mod 8 - k)"
      using True by (metis Nat.add_diff_assoc mult_div_mod_eq)
    then have "(i - k) div 8 = i div 8" "(i - k) mod 8 = i mod 8 - k"
      by (simp_all add: less_imp_diff_less)
    ultimately show ?thesis using True by (auto simp: less_diff_conv2 mult_2)
  next
    case False
    have "\<not> (i - k) mod 8 < k" if "k \<le> i"
    proof -
      obtain q r where qr: "i = 8 * q + r" "r < 8" "r < k"
        using False by (metis mod_less_divisor mult_div_mod_eq not_less zero_less_numeral)
      with that k have "q \<noteq> 0" by (cases q) auto
      then obtain p where "q = Suc p" by (cases q) auto
      with qr k have "i - k = 8 * p + (8 + r - k)" "8 + r - k < 8"
        by simp_all
      then have "(i - k) mod 8 = 8 + r - k" by simp
      with k show ?thesis by simp
    qed
    then show ?thesis using False by auto
  qed
  finally show "bit (w OR push_bit k w) i \<longleftrightarrow> ps ! (i div 8) \<and> i mod 8 < 2 * k"
    using w i by (auto simp: bit_or_iff lanes_def)
qed

lemma lane_test:
  "NOT (((d AND 0x7f) + 0x7f) OR d) AND 0x80 = (if d = 0 then 0x80 else (0 :: byte))"
proof -
  have "\<forall>n \<in> set [0..<256]. (let d = word_of_nat n :: byte in
      NOT (((d AND 0x7f) + 0x7f) OR d) AND 0x80 = (if d = 0 then 0x80 else 0))"
    by code_simp
  moreover have "unat d \<in> set [0..<256]"
    by (simp del: upt_rec_numeral)
  ultimately have "let d = word_of_nat (unat d) :: byte in
      NOT (((d AND 0x7f) + 0x7f) OR d) AND 0x80 = (if d = 0 then 0x80 else 0)"
    by (rule bspec)
  then show ?thesis by simp
qed

lemma replicate_8: "replicate 8 x = [x, x, x, x, x, x, x, x]"
  by (simp add: numeral_eq_Suc)

lemma and_7f_add_7f: "unat (d AND 0x7f :: byte) + unat (0x7f :: byte) < 256"
proof -
  have "d AND 0x7f \<le> (0x7f :: byte)"
    by (rule word_and_le1)
  then show ?thesis
    by (simp add: word_le_nat_alt)
qed

lemma ct_lane_high:
  assumes "length ds = 8"
  shows "NOT (((le_word ds AND ctLo7) + ctLo7) OR le_word ds) AND ctHi1 =
    (le_word (map (\<lambda>d. if d = 0 then 0x80 else 0) ds) :: u64)"
proof -
  have lo: "ctLo7 = le_word (replicate (length ds) 0x7f)"
    and hi: "ctHi1 = le_word (replicate (length ds) 0x80)"
    using assms by (simp_all add: ctLo7_def ctHi1_def replicate_8)
  have "le_word (map (\<lambda>d. d AND 0x7f) ds) + ctLo7 = (le_word (map (\<lambda>d. (d AND 0x7f) + 0x7f) ds) :: u64)"
    unfolding lo using and_7f_add_7f map2_replicate_right [of "(+)" "map (\<lambda>d. d AND 0x7f) ds" "0x7f"]
    by (subst le_word_add_lanes) (simp_all add: comp_def)
  moreover have "le_word ds AND ctLo7 = (le_word (map (\<lambda>d. d AND 0x7f) ds) :: u64)"
    unfolding lo by (subst le_word_map2_and) (simp_all add: map2_replicate_right)
  ultimately have "((le_word ds AND ctLo7) + ctLo7) OR le_word ds =
      (le_word (map (\<lambda>d. ((d AND 0x7f) + 0x7f) OR d) ds) :: u64)"
    by (simp add: le_word_map2_or zip_map1 comp_def) (simp add: zip_same_conv_map comp_def)
  then have "NOT (((le_word ds AND ctLo7) + ctLo7) OR le_word ds) AND ctHi1 =
      (le_word (map (\<lambda>d. NOT (((d AND 0x7f) + 0x7f) OR d)) ds) AND ctHi1 :: u64)"
    using assms by (simp add: le_word_map_not comp_def)
  also have "\<dots> = le_word (map (\<lambda>d. NOT (((d AND 0x7f) + 0x7f) OR d) AND 0x80) ds)"
    unfolding hi
    using map2_replicate_right [of "(AND)" "map (\<lambda>d. NOT (((d AND 0x7f) + 0x7f) OR d)) ds" "0x80"]
    by (subst le_word_map2_and) (simp_all add: comp_def)
  finally show ?thesis by (simp only: lane_test)
qed

text \<open>The lane mask: all ones exactly in the zero lanes.\<close>

lemma lanes_high:
  assumes "length ps = 8"
  shows "lanes 1 ps (drop_bit 7 (le_word (map (\<lambda>p. if p then 0x80 else 0) ps)))"
  unfolding lanes_def
proof (intro allI impI)
  fix i :: nat assume i: "i < 64"
  have b80: "bit (if p then 0x80 else 0 :: byte) n \<longleftrightarrow> p \<and> n = 7" if "n < 8" for p n
    using that bit_exp_iff [of 7 n, where ?'a = "8 word"] by auto
  have "bit (drop_bit 7 (le_word (map (\<lambda>p. if p then 0x80 else 0) ps) :: u64)) i \<longleftrightarrow>
      7 + i < 64 \<and> ps ! ((7 + i) div 8) \<and> (7 + i) mod 8 = 7"
    using assms i by (auto simp: bit_drop_bit_eq bit_le_word b80)
  also have "\<dots> \<longleftrightarrow> ps ! (i div 8) \<and> i mod 8 < 1"
  proof (cases "i mod 8 = 0")
    case True
    then obtain q where q: "i = 8 * q" by (metis mod_0_imp_dvd dvdE)
    have "(7 + 8 * q) div 8 = q" "(7 + 8 * q) mod 8 = 7"
      by simp_all
    with i show ?thesis by (auto simp: q)
  next
    case False
    then have "(7 + i) mod 8 \<noteq> 7"
      by presburger
    with False show ?thesis by simp
  qed
  finally show "bit (drop_bit 7 (le_word (map (\<lambda>p. if p then 0x80 else 0) ps) :: u64)) i \<longleftrightarrow>
      ps ! (i div 8) \<and> i mod 8 < 1" .
qed

lemma lanes_full:
  assumes "lanes 8 ps w" "length ps = 8"
  shows "w = le_word (map (\<lambda>p. if p then 0xff else 0) ps)"
proof (rule bit_word_eqI)
  fix i :: nat assume i: "i < LENGTH(64)"
  have "bit (0xff :: byte) (i mod 8)"
    using bit_mask_iff [of 8 "i mod 8", where ?'a = "8 word"] by (simp add: mask_numeral)
  then show "bit w i \<longleftrightarrow> bit (le_word (map (\<lambda>p. if p then 0xff else 0) ps) :: u64) i"
    using assms i by (auto simp: lanes_def bit_le_word)
qed

lemma ct_lane_mask_eq:
  assumes "length ds = 8"
  shows "ct_lane_mask (le_word ds) = le_word (map (\<lambda>d. if d = 0 then 0xff else 0) ds)"
proof -
  define ps where "ps = map (\<lambda>d. d = 0) ds"
  define m1 where "m1 = drop_bit 7 (le_word (map (\<lambda>p. if p then 0x80 else 0) ps) :: u64)"
  define m2 where "m2 = m1 OR push_bit 1 m1"
  define m4 where "m4 = m2 OR push_bit 2 m2"
  have "lanes 1 ps m1"
    unfolding m1_def using assms by (intro lanes_high) (simp add: ps_def)
  then have "lanes 2 ps m2"
    using lanes_fill [of 1 ps m1] by (simp add: m2_def)
  then have "lanes 4 ps m4"
    using lanes_fill [of 2 ps m2] by (simp add: m4_def)
  then have "lanes 8 ps (m4 OR push_bit 4 m4)"
    using lanes_fill [of 4 ps m4] by simp
  then have "m4 OR push_bit 4 m4 = le_word (map (\<lambda>p. if p then 0xff else 0) ps)"
    by (rule lanes_full) (simp add: ps_def assms)
  moreover have "ct_lane_mask (le_word ds) = m4 OR push_bit 4 m4"
    using assms
    by (simp only: ct_lane_mask_def Let_def ct_lane_high m4_def m2_def m1_def ps_def)
      (simp add: comp_def)
  ultimately show ?thesis
    by (simp add: ps_def comp_def)
qed

section \<open>The scan computes the S-box\<close>

lemma bcast_le_word: "ctBcast01 * ucast v = le_word (replicate 8 v)"
  by (simp add: replicate_8 le_word_Cons_add ctBcast01_def algebra_simps del: le_word.simps(2))

lemma ucast_word_of_nat: "b < 256 \<Longrightarrow> (word_of_nat b :: u64) = ucast (word_of_nat b :: byte)"
  by (simp add: word_unat_eq_iff unsigned_ucast_eq unsigned_of_nat take_bit_nat_eq_self)

lemma scan_step:
  assumes "length hs = 8" "b < 256"
  shows "(ctBcast01 * ucast (v :: byte)) AND ct_lane_mask (le_word hs XOR (ctBcast01 * word_of_nat b)) =
    le_word (map (\<lambda>h. if unat h = b then v else 0) hs)"
proof -
  have "le_word hs XOR (ctBcast01 * word_of_nat b) =
      (le_word (xor_bytes hs (replicate 8 (word_of_nat b))) :: u64)"
    using assms by (simp add: ucast_word_of_nat bcast_le_word le_word_xor)
  also have "xor_bytes hs (replicate 8 (word_of_nat b)) = map (\<lambda>h. h XOR word_of_nat b) hs"
    using assms(1) map2_replicate_right [of "(XOR)" hs "word_of_nat b"]
    by (simp add: xor_bytes_def)
  finally have "ct_lane_mask (le_word hs XOR (ctBcast01 * word_of_nat b)) =
      le_word (map (\<lambda>h. if h XOR word_of_nat b = 0 then 0xff else 0) hs)"
    using assms by (simp add: ct_lane_mask_eq comp_def)
  moreover have "h XOR word_of_nat b = 0 \<longleftrightarrow> unat h = b" for h :: byte
  proof -
    have "h = word_of_nat b \<longleftrightarrow> unat h = b"
      using assms(2) by (auto simp: word_unat_eq_iff unsigned_of_nat take_bit_nat_eq_self)
    then show ?thesis by (simp add: xor_eq_0_word_iff)
  qed
  moreover have and_ff: "v AND 0xff = v" for v :: byte
  proof -
    have "(0xff :: byte) = - 1" by simp
    then show ?thesis by (simp only: and.right_neutral)
  qed
  ultimately have "ct_lane_mask (le_word hs XOR (ctBcast01 * word_of_nat b)) =
      le_word (map (\<lambda>h. if unat h = b then 0xff else 0) hs)"
    by simp
  moreover have "map2 (AND) (replicate 8 v) (map (\<lambda>h. if unat h = b then 0xff else 0) hs) =
      map (\<lambda>h. if unat h = b then v else 0) hs"
    using assms(1) and_ff by (intro nth_equalityI) simp_all
  ultimately show ?thesis
    using assms(1) by (simp add: bcast_le_word le_word_map2_and)
qed

lemma ctSbox_prefix:
  assumes "length hs = 8" "length ls = 8" "k \<le> 256"
  shows "fold (\<lambda>b (ah, al).
        let bb = ctBcast01 * word_of_nat b;
            tv = ctBcast01 * ucast (tbl ! b :: byte)
        in (ah OR (tv AND ct_lane_mask (le_word hs XOR bb)), al OR (tv AND ct_lane_mask (le_word ls XOR bb))))
      [0..<k] (0, 0) =
    (le_word (map (\<lambda>h. if unat h < k then tbl ! unat h else 0) hs),
     le_word (map (\<lambda>h. if unat h < k then tbl ! unat h else 0) ls))"
  using assms(3)
proof (induction k)
  case 0
  have "le_word (map (\<lambda>h :: byte. 0) xs) = (0 :: u64)" for xs
    by (induction xs) auto
  then show ?case by simp
next
  case (Suc k)
  have step: "(if unat h < k then tbl ! unat h else 0) OR (if unat h = k then tbl ! k else 0) =
      (if unat h < Suc k then tbl ! unat h else 0)" for h :: byte
    by (auto simp: less_Suc_eq)
  have "le_word (map (\<lambda>h. if unat h < k then tbl ! unat h else 0) xs) OR
      le_word (map (\<lambda>h. if unat h = k then tbl ! k else 0) xs) =
      (le_word (map (\<lambda>h. if unat h < Suc k then tbl ! unat h else 0) xs) :: u64)" for xs :: bytes
    by (subst le_word_map2_or) (simp_all add: zip_map_map zip_same_conv_map comp_def step)
  then show ?case
    using Suc assms by (simp add: scan_step Let_def)
qed

lemma ctSbox_eq:
  assumes "length hs = 8" "length ls = 8"
  shows "ctSbox (le_word hs) (le_word ls) tbl =
    (le_word (map (\<lambda>h. tbl ! unat h) hs), le_word (map (\<lambda>h. tbl ! unat h) ls))"
  unfolding ctSbox_def by (subst ctSbox_prefix [OF assms]) simp_all

text \<open>On a block: the scan is the bytewise table lookup.\<close>

lemma ctSbox_pack:
  assumes "length blk = 16"
  shows "(case packEntry blk of (hi, lo) \<Rightarrow> ctSbox hi lo tbl) = packEntry (map (\<lambda>b. tbl ! unat b) blk)"
  using assms
  by (simp add: packEntry_def be_word_def ctSbox_eq slice_def rev_map take_map drop_map)

section \<open>The masked columns compute the linear maps\<close>

text \<open>The low \<open>k\<close> bits of a byte: what \<open>k\<close> iterations of the inner loop have accounted for.\<close>

lemma unit16_xor: "pos < 16 \<Longrightarrow> unit16 pos (a XOR b) = xor_bytes (unit16 pos a) (unit16 pos b)"
  by (rule nth_equalityI) (auto simp: unit16_def nth_list_update)

lemma unit16_0: "unit16 pos 0 = replicate 16 0"
  by (cases "pos < 16") (simp_all add: unit16_def list_update_same_conv list_update_beyond)

lemma take_bit_Suc_xor:
  "take_bit (Suc k) (b :: byte) = take_bit k b XOR (if bit b k then push_bit k 1 else 0)"
  by (rule bit_word_eqI) (auto simp: bit_simps less_Suc_eq)

lemma masked_column:
  assumes "lin16 f" "pos < 16"
  shows "unpackEntry (fst (packEntry (f (unit16 pos (push_bit k 1)))) AND ct_Mask (ucast (drop_bit k bv)),
      snd (packEntry (f (unit16 pos (push_bit k 1)))) AND ct_Mask (ucast (drop_bit k (bv :: byte)))) =
    f (unit16 pos (if bit bv k then push_bit k 1 else 0))"
proof -
  have "odd (ucast (drop_bit k bv) :: u64) \<longleftrightarrow> bit bv k"
    by (simp flip: bit_0 add: bit_simps)
  then show ?thesis
    using assms by (simp add: ct_Mask_eq lin16_length unit16_0 lin16_zero unpackEntry_0)
qed

lemma column_prefix:
  assumes f: "lin16 f" and pos: "pos < 16" and "k \<le> 8"
  shows "unpackEntry (fold (\<lambda>j (rh, rl).
        let m = ct_Mask (ucast (drop_bit j bv))
        in (rh XOR (fst (packEntry (f (unit16 pos (push_bit j 1)))) AND m),
            rl XOR (snd (packEntry (f (unit16 pos (push_bit j 1)))) AND m))) [0..<k] acc) =
    xor_bytes (unpackEntry acc) (f (unit16 pos (take_bit k (bv :: byte))))"
  using assms(3)
proof (induction k)
  case 0
  then show ?case
    using f by (simp add: unit16_0 lin16_zero xor_bytes_zero)
next
  case (Suc k)
  let ?F = "\<lambda>j (rh, rl).
        let m = ct_Mask (ucast (drop_bit j bv))
        in (rh XOR (fst (packEntry (f (unit16 pos (push_bit j 1)))) AND m),
            rl XOR (snd (packEntry (f (unit16 pos (push_bit j 1)))) AND m))"
  obtain rh rl where acc: "fold ?F [0..<k] acc = (rh, rl)" by fastforce
  define T where "T = (fst (packEntry (f (unit16 pos (push_bit k 1)))) AND ct_Mask (ucast (drop_bit k bv)),
      snd (packEntry (f (unit16 pos (push_bit k 1)))) AND ct_Mask (ucast (drop_bit k bv)))"
  have "fold ?F [0..<Suc k] acc = ?F k (fold ?F [0..<k] acc)"
    by simp
  also have "\<dots> = (rh XOR fst T, rl XOR snd T)"
    unfolding acc by (simp add: T_def Let_def)
  finally have "unpackEntry (fold ?F [0..<Suc k] acc) = xor_bytes (unpackEntry (rh, rl)) (unpackEntry T)"
    using unpackEntry_xor [of "(rh, rl)" T] by simp
  also have "unpackEntry T = f (unit16 pos (if bit bv k then push_bit k 1 else 0))"
    unfolding T_def by (rule masked_column [OF f pos])
  also have "unpackEntry (rh, rl) = xor_bytes (unpackEntry acc) (f (unit16 pos (take_bit k bv)))"
    using Suc by (simp only: acc [symmetric])
  finally show ?case
    using pos by (simp add: take_bit_Suc_xor unit16_xor lin16_xor [OF f] xor_bytes_assoc)
qed

text \<open>All sixteen positions: the sum of the columns of the set bits is the map itself.\<close>

lemma ctLinear_eq:
  assumes f: "lin16 f" and x: "length x = 16"
    and col: "\<And>pos j. pos < 16 \<Longrightarrow> j < 8 \<Longrightarrow> col ! pos ! j = packEntry (f (unit16 pos (push_bit j 1)))"
    and hl: "unpackEntry (hi, lo) = x"
  shows "unpackEntry (ctLinear hi lo col) = f x"
proof -
  let ?inner = "\<lambda>pos. fold (\<lambda>j (rh, rl).
      let m = ct_Mask (ucast (drop_bit j (x ! pos)))
      in (rh XOR (fst (col ! pos ! j) AND m), rl XOR (snd (col ! pos ! j) AND m))) [0..<8]"
  have inner: "unpackEntry (?inner pos acc) = xor_bytes (unpackEntry acc) (f (unit16 pos (x ! pos)))"
    if "pos < 16" for pos acc
  proof -
    have "?inner pos acc = fold (\<lambda>j (rh, rl).
        let m = ct_Mask (ucast (drop_bit j (x ! pos)))
        in (rh XOR (fst (packEntry (f (unit16 pos (push_bit j 1)))) AND m),
            rl XOR (snd (packEntry (f (unit16 pos (push_bit j 1)))) AND m))) [0..<8] acc"
      by (rule fold_cong) (simp_all add: col that fun_eq_iff del: upt_rec_numeral)
    then show ?thesis
      using column_prefix [OF f that, of 8 "x ! pos" acc]
      by (simp add: take_bit_word_eq_self del: upt_rec_numeral)
  qed
  have "unpackEntry (fold ?inner [0..<k] (0, 0)) = f (prefix16 k x)" if "k \<le> 16" for k
    using that
  proof (induction k)
    case 0
    then show ?case
      using lin16_zero [OF f] by (simp add: prefix16_def unpackEntry_0)
  next
    case (Suc k)
    then show ?case
      using x by (simp add: inner prefix16_Suc lin16_xor [OF f])
  qed
  from this [of 16] show ?thesis
    using x hl by (simp add: ctLinear_def Let_def prefix16_def del: upt_rec_numeral)
qed

lemma ctSLEncrypt_eq:
  assumes "length x = 16"
  shows "ctSLEncrypt x = kuz_l (kuz_s x)"
proof -
  obtain hi lo where p: "packEntry x = (hi, lo)" by fastforce
  obtain hi' lo' where q: "ctSbox hi lo kuz_pi = (hi', lo')" by fastforce
  have "(hi', lo') = packEntry (kuz_s x)"
    using ctSbox_pack [OF assms, of kuz_pi] by (simp add: p q kuz_s_def)
  then have "unpackEntry (hi', lo') = kuz_s x"
    using assms by simp
  then have "unpackEntry (ctLinear hi' lo' lCol) = kuz_l (kuz_s x)"
    using assms
    by (intro ctLinear_eq [OF kuz_l_lin]) (simp_all add: lCol_def del: upt_rec_numeral)
  then show ?thesis
    by (simp add: ctSLEncrypt_def p q)
qed

lemma ctLInvFast_eq:
  assumes "length x = 16"
  shows "ctLInvFast x = kuz_lInv x"
proof -
  obtain hi lo where p: "packEntry x = (hi, lo)" by fastforce
  then have "unpackEntry (hi, lo) = x"
    using unpack_packEntry [OF assms] by simp
  then have "unpackEntry (ctLinear hi lo lInvCol) = kuz_lInv x"
    using assms
    by (intro ctLinear_eq [OF kuz_lInv_lin]) (simp_all add: lInvCol_def del: upt_rec_numeral)
  then show ?thesis
    by (simp add: ctLInvFast_def p)
qed

lemma ctSInv_eq:
  assumes "length x = 16"
  shows "ctSInv x = kuz_sInv x"
proof -
  obtain hi lo where p: "packEntry x = (hi, lo)" by fastforce
  have "ctSbox hi lo kuz_piInv = packEntry (kuz_sInv x)"
    using ctSbox_pack [OF assms, of kuz_piInv] by (simp add: p kuz_sInv_def)
  then show ?thesis
    using assms by (simp add: ctSInv_def p)
qed

section \<open>Both paths are the same cipher\<close>

lemma kuz_sl_eq: "length x = 16 \<Longrightarrow> kuz_sl ct x = kuz_l (kuz_s x)"
  by (simp add: kuz_sl_def ctSLEncrypt_eq slEncrypt_eq)

lemma kuz_linv_eq: "length x = 16 \<Longrightarrow> kuz_linv ct x = kuz_lInv x"
  by (simp add: kuz_linv_def ctLInvFast_eq lInvFast_eq)

lemma kuz_sinv_eq: "length x = 16 \<Longrightarrow> kuz_sinv ct x = kuz_sInv x"
  by (simp add: kuz_sinv_def ctSInv_eq)

lemma length_kuz_cnst [len_simps]: "i < 32 \<Longrightarrow> length (kuz_cnst ! i) = 16"
  by (simp add: kuz_cnst_def lin16_length [OF kuz_l_lin] del: upt_rec_numeral)

lemma length_kuz_sl [len_simps]: "length x = 16 \<Longrightarrow> length (kuz_sl ct x) = 16"
  by (simp add: kuz_sl_eq lin16_length [OF kuz_l_lin])

text \<open>One group of the schedule, for a prefix of its eight rounds: lengths, and both paths agree.\<close>

lemma kuz_expand_inner_agree:
  assumes "length (fst p) = 16" "length (snd p) = 16" "i < 4"
  shows "kuz_expand_inner ct i p = kuz_expand_inner ct' i p \<and>
    length (fst (kuz_expand_inner ct i p)) = 16 \<and> length (snd (kuz_expand_inner ct i p)) = 16"
proof -
  define R where "R = (\<lambda>ct j (kr0, kr1). let krt = xor_bytes kr0 (kuz_cnst ! (8 * i + j));
            krt = kuz_sl ct krt; krt = xor_bytes krt kr1 in (krt, kr0))"
  have R: "R ct j (a, b) = (xor_bytes (kuz_sl ct (xor_bytes a (kuz_cnst ! (8 * i + j)))) b, a)"
    for ct j a b
    by (simp add: R_def Let_def)
  have *: "fold (R ct) [0..<k] p = fold (R ct') [0..<k] p \<and>
      length (fst (fold (R ct) [0..<k] p)) = 16 \<and> length (snd (fold (R ct) [0..<k] p)) = 16"
    if "k \<le> 8" for k
    using that
  proof (induction k)
    case 0
    then show ?case using assms by simp
  next
    case (Suc k)
    obtain a b where ab: "fold (R ct) [0..<k] p = (a, b)" by fastforce
    with Suc have ab': "fold (R ct') [0..<k] p = (a, b)" and len: "length a = 16" "length b = 16"
      by simp_all
    have "length (xor_bytes a (kuz_cnst ! (8 * i + k))) = 16"
      using Suc.prems assms(3) len by (simp add: len_simps)
    then show ?case
      using len by (simp add: ab ab' R kuz_sl_eq lin16_length [OF kuz_l_lin])
  qed
  have K: "kuz_expand_inner ct i p = fold (R ct) [0..<8] p" for ct
    by (simp only: kuz_expand_inner_def R_def)
  show ?thesis
    unfolding K by (rule *) simp
qed

lemmas kuz_expand_inner_ct = kuz_expand_inner_agree [THEN conjunct1]
lemmas kuz_expand_inner_lengths = kuz_expand_inner_agree [THEN conjunct2]

text \<open>The invariant of the schedule: ten keys of sixteen bytes, whichever path computed them.\<close>

definition sched_ok :: "bytes \<times> bytes \<times> bytes list \<Rightarrow> bool" where
  "sched_ok = (\<lambda>(a, b, ks). length a = 16 \<and> length b = 16 \<and> length ks = 10 \<and> (\<forall>k \<in> set ks. length k = 16))"

lemma kuz_expand_group_ok:
  assumes "sched_ok s" "i < 4"
  shows "kuz_expand_group ct i s = kuz_expand_group ct' i s \<and> sched_ok (kuz_expand_group ct i s)"
proof -
  obtain a b ks where s: "s = (a, b, ks)" by (metis prod_cases3)
  obtain a2 b2 where inner: "kuz_expand_inner ct i (a, b) = (a2, b2)" by fastforce
  have inner': "kuz_expand_inner ct' i (a, b) = (a2, b2)"
    using kuz_expand_inner_ct [of "(a, b)" i ct ct'] assms by (simp add: inner s sched_ok_def)
  have len: "length a2 = 16" "length b2 = 16"
    using kuz_expand_inner_lengths [of "(a, b)" i ct] assms by (simp_all add: inner s sched_ok_def)
  have "\<forall>k \<in> set (ks[m := a2, n := b2]). length k = 16" for m n
    using assms(1) len by (intro list_update_all) (simp_all add: s sched_ok_def)
  then show ?thesis
    using assms(1) len by (simp add: kuz_expand_group_def s inner inner' sched_ok_def)
qed

lemma kuz_expand_groups_ok:
  assumes "sched_ok s" "n \<le> 4"
  shows "fold (kuz_expand_group ct) [0..<n] s = fold (kuz_expand_group ct') [0..<n] s \<and>
    sched_ok (fold (kuz_expand_group ct) [0..<n] s)"
  using assms(2)
proof (induction n)
  case 0
  then show ?case using assms(1) by simp
next
  case (Suc n)
  then have n: "n < 4" by simp
  have IH: "fold (kuz_expand_group ct) [0..<n] s = fold (kuz_expand_group ct') [0..<n] s \<and>
      sched_ok (fold (kuz_expand_group ct) [0..<n] s)"
    by (rule Suc.IH) (use n in simp)
  show ?case
    using kuz_expand_group_ok [OF conjunct2 [OF IH] n, of ct ct'] conjunct1 [OF IH] by auto
qed

lemma kuz_expandKey_facts:
  "kuz_expandKey ct key = kuz_expandKey ct' key"
  "length (kuz_expandKey ct key) = 10"
  "k \<in> set (kuz_expandKey ct key) \<Longrightarrow> length k = 16"
proof -
  define a b ks where "a = copy_into 16 (slice 0 16 key)" and "b = copy_into 16 (slice 16 16 key)"
    and "ks = (replicate 10 (replicate 16 0))[0 := a, 1 := b]"
  have "\<forall>k \<in> set ks. length k = 16"
    unfolding ks_def by (intro list_update_all) (simp_all add: a_def b_def)
  then have ok: "sched_ok (a, b, ks)"
    by (simp add: sched_ok_def a_def b_def) (simp add: ks_def)
  obtain x y z where r: "fold (kuz_expand_group ct) [0..<4] (a, b, ks) = (x, y, z)"
    by (metis prod_cases3)
  have r': "fold (kuz_expand_group ct') [0..<4] (a, b, ks) = (x, y, z)"
    using kuz_expand_groups_ok [OF ok, of 4 ct ct'] r by (metis order.refl)
  have "sched_ok (x, y, z)"
    using kuz_expand_groups_ok [OF ok, of 4 ct ct'] r by (metis order.refl)
  moreover have "kuz_expandKey ct key = z" "kuz_expandKey ct' key = z"
    using r r' by (simp_all only: kuz_expandKey_def Let_def split_conv flip: a_def b_def ks_def)
  ultimately show "kuz_expandKey ct key = kuz_expandKey ct' key"
    "length (kuz_expandKey ct key) = 10"
    "k \<in> set (kuz_expandKey ct key) \<Longrightarrow> length k = 16"
    by (auto simp: sched_ok_def)
qed

lemma length_kuz_key [len_simps]: "i < 10 \<Longrightarrow> length (kuz_expandKey ct key ! i) = 16"
  by (rule kuz_expandKey_facts(3) [of _ ct key]) (simp add: kuz_expandKey_facts(2))

section \<open>The RFC 7801 rounds over the schedule\<close>

text \<open>
  The specification: nine LSX rounds and a final key addition, over the reference transforms;
  its inverse. The model's rounds refine it on both paths.
\<close>

definition kuz_spec_encrypt :: "bytes list \<Rightarrow> bytes \<Rightarrow> bytes" where
  "kuz_spec_encrypt ks blk =
     xor_bytes (fold (\<lambda>i blk. kuz_l (kuz_s (xor_bytes blk (ks ! i)))) [0..<9] blk) (ks ! 9)"

definition kuz_spec_decrypt :: "bytes list \<Rightarrow> bytes \<Rightarrow> bytes" where
  "kuz_spec_decrypt ks blk =
     xor_bytes (fold (\<lambda>i blk. kuz_sInv (kuz_lInv (xor_bytes blk (ks ! i)))) (rev [1..<10]) blk) (ks ! 0)"

definition wf_keys :: "bytes list \<Rightarrow> bool" where
  "wf_keys ks \<longleftrightarrow> length ks = 10 \<and> (\<forall>i < 10. length (ks ! i) = 16)"

lemma wf_kuz_expandKey [simp]: "wf_keys (kuz_expandKey ct key)"
  by (simp add: wf_keys_def kuz_expandKey_facts(2) length_kuz_key)

lemma fold_length16:
  assumes "\<And>i x. i \<in> set js \<Longrightarrow> length x = 16 \<Longrightarrow> length (F i x) = 16" "length x = 16"
  shows "length (fold F js x) = 16"
  using assms by (induction js arbitrary: x) auto

lemma fold_refine16:
  assumes "\<And>i x. i \<in> set js \<Longrightarrow> length x = 16 \<Longrightarrow> F i x = G i x \<and> length (G i x) = 16"
    and "length x = 16"
  shows "fold F js x = fold G js x"
  using assms
proof (induction js arbitrary: x)
  case (Cons i js)
  then have "F i x = G i x" "length (G i x) = 16" by auto
  then show ?case
    using Cons.IH [of "G i x"] Cons.prems by simp
qed simp

lemma kuz_encrypt_refines:
  assumes "wf_keys (kc_ks c)" "length src = 16"
  shows "kuz_encrypt_block c src = kuz_spec_encrypt (kc_ks c) src"
proof -
  have "fold (\<lambda>i blk. kuz_sl (kc_constantTime c) (xor_bytes blk (kc_ks c ! i))) [0..<9] src =
      fold (\<lambda>i blk. kuz_l (kuz_s (xor_bytes blk (kc_ks c ! i)))) [0..<9] src"
    using assms
    by (intro fold_refine16) (auto simp: wf_keys_def kuz_sl_eq len_simps simp del: upt_rec_numeral)
  then show ?thesis
    using assms by (simp add: kuz_encrypt_block_def kuz_spec_encrypt_def Let_def del: upt_rec_numeral)
qed

lemma kuz_decrypt_refines:
  assumes "wf_keys (kc_ks c)" "length src = 16"
  shows "kuz_decrypt_block c src = kuz_spec_decrypt (kc_ks c) src"
proof -
  have "fold (\<lambda>i blk. kuz_sinv (kc_constantTime c) (kuz_linv (kc_constantTime c)
        (xor_bytes blk (kc_ks c ! i)))) (rev [1..<10]) src =
      fold (\<lambda>i blk. kuz_sInv (kuz_lInv (xor_bytes blk (kc_ks c ! i)))) (rev [1..<10]) src"
    using assms
    by (intro fold_refine16)
      (auto simp: wf_keys_def kuz_linv_eq kuz_sinv_eq len_simps simp del: upt_rec_numeral)
  then show ?thesis
    using assms by (simp add: kuz_decrypt_block_def kuz_spec_decrypt_def Let_def del: upt_rec_numeral)
qed

section \<open>Decryption undoes encryption\<close>

lemma fold_rev_inverse16:
  assumes "\<And>i x. i \<in> set js \<Longrightarrow> length x = 16 \<Longrightarrow> length (F i x) = 16 \<and> G i (F i x) = x"
    and "length x = 16"
  shows "fold G (rev js) (fold F js x) = x"
  using assms
proof (induction js arbitrary: x)
  case (Cons i js)
  have "length (F i x) = 16" "G i (F i x) = x"
    using Cons.prems(1) [of i x] Cons.prems(2) by auto
  moreover have "fold G (rev js) (fold F js (F i x)) = F i x"
    using Cons.prems(1) \<open>length (F i x) = 16\<close> by (intro Cons.IH) auto
  ultimately show ?case by simp
qed simp

end
