(* ===== verification/KuznyechikBulk.thy ===== *)
theory KuznyechikBulk
  imports KuznyechikCT Block_Cipher Alias
begin

text \<open>
  Kuznyechik as a block cipher: decryption undoes encryption, the constant-time cipher is the
  table cipher, and the batched \<^verbatim>\<open>EncryptBlocks\<close> (\<^verbatim>\<open>kuznyechik/bulk.go\<close>) is a loop of single
  encryptions whatever the two buffers share, inexact overlap excluded.
\<close>

section \<open>Round trips and the block contract\<close>

lemma length_kuz_linear [len_simps]:
  "length x = 16 \<Longrightarrow> length (kuz_l x) = 16" "length x = 16 \<Longrightarrow> length (kuz_lInv x) = 16"
  by (simp_all add: len_simps)

lemma kuz_spec_dec_enc:
  assumes "wf_keys ks" "length x = 16"
  shows "kuz_spec_decrypt ks (kuz_spec_encrypt ks x) = x"
proof -
  define F where "F = (\<lambda>i blk. kuz_l (kuz_s (xor_bytes blk (ks ! i))))"
  define G where "G = (\<lambda>i blk. kuz_sInv (kuz_lInv (xor_bytes blk (ks ! i))))"
  have klen: "i < 10 \<Longrightarrow> length (ks ! i) = 16" for i
    using assms(1) by (simp add: wf_keys_def)
  define y where "y = fold F [0..<9] x"
  have y: "length y = 16"
    unfolding y_def by (rule fold_length16) (auto simp: F_def klen len_simps assms(2))
  define H where "H = (\<lambda>i blk. xor_bytes (kuz_sInv (kuz_lInv blk)) (ks ! i))"
  have G_H: "xor_bytes (fold G (rev [1..<Suc n]) z) (ks ! 0) =
      fold H (rev [0..<n]) (xor_bytes z (ks ! n))" for n z
  proof (induction n arbitrary: z)
    case (Suc n)
    then show ?case by (simp add: G_def H_def)
  qed simp
  have "kuz_spec_decrypt ks (kuz_spec_encrypt ks x) =
      xor_bytes (fold G (rev [1..<Suc 9]) (xor_bytes y (ks ! 9))) (ks ! 0)"
    by (simp add: kuz_spec_decrypt_def kuz_spec_encrypt_def G_def F_def y_def del: upt_rec_numeral upt_Suc)
  also have "\<dots> = fold H (rev [0..<9]) (xor_bytes (xor_bytes y (ks ! 9)) (ks ! 9))"
    by (rule G_H)
  also have "\<dots> = fold H (rev [0..<9]) y"
    using y klen [of 9] by (simp add: xor_bytes_cancel del: upt_rec_numeral)
  also have "\<dots> = x"
    unfolding y_def
    by (rule fold_rev_inverse16)
      (auto simp: F_def H_def klen len_simps kuz_lInv_l xor_bytes_cancel assms(2) simp del: upt_rec_numeral)
  finally show ?thesis .
qed

lemma kuz_spec_enc_dec:
  assumes "wf_keys ks" "length x = 16"
  shows "kuz_spec_encrypt ks (kuz_spec_decrypt ks x) = x"
proof -
  define F where "F = (\<lambda>i blk. kuz_l (kuz_s (xor_bytes blk (ks ! i))))"
  define G where "G = (\<lambda>i blk. kuz_sInv (kuz_lInv (xor_bytes blk (ks ! i))))"
  have klen: "i < 10 \<Longrightarrow> length (ks ! i) = 16" for i
    using assms(1) by (simp add: wf_keys_def)
  define y where "y = fold G (rev [1..<10]) x"
  have y: "length y = 16"
    unfolding y_def by (rule fold_length16) (auto simp: G_def klen len_simps assms(2) simp del: upt_rec_numeral)
  define H where "H = (\<lambda>i blk. xor_bytes (kuz_l (kuz_s blk)) (ks ! i))"
  have F_H: "xor_bytes (fold F [0..<n] z) (ks ! n) =
      fold H [1..<Suc n] (xor_bytes z (ks ! 0))" for n z
  proof (induction n)
    case (Suc n)
    then show ?case by (simp add: F_def H_def)
  qed simp
  have "kuz_spec_encrypt ks (kuz_spec_decrypt ks x) =
      xor_bytes (fold F [0..<9] (xor_bytes y (ks ! 0))) (ks ! 9)"
    by (simp add: kuz_spec_decrypt_def kuz_spec_encrypt_def G_def F_def y_def del: upt_rec_numeral upt_Suc)
  also have "\<dots> = fold H [1..<Suc 9] (xor_bytes (xor_bytes y (ks ! 0)) (ks ! 0))"
    by (rule F_H)
  also have "\<dots> = fold H (rev (rev [1..<10])) y"
    using y klen [of 0] by (simp add: xor_bytes_cancel del: upt_rec_numeral upt_Suc)
  also have "\<dots> = x"
    unfolding y_def
    by (rule fold_rev_inverse16)
      (auto simp: G_def H_def klen len_simps kuz_l_lInv xor_bytes_cancel assms(2) simp del: upt_rec_numeral)
  finally show ?thesis .
qed

lemma length_kuz_spec [len_simps]:
  assumes "wf_keys ks" "length x = 16"
  shows "length (kuz_spec_encrypt ks x) = 16" "length (kuz_spec_decrypt ks x) = 16"
proof -
  have klen: "i < 10 \<Longrightarrow> length (ks ! i) = 16" for i
    using assms(1) by (simp add: wf_keys_def)
  have "length (fold (\<lambda>i blk. kuz_l (kuz_s (xor_bytes blk (ks ! i)))) [0..<9] x) = 16"
    by (rule fold_length16) (auto simp: klen len_simps assms(2) simp del: upt_rec_numeral)
  then show "length (kuz_spec_encrypt ks x) = 16"
    using klen [of 9] by (simp add: kuz_spec_encrypt_def del: upt_rec_numeral)
  have "length (fold (\<lambda>i blk. kuz_sInv (kuz_lInv (xor_bytes blk (ks ! i)))) (rev [1..<10]) x) = 16"
    by (rule fold_length16) (auto simp: klen len_simps assms(2) simp del: upt_rec_numeral)
  then show "length (kuz_spec_decrypt ks x) = 16"
    using klen [of 0] by (simp add: kuz_spec_decrypt_def del: upt_rec_numeral)
qed

lemma wf_kuz_cipher_of [simp]: "wf_keys (kc_ks (kuz_cipher_of ct key))"
  by (simp add: kuz_cipher_of_def)

lemmas kuz_block_spec =
  kuz_encrypt_refines [OF wf_kuz_cipher_of] kuz_decrypt_refines [OF wf_kuz_cipher_of]
  length_kuz_spec [OF wf_kuz_cipher_of]

interpretation kuz: block_perm "kuz_block (kuz_cipher_of ct key)" for ct key
  by unfold_locales
    (simp_all add: kuz_block_def kuz_block_spec kuz_spec_dec_enc kuz_spec_enc_dec)

lemma kuz_block_take: "kuz_encrypt_block c (take 16 src) = kuz_encrypt_block c src"
    "kuz_decrypt_block c (take 16 src) = kuz_decrypt_block c src"
  by (simp_all only: kuz_encrypt_block_def kuz_decrypt_block_def copy_into_take)

text \<open>The two construction paths give the same block function.\<close>

lemma kuz_encrypt_ct:
  assumes "length src = 16"
  shows "kuz_encrypt_block (kuz_cipher_of True key) src = kuz_encrypt_block (kuz_cipher_of False key) src"
    and "kuz_decrypt_block (kuz_cipher_of True key) src = kuz_decrypt_block (kuz_cipher_of False key) src"
  using assms kuz_expandKey_facts(1) [of True key False]
  by (simp_all add: kuz_block_spec) (simp_all add: kuz_cipher_of_def)

section \<open>Batched encryption\<close>

text \<open>
  \<^verbatim>\<open>simdBulkEncrypt\<close> of every build without the experimental SIMD path handles no blocks. The
  slices are addresses and lengths; the result is the memory after the call.
\<close>

definition simdBulkEncrypt :: "kuz_cipher \<Rightarrow> mslice \<Rightarrow> mslice \<Rightarrow> nat" where
  "simdBulkEncrypt c dst src = 0"

definition kuz_EncryptBlocks :: "kuz_cipher \<Rightarrow> mslice \<Rightarrow> mslice \<Rightarrow> memory \<Rightarrow> memory res" where
  "kuz_EncryptBlocks c dst src mem =
     (if snd src = 0 \<or> snd src mod 16 \<noteq> 0
      then Inl (Panic ''kuznyechik: EncryptBlocks input not a whole number of blocks'')
      else if snd dst < snd src
      then Inl (Panic ''kuznyechik: EncryptBlocks output smaller than input'')
      else if alias_InexactOverlap (fst dst, snd src) src
      then Inl (Panic ''kuznyechik: invalid buffer overlap'')
      else let n = simdBulkEncrypt c dst src
           in Inr (fold (\<lambda>i mem. store mem (fst dst + 16 * i)
                      (kuz_encrypt_block c (load mem (fst src + 16 * i) 16)))
                    [n div 16..<snd src div 16] mem))"

lemma kuz_EncryptBlocks_result:
  assumes "wf_keys (kc_ks c)" "kuz_EncryptBlocks c (d, dn) (s, sn) mem = Inr mem'"
  shows "load mem' d sn = concat (map (\<lambda>i. kuz_encrypt_block c (load mem (s + 16 * i) 16)) [0..<sn div 16])"
    and "x < d \<or> d + sn \<le> x \<Longrightarrow> mem' x = mem x"
proof -
  have ok: "sn mod 16 = 0" "\<not> alias_InexactOverlap (d, sn) (s, sn)"
    and mem': "mem' = block_loop (\<lambda>i. kuz_encrypt_block c) 16 (sn div 16) d s mem"
    using assms(2)
    by (auto simp: kuz_EncryptBlocks_def simdBulkEncrypt_def block_loop_def Let_def split: if_splits)
  have sn: "sn = 16 * (sn div 16)" using ok(1) by auto
  have len: "length bs = 16 \<Longrightarrow> length (kuz_encrypt_block c bs) = 16" for bs
    using assms(1) by (simp add: kuz_encrypt_refines length_kuz_spec)
  show "load mem' d sn = concat (map (\<lambda>i. kuz_encrypt_block c (load mem (s + 16 * i) 16)) [0..<sn div 16])"
    using block_loop_result [of 16 "\<lambda>i. kuz_encrypt_block c" d "sn div 16" s mem] len ok(2) sn mem'
    by simp
  show "x < d \<or> d + sn \<le> x \<Longrightarrow> mem' x = mem x"
    using block_loop_outside [of 16 "\<lambda>i. kuz_encrypt_block c" x d "sn div 16" s mem] len sn mem'
    by simp
qed

text \<open>The capability a mode sees is the call in memory on any buffers that passed the checks.\<close>

lemma kuz_EncryptBlocks_enc_blocks:
  assumes "wf_keys (kc_ks c)" "kuz_EncryptBlocks c (d, dn) (s, sn) mem = Inr mem'"
  shows "load mem' d sn = kuz_enc_blocks c (load mem s sn)"
proof -
  have "load mem (s + 16 * i) 16 = slice (16 * i) 16 (load mem s sn)" if "i < sn div 16" for i
    using that by (intro nth_equalityI) (auto simp: nth_slice add.assoc)
  then have "concat (map (\<lambda>i. kuz_encrypt_block c (load mem (s + 16 * i) 16)) [0..<sn div 16]) =
      concat (map (kuz_encrypt_block c) (full_blocks 16 (sn div 16) (load mem s sn)))"
    unfolding full_blocks_def map_map o_def by (intro arg_cong [where f = concat] map_cong refl) simp
  then show ?thesis
    using kuz_EncryptBlocks_result(1) [OF assms] by (simp add: kuz_enc_blocks_def)
qed


section \<open>Properties\<close>

text \<open>
  C17. The constant-time Kuznyechik (bit-sliced S-box scan, multiplication without tables)
  computes the same function as the table-driven one, on every key and every pair of
  buffers, panics included.
\<close>

theorem kuz_constant_time_agrees:
  "bind_res (kuz_NewCipherCT key) (\<lambda>c. kuz_Encrypt c dst src) =
     bind_res (kuz_NewCipher key) (\<lambda>c. kuz_Encrypt c dst src)
   \<and> bind_res (kuz_NewCipherCT key) (\<lambda>c. kuz_Decrypt c dst src) =
     bind_res (kuz_NewCipher key) (\<lambda>c. kuz_Decrypt c dst src)"
  using kuz_encrypt_ct [of "take 16 src" key]
  by (cases "16 \<le> length src") (simp_all add: kuz_NewCipher_def kuz_NewCipherCT_def kuz_Encrypt_def kuz_Decrypt_def kuz_block_take)

text \<open>
  C9. Kuznyechik over the fused tables is the cipher of RFC 7801: Encrypt computes nine LSX
  rounds of the reference transforms and a final key addition, and Decrypt inverts it.
\<close>

theorem kuz_Encrypt_spec:
  assumes "kuz_NewCipher key = Inr c" "16 \<le> length src" "16 \<le> length dst"
  shows "kuz_Encrypt c dst src = Inr (kuz_spec_encrypt (kc_ks c) (take 16 src) @ drop 16 dst) \<and>
    kuz_Decrypt c dst (kuz_spec_encrypt (kc_ks c) (take 16 src)) = Inr (take 16 src @ drop 16 dst)"
  using assms kuz_encrypt_refines [of c "take 16 src"] kuz_decrypt_refines [of c "kuz_spec_encrypt (kc_ks c) (take 16 src)"]
    kuz_spec_dec_enc [of "kc_ks c" "take 16 src"]
  by (auto simp: kuz_NewCipher_def kuz_Encrypt_def kuz_Decrypt_def kuz_block_take length_kuz_spec split: if_splits)

theorem kuz_Encrypt_spec_witness:
  "kuz_Decrypt (kuz_cipher_of False (replicate 32 1)) (replicate 16 0)
     (kuz_spec_encrypt (kc_ks (kuz_cipher_of False (replicate 32 1))) (replicate 16 9)) = Inr (replicate 16 9)"
  using kuz_Encrypt_spec [of "replicate 32 1" "kuz_cipher_of False (replicate 32 1)" "replicate 16 9" "replicate 16 0"]
  by (simp add: kuz_NewCipher_def)

text \<open>
  Batched encryption in memory: whenever the call passes its checks, also in place, the
  destination holds the encryption of each source block as it was before the call, and no
  other byte of memory changes.
\<close>

theorem kuz_EncryptBlocks_correct:
  assumes "kuz_NewCipher key = Inr c" "kuz_EncryptBlocks c (d, dn) (s, sn) mem = Inr mem'"
  shows "load mem' d sn = concat (map (\<lambda>i. kuz_encrypt_block c (load mem (s + 16 * i) 16)) [0..<sn div 16]) \<and>
    (\<forall>x. x < d \<or> d + sn \<le> x \<longrightarrow> mem' x = mem x)"
  using assms kuz_EncryptBlocks_result [of c d dn s sn mem mem']
  by (auto simp: kuz_NewCipher_def split: if_splits)

theorem kuz_EncryptBlocks_correct_witness:
  "\<exists>mem'. kuz_EncryptBlocks (kuz_cipher_of False (replicate 32 1)) (0, 32) (0, 32) (\<lambda>_. 7) = Inr mem' \<and>
     load mem' 0 32 = concat (map (\<lambda>i. kuz_encrypt_block (kuz_cipher_of False (replicate 32 1))
       (load (\<lambda>_. 7) (0 + 16 * i) 16)) [0..<2]) \<and> mem' 32 = 7"
  using kuz_EncryptBlocks_correct [of "replicate 32 1" "kuz_cipher_of False (replicate 32 1)" 0 32 0 32 "\<lambda>_. 7"]
  by (simp add: kuz_NewCipher_def kuz_EncryptBlocks_def simdBulkEncrypt_def alias_InexactOverlap_def alias_AnyOverlap_def
      Let_def del: upt_rec_numeral)

end
