(* ===== verification/Magma.thy ===== *)
theory Magma
  imports Gost28147
begin

unbundle bit_operations_syntax

text \<open>
  \<^verbatim>\<open>magma/magma.go\<close>: the GOST R 34.12-2015 cipher Magma. The package has its own copy of
  the 28147 core (S-box table, nibble substitution, rotation, Feistel ladder) and adds the
  big-endian numbering: big-endian subkeys (M1) and a reversal of the whole block on input
  and output (M2). The theorems relate it to the \<^verbatim>\<open>gost28147\<close> core it re-implements.
\<close>

definition sboxTC26Z :: "byte list list" where
  "sboxTC26Z = [
    [12, 4, 6, 2, 10, 5, 11, 9, 14, 8, 13, 7, 0, 3, 15, 1],
    [6, 8, 2, 3, 9, 10, 5, 12, 1, 14, 4, 7, 11, 13, 0, 15],
    [11, 3, 5, 8, 2, 15, 10, 13, 14, 1, 7, 4, 12, 9, 6, 0],
    [12, 8, 2, 1, 13, 4, 15, 6, 7, 0, 10, 5, 3, 14, 9, 11],
    [7, 15, 5, 10, 8, 1, 6, 13, 0, 9, 3, 14, 11, 4, 2, 12],
    [5, 13, 15, 6, 9, 2, 12, 10, 11, 7, 8, 1, 4, 3, 14, 0],
    [8, 14, 2, 5, 6, 9, 1, 12, 15, 4, 11, 0, 13, 10, 3, 7],
    [1, 7, 14, 13, 0, 5, 8, 3, 4, 15, 10, 6, 9, 12, 11, 2]]"

definition magma_seqEncrypt :: "nat list" where
  "magma_seqEncrypt = [
    0, 1, 2, 3, 4, 5, 6, 7,
    0, 1, 2, 3, 4, 5, 6, 7,
    0, 1, 2, 3, 4, 5, 6, 7,
    7, 6, 5, 4, 3, 2, 1, 0]"

definition magma_seqDecrypt :: "nat list" where
  "magma_seqDecrypt = [
    0, 1, 2, 3, 4, 5, 6, 7,
    7, 6, 5, 4, 3, 2, 1, 0,
    7, 6, 5, 4, 3, 2, 1, 0,
    7, 6, 5, 4, 3, 2, 1, 0]"

record magma_cipher =
  mc_x :: "u32 list"

definition magma_cipher_of :: "bytes \<Rightarrow> magma_cipher" where
  "magma_cipher_of key = \<lparr>mc_x = map (\<lambda>i. be_word (slice (4 * i) 4 key)) [0..<8]\<rparr>"

definition magma_NewCipher :: "bytes \<Rightarrow> magma_cipher res" where
  "magma_NewCipher key =
     (if length key \<noteq> 32 then Inl (Panic ''magma: invalid key size'')
      else Inr (magma_cipher_of key))"

definition rotl11 :: "u32 \<Rightarrow> u32" where
  "rotl11 x = push_bit 11 x OR drop_bit (32 - 11) x"

definition magma_t :: "u32 \<Rightarrow> u32" where
  "magma_t x =
     fold (\<lambda>i out. out OR push_bit (4 * i) (ucast (sboxTC26Z ! i ! unat (drop_bit (4 * i) x AND 0xF))))
       [0..<8] 0"

definition magma_g :: "u32 \<Rightarrow> u32 \<Rightarrow> u32" where
  "magma_g a k = rotl11 (magma_t (a + k))"

definition magma_xcrypt :: "magma_cipher \<Rightarrow> nat list \<Rightarrow> u32 \<times> u32 \<Rightarrow> u32 \<times> u32" where
  "magma_xcrypt c sq p = fold (\<lambda>idx (n1, n2). (magma_g n1 (mc_x c ! idx) XOR n2, n1)) sq p"

text \<open>
  \<^verbatim>\<open>crypt\<close> after its length checks: reverse, run the core, swap the halves, reverse back.
\<close>

definition magma_crypt_block :: "magma_cipher \<Rightarrow> nat list \<Rightarrow> bytes \<Rightarrow> bytes" where
  "magma_crypt_block c sq src =
     (let tmp = rev (take 8 src);
          (n1, n2) = magma_xcrypt c sq (le_word (slice 0 4 tmp), le_word (slice 4 4 tmp))
      in rev (word_le 4 n2 @ word_le 4 n1))"

definition magma_crypt :: "magma_cipher \<Rightarrow> bytes \<Rightarrow> bytes \<Rightarrow> nat list \<Rightarrow> bytes res" where
  "magma_crypt c dst src sq =
     (if length src < 8 then Inl (Panic ''magma: input block too small'')
      else if length dst < 8 then Inl (Panic ''magma: output block too small'')
      else Inr (magma_crypt_block c sq src @ drop 8 dst))"

definition magma_Encrypt :: "magma_cipher \<Rightarrow> bytes \<Rightarrow> bytes \<Rightarrow> bytes res" where
  "magma_Encrypt c dst src = magma_crypt c dst src magma_seqEncrypt"

definition magma_Decrypt :: "magma_cipher \<Rightarrow> bytes \<Rightarrow> bytes \<Rightarrow> bytes res" where
  "magma_Decrypt c dst src = magma_crypt c dst src magma_seqDecrypt"

definition MagmaEncrypt :: "bytes \<Rightarrow> bytes \<Rightarrow> bytes res" where
  "MagmaEncrypt key pt =
     bind_res (magma_NewCipher key) (\<lambda>c. magma_Encrypt c (replicate 8 0) pt)"

definition MagmaDecrypt :: "bytes \<Rightarrow> bytes \<Rightarrow> bytes res" where
  "MagmaDecrypt key ct =
     bind_res (magma_NewCipher key) (\<lambda>c. magma_Decrypt c (replicate 8 0) ct)"

definition magma_block :: "magma_cipher \<Rightarrow> block_cipher" where
  "magma_block c =
     \<lparr>bsize = 8, enc = magma_crypt_block c magma_seqEncrypt, dec = magma_crypt_block c magma_seqDecrypt,
      enc_blocks = None, ctr_xor_blocks = None\<rparr>"

section \<open>Magma is the 28147 core under the RFC 8891 numbering\<close>

lemma magma_block_sel [simp]:
  "bsize (magma_block c) = 8"
  "enc (magma_block c) = magma_crypt_block c magma_seqEncrypt"
  "dec (magma_block c) = magma_crypt_block c magma_seqDecrypt"
  by (simp_all add: magma_block_def)

lemma magma_seq_eq: "magma_seqEncrypt = seqEncrypt" "magma_seqDecrypt = seqDecrypt"
  by (simp_all add: magma_seqEncrypt_def magma_seqDecrypt_def seqEncrypt_def seqDecrypt_def)

lemma magma_g_eq: "magma_g a k = gost_f SboxTC26Z (a + k)"
proof -
  have "sboxTC26Z = SboxTC26Z"
    by (simp add: sboxTC26Z_def SboxTC26Z_def)
  then show ?thesis
    by (simp add: magma_g_def gost_f_def rotl11_def magma_t_def gost_t_def Let_def)
qed

lemma magma_xcrypt_gost:
  "magma_xcrypt c sq = gost_xcrypt \<lparr>gc_x = mc_x c, gc_sbox = SboxTC26Z\<rparr> sq"
  by (simp add: magma_xcrypt_def gost_xcrypt_def magma_g_eq fun_eq_iff)

lemma magma_crypt_block_gost:
  "magma_crypt_block c sq src =
     rev (gost_crypt_block \<lparr>gc_x = mc_x c, gc_sbox = SboxTC26Z\<rparr> sq (rev (take 8 src)))"
  by (simp add: magma_crypt_block_def gost_crypt_block_def magma_xcrypt_gost Let_def split: prod.splits)

lemma length_magma_crypt_block [simp, len_simps]: "length (magma_crypt_block c sq src) = 8"
  by (simp add: magma_crypt_block_gost)

lemma magma_crypt_block_inverse:
  "length b = 8 \<Longrightarrow> magma_crypt_block c (rev sq) (magma_crypt_block c sq b) = b"
  by (simp add: magma_crypt_block_gost gost_crypt_block_inverse)

lemma magma_dec_enc:
  "length b = 8 \<Longrightarrow>
   magma_crypt_block c magma_seqDecrypt (magma_crypt_block c magma_seqEncrypt b) = b"
  using magma_crypt_block_inverse [of b c seqEncrypt]
  by (simp add: magma_seq_eq seqDecrypt_rev)

lemma magma_enc_dec:
  "length b = 8 \<Longrightarrow>
   magma_crypt_block c magma_seqEncrypt (magma_crypt_block c magma_seqDecrypt b) = b"
  using magma_crypt_block_inverse [of b c seqDecrypt]
  by (simp add: magma_seq_eq seqDecrypt_rev)

interpretation magma: block_perm "magma_block c" for c
  by unfold_locales (simp_all add: magma_dec_enc magma_enc_dec)

text \<open>
  The subkeys: a big-endian read of a key word is a little-endian read of the word with its
  four bytes reversed (the M1 step of the package comment).
\<close>

definition word_reversed_key :: "bytes \<Rightarrow> bytes" where
  "word_reversed_key key = concat (map (\<lambda>i. rev (slice (4 * i) 4 key)) [0..<8])"

lemma upt_8: "[0..<8] = [0, 1, 2, 3, 4, 5, 6, 7]"
  by (simp add: upt_rec numeral_eq_Suc)

lemma magma_subkeys_gost:
  assumes "length key = 32"
  shows "mc_x (magma_cipher_of key) = gost_subkeys (word_reversed_key key)"
proof -
  have len: "length (slice (4 * i) 4 key) = 4" if "i < 8" for i
    using assms that by simp
  have "slice (4 * i) 4 (word_reversed_key key) = rev (slice (4 * i) 4 key)" if "i < 8" for i
    using that assms
    by (auto simp: word_reversed_key_def upt_8 slice_def numeral_eq_Suc less_Suc_eq)
  then show ?thesis
    by (simp add: magma_cipher_of_def gost_subkeys_def be_word_def)
qed

lemma magma_crypt_block_take: "magma_crypt_block c sq (take 8 src) = magma_crypt_block c sq src"
  by (simp add: magma_crypt_block_def)

section \<open>Properties\<close>

text \<open>
  C39. Magma is the GOST 28147-89 core under the RFC 8891 numbering: the one-shot encryption
  is the 28147 encryption under the word-reversed key and the TC26-Z S-box, with the block
  reversed on the way in and out; the error branches are the ones of the source.
\<close>

theorem MagmaEncrypt_gost:
  "MagmaEncrypt key pt =
     (if length key \<noteq> 32 then Inl (Panic ''magma: invalid key size'')
      else if length pt < 8 then Inl (Panic ''magma: input block too small'')
      else Inr (rev (gost_encrypt_block (gost_cipher_of (word_reversed_key key) SboxTC26Z) (rev (take 8 pt)))))"
  by (simp add: MagmaEncrypt_def magma_NewCipher_def magma_Encrypt_def magma_crypt_def magma_crypt_block_gost
      magma_seq_eq gost_encrypt_block_def gost_cipher_of_def magma_subkeys_gost)

text \<open>
  The one-shot Magma decryption inverts the one-shot encryption.
\<close>

theorem MagmaDecrypt_MagmaEncrypt:
  assumes "MagmaEncrypt key pt = Inr ct"
  shows "MagmaDecrypt key ct = Inr (take 8 pt)"
  using assms magma_dec_enc [of "take 8 pt" "magma_cipher_of key"]
  by (auto simp: MagmaEncrypt_def MagmaDecrypt_def magma_NewCipher_def magma_Encrypt_def magma_Decrypt_def
      magma_crypt_def magma_crypt_block_take split: if_splits)

theorem MagmaDecrypt_MagmaEncrypt_witness:
  "\<exists>ct. MagmaEncrypt (replicate 32 3) (replicate 8 9) = Inr ct \<and> MagmaDecrypt (replicate 32 3) ct = Inr (replicate 8 9)"
  using MagmaDecrypt_MagmaEncrypt [of "replicate 32 3" "replicate 8 9"]
  by (simp add: MagmaEncrypt_def magma_NewCipher_def magma_Encrypt_def magma_crypt_def)

end
