(* ===== verification/CTR_ACPKM.thy ===== *)
theory CTR_ACPKM
  imports Block_Cipher Streaming Alias KuznyechikBulk Magma
begin

text \<open>
  \<^verbatim>\<open>ctracpkm/ctracpkm.go\<close>: the CTR stream and its ACPKM key meshing. The state is the Go
  struct without the two scratch buffers; \<^verbatim>\<open>XORKeyStream\<close> is its loop with the batched and the
  fused path. The lemmas show that the batched paths, the split of a message into
  calls and the stale bytes of the gamma block make no difference, and give the
  keystream in closed form: block \<open>j\<close> is the \<open>j\<close>-th counter under the key of its section.
\<close>

section \<open>State and operations\<close>

record ctr =
  ct_newBlock :: "(bytes \<Rightarrow> block_cipher) option"
  ct_block :: block_cipher
  ct_bulk :: "(bytes \<Rightarrow> bytes) option"
  ct_fused :: "(bytes \<Rightarrow> bytes \<Rightarrow> bytes \<times> bytes) option"
  ct_blockSize :: nat
  ct_iv :: bytes
  ct_gamma :: bytes
  ct_num :: nat
  ct_sectionSize :: nat
  ct_sinceRekey :: nat

definition acpkmD :: bytes where
  "acpkmD =
     [0x80, 0x81, 0x82, 0x83, 0x84, 0x85, 0x86, 0x87,
      0x88, 0x89, 0x8a, 0x8b, 0x8c, 0x8d, 0x8e, 0x8f,
      0x90, 0x91, 0x92, 0x93, 0x94, 0x95, 0x96, 0x97,
      0x98, 0x99, 0x9a, 0x9b, 0x9c, 0x9d, 0x9e, 0x9f]"

definition ctr_NewCTR :: "block_cipher \<Rightarrow> bytes \<Rightarrow> ctr res" where
  "ctr_NewCTR b iv =
     (let bs = bsize b in
      if length iv \<noteq> bs then Inl (Panic ''ctracpkm: IV length must equal block size'')
      else Inr \<lparr>ct_newBlock = None, ct_block = b, ct_bulk = enc_blocks b, ct_fused = ctr_xor_blocks b,
                ct_blockSize = bs, ct_iv = iv, ct_gamma = replicate bs 0, ct_num = bs,
                ct_sectionSize = 0, ct_sinceRekey = 0\<rparr>)"

definition ctr_NewCTRACPKM ::
  "(bytes \<Rightarrow> block_cipher) option \<Rightarrow> bytes \<Rightarrow> bytes \<Rightarrow> int \<Rightarrow> ctr res" where
  "ctr_NewCTRACPKM newBlock key iv sectionSize =
     (case newBlock of
        None \<Rightarrow> Inl (Panic ''ctracpkm: newBlock must not be nil'')
      | Some nb \<Rightarrow>
        if sectionSize < 0 then Inl (Panic ''ctracpkm: negative section size'')
        else if length key \<noteq> 32 then Inl (Panic ''ctracpkm: ACPKM key must be 32 bytes'')
        else let b = nb key; bs = bsize b in
          if bs = 0 then Inl (Panic ''runtime error: integer divide by zero'')
          else if 32 mod bs \<noteq> 0
          then Inl (Panic ''ctracpkm: block size must divide the 32-byte ACPKM key'')
          else if length iv \<noteq> bs then Inl (Panic ''ctracpkm: IV length must equal block size'')
          else if sectionSize mod int bs \<noteq> 0
          then Inl (Panic ''ctracpkm: section size must be a multiple of the block size'')
          else Inr \<lparr>ct_newBlock = Some nb, ct_block = b, ct_bulk = enc_blocks b,
                    ct_fused = ctr_xor_blocks b, ct_blockSize = bs, ct_iv = iv,
                    ct_gamma = replicate bs 0, ct_num = bs,
                    ct_sectionSize = nat sectionSize, ct_sinceRekey = 0\<rparr>)"

definition ctr_incCounter :: "bytes \<Rightarrow> bytes" where
  "ctr_incCounter ctr = inc_be ctr"

definition acpkm_key :: "block_cipher \<Rightarrow> bytes" where
  "acpkm_key b = concat (map (enc b) (full_blocks (bsize b) (32 div bsize b) acpkmD))"

definition ctr_rekeyACPKM :: "ctr \<Rightarrow> ctr" where
  "ctr_rekeyACPKM c =
     (case ct_newBlock c of
        None \<Rightarrow> c
      | Some nb \<Rightarrow>
        let b = nb (acpkm_key (ct_block c))
        in c\<lparr>ct_block := b, ct_bulk := enc_blocks b, ct_fused := ctr_xor_blocks b\<rparr>)"

definition ctr_boundary :: "ctr \<Rightarrow> ctr" where
  "ctr_boundary c =
     (if ct_sectionSize c > 0 \<and> ct_sinceRekey c \<ge> ct_sectionSize c
      then (ctr_rekeyACPKM c)\<lparr>ct_sinceRekey := 0\<rparr> else c)"

definition ctr_bulkXOR :: "ctr \<Rightarrow> (bytes \<Rightarrow> bytes) \<Rightarrow> bytes \<Rightarrow> nat \<times> bytes \<times> ctr" where
  "ctr_bulkXOR c bulk src =
     (let bs = ct_blockSize c;
          blocks = length src div bs;
          untilRekey = (ct_sectionSize c - ct_sinceRekey c) div bs;
          blocks = (if ct_sectionSize c > 0 \<and> blocks > untilRekey then untilRekey else blocks)
      in if blocks < 32 then (0, [], c)
      else case ct_fused c of
        Some fused \<Rightarrow>
          let n = blocks * bs; (out, iv) = fused (take n src) (ct_iv c)
          in (n, out, c\<lparr>ct_iv := iv, ct_sinceRekey := ct_sinceRekey c + n\<rparr>)
      | None \<Rightarrow>
          let blocks = (if blocks > 256 then 256 else blocks);
              n = blocks * bs;
              ctrBuf = concat (map (\<lambda>i. (ctr_incCounter ^^ i) (ct_iv c)) [0..<blocks]);
              ksBuf = bulk ctrBuf
          in (n, xor_bytes (take n src) ksBuf,
              c\<lparr>ct_iv := (ctr_incCounter ^^ blocks) (ct_iv c), ct_sinceRekey := ct_sinceRekey c + n\<rparr>))"

definition ctr_fresh :: "ctr \<Rightarrow> ctr" where
  "ctr_fresh c = c\<lparr>ct_gamma := enc (ct_block c) (ct_iv c), ct_iv := ctr_incCounter (ct_iv c), ct_num := 0\<rparr>"

definition ctr_advance :: "ctr \<Rightarrow> ctr" where
  "ctr_advance c = c\<lparr>ct_num := ct_num c + 1, ct_sinceRekey := ct_sinceRekey c + 1\<rparr>"

text \<open>The loop of \<^verbatim>\<open>XORKeyStream\<close> on the bytes of the source.\<close>

function ctr_stream :: "ctr \<Rightarrow> bytes \<Rightarrow> bytes \<times> ctr" where
  "ctr_stream c src =
     (if src = [] then ([], c)
      else if ct_num c = ct_blockSize c
      then let c = ctr_boundary c;
               (n, out, cb) = (case ct_bulk c of None \<Rightarrow> (0, [], c) | Some bulk \<Rightarrow> ctr_bulkXOR c bulk src)
           in if n > 0
              then (let (rest, c) = ctr_stream cb (drop n src) in (out @ rest, c))
              else let c = ctr_fresh c; (rest, c') = ctr_stream (ctr_advance c) (tl src)
                   in ((hd src XOR ct_gamma c ! ct_num c) # rest, c')
      else let (rest, c') = ctr_stream (ctr_advance c) (tl src)
           in ((hd src XOR ct_gamma c ! ct_num c) # rest, c'))"
  by pat_completeness auto
termination
  by (relation "measure (\<lambda>(c, src). length src)") auto

declare ctr_stream.simps [simp del]

text \<open>
  The call in memory, in the order of the code: every turn reads its source bytes, then
  writes them, and the next turn reads the memory as it is by then. The batched path fills its scratch
  keystream first and then runs the byte loop; the fused path is one call of the cipher's
  \<^verbatim>\<open>CTRXORBlocks\<close>, whose own loop in memory is in \<open>KuznyechikSIMD\<close>. Slices are given by their
  addresses and the number of bytes left.
\<close>

definition ctr_bulkXOR_mem ::
  "ctr \<Rightarrow> (bytes \<Rightarrow> bytes) \<Rightarrow> nat \<Rightarrow> nat \<Rightarrow> nat \<Rightarrow> memory \<Rightarrow> nat \<times> memory \<times> ctr" where
  "ctr_bulkXOR_mem c bulk d s len mem =
     (let bs = ct_blockSize c;
          blocks = len div bs;
          untilRekey = (ct_sectionSize c - ct_sinceRekey c) div bs;
          blocks = (if ct_sectionSize c > 0 \<and> blocks > untilRekey then untilRekey else blocks)
      in if blocks < 32 then (0, mem, c)
      else case ct_fused c of
        Some fused \<Rightarrow>
          let n = blocks * bs; (out, iv) = fused (load mem s n) (ct_iv c)
          in (n, store mem d out, c\<lparr>ct_iv := iv, ct_sinceRekey := ct_sinceRekey c + n\<rparr>)
      | None \<Rightarrow>
          let blocks = (if blocks > 256 then 256 else blocks);
              n = blocks * bs;
              ctrBuf = concat (map (\<lambda>i. (ctr_incCounter ^^ i) (ct_iv c)) [0..<blocks]);
              ksBuf = bulk ctrBuf
          in (n, xor_loop ksBuf d s mem,
              c\<lparr>ct_iv := (ctr_incCounter ^^ blocks) (ct_iv c), ct_sinceRekey := ct_sinceRekey c + n\<rparr>))"

function ctr_loop :: "ctr \<Rightarrow> nat \<Rightarrow> nat \<Rightarrow> nat \<Rightarrow> memory \<Rightarrow> memory \<times> ctr" where
  "ctr_loop c d s len mem =
     (if len = 0 then (mem, c)
      else if ct_num c = ct_blockSize c
      then let c = ctr_boundary c;
               (n, mem', cb) = (case ct_bulk c of None \<Rightarrow> (0, mem, c) | Some bulk \<Rightarrow> ctr_bulkXOR_mem c bulk d s len mem)
           in if n > 0
              then ctr_loop cb (d + n) (s + n) (len - n) mem'
              else let c = ctr_fresh c
                   in ctr_loop (ctr_advance c) (d + 1) (s + 1) (len - 1) (mem(d := mem s XOR ct_gamma c ! ct_num c))
      else ctr_loop (ctr_advance c) (d + 1) (s + 1) (len - 1) (mem(d := mem s XOR ct_gamma c ! ct_num c)))"
  by pat_completeness auto
termination
  by (relation "measure (\<lambda>(c, d, s, len, mem). len)") auto

declare ctr_loop.simps [simp del]

definition ctr_XORKeyStream :: "ctr \<Rightarrow> mslice \<Rightarrow> mslice \<Rightarrow> memory \<Rightarrow> (memory \<times> ctr) res" where
  "ctr_XORKeyStream c dst src mem =
     (if snd dst < snd src then Inl (Panic ''ctracpkm: output smaller than input'')
      else if alias_InexactOverlap (fst dst, snd src) src
      then Inl (Panic ''ctracpkm: invalid buffer overlap'')
      else Inr (ctr_loop c (fst dst) (fst src) (snd src) mem))"

section \<open>What the mode needs of the block cipher\<close>

locale ctr_cipher = block_enc +
  assumes bulk_law: "enc_blocks b = Some f \<Longrightarrow> length src = bsize b * n \<Longrightarrow>
      f src = concat (map (enc b) (full_blocks (bsize b) n src))"
    and fused_law: "ctr_xor_blocks b = Some g \<Longrightarrow> length src = bsize b * n \<Longrightarrow> length iv = bsize b \<Longrightarrow>
      g src iv = (xor_bytes src (concat (map (\<lambda>i. enc b ((inc_be ^^ i) iv)) [0..<n])), (inc_be ^^ n) iv)"

definition counter_blocks :: "block_cipher \<Rightarrow> bytes \<Rightarrow> nat \<Rightarrow> bytes" where
  "counter_blocks b iv n = concat (map (\<lambda>i. enc b ((inc_be ^^ i) iv)) [0..<n])"

context ctr_cipher
begin

lemma length_counter_blocks: "length iv = bsize b \<Longrightarrow> length (counter_blocks b iv n) = bsize b * n"
  unfolding counter_blocks_def by (intro length_concat_upt enc_length) simp

lemma bulk_counters:
  assumes "enc_blocks b = Some f" "length iv = bsize b"
  shows "f (concat (map (\<lambda>i. (inc_be ^^ i) iv) [0..<n])) = counter_blocks b iv n"
proof -
  have "length (concat (map (\<lambda>i. (inc_be ^^ i) iv) [0..<n])) = bsize b * n"
    using assms(2) by (intro length_concat_upt) simp
  from bulk_law [OF assms(1) this] show ?thesis
    using assms(2) by (simp add: full_blocks_concat counter_blocks_def o_def)
qed

end

section \<open>The byte machine behind the loop\<close>

text \<open>
  \<open>ctr_view\<close> forgets the consumed bytes of the gamma block, which a batched run leaves stale.
  \<open>ctr_next\<close> is one byte of keystream on the per-block path.
\<close>

definition ctr_view :: "ctr \<Rightarrow> ctr" where
  "ctr_view c = c\<lparr>ct_gamma := replicate (ct_num c) 0 @ drop (ct_num c) (ct_gamma c)\<rparr>"

definition ctr_ready :: "ctr \<Rightarrow> ctr" where
  "ctr_ready c = (if ct_num c = ct_blockSize c then ctr_fresh (ctr_boundary c) else c)"

definition ctr_next :: "ctr \<Rightarrow> byte \<times> ctr" where
  "ctr_next c = (let c = ctr_ready c in (ct_gamma c ! ct_num c, ctr_view (ctr_advance c)))"

text \<open>The invariant. \<open>good\<close> says which ciphers of block size \<open>bs\<close> may occur.\<close>

definition ctr_wf :: "ctr \<Rightarrow> bool" where
  "ctr_wf c \<longleftrightarrow>
     ctr_cipher (ct_block c) \<and> bsize (ct_block c) = ct_blockSize c \<and>
     ct_bulk c = enc_blocks (ct_block c) \<and> ct_fused c = ctr_xor_blocks (ct_block c) \<and>
     length (ct_iv c) = ct_blockSize c \<and> length (ct_gamma c) = ct_blockSize c \<and>
     ct_num c \<le> ct_blockSize c \<and>
     (\<forall>nb key. ct_newBlock c = Some nb \<longrightarrow> length key = 32 \<longrightarrow>
        ctr_cipher (nb key) \<and> bsize (nb key) = ct_blockSize c) \<and>
     (\<forall>nb. ct_newBlock c = Some nb \<longrightarrow> 32 mod ct_blockSize c = 0) \<and>
     ct_sectionSize c mod ct_blockSize c = 0 \<and>
     ct_sinceRekey c mod ct_blockSize c = ct_num c mod ct_blockSize c"

lemma ctr_wfD:
  assumes "ctr_wf c"
  shows "ctr_cipher (ct_block c)" "bsize (ct_block c) = ct_blockSize c"
    "ct_bulk c = enc_blocks (ct_block c)" "ct_fused c = ctr_xor_blocks (ct_block c)"
    "length (ct_iv c) = ct_blockSize c" "length (ct_gamma c) = ct_blockSize c"
    "ct_num c \<le> ct_blockSize c" "ct_sectionSize c mod ct_blockSize c = 0"
    "ct_sinceRekey c mod ct_blockSize c = ct_num c mod ct_blockSize c" "0 < ct_blockSize c"
  using assms block_enc.bsize_pos [OF ctr_cipher.axioms(1)] unfolding ctr_wf_def by metis+

lemma length_acpkm_key:
  assumes "block_enc b" "32 mod bsize b = 0"
  shows "length (acpkm_key b) = 32"
proof -
  have "length acpkmD = 32" by (simp add: acpkmD_def)
  then have "\<And>i. i < 32 div bsize b \<Longrightarrow> length (slice (bsize b * i) (bsize b) acpkmD) = bsize b"
    using block_enc.bsize_pos [OF assms(1)]
    by (intro length_slice) (metis Suc_leI mult_Suc_right add.commute mult_le_mono2 order_trans times_div_less_eq_dividend)
  then have "length (acpkm_key b) = bsize b * (32 div bsize b)"
    unfolding acpkm_key_def full_blocks_def map_map o_def
    by (intro length_concat_upt) (simp add: block_enc.enc_length [OF assms(1)])
  then show ?thesis using assms(2) by auto
qed

lemma ctr_boundary_wf:
  assumes "ctr_wf c" "ct_num c = ct_blockSize c"
  shows "ctr_wf (ctr_boundary c)" "ct_num (ctr_boundary c) = ct_blockSize c"
    "ct_blockSize (ctr_boundary c) = ct_blockSize c" "ct_gamma (ctr_boundary c) = ct_gamma c"
    "ct_iv (ctr_boundary c) = ct_iv c" "ct_sectionSize (ctr_boundary c) = ct_sectionSize c"
    "ct_sectionSize c > 0 \<Longrightarrow> ct_sinceRekey (ctr_boundary c) < ct_sectionSize c"
proof -
  show "ctr_wf (ctr_boundary c)"
  proof (cases "ct_newBlock c")
    case None
    then show ?thesis
      using assms by (simp add: ctr_boundary_def ctr_rekeyACPKM_def ctr_wf_def)
  next
    case (Some nb)
    have "length (acpkm_key (ct_block c)) = 32"
      using assms Some by (intro length_acpkm_key) (auto simp: ctr_wf_def intro: ctr_cipher.axioms(1))
    then show ?thesis
      using assms Some by (simp add: ctr_boundary_def ctr_rekeyACPKM_def Let_def ctr_wf_def)
  qed
  show "ct_num (ctr_boundary c) = ct_blockSize c"
    "ct_blockSize (ctr_boundary c) = ct_blockSize c" "ct_gamma (ctr_boundary c) = ct_gamma c"
    "ct_iv (ctr_boundary c) = ct_iv c" "ct_sectionSize (ctr_boundary c) = ct_sectionSize c"
    "ct_sectionSize c > 0 \<Longrightarrow> ct_sinceRekey (ctr_boundary c) < ct_sectionSize c"
    using assms(2)
    by (simp_all add: ctr_boundary_def ctr_rekeyACPKM_def Let_def split: option.splits)
qed

lemma ctr_boundary_id:
  "ct_sectionSize c = 0 \<or> ct_sinceRekey c < ct_sectionSize c \<Longrightarrow> ctr_boundary c = c"
  by (auto simp: ctr_boundary_def)

lemma ctr_fresh_wf:
  assumes "ctr_wf c" "ct_num c = ct_blockSize c"
  shows "ctr_wf (ctr_fresh c)"
  using assms ctr_wfD [OF assms(1)] block_enc.enc_length [OF ctr_cipher.axioms(1)]
  by (simp add: ctr_wf_def ctr_fresh_def ctr_incCounter_def)

lemma ctr_ready_wf:
  assumes "ctr_wf c"
  shows "ctr_wf (ctr_ready c)" "ct_num (ctr_ready c) < ct_blockSize (ctr_ready c)"
  using assms ctr_boundary_wf [OF assms] ctr_wfD(7,10) [OF assms] ctr_fresh_wf [of "ctr_boundary c"]
  by (auto simp: ctr_ready_def) (simp add: ctr_fresh_def)

lemma ctr_advance_wf:
  assumes "ctr_wf c" "ct_num c < ct_blockSize c"
  shows "ctr_wf (ctr_advance c)"
proof -
  have "(ct_sinceRekey c + 1) mod ct_blockSize c = (ct_num c + 1) mod ct_blockSize c"
    using ctr_wfD(9) [OF assms(1)] by (rule mod_add_cong) simp
  then show ?thesis
    using assms by (simp add: ctr_wf_def ctr_advance_def)
qed

lemma ctr_view_wf: "ctr_wf c \<Longrightarrow> ctr_wf (ctr_view c)"
  by (simp add: ctr_wf_def ctr_view_def)

text \<open>The machine does not see what the view forgets.\<close>

lemma ctr_ready_view:
  assumes "ctr_wf c"
  shows "ct_gamma (ctr_ready (ctr_view c)) ! ct_num (ctr_ready (ctr_view c)) = ct_gamma (ctr_ready c) ! ct_num (ctr_ready c)"
    and "ctr_view (ctr_advance (ctr_ready (ctr_view c))) = ctr_view (ctr_advance (ctr_ready c))"
proof -
  have b: "ctr_fresh (ctr_boundary (ctr_view c)) = ctr_fresh (ctr_boundary c)"
    by (simp add: ctr_view_def ctr_boundary_def ctr_rekeyACPKM_def ctr_fresh_def Let_def split: option.splits)
  have r: "ctr_ready (ctr_view c) = (if ct_num c = ct_blockSize c then ctr_ready c else ctr_view c)"
    using b by (simp add: ctr_ready_def) (simp add: ctr_view_def)
  have g: "ct_num c < ct_blockSize c \<Longrightarrow>
      (replicate (ct_num c) 0 @ drop (ct_num c) (ct_gamma c)) ! ct_num c = ct_gamma c ! ct_num c"
    using ctr_wfD(6) [OF assms] by (simp add: nth_append)
  show "ct_gamma (ctr_ready (ctr_view c)) ! ct_num (ctr_ready (ctr_view c)) = ct_gamma (ctr_ready c) ! ct_num (ctr_ready c)"
    using g ctr_wfD(7) [OF assms] by (simp add: r) (simp add: ctr_ready_def ctr_view_def)
  have d: "drop (Suc (ct_num c)) (replicate (ct_num c) 0 @ drop (ct_num c) (ct_gamma c)) =
      drop (Suc (ct_num c)) (ct_gamma c)"
    by (simp add: drop_drop Suc_diff_le)
  show "ctr_view (ctr_advance (ctr_ready (ctr_view c))) = ctr_view (ctr_advance (ctr_ready c))"
    using d by (simp add: r) (simp add: ctr_ready_def ctr_view_def ctr_advance_def)
qed

lemma ctr_next_view:
  "ctr_wf c \<Longrightarrow> ctr_next (ctr_view c) = (ct_gamma (ctr_ready c) ! ct_num (ctr_ready c), ctr_view (ctr_advance (ctr_ready c)))"
  using ctr_ready_view [of c] by (simp add: ctr_next_def Let_def)

section \<open>A run of whole blocks\<close>

definition ctr_skip :: "nat \<Rightarrow> ctr \<Rightarrow> ctr" where
  "ctr_skip k c = c\<lparr>ct_num := ct_num c + k, ct_sinceRekey := ct_sinceRekey c + k\<rparr>"

lemma ctr_within_block:
  assumes "ctr_wf c" "ct_num c + k \<le> ct_blockSize c"
  shows "gen ctr_next k (ctr_view c) = take k (drop (ct_num c) (ct_gamma c))"
    and "adv ctr_next k (ctr_view c) = ctr_view (ctr_skip k c)"
proof -
  have "gen ctr_next k (ctr_view c) = take k (drop (ct_num c) (ct_gamma c)) \<and>
      adv ctr_next k (ctr_view c) = ctr_view (ctr_skip k c)"
    using assms
  proof (induction k arbitrary: c)
    case 0
    then show ?case by (simp add: ctr_skip_def)
  next
    case (Suc k)
    then have lt: "ct_num c < ct_blockSize c" by simp
    have next_c: "ctr_next (ctr_view c) = (ct_gamma c ! ct_num c, ctr_view (ctr_advance c))"
      using ctr_next_view [OF Suc.prems(1)] lt by (simp add: ctr_ready_def)
    have wf: "ctr_wf (ctr_advance c)" using Suc.prems(1) lt by (rule ctr_advance_wf)
    have IH: "gen ctr_next k (ctr_view (ctr_advance c)) = take k (drop (Suc (ct_num c)) (ct_gamma c)) \<and>
        adv ctr_next k (ctr_view (ctr_advance c)) = ctr_view (ctr_skip k (ctr_advance c))"
      using Suc.IH [OF wf] Suc.prems(2) by (simp add: ctr_advance_def)
    have skip: "ctr_skip k (ctr_advance c) = ctr_skip (Suc k) c"
      by (simp add: ctr_skip_def ctr_advance_def)
    have "take (Suc k) (drop (ct_num c) (ct_gamma c)) =
        ct_gamma c ! ct_num c # take k (drop (Suc (ct_num c)) (ct_gamma c))"
      using lt ctr_wfD(6) [OF Suc.prems(1)] by (metis Cons_nth_drop_Suc take_Suc_Cons)
    then show ?case
      using IH by (simp add: next_c skip)
  qed
  then show "gen ctr_next k (ctr_view c) = take k (drop (ct_num c) (ct_gamma c))"
    and "adv ctr_next k (ctr_view c) = ctr_view (ctr_skip k c)"
    by simp_all
qed

text \<open>The state after \<open>n\<close> blocks of one section.\<close>

definition ctr_after :: "nat \<Rightarrow> ctr \<Rightarrow> ctr" where
  "ctr_after n c = c\<lparr>ct_iv := (inc_be ^^ n) (ct_iv c), ct_sinceRekey := ct_sinceRekey c + n * ct_blockSize c\<rparr>"

lemma ctr_after_wf: "ctr_wf c \<Longrightarrow> ctr_wf (ctr_after n c)"
  by (simp add: ctr_wf_def ctr_after_def)

lemma ctr_one_block:
  assumes wf: "ctr_wf c" and num: "ct_num c = ct_blockSize c"
  shows "gen ctr_next (ct_blockSize c) (ctr_view c) = enc (ct_block (ctr_boundary c)) (ct_iv c)"
    and "adv ctr_next (ct_blockSize c) (ctr_view c) = ctr_view (ctr_after 1 (ctr_boundary c))"
proof -
  define f where "f = ctr_fresh (ctr_boundary c)"
  note bd = ctr_boundary_wf [OF wf num]
  have f: "ctr_wf f" "ct_num f = 0" "ct_blockSize f = ct_blockSize c"
    "ct_gamma f = enc (ct_block (ctr_boundary c)) (ct_iv c)"
    using ctr_fresh_wf [OF bd(1)] bd(2,3,5) by (simp_all add: f_def) (simp_all add: ctr_fresh_def bd)
  obtain n where n: "ct_blockSize c = Suc n"
    using ctr_wfD(10) [OF wf] by (cases "ct_blockSize c") auto
  have ready: "ctr_ready c = f" "ctr_ready f = f"
    using num f by (simp_all add: ctr_ready_def f_def n)
  then have "ctr_next (ctr_view c) = ctr_next (ctr_view f)"
    by (simp add: ctr_next_view wf f(1))
  then have "gen ctr_next (Suc n) (ctr_view c) = gen ctr_next (Suc n) (ctr_view f)"
    "adv ctr_next (Suc n) (ctr_view c) = adv ctr_next (Suc n) (ctr_view f)"
    by simp_all
  moreover have "ctr_view (ctr_skip (ct_blockSize c) f) = ctr_view (ctr_after 1 (ctr_boundary c))"
  proof -
    have "ctr_skip (ct_blockSize c) f =
        (ctr_after 1 (ctr_boundary c))\<lparr>ct_gamma := ct_gamma f\<rparr>"
      using bd by (simp add: f_def ctr_skip_def ctr_after_def ctr_fresh_def ctr_incCounter_def)
    moreover have "length (ct_gamma f) = ct_blockSize c" "length (ct_gamma (ctr_boundary c)) = ct_blockSize c"
      using ctr_wfD(6) [OF f(1)] ctr_wfD(6) [OF wf] f(3) bd(4) by simp_all
    ultimately show ?thesis
      using bd(2) by (simp add: ctr_view_def ctr_after_def)
  qed
  ultimately show "gen ctr_next (ct_blockSize c) (ctr_view c) = enc (ct_block (ctr_boundary c)) (ct_iv c)"
    "adv ctr_next (ct_blockSize c) (ctr_view c) = ctr_view (ctr_after 1 (ctr_boundary c))"
    using ctr_within_block [OF f(1), of "ct_blockSize c"] f n ctr_wfD(6) [OF f(1)] by simp_all
qed

lemma ctr_after_add: "ctr_after (Suc 0) (ctr_after n c) = ctr_after (Suc n) c"
  by (simp add: ctr_after_def)

lemma ctr_blocks:
  assumes wf: "ctr_wf c" and num: "ct_num c = ct_blockSize c"
    and room: "ct_sectionSize c > 0 \<Longrightarrow> ct_sinceRekey c + n * ct_blockSize c \<le> ct_sectionSize c"
  shows "gen ctr_next (n * ct_blockSize c) (ctr_view c) = counter_blocks (ct_block c) (ct_iv c) n"
    and "adv ctr_next (n * ct_blockSize c) (ctr_view c) = ctr_view (ctr_after n c)"
proof -
  have "gen ctr_next (n * ct_blockSize c) (ctr_view c) = counter_blocks (ct_block c) (ct_iv c) n \<and>
      adv ctr_next (n * ct_blockSize c) (ctr_view c) = ctr_view (ctr_after n c)"
    using room
  proof (induction n)
    case 0
    then show ?case by (simp add: counter_blocks_def ctr_after_def)
  next
    case (Suc n)
    let ?c = "ctr_after n c"
    have bs: "0 < ct_blockSize c" using wf by (rule ctr_wfD(10))
    have c: "ctr_wf ?c" "ct_num ?c = ct_blockSize ?c" "ct_blockSize ?c = ct_blockSize c"
      using ctr_after_wf [OF wf] num by (simp_all add: ctr_after_def)
    have "ct_sectionSize c > 0 \<Longrightarrow> ct_sinceRekey c + n * ct_blockSize c < ct_sectionSize c"
      using Suc.prems bs by simp
    then have "ctr_boundary ?c = ?c"
      by (intro ctr_boundary_id) (auto simp: ctr_after_def)
    then have one: "gen ctr_next (ct_blockSize c) (ctr_view ?c) = enc (ct_block c) ((inc_be ^^ n) (ct_iv c))"
      "adv ctr_next (ct_blockSize c) (ctr_view ?c) = ctr_view (ctr_after (Suc n) c)"
      using ctr_one_block [OF c(1,2)] by (simp_all add: c(3) ctr_after_add) (simp add: ctr_after_def)
    have "ct_sectionSize c > 0 \<Longrightarrow> ct_sinceRekey c + n * ct_blockSize c \<le> ct_sectionSize c"
      using Suc.prems by simp
    note IH = conjunct1 [OF Suc.IH [OF this]] conjunct2 [OF Suc.IH [OF this]]
    have "Suc n * ct_blockSize c = n * ct_blockSize c + ct_blockSize c" by simp
    then show ?case
      by (simp only: gen_add adv_add IH one) (simp add: counter_blocks_def)
  qed
  then show "gen ctr_next (n * ct_blockSize c) (ctr_view c) = counter_blocks (ct_block c) (ct_iv c) n"
    and "adv ctr_next (n * ct_blockSize c) (ctr_view c) = ctr_view (ctr_after n c)"
    by simp_all
qed

section \<open>The batched paths\<close>

lemma ctr_incCounter_pow: "ctr_incCounter ^^ n = inc_be ^^ n"
  by (induction n) (auto simp: ctr_incCounter_def)

definition bulk_blocks :: "ctr \<Rightarrow> bytes \<Rightarrow> nat" where
  "bulk_blocks c src =
     (let k = (if ct_sectionSize c > 0 \<and>
                  length src div ct_blockSize c > (ct_sectionSize c - ct_sinceRekey c) div ct_blockSize c
               then (ct_sectionSize c - ct_sinceRekey c) div ct_blockSize c
               else length src div ct_blockSize c)
      in if k < 32 then 0 else if ct_fused c = None \<and> k > 256 then 256 else k)"

lemma bulk_blocks_bounds:
  "bulk_blocks c src * ct_blockSize c \<le> length src"
  "ct_sectionSize c > 0 \<Longrightarrow> ct_sinceRekey c \<le> ct_sectionSize c \<Longrightarrow>
     ct_sinceRekey c + bulk_blocks c src * ct_blockSize c \<le> ct_sectionSize c"
proof -
  have "bulk_blocks c src \<le> length src div ct_blockSize c"
    by (auto simp: bulk_blocks_def Let_def)
  then have "bulk_blocks c src * ct_blockSize c \<le> length src div ct_blockSize c * ct_blockSize c"
    by (rule mult_le_mono1)
  then show "bulk_blocks c src * ct_blockSize c \<le> length src"
    by (rule order.trans) simp
  assume sec: "ct_sectionSize c > 0" "ct_sinceRekey c \<le> ct_sectionSize c"
  have "bulk_blocks c src \<le> (ct_sectionSize c - ct_sinceRekey c) div ct_blockSize c"
    using sec by (auto simp: bulk_blocks_def Let_def)
  then have "bulk_blocks c src * ct_blockSize c \<le>
      (ct_sectionSize c - ct_sinceRekey c) div ct_blockSize c * ct_blockSize c"
    by (rule mult_le_mono1)
  also have "\<dots> \<le> ct_sectionSize c - ct_sinceRekey c" by simp
  finally show "ct_sinceRekey c + bulk_blocks c src * ct_blockSize c \<le> ct_sectionSize c"
    using sec by simp
qed

lemma ctr_bulkXOR_run:
  assumes wf: "ctr_wf c" and bulk: "ct_bulk c = Some f" and "k = bulk_blocks c src"
  shows "ctr_bulkXOR c f src =
    (if k = 0 then (0, [], c)
     else (k * ct_blockSize c, xor_bytes (take (k * ct_blockSize c) src) (counter_blocks (ct_block c) (ct_iv c) k),
           ctr_after k c))"
proof -
  note cc = ctr_wfD [OF wf]
  have src: "length (take (k * ct_blockSize c) src) = bsize (ct_block c) * k"
    using bulk_blocks_bounds(1) [of c src] assms(3) cc(2) by (simp add: mult.commute)
  have ks: "f (concat (map (\<lambda>i. (inc_be ^^ i) (ct_iv c)) [0..<n])) = counter_blocks (ct_block c) (ct_iv c) n" for n
    using bulk cc by (intro ctr_cipher.bulk_counters) simp_all
  have fused: "g (take (k * ct_blockSize c) src) (ct_iv c) =
      (xor_bytes (take (k * ct_blockSize c) src) (counter_blocks (ct_block c) (ct_iv c) k), (inc_be ^^ k) (ct_iv c))"
    if "ct_fused c = Some g" for g
    unfolding counter_blocks_def using that cc by (intro ctr_cipher.fused_law [OF cc(1) _ src]) simp_all
  define k0 where "k0 = (if ct_sectionSize c > 0 \<and>
      length src div ct_blockSize c > (ct_sectionSize c - ct_sinceRekey c) div ct_blockSize c
    then (ct_sectionSize c - ct_sinceRekey c) div ct_blockSize c else length src div ct_blockSize c)"
  have k: "k = (if k0 < 32 then 0 else if ct_fused c = None \<and> k0 > 256 then 256 else k0)"
    unfolding assms(3) bulk_blocks_def Let_def k0_def ..
  have code: "ctr_bulkXOR c f src = (if k0 < 32 then (0, [], c)
      else case ct_fused c of
        Some fused \<Rightarrow>
          let n = k0 * ct_blockSize c; (out, iv) = fused (take n src) (ct_iv c)
          in (n, out, c\<lparr>ct_iv := iv, ct_sinceRekey := ct_sinceRekey c + n\<rparr>)
      | None \<Rightarrow>
          let blocks = (if k0 > 256 then 256 else k0);
              n = blocks * ct_blockSize c
          in (n, xor_bytes (take n src) (counter_blocks (ct_block c) (ct_iv c) blocks),
              c\<lparr>ct_iv := (inc_be ^^ blocks) (ct_iv c), ct_sinceRekey := ct_sinceRekey c + n\<rparr>))"
    unfolding ctr_bulkXOR_def Let_def ks ctr_incCounter_pow k0_def ..
  show ?thesis
  proof (cases "k0 < 32")
    case True
    then show ?thesis by (simp add: code k)
  next
    case False
    show ?thesis
    proof (cases "ct_fused c")
      case None
      then show ?thesis using False by (simp add: code k Let_def ctr_after_def)
    next
      case (Some g)
      then have "k = k0" using False by (simp add: k)
      then show ?thesis using False Some fused [OF Some] by (simp add: code Let_def ctr_after_def)
    qed
  qed
qed

section \<open>The stream is its keystream\<close>

definition ctr_byte_path :: "ctr \<Rightarrow> bytes \<Rightarrow> bytes \<times> ctr" where
  "ctr_byte_path c src =
     (let (rest, c') = ctr_stream (ctr_advance c) (tl src)
      in ((hd src XOR ct_gamma c ! ct_num c) # rest, c'))"

lemma ctr_stream_cases:
  assumes wf: "ctr_wf c" and src: "src \<noteq> []"
  obtains (byte) "ctr_stream c src = ctr_byte_path (ctr_ready c) src"
  | (run) k c1 where "ct_num c = ct_blockSize c" "c1 = ctr_boundary c" "k = bulk_blocks c1 src" "0 < k"
      "ctr_stream c src =
        (let (rest, c') = ctr_stream (ctr_after k c1) (drop (k * ct_blockSize c) src)
         in (xor_bytes (take (k * ct_blockSize c) src) (counter_blocks (ct_block c1) (ct_iv c1) k) @ rest, c'))"
proof (cases "ct_num c = ct_blockSize c")
  case False
  then have "ctr_stream c src = ctr_byte_path (ctr_ready c) src"
    using src by (subst ctr_stream.simps) (simp add: ctr_ready_def ctr_byte_path_def)
  then show ?thesis by (rule byte)
next
  case True
  define c1 where "c1 = ctr_boundary c"
  note bd = ctr_boundary_wf [OF wf True, folded c1_def]
  have unfold: "ctr_stream c src =
      (let (n, out, cb) = (case ct_bulk c1 of None \<Rightarrow> (0, [], c1) | Some bulk \<Rightarrow> ctr_bulkXOR c1 bulk src)
       in if n > 0
          then (let (rest, c) = ctr_stream cb (drop n src) in (out @ rest, c))
          else ctr_byte_path (ctr_ready c) src)"
    using True src
    by (subst ctr_stream.simps)
      (simp add: ctr_ready_def ctr_byte_path_def Let_def cong: if_cong flip: c1_def)
  show ?thesis
  proof (cases "ct_bulk c1")
    case None
    then show ?thesis by (intro byte) (simp add: unfold)
  next
    case (Some f)
    define k where "k = bulk_blocks c1 src"
    have bs: "0 < ct_blockSize c" using wf by (rule ctr_wfD(10))
    show ?thesis
    proof (cases "k = 0")
      case True
      then show ?thesis
        by (intro byte) (simp add: unfold Some ctr_bulkXOR_run [OF bd(1) Some refl] flip: k_def)
    next
      case False
      have "ctr_stream c src =
          (let (rest, c') = ctr_stream (ctr_after k c1) (drop (k * ct_blockSize c) src)
           in (xor_bytes (take (k * ct_blockSize c) src) (counter_blocks (ct_block c1) (ct_iv c1) k) @ rest, c'))"
        using False bs by (simp add: unfold Some ctr_bulkXOR_run [OF bd(1) Some refl] bd(3) flip: k_def)
      from run [OF True c1_def k_def _ this] False show ?thesis by simp
    qed
  qed
qed

lemma ctr_view_boundary:
  assumes "ctr_wf c" "ct_num c = ct_blockSize c"
  shows "ctr_next (ctr_view c) = ctr_next (ctr_view (ctr_boundary c))"
proof -
  have "ctr_boundary (ctr_boundary c) = ctr_boundary c"
    using ctr_boundary_wf [OF assms] by (intro ctr_boundary_id) auto
  then have "ctr_ready (ctr_boundary c) = ctr_ready c"
    using ctr_boundary_wf(2,3) [OF assms] assms(2) by (simp add: ctr_ready_def)
  then show ?thesis
    using assms ctr_boundary_wf(1) [OF assms] by (simp add: ctr_next_view)
qed

lemma gen_adv_boundary:
  assumes "ctr_wf c" "ct_num c = ct_blockSize c" "0 < n"
  shows "gen ctr_next n (ctr_view c) = gen ctr_next n (ctr_view (ctr_boundary c))"
    "adv ctr_next n (ctr_view c) = adv ctr_next n (ctr_view (ctr_boundary c))"
  using assms(3) ctr_view_boundary [OF assms(1,2)] by (cases n; simp)+

lemma ctr_stream_run:
  assumes "ctr_wf c"
  shows "fst (ctr_stream c src) = xor_bytes src (gen ctr_next (length src) (ctr_view c)) \<and>
    ctr_view (snd (ctr_stream c src)) = adv ctr_next (length src) (ctr_view c) \<and>
    ctr_wf (snd (ctr_stream c src))"
  using assms
proof (induction "length src" arbitrary: c src rule: less_induct)
  case less
  show ?case
  proof (cases "src = []")
    case True
    then show ?thesis using less.prems by (simp add: ctr_stream.simps [of c "[]"])
  next
    case src: False
    from less.prems src show ?thesis
    proof (cases rule: ctr_stream_cases)
      case byte
      have wf: "ctr_wf (ctr_advance (ctr_ready c))"
        using less.prems by (intro ctr_advance_wf ctr_ready_wf)
      obtain rest c' where r: "ctr_stream (ctr_advance (ctr_ready c)) (tl src) = (rest, c')" by fastforce
      have IH: "rest = xor_bytes (tl src) (gen ctr_next (length (tl src)) (ctr_view (ctr_advance (ctr_ready c))))"
        "ctr_view c' = adv ctr_next (length (tl src)) (ctr_view (ctr_advance (ctr_ready c)))" "ctr_wf c'"
        using less.hyps [of "tl src", OF _ wf] src r by simp_all
      obtain x xs where x: "src = x # xs" using src by (cases src) auto
      show ?thesis
        using IH r by (simp add: byte [unfolded x] ctr_byte_path_def x ctr_next_view [OF less.prems])
    next
      case (run k c1)
      note bd = ctr_boundary_wf [OF less.prems run(1), folded run(2)]
      define n where "n = k * ct_blockSize c"
      have n: "0 < n" "n \<le> length src"
        using run(4) ctr_wfD(10) [OF less.prems] bulk_blocks_bounds(1) [of c1 src]
        by (simp_all add: n_def run(3) bd(3))
      have room: "ct_sectionSize c1 > 0 \<Longrightarrow> ct_sinceRekey c1 + k * ct_blockSize c1 \<le> ct_sectionSize c1"
        using bulk_blocks_bounds(2) [of c1 src] bd(6,7) by (simp add: run(3))
      have ks: "gen ctr_next n (ctr_view c1) = counter_blocks (ct_block c1) (ct_iv c1) k"
        "adv ctr_next n (ctr_view c1) = ctr_view (ctr_after k c1)"
        using ctr_blocks [OF bd(1) _ room] bd(2,3) by (simp_all add: n_def)
      obtain rest c' where r: "ctr_stream (ctr_after k c1) (drop n src) = (rest, c')" by fastforce
      have IH: "rest = xor_bytes (drop n src) (gen ctr_next (length src - n) (ctr_view (ctr_after k c1)))"
        "ctr_view c' = adv ctr_next (length src - n) (ctr_view (ctr_after k c1))" "ctr_wf c'"
        using less.hyps [of "drop n src", OF _ ctr_after_wf [OF bd(1), of k]] n r by simp_all
      have len: "length src = n + (length src - n)" using n by simp
      have gen: "gen ctr_next (length src) (ctr_view c) =
          counter_blocks (ct_block c1) (ct_iv c1) k @ gen ctr_next (length src - n) (ctr_view (ctr_after k c1))"
        by (subst len, subst gen_add)
          (simp add: gen_adv_boundary [OF less.prems run(1) n(1)] ks flip: run(2))
      have adv: "adv ctr_next (length src) (ctr_view c) = adv ctr_next (length src - n) (ctr_view (ctr_after k c1))"
        by (subst len, subst adv_add)
          (simp add: gen_adv_boundary [OF less.prems run(1) n(1)] ks flip: run(2))
      have "length (counter_blocks (ct_block c1) (ct_iv c1) k) = n"
        using ks(1) length_gen [of ctr_next n "ctr_view c1"] by simp
      then have "xor_bytes src (gen ctr_next (length src) (ctr_view c)) =
          xor_bytes (take n src) (counter_blocks (ct_block c1) (ct_iv c1) k) @ rest"
        using n(2) xor_bytes_append [of "take n src" "counter_blocks (ct_block c1) (ct_iv c1) k" "drop n src"]
        by (simp add: gen IH(1))
      then show ?thesis
        using IH r by (simp add: run(5) adv flip: n_def)
    qed
  qed
qed

interpretation ctr: keystream ctr_stream ctr_wf ctr_view ctr_next
  by unfold_locales (simp_all add: ctr_stream_run)

section \<open>The loop in memory\<close>

text \<open>Over slices that are equal or disjoint the batched path stores what it computes on lists.\<close>

lemma ctr_bulkXOR_store:
  assumes wf: "ctr_wf c" and bulk: "ct_bulk c = Some f"
    and apart: "d = s \<or> d + n \<le> s \<or> s + n \<le> d"
  shows "ctr_bulkXOR_mem c f d s n mem =
    (let (k, out, c') = ctr_bulkXOR c f (load mem s n) in (k, store mem d out, c'))"
proof -
  note cc = ctr_wfD [OF wf]
  define k where "k = (if ct_sectionSize c > 0 \<and> n div ct_blockSize c > (ct_sectionSize c - ct_sinceRekey c) div ct_blockSize c
    then (ct_sectionSize c - ct_sinceRekey c) div ct_blockSize c else n div ct_blockSize c)"
  define m where "m = (if k > 256 then 256 else k)"
  have "k \<le> n div ct_blockSize c" by (simp add: k_def)
  then have "k * ct_blockSize c \<le> n div ct_blockSize c * ct_blockSize c" by (rule mult_le_mono1)
  also have "\<dots> \<le> n" by simp
  finally have k: "k * ct_blockSize c \<le> n" .
  have "m * ct_blockSize c \<le> k * ct_blockSize c" by (rule mult_le_mono1) (simp add: m_def)
  from this k have m: "m * ct_blockSize c \<le> n" by (rule order.trans)
  have take: "take i (load mem s n) = load mem s i" if "i \<le> n" for i
    using that by (intro nth_equalityI) simp_all
  let ?ks = "f (concat (map (\<lambda>i. (ctr_incCounter ^^ i) (ct_iv c)) [0..<m]))"
  have ks: "?ks = counter_blocks (ct_block c) (ct_iv c) m"
    unfolding ctr_incCounter_pow using bulk cc by (intro ctr_cipher.bulk_counters) simp_all
  have len: "length ?ks = m * ct_blockSize c"
    unfolding ks using cc by (simp add: ctr_cipher.length_counter_blocks mult.commute)
  have "\<not> alias_InexactOverlap (d, length ?ks) (s, length ?ks)"
    using apart m unfolding len by (auto simp: alias_InexactOverlap_def alias_AnyOverlap_def)
  from xor_loop_store [OF this, of mem]
  have loop: "xor_loop ?ks d s mem = store mem d (xor_bytes (load mem s (m * ct_blockSize c)) ?ks)"
    unfolding len .
  show ?thesis
    unfolding ctr_bulkXOR_mem_def ctr_bulkXOR_def length_load Let_def k_def [symmetric] m_def [symmetric]
    by (simp add: take k m loop case_prod_beta split: option.split)
qed

lemma ctr_loop_store:
  assumes "ctr_wf c" "d = s \<or> d + n \<le> s \<or> s + n \<le> d"
  shows "ctr_loop c d s n mem =
    (store mem d (fst (ctr_stream c (load mem s n))), snd (ctr_stream c (load mem s n)))"
  using assms
proof (induction n arbitrary: c d s mem rule: less_induct)
  case (less n)
  note wf = less.prems(1) and apart = less.prems(2)
  show ?case
  proof (cases "n = 0")
    case True
    then show ?thesis by (simp add: ctr_loop.simps [of c] ctr_stream.simps [of c] load_def)
  next
    case n: False
    have src: "load mem s n = mem s # load mem (s + 1) (n - 1)"
      using n load_append [of mem s 1 "n - 1"] by (simp add: load_def)
    have rec: "ctr_loop c' (d + k) (s + k) (n - k) (store mem d out) =
        (store mem d (out @ fst (ctr_stream c' (load mem (s + k) (n - k)))), snd (ctr_stream c' (load mem (s + k) (n - k))))"
      if "ctr_wf c'" "0 < k" "k \<le> n" "length out = k" for c' k out
    proof -
      have "load (store mem d out) (s + k) (n - k) = load mem (s + k) (n - k)"
        using apart that by (intro load_store_other) auto
      moreover have "d + k = s + k \<or> d + k + (n - k) \<le> s + k \<or> s + k + (n - k) \<le> d + k"
        using apart that by auto
      ultimately show ?thesis
        using less.IH [of "n - k" c' "d + k" "s + k" "store mem d out"] that n store_append [of mem d out]
        by simp
    qed
    have byte: "ctr_loop (ctr_advance c') (d + 1) (s + 1) (n - 1) (mem(d := mem s XOR ct_gamma c' ! ct_num c')) =
        (store mem d (fst (ctr_byte_path c' (load mem s n))), snd (ctr_byte_path c' (load mem s n)))"
      if "ctr_wf c'" "ct_num c' < ct_blockSize c'" for c'
    proof -
      have "mem(d := mem s XOR ct_gamma c' ! ct_num c') = store mem d [mem s XOR ct_gamma c' ! ct_num c']"
        by (rule ext) (auto simp: store_def)
      then show ?thesis
        using rec [OF ctr_advance_wf [OF that], of 1 "[mem s XOR ct_gamma c' ! ct_num c']"] n
        by (simp add: src ctr_byte_path_def case_prod_beta)
    qed
    note ready = ctr_ready_wf [OF wf]
    show ?thesis
    proof (cases "ct_num c = ct_blockSize c")
      case False
      then have "ctr_ready c = c" "ctr_stream c (load mem s n) = ctr_byte_path c (load mem s n)"
        using n src by (simp_all add: ctr_ready_def) (subst ctr_stream.simps, simp add: ctr_byte_path_def)
      then show ?thesis
        using False n ready by (simp add: ctr_loop.simps [of c] byte del: One_nat_def)
    next
      case num: True
      define c1 where "c1 = ctr_boundary c"
      note bd = ctr_boundary_wf [OF wf num, folded c1_def]
      have fresh: "ctr_ready c = ctr_fresh c1" using num by (simp add: ctr_ready_def c1_def)
      define r where "r = (case ct_bulk c1 of None \<Rightarrow> (0, [], c1) | Some bulk \<Rightarrow> ctr_bulkXOR c1 bulk (load mem s n))"
      obtain k out cb where kout: "r = (k, out, cb)" by (cases r) auto
      have r: "k = 0 \<or> k \<le> n \<and> length out = k \<and> ctr_wf cb"
      proof (cases "ct_bulk c1")
        case None
        then show ?thesis using kout by (simp add: r_def)
      next
        case (Some f)
        define m where "m = bulk_blocks c1 (load mem s n)"
        have "m * ct_blockSize c1 \<le> n" using bulk_blocks_bounds(1) [of c1 "load mem s n"] by (simp add: m_def)
        moreover have "length (counter_blocks (ct_block c1) (ct_iv c1) m) = m * ct_blockSize c1"
          using ctr_wfD [OF bd(1)] by (simp add: ctr_cipher.length_counter_blocks mult.commute)
        ultimately show ?thesis
          using kout ctr_bulkXOR_run [OF bd(1) Some m_def] ctr_after_wf [OF bd(1), of m]
          by (auto simp: r_def Some split: if_splits)
      qed
      have mem: "(case ct_bulk c1 of None \<Rightarrow> (0, mem, c1) | Some bulk \<Rightarrow> ctr_bulkXOR_mem c1 bulk d s n mem) = (k, store mem d out, cb)"
        if "k > 0"
        using that kout ctr_bulkXOR_store [OF bd(1) _ apart] by (cases "ct_bulk c1") (auto simp: r_def)
      have zero: "fst (case ct_bulk c1 of None \<Rightarrow> (0, mem, c1) | Some bulk \<Rightarrow> ctr_bulkXOR_mem c1 bulk d s n mem) = k"
        using kout ctr_bulkXOR_store [OF bd(1) _ apart] by (cases "ct_bulk c1") (auto simp: r_def)
      have stream: "ctr_stream c (load mem s n) =
          (if k > 0 then (let (rest, c) = ctr_stream cb (drop k (load mem s n)) in (out @ rest, c))
           else ctr_byte_path (ctr_ready c) (load mem s n))"
        using num src kout unfolding fresh r_def
        by (subst ctr_stream.simps) (simp add: ctr_byte_path_def Let_def cong: if_cong flip: c1_def)
      have loop: "ctr_loop c d s n mem =
          (if k > 0 then ctr_loop cb (d + k) (s + k) (n - k) (store mem d out)
           else ctr_loop (ctr_advance (ctr_ready c)) (d + 1) (s + 1) (n - 1)
             (mem(d := mem s XOR ct_gamma (ctr_ready c) ! ct_num (ctr_ready c))))"
        using num n mem zero unfolding fresh
        by (subst ctr_loop.simps) (auto simp: Let_def case_prod_beta simp flip: c1_def)
      have "drop k (load mem s n) = load mem (s + k) (n - k)" if "k \<le> n"
        using that by (intro nth_equalityI) (simp_all add: add.assoc)
      then show ?thesis
        using r rec [of cb k out] byte [OF ready] unfolding loop stream
        by (auto simp: case_prod_beta simp del: One_nat_def)
    qed
  qed
qed

section \<open>The program's ciphers meet the contract\<close>

interpretation kuz_ctr: ctr_cipher "kuz_block (kuz_cipher_of ct key)" for ct key
proof unfold_locales
  fix f and src :: bytes and n :: nat
  assume "enc_blocks (kuz_block (kuz_cipher_of ct key)) = Some f"
    "length src = bsize (kuz_block (kuz_cipher_of ct key)) * n"
  then show "f src = concat (map (enc (kuz_block (kuz_cipher_of ct key)))
      (full_blocks (bsize (kuz_block (kuz_cipher_of ct key))) n src))"
    by (auto simp: kuz_block_def kuz_enc_blocks_def)
qed (simp add: kuz_block_def)

interpretation magma_ctr: ctr_cipher "magma_block c" for c
  by unfold_locales (simp_all add: magma_block_def)

section \<open>Fresh streams\<close>

lemma ctr_NewCTR_wf:
  assumes "ctr_cipher b" "ctr_NewCTR b iv = Inr c"
  shows "ctr_wf c" "ct_num c = ct_blockSize c" "ct_sinceRekey c = 0" "ct_sectionSize c = 0"
    "ct_block c = b" "ct_iv c = iv" "ct_blockSize c = bsize b"
  using assms by (auto simp: ctr_NewCTR_def ctr_wf_def Let_def split: if_splits)

lemma ctr_NewCTRACPKM_wf:
  assumes "\<And>k. length k = 32 \<Longrightarrow> ctr_cipher (nb k)" "\<And>k. length k = 32 \<Longrightarrow> bsize (nb k) = bs"
    and "ctr_NewCTRACPKM (Some nb) key iv N = Inr c"
  shows "ctr_wf c" "ct_num c = ct_blockSize c" "ct_sinceRekey c = 0" "ct_sectionSize c = nat N"
    "ct_block c = nb key" "ct_iv c = iv" "ct_blockSize c = bs" "ct_newBlock c = Some nb"
    "length key = 32" "nat N mod bs = 0" "32 mod bs = 0" "0 \<le> N"
proof -
  have *: "length key = 32" "bsize (nb key) \<noteq> 0" "32 mod bsize (nb key) = 0" "length iv = bsize (nb key)"
    "N mod int (bsize (nb key)) = 0" "0 \<le> N"
    and c: "c = \<lparr>ct_newBlock = Some nb, ct_block = nb key, ct_bulk = enc_blocks (nb key),
        ct_fused = ctr_xor_blocks (nb key), ct_blockSize = bsize (nb key), ct_iv = iv,
        ct_gamma = replicate (bsize (nb key)) 0, ct_num = bsize (nb key),
        ct_sectionSize = nat N, ct_sinceRekey = 0\<rparr>"
    using assms(3) by (auto simp: ctr_NewCTRACPKM_def Let_def split: if_splits)
  have bs: "bsize (nb key) = bs" using assms(2) *(1) by blast
  have mod: "nat N mod bs = 0"
    using *(5,6) bs by (metis nat_0 nat_int nat_mod_distrib of_nat_0_le_iff)
  show "ctr_wf c"
    unfolding c ctr_wf_def using assms(1,2) * mod bs by simp
  show "ct_num c = ct_blockSize c" "ct_sinceRekey c = 0" "ct_sectionSize c = nat N"
    "ct_block c = nb key" "ct_iv c = iv" "ct_blockSize c = bs" "ct_newBlock c = Some nb"
    "length key = 32" "nat N mod bs = 0" "32 mod bs = 0" "0 \<le> N"
    using * c mod bs by simp_all
qed

section \<open>The keystream in closed form\<close>

text \<open>
  \<open>acpkm_section nb b i\<close> is the cipher of the \<open>i\<close>-th section: every section after the first
  uses the key that encrypting \<open>D\<close> under the previous one gives (RFC 8645, section 6.2.1).
\<close>

primrec acpkm_section :: "(bytes \<Rightarrow> block_cipher) option \<Rightarrow> block_cipher \<Rightarrow> nat \<Rightarrow> block_cipher" where
  "acpkm_section nb b 0 = b"
| "acpkm_section nb b (Suc i) =
     (case nb of None \<Rightarrow> acpkm_section nb b i
      | Some f \<Rightarrow> f (acpkm_key (acpkm_section nb b i)))"

text \<open>Block \<open>j\<close> of the keystream, for sections of \<open>N\<close> bytes (none when \<open>N = 0\<close>).\<close>

definition acpkm_block :: "(bytes \<Rightarrow> block_cipher) option \<Rightarrow> block_cipher \<Rightarrow> bytes \<Rightarrow> nat \<Rightarrow> nat \<Rightarrow> bytes" where
  "acpkm_block nb b iv N j =
     enc (acpkm_section nb b (if N = 0 then 0 else j div (N div bsize b))) ((inc_be ^^ j) iv)"

text \<open>The state before block \<open>j\<close>, once a pending re-key is done.\<close>

lemma ctr_keystream_blocks:
  assumes wf: "ctr_wf c" and fresh: "ct_num c = ct_blockSize c" "ct_sinceRekey c = 0"
  shows "gen ctr_next (m * ct_blockSize c) (ctr_view c) =
    concat (map (acpkm_block (ct_newBlock c) (ct_block c) (ct_iv c) (ct_sectionSize c)) [0..<m])"
proof -
  define bs N M where "bs = ct_blockSize c" and "N = ct_sectionSize c" and "M = N div bs"
  have bs: "0 < bs" "bsize (ct_block c) = bs" and N: "N = M * bs"
    using ctr_wfD(2,8,10) [OF wf] by (auto simp: bs_def N_def M_def)
  let ?sec = "acpkm_section (ct_newBlock c) (ct_block c)"
  let ?K = "acpkm_block (ct_newBlock c) (ct_block c) (ct_iv c) N"
  have "gen ctr_next (m * bs) (ctr_view c) = concat (map ?K [0..<m]) \<and>
    (\<exists>d. adv ctr_next (m * bs) (ctr_view c) = ctr_view d \<and> ctr_wf d \<and>
      ct_num d = bs \<and> ct_blockSize d = bs \<and> ct_sectionSize d = N \<and> ct_newBlock d = ct_newBlock c \<and>
      ct_iv d = (inc_be ^^ m) (ct_iv c) \<and>
      (N > 0 \<longrightarrow> ct_block (ctr_boundary d) = ?sec (m div M) \<and> ct_sinceRekey (ctr_boundary d) = (m mod M) * bs) \<and>
      (N = 0 \<longrightarrow> ct_block d = ct_block c))"
  proof (induction m)
    case 0
    have "ctr_boundary c = c" using fresh by (intro ctr_boundary_id) (auto simp: N_def)
    then show ?case
      using wf fresh by (intro conjI exI [of _ c]) (simp_all add: bs_def N_def)
  next
    case (Suc m)
    then obtain d where d: "adv ctr_next (m * bs) (ctr_view c) = ctr_view d" "ctr_wf d"
      "ct_num d = bs" "ct_blockSize d = bs" "ct_sectionSize d = N" "ct_newBlock d = ct_newBlock c"
      "ct_iv d = (inc_be ^^ m) (ct_iv c)"
      "N > 0 \<Longrightarrow> ct_block (ctr_boundary d) = ?sec (m div M)"
      "N > 0 \<Longrightarrow> ct_sinceRekey (ctr_boundary d) = (m mod M) * bs"
      "N = 0 \<Longrightarrow> ct_block d = ct_block c"
      and IH: "gen ctr_next (m * bs) (ctr_view c) = concat (map ?K [0..<m])" by auto
    have num: "ct_num d = ct_blockSize d" using d by simp
    note bd = ctr_boundary_wf [OF d(2) num] and one = ctr_one_block [OF d(2) num]
    let ?d = "ctr_after 1 (ctr_boundary d)"
    have nb: "ct_newBlock (ctr_boundary d) = ct_newBlock c"
      using d(6) by (simp add: ctr_boundary_def ctr_rekeyACPKM_def Let_def split: option.splits)
    have blk: "ct_block (ctr_boundary d) = ?sec (if N = 0 then 0 else m div M)"
      using d(5,8,10) ctr_boundary_id [of d] by auto
    have K: "enc (ct_block (ctr_boundary d)) (ct_iv d) = ?K m"
      using blk d(7) bs by (simp add: acpkm_block_def M_def)
    have gen: "gen ctr_next (Suc m * bs) (ctr_view c) = concat (map ?K [0..<Suc m])"
    proof -
      have "Suc m * bs = m * bs + bs" by simp
      then show ?thesis using one(1) d(4) by (simp only: gen_add IH d(1) K) simp
    qed
    have adv: "adv ctr_next (Suc m * bs) (ctr_view c) = ctr_view ?d"
    proof -
      have "Suc m * bs = m * bs + bs" by simp
      then show ?thesis using one(2) d(4) by (simp only: adv_add d(1))
    qed
    have iv: "ct_iv ?d = (inc_be ^^ Suc m) (ct_iv c)" using bd(5) d(7) by (simp add: ctr_after_def)
    have sec: "ct_block (ctr_boundary ?d) = ?sec (Suc m div M) \<and>
        ct_sinceRekey (ctr_boundary ?d) = (Suc m mod M) * bs" if "N > 0"
    proof -
      have M: "0 < M" using that N by (cases M) auto
      have since: "ct_sinceRekey ?d = (m mod M) * bs + bs"
        using d(4,9) that bd(3) by (simp add: ctr_after_def)
      show ?thesis
      proof (cases "Suc (m mod M) = M")
        case True
        have "(m mod M) * bs + bs = M * bs" using True by (metis add.commute mult_Suc)
        then have "ct_sinceRekey ?d = N" using since N by simp
        then have bd2: "ctr_boundary ?d = (ctr_rekeyACPKM ?d)\<lparr>ct_sinceRekey := 0\<rparr>"
          using that bd(6) d(5) by (simp add: ctr_boundary_def ctr_after_def)
        have "Suc m div M = Suc (m div M)" "Suc m mod M = 0"
          using True M by (simp_all add: div_Suc mod_Suc)
        moreover have "ct_block (ctr_rekeyACPKM ?d) = ?sec (Suc (m div M))"
          using nb d(8) that by (simp add: ctr_rekeyACPKM_def ctr_after_def Let_def split: option.splits)
        ultimately show ?thesis unfolding bd2 by simp
      next
        case False
        then have lt: "Suc (m mod M) < M" using M by (simp add: Suc_lessI)
        have "(m mod M) * bs + bs < M * bs"
          using lt bs by (metis add.commute mult_Suc mult_less_cancel2)
        then have "ctr_boundary ?d = ?d"
          using since N bd(6) d(5) by (intro ctr_boundary_id) (simp add: ctr_after_def)
        moreover have "Suc m div M = m div M" "Suc m mod M = Suc (m mod M)"
          using False M by (simp_all add: div_Suc mod_Suc)
        moreover have "ct_block ?d = ?sec (m div M)" using d(8) that by (simp add: ctr_after_def)
        ultimately show ?thesis using since by simp
      qed
    qed
    have plain: "ct_block ?d = ct_block c" if "N = 0"
      using that blk by (simp add: ctr_after_def)
    have "ctr_wf ?d" using bd(1) by (rule ctr_after_wf)
    moreover have "ct_num ?d = bs" "ct_blockSize ?d = bs" "ct_sectionSize ?d = N" "ct_newBlock ?d = ct_newBlock c"
      using bd(2,3,6) d(4,5) nb by (simp_all add: ctr_after_def)
    ultimately show ?case
      using gen adv iv sec plain by (intro conjI exI [of _ ?d]) simp_all
  qed
  then show ?thesis by (simp add: bs_def N_def)
qed

lemma ctr_stream_closed:
  assumes wf: "ctr_wf c" and fresh: "ct_num c = ct_blockSize c" "ct_sinceRekey c = 0"
  shows "fst (ctr_stream c src) = xor_bytes src (concat (map (acpkm_block (ct_newBlock c) (ct_block c) (ct_iv c) (ct_sectionSize c))
    [0..<(length src + ct_blockSize c - 1) div ct_blockSize c]))"
proof -
  define bs m where "bs = ct_blockSize c" and "m = (length src + bs - 1) div bs"
  have bs: "0 < bs" using ctr_wfD(10) [OF wf] by (simp add: bs_def)
  have "length src + bs - 1 < bs * m + bs"
    using bs by (metis m_def mult.commute div_mult_mod_eq add_less_cancel_left mod_less_divisor)
  then have le: "length src \<le> m * bs" using bs by (simp add: mult.commute)
  then have "gen ctr_next (m * bs) (ctr_view c) = gen ctr_next (length src) (ctr_view c) @
      gen ctr_next (m * bs - length src) (adv ctr_next (length src) (ctr_view c))"
    using gen_add [of ctr_next "length src" "m * bs - length src"] by simp
  then have "xor_bytes src (gen ctr_next (m * bs) (ctr_view c)) = xor_bytes src (gen ctr_next (length src) (ctr_view c))"
    using xor_bytes_append [of src "gen ctr_next (length src) (ctr_view c)" "[]"] by simp
  then show ?thesis
    using ctr.xks_out [OF wf] ctr_keystream_blocks [OF wf fresh, of m] by (simp add: bs_def m_def)
qed

lemma kuz_ctr_all: "\<forall>k. length k = 32 \<longrightarrow> ctr_cipher (kuz_block (kuz_cipher_of ct k)) \<and> bsize (kuz_block (kuz_cipher_of ct k)) = 16"
  by (simp add: kuz_ctr.ctr_cipher_axioms) (simp add: kuz_block_def)

lemma kuz_NewCTRACPKM_ok:
  "length key = 32 \<Longrightarrow> length iv = 16 \<Longrightarrow> N mod 16 = 0 \<Longrightarrow> 0 \<le> N \<Longrightarrow>
   \<exists>c. ctr_NewCTRACPKM (Some (\<lambda>k. kuz_block (kuz_cipher_of False k))) key iv N = Inr c"
  using kuz_ctr_all [of False] by (simp add: ctr_NewCTRACPKM_def Let_def)

section \<open>Properties\<close>

text \<open>
  C10. CTR-ACPKM in closed form: through the bulk path, the fused path and the byte path
  alike, the output is the source masked with the keystream whose block j encrypts the j-th
  counter under the key of its section, each section key derived from the one before.
\<close>

theorem ctr_acpkm_output:
  assumes "\<forall>k. length k = 32 \<longrightarrow> ctr_cipher (nb k) \<and> bsize (nb k) = bs"
    and "ctr_NewCTRACPKM (Some nb) key iv N = Inr c"
  shows "fst (ctr_stream c src) = xor_bytes src (concat (map (acpkm_block (Some nb) (nb key) iv (nat N))
    [0..<(length src + bs - 1) div bs]))"
  using ctr_NewCTRACPKM_wf [of nb bs key iv N c] ctr_stream_closed [of c src] assms by simp

theorem ctr_acpkm_output_witness:
  "\<exists>c. ctr_NewCTRACPKM (Some (\<lambda>k. kuz_block (kuz_cipher_of False k))) (replicate 32 1) (replicate 16 2) 32 = Inr c \<and>
     fst (ctr_stream c (replicate 50 0)) = xor_bytes (replicate 50 0)
       (concat (map (acpkm_block (Some (\<lambda>k. kuz_block (kuz_cipher_of False k))) (kuz_block (kuz_cipher_of False (replicate 32 1)))
          (replicate 16 2) 32) [0..<4]))"
proof -
  obtain c where c: "ctr_NewCTRACPKM (Some (\<lambda>k. kuz_block (kuz_cipher_of False k))) (replicate 32 1) (replicate 16 2) 32 = Inr c"
    using kuz_NewCTRACPKM_ok [of "replicate 32 1" "replicate 16 2" 32] by auto
  show ?thesis
    using c ctr_acpkm_output [OF kuz_ctr_all c, of "replicate 50 0"] by simp
qed

text \<open>
  The CTR-ACPKM stream does not depend on how the caller splits the data: two successive
  calls give the output of one call on the concatenation, across block and section
  boundaries.
\<close>

theorem ctr_acpkm_split:
  assumes "\<forall>k. length k = 32 \<longrightarrow> ctr_cipher (nb k) \<and> bsize (nb k) = bs"
    and "ctr_NewCTRACPKM (Some nb) key iv N = Inr c"
    and "ctr_stream c p = (u, c')" "ctr_stream c' q = (v, c'')"
  shows "fst (ctr_stream c (p @ q)) = u @ v"
  using ctr_NewCTRACPKM_wf(1) [of nb bs key iv N c] ctr.xks_split(1) assms by blast

theorem ctr_acpkm_split_witness:
  "\<exists>c u c' v c''. ctr_NewCTRACPKM (Some (\<lambda>k. kuz_block (kuz_cipher_of False k))) (replicate 32 1) (replicate 16 2) 32 = Inr c \<and>
     ctr_stream c (replicate 5 0) = (u, c') \<and> ctr_stream c' (replicate 40 9) = (v, c'') \<and>
     fst (ctr_stream c (replicate 5 0 @ replicate 40 9)) = u @ v"
proof -
  obtain c where c: "ctr_NewCTRACPKM (Some (\<lambda>k. kuz_block (kuz_cipher_of False k))) (replicate 32 1) (replicate 16 2) 32 = Inr c"
    using kuz_NewCTRACPKM_ok [of "replicate 32 1" "replicate 16 2" 32] by auto
  obtain u c' where p: "ctr_stream c (replicate 5 0) = (u, c')" by fastforce
  obtain v c'' where q: "ctr_stream c' (replicate 40 9) = (v, c'')" by fastforce
  show ?thesis
    using c p q ctr_acpkm_split [OF kuz_ctr_all c p q] by blast
qed

text \<open>
  C36. CTR-ACPKM in memory. The loop of the call reads source bytes and writes output bytes
  by turns, through the byte path, the batched path and the fused path. A call on a fresh stream panics
  exactly when the destination is shorter than the source or the two share an
  address without starting at the same one; otherwise the loop leaves, in the first bytes
  of the destination, the source as it was before the call, masked with the keystream of
  ctr_acpkm_output, and every other byte of the memory as it was, in place too. A second
  stream in the initial state, run in place over the output, restores the plaintext there.
\<close>

theorem ctr_acpkm_memory:
  assumes "\<forall>k. length k = 32 \<longrightarrow> ctr_cipher (nb k) \<and> bsize (nb k) = bs"
    and "ctr_NewCTRACPKM (Some nb) key iv N = Inr c"
  shows "ctr_XORKeyStream c (d, dn) (s, n) mem =
      (if dn < n then Inl (Panic ''ctracpkm: output smaller than input'')
       else if addresses (d, n) \<inter> addresses (s, n) \<noteq> {} \<and> d \<noteq> s
       then Inl (Panic ''ctracpkm: invalid buffer overlap'')
       else Inr (store mem d (xor_bytes (load mem s n)
           (concat (map (acpkm_block (Some nb) (nb key) iv (nat N)) [0..<(n + bs - 1) div bs]))),
         snd (ctr_stream c (load mem s n)))) \<and>
    (\<forall>mem' c'. ctr_XORKeyStream c (d, dn) (s, n) mem = Inr (mem', c') \<longrightarrow>
      (\<exists>mem'' c''. ctr_XORKeyStream c (d, n) (d, n) mem' = Inr (mem'', c'') \<and>
        load mem'' d n = load mem s n \<and> (\<forall>x. x < d \<or> d + n \<le> x \<longrightarrow> mem'' x = mem x)))"
proof -
  have wf: "ctr_wf c" using ctr_NewCTRACPKM_wf(1) [of nb bs key iv N c] assms by blast
  have loop: "ctr_XORKeyStream c (d, dn) (s, n) mem = (if dn < n then Inl (Panic ''ctracpkm: output smaller than input'')
       else if alias_InexactOverlap (d, n) (s, n) then Inl (Panic ''ctracpkm: invalid buffer overlap'')
       else Inr (store mem d (fst (ctr_stream c (load mem s n))), snd (ctr_stream c (load mem s n))))" for d dn s mem
  proof (cases "alias_InexactOverlap (d, n) (s, n)")
    case False
    then have "n = 0 \<or> d = s \<or> d + n \<le> s \<or> s + n \<le> d"
      using not_inexact_cases [of d n s] by blast
    then have "ctr_loop c d s n mem = (store mem d (fst (ctr_stream c (load mem s n))), snd (ctr_stream c (load mem s n)))"
    proof
      assume "n = 0"
      then show ?thesis by (simp add: ctr_loop.simps [of c] ctr_stream.simps [of c "[]"] load_def)
    qed (rule ctr_loop_store [OF wf])
    with False show ?thesis by (simp add: ctr_XORKeyStream_def)
  qed (simp add: ctr_XORKeyStream_def)
  have out: "fst (ctr_stream c (load mem s n)) = xor_bytes (load mem s n)
      (concat (map (acpkm_block (Some nb) (nb key) iv (nat N)) [0..<(n + bs - 1) div bs]))"
    using ctr_NewCTRACPKM_wf [of nb bs key iv N c] ctr_stream_closed [of c "load mem s n"] assms by simp
  have len: "length (fst (ctr_stream c (load mem s n))) = n" using ctr.xks_length [OF wf] by simp
  have undo: "fst (ctr_stream c (fst (ctr_stream c (load mem s n)))) = load mem s n"
    by (rule ctr.xks_involution [OF wf wf refl])
  have "\<exists>mem'' c''. ctr_XORKeyStream c (d, n) (d, n) mem' = Inr (mem'', c'') \<and>
      load mem'' d n = load mem s n \<and> (\<forall>x. x < d \<or> d + n \<le> x \<longrightarrow> mem'' x = mem x)"
    if "ctr_XORKeyStream c (d, dn) (s, n) mem = Inr (mem', c')" for mem' c'
    using that len undo unfolding loop
    by (auto simp: alias_InexactOverlap_def load_store_same store_outside load_def [of _ _ 0] split: if_splits)
  then show ?thesis
    unfolding loop out alias_InexactOverlap_exact fst_conv by blast
qed

theorem ctr_acpkm_memory_witness:
  "\<exists>c mem' c' mem'' c''. ctr_NewCTRACPKM (Some (\<lambda>k. kuz_block (kuz_cipher_of False k))) (replicate 32 1) (replicate 16 2) 0 = Inr c \<and>
     ctr_XORKeyStream c (100, 40) (3, 40) of_nat = Inr (mem', c') \<and>
     ctr_XORKeyStream c (100, 40) (100, 40) mem' = Inr (mem'', c'') \<and> load mem'' 100 40 = load of_nat 3 40 \<and>
     ctr_XORKeyStream c (4, 40) (3, 40) of_nat = Inl (Panic ''ctracpkm: invalid buffer overlap'')"
proof -
  obtain c where c: "ctr_NewCTRACPKM (Some (\<lambda>k. kuz_block (kuz_cipher_of False k))) (replicate 32 1) (replicate 16 2) 0 = Inr c"
    using kuz_NewCTRACPKM_ok [of "replicate 32 1" "replicate 16 2" 0] by auto
  note mem = ctr_acpkm_memory [OF kuz_ctr_all c]
  have "addresses (100, 40) \<inter> addresses (3, 40) = {}" "addresses (4, 40) \<inter> addresses (3, 40) \<noteq> {}"
    by (auto simp: addresses_def)
  then obtain mem' c' where x: "ctr_XORKeyStream c (100, 40) (3, 40) of_nat = Inr (mem', c')"
    and y: "ctr_XORKeyStream c (4, 40) (3, 40) of_nat = Inl (Panic ''ctracpkm: invalid buffer overlap'')"
    using mem [of 100 40 3 40 of_nat] mem [of 4 40 3 40 of_nat] by auto
  show ?thesis
    using c x y conjunct2 [OF mem [of 100 40 3 40 of_nat]] by blast
qed

end
