(* ===== verification/OMAC.thy ===== *)
theory OMAC
  imports Block_Cipher Streaming
begin

text \<open>
  \<^verbatim>\<open>omac/omac.go\<close>: the streaming CMAC accumulator. The state is the record of the Go struct;
  \<^verbatim>\<open>Write\<close> is its loop (which would not end on a state with an overfull buffer, hence the
  option), \<^verbatim>\<open>Sum\<close> the non-destructive finalisation. The lemmas reduce any sequence of writes
  to the one-shot CMAC of RFC 4493 on the concatenated message.
\<close>

section \<open>State and operations\<close>

record omac =
  om_block :: block_cipher
  om_blockSize :: nat
  om_tagSize :: nat
  om_k1 :: bytes
  om_k2 :: bytes
  om_state :: bytes
  om_buf :: bytes

definition omac_rbForBlockSize :: "nat \<Rightarrow> byte res" where
  "omac_rbForBlockSize bs =
     (if bs = 16 then Inr 0x87
      else if bs = 8 then Inr 0x1b
      else Inl (Panic ''omac: unsupported block size (want 8 or 16)''))"

definition omac_shiftLeftXorRb :: "bytes \<Rightarrow> byte \<Rightarrow> bytes" where
  "omac_shiftLeftXorRb inp rb =
     (let n = length inp;
          msb = drop_bit 7 (inp ! 0);
          out = map (\<lambda>i. push_bit 1 (inp ! i) OR drop_bit 7 (inp ! (i + 1))) [0..<n - 1]
                @ [push_bit 1 (inp ! (n - 1))]
      in if msb = 1 then out[n - 1 := out ! (n - 1) XOR rb] else out)"

definition omac_cmacSubkeys :: "block_cipher \<Rightarrow> byte \<Rightarrow> bytes \<times> bytes" where
  "omac_cmacSubkeys b rb =
     (let l = enc b (replicate (bsize b) 0);
          k1 = omac_shiftLeftXorRb l rb;
          k2 = omac_shiftLeftXorRb k1 rb
      in (k1, k2))"

definition omac_New :: "block_cipher \<Rightarrow> int \<Rightarrow> omac res" where
  "omac_New b tagSize =
     (let bs = bsize b in
      bind_res (omac_rbForBlockSize bs) (\<lambda>rb.
        if tagSize < 1 \<or> tagSize > int bs then Inl (Panic ''omac: tagSize out of range [1, blockSize]'')
        else let (k1, k2) = omac_cmacSubkeys b rb
             in Inr \<lparr>om_block = b, om_blockSize = bs, om_tagSize = nat tagSize,
                      om_k1 = k1, om_k2 = k2, om_state = replicate bs 0, om_buf = []\<rparr>))"

definition omac_cbcStep :: "bytes \<Rightarrow> omac \<Rightarrow> omac" where
  "omac_cbcStep blk o' = o'\<lparr>om_state := enc (om_block o') (xor_bytes (om_state o') blk)\<rparr>"

definition omac_fill :: "omac \<Rightarrow> bytes \<Rightarrow> omac \<times> bytes" where
  "omac_fill o' p =
     (if length (om_buf o') < om_blockSize o'
      then let want = min (om_blockSize o' - length (om_buf o')) (length p)
           in (o'\<lparr>om_buf := om_buf o' @ take want p\<rparr>, drop want p)
      else (o', p))"

definition omac_flush :: "omac \<Rightarrow> bytes \<Rightarrow> omac" where
  "omac_flush o' p =
     (if length (om_buf o') = om_blockSize o' \<and> length p > 0
      then (omac_cbcStep (om_buf o') o')\<lparr>om_buf := []\<rparr>
      else o')"

partial_function (option) omac_Write_loop :: "omac \<Rightarrow> bytes \<Rightarrow> omac option" where
  "omac_Write_loop o' p =
     (if length p > 0
      then (let (o1, p) = omac_fill o' p in omac_Write_loop (omac_flush o1 p) p)
      else Some o')"

definition omac_Write :: "omac \<Rightarrow> bytes \<Rightarrow> (nat \<times> omac) option" where
  "omac_Write o' p = map_option (\<lambda>o'. (length p, o')) (omac_Write_loop o' p)"

definition omac_Sum :: "omac \<Rightarrow> bytes \<Rightarrow> bytes" where
  "omac_Sum o' b =
     (let stateSnap = copy_into (om_blockSize o') (om_state o');
          last = (if length (om_buf o') = om_blockSize o'
                  then xor_bytes (om_buf o') (om_k1 o')
                  else let last = (copy_into (om_blockSize o') (om_buf o'))[length (om_buf o') := 0x80]
                       in xor_bytes last (om_k2 o'));
          tmp = xor_bytes stateSnap last;
          t = enc (om_block o') tmp
      in b @ take (om_tagSize o') t)"

section \<open>Writing absorbs byte by byte\<close>

definition omac_wf :: "block_cipher \<Rightarrow> omac \<Rightarrow> bool" where
  "omac_wf b o' \<longleftrightarrow> om_block o' = b \<and> om_blockSize o' = bsize b \<and> 0 < bsize b \<and>
     length (om_buf o') \<le> bsize b"

definition omac_view :: "omac \<Rightarrow> bytes \<times> bytes" where
  "omac_view o' = (om_state o', om_buf o')"

definition cbc_chain :: "block_cipher \<Rightarrow> bytes \<Rightarrow> bytes \<Rightarrow> bytes" where
  "cbc_chain b x blk = enc b (xor_bytes x blk)"

abbreviation omac_step :: "block_cipher \<Rightarrow> byte \<Rightarrow> bytes \<times> bytes \<Rightarrow> bytes \<times> bytes" where
  "omac_step b \<equiv> lazy_step (bsize b) (cbc_chain b)"

text \<open>The parameters a write leaves alone.\<close>

definition same_params :: "omac \<Rightarrow> omac \<Rightarrow> bool" where
  "same_params o1 o2 \<longleftrightarrow> om_block o1 = om_block o2 \<and> om_blockSize o1 = om_blockSize o2 \<and>
     om_tagSize o1 = om_tagSize o2 \<and> om_k1 o1 = om_k1 o2 \<and> om_k2 o1 = om_k2 o2"

lemma omac_fill_full:
  "omac_wf b o' \<Longrightarrow> length (om_buf o') = bsize b \<Longrightarrow> omac_fill o' p = (o', p)"
  by (simp add: omac_fill_def omac_wf_def)

lemma omac_fill_room:
  assumes "omac_wf b o'" "length (om_buf o') < bsize b"
  obtains want where "omac_fill o' p = (o'\<lparr>om_buf := om_buf o' @ take want p\<rparr>, drop want p)"
    and "want \<le> length p" "length (om_buf o') + want \<le> bsize b"
    and "want = length p \<or> length (om_buf o') + want = bsize b"
proof (rule that)
  let ?want = "min (bsize b - length (om_buf o')) (length p)"
  show "omac_fill o' p = (o'\<lparr>om_buf := om_buf o' @ take ?want p\<rparr>, drop ?want p)"
    using assms by (simp add: omac_fill_def omac_wf_def Let_def)
  show "?want \<le> length p" "length (om_buf o') + ?want \<le> bsize b"
    "?want = length p \<or> length (om_buf o') + ?want = bsize b"
    using assms by auto
qed

lemma omac_fill_wf:
  assumes wf: "omac_wf b o'" and fill: "omac_fill o' p = (o1, q)"
  shows "omac_wf b o1" "same_params o1 o'" "fold (omac_step b) q (omac_view o1) = fold (omac_step b) p (omac_view o')"
    and "length q \<le> length p" "q = [] \<or> length (om_buf o1) = bsize b"
    and "length (om_buf o') < bsize b \<Longrightarrow> p \<noteq> [] \<Longrightarrow> length q < length p"
proof -
  have "omac_wf b o1 \<and> same_params o1 o' \<and>
    fold (omac_step b) q (omac_view o1) = fold (omac_step b) p (omac_view o') \<and>
    length q \<le> length p \<and> (q = [] \<or> length (om_buf o1) = bsize b) \<and>
    (length (om_buf o') < bsize b \<longrightarrow> p \<noteq> [] \<longrightarrow> length q < length p)"
  proof (cases "length (om_buf o') = bsize b")
    case True
    then show ?thesis
      using omac_fill_full [OF wf True, of p] wf fill by (simp add: same_params_def)
  next
    case False
    then have lt: "length (om_buf o') < bsize b"
      using wf by (simp add: omac_wf_def)
    obtain want where w: "omac_fill o' p = (o'\<lparr>om_buf := om_buf o' @ take want p\<rparr>, drop want p)"
      "want \<le> length p" "length (om_buf o') + want \<le> bsize b"
      "want = length p \<or> length (om_buf o') + want = bsize b"
      using omac_fill_room [OF wf lt] .
    then have o1: "o1 = o'\<lparr>om_buf := om_buf o' @ take want p\<rparr>" and q: "q = drop want p"
      using fill by simp_all
    have "fold (omac_step b) p (omac_view o') =
        fold (omac_step b) (drop want p) (fold (omac_step b) (take want p) (omac_view o'))"
      by (metis append_take_drop_id fold_append o_apply)
    also have "fold (omac_step b) (take want p) (omac_view o') = omac_view o1"
      using w(2,3) fold_lazy_short [of "om_buf o'" "take want p" "bsize b" "cbc_chain b" "om_state o'"]
      by (simp add: omac_view_def o1)
    finally have "fold (omac_step b) q (omac_view o1) = fold (omac_step b) p (omac_view o')"
      by (simp add: q)
    moreover have "want = 0 \<Longrightarrow> p = []"
      using w(4) lt by auto
    ultimately show ?thesis
      using w(2-4) wf by (auto simp: o1 q omac_wf_def same_params_def)
  qed
  then show "omac_wf b o1" "same_params o1 o'" "fold (omac_step b) q (omac_view o1) = fold (omac_step b) p (omac_view o')"
    "length q \<le> length p" "q = [] \<or> length (om_buf o1) = bsize b"
    "length (om_buf o') < bsize b \<Longrightarrow> p \<noteq> [] \<Longrightarrow> length q < length p"
    by simp_all
qed

lemma omac_flush_wf:
  assumes "omac_wf b o'" "q = [] \<or> length (om_buf o') = bsize b"
  shows "omac_wf b (omac_flush o' q)" "same_params (omac_flush o' q) o'"
    "fold (omac_step b) q (omac_view (omac_flush o' q)) = fold (omac_step b) q (omac_view o')"
    "q \<noteq> [] \<Longrightarrow> length (om_buf (omac_flush o' q)) < bsize b"
  using assms fold_lazy_flush [of "om_buf o'" "bsize b" q "cbc_chain b" "om_state o'"]
  by (auto simp: omac_flush_def omac_wf_def omac_view_def same_params_def omac_cbcStep_def cbc_chain_def)

lemma omac_Write_loop_wf:
  assumes "omac_wf b o'"
  shows "\<exists>o2. omac_Write_loop o' p = Some o2 \<and> omac_wf b o2 \<and> same_params o2 o' \<and>
    omac_view o2 = fold (omac_step b) p (omac_view o')"
  using assms
proof (induction "2 * length p + (if length (om_buf o') < bsize b then 0 else 1)"
    arbitrary: o' p rule: less_induct)
  case less
  show ?case
  proof (cases "p = []")
    case True
    then show ?thesis
      using less.prems by (subst omac_Write_loop.simps) (simp add: same_params_def)
  next
    case False
    obtain o1 q where f: "omac_fill o' p = (o1, q)" by fastforce
    note F = omac_fill_wf [OF less.prems f] and G = omac_flush_wf [OF omac_fill_wf(1,5) [OF less.prems f]]
    let ?o2 = "omac_flush o1 q"
    have unfold: "omac_Write_loop o' p = omac_Write_loop ?o2 q"
      using False by (subst omac_Write_loop.simps) (simp add: f)
    show ?thesis
    proof (cases "q = []")
      case True
      then show ?thesis
        using F G by (simp add: unfold, subst omac_Write_loop.simps) (auto simp: same_params_def)
    next
      case q: False
      have "2 * length q + (if length (om_buf ?o2) < bsize b then 0 else 1)
          < 2 * length p + (if length (om_buf o') < bsize b then 0 else 1)"
        using G(4) [OF q] F(4) F(6) False by auto
      from less.hyps [OF this G(1)] show ?thesis
        using F(2,3) G(2,3) by (auto simp: unfold same_params_def)
    qed
  qed
qed

text \<open>The absorber contract, for every block cipher.\<close>

definition omac_absorb :: "omac \<Rightarrow> bytes \<Rightarrow> omac" where
  "omac_absorb o' p = snd (the (omac_Write o' p))"

lemma omac_Write_wf:
  assumes "omac_wf b o'"
  shows "omac_Write o' p = Some (length p, omac_absorb o' p)" "omac_wf b (omac_absorb o' p)"
    "same_params (omac_absorb o' p) o'" "omac_view (omac_absorb o' p) = fold (omac_step b) p (omac_view o')"
  using omac_Write_loop_wf [OF assms, of p] by (auto simp: omac_absorb_def omac_Write_def)

interpretation om: absorber omac_absorb "omac_wf b" omac_view "omac_step b" for b
  by unfold_locales (simp_all add: omac_Write_wf)

section \<open>The one-shot CMAC\<close>

text \<open>
  RFC 4493, section 2.4, over the subkeys of section 2.3: all blocks but the last are chained
  from zero, the last is masked with \<open>K1\<close> when it is complete and padded and masked with \<open>K2\<close>
  when it is not (an empty message has one empty block).
\<close>

definition cmac :: "block_cipher \<Rightarrow> byte \<Rightarrow> bytes \<Rightarrow> bytes" where
  "cmac b rb m =
     (let (k1, k2) = omac_cmacSubkeys b rb;
          n = (length m + bsize b - 1) div bsize b - 1;
          x = fold (\<lambda>blk x. cbc_chain b x blk) (full_blocks (bsize b) n m) (replicate (bsize b) 0);
          r = drop (bsize b * n) m;
          last = (if length r = bsize b then xor_bytes r k1
                  else xor_bytes (r @ 0x80 # replicate (bsize b - length r - 1) 0) k2)
      in enc b (xor_bytes x last))"

lemma cmac_block_count: "0 < B \<Longrightarrow> (n + B - 1) div B - 1 = (n - 1) div (B :: nat)"
proof (cases n)
  case (Suc m)
  then show "0 < B \<Longrightarrow> ?thesis" by (simp add: div_add_self2)
qed (simp add: div_eq_0_iff)

lemma length_shiftLeft [len_simps]: "0 < length inp \<Longrightarrow> length (omac_shiftLeftXorRb inp rb) = length inp"
  by (simp add: omac_shiftLeftXorRb_def Let_def)

lemma length_cbc_fold:
  assumes "block_enc b" "length x = bsize b" "\<And>p. p \<in> set ps \<Longrightarrow> length p = bsize b"
  shows "length (fold (\<lambda>blk x. cbc_chain b x blk) ps x) = bsize b"
  using assms(2,3)
  by (induction ps arbitrary: x) (simp_all add: cbc_chain_def block_enc.enc_length [OF assms(1)])

lemma length_cmac:
  assumes b: "block_enc b"
  shows "length (cmac b rb m) = bsize b"
proof -
  have pos: "0 < bsize b" using b by (rule block_enc.bsize_pos)
  define n where "n = (length m - 1) div bsize b"
  have n: "(length m + bsize b - 1) div bsize b - 1 = n"
    unfolding n_def using pos by (rule cmac_block_count)
  have len: "bsize b * n \<le> length m"
    using order.trans [OF times_div_less_eq_dividend diff_le_self] by (simp only: n_def)
  define x r where "x = fold (\<lambda>blk x. cbc_chain b x blk) (full_blocks (bsize b) n m) (replicate (bsize b) 0)"
    and "r = drop (bsize b * n) m"
  have x: "length x = bsize b"
    unfolding x_def by (rule length_cbc_fold [OF b]) (auto intro: full_blocks_length [OF len])
  have "length m - 1 < bsize b * n + bsize b"
    unfolding n_def using pos by (metis mult.commute div_mult_mod_eq add_less_cancel_left mod_less_divisor)
  then have r: "length r \<le> bsize b" by (simp add: r_def)
  have keys: "length (fst (omac_cmacSubkeys b rb)) = bsize b" "length (snd (omac_cmacSubkeys b rb)) = bsize b"
    using block_enc.enc_length [OF b, of "replicate (bsize b) 0"] pos
    by (simp_all add: omac_cmacSubkeys_def Let_def length_shiftLeft)
  obtain k1 k2 where k: "omac_cmacSubkeys b rb = (k1, k2)" by fastforce
  have "length (xor_bytes x (if length r = bsize b then xor_bytes r k1
      else xor_bytes (r @ 0x80 # replicate (bsize b - length r - 1) 0) k2)) = bsize b"
    using x r keys by (simp add: k)
  from block_enc.enc_length [OF b this] show ?thesis
    by (simp only: cmac_def k Let_def n split_conv x_def r_def)
qed

text \<open>Finalising a state that absorbed \<open>m\<close> from the start is the CMAC of \<open>m\<close>.\<close>

lemma omac_Sum_cmac:
  assumes b: "block_enc b" and o: "omac_wf b o'" "omac_view o' = fold (omac_step b) m (replicate (bsize b) 0, [])"
    and keys: "(om_k1 o', om_k2 o') = omac_cmacSubkeys b rb"
  shows "omac_Sum o' pre = pre @ take (om_tagSize o') (cmac b rb m)"
proof -
  have pos: "0 < bsize b" using b by (rule block_enc.bsize_pos)
  define n where "n = (length m - 1) div bsize b"
  have n: "(length m + bsize b - 1) div bsize b - 1 = n"
    unfolding n_def using pos by (rule cmac_block_count)
  have len: "bsize b * n \<le> length m"
    using order.trans [OF times_div_less_eq_dividend diff_le_self] by (simp only: n_def)
  have view: "om_state o' = fold (\<lambda>blk x. cbc_chain b x blk) (full_blocks (bsize b) n m) (replicate (bsize b) 0)"
    "om_buf o' = drop (bsize b * n) m"
    using o(2) lazy_closed [OF pos, of "cbc_chain b" m "replicate (bsize b) 0"]
    by (simp_all add: omac_view_def n_def)
  have "length (om_state o') = bsize b"
    unfolding view(1) by (rule length_cbc_fold [OF b]) (auto intro: full_blocks_length [OF len])
  then have snap: "copy_into (bsize b) (om_state o') = om_state o'" by (rule copy_into_id)
  have pad: "(copy_into (bsize b) (om_buf o'))[length (om_buf o') := 0x80] =
      om_buf o' @ 0x80 # replicate (bsize b - length (om_buf o') - 1) 0"
    if "length (om_buf o') < bsize b"
    using that by (rule copy_into_update)
  have *: "om_block o' = b" "om_blockSize o' = bsize b" "length (om_buf o') \<le> bsize b"
    using o(1) by (simp_all add: omac_wf_def)
  obtain k1 k2 where k: "omac_cmacSubkeys b rb = (k1, k2)" by fastforce
  have k': "om_k1 o' = k1" "om_k2 o' = k2" using keys k by simp_all
  define x r where "x = fold (\<lambda>blk x. cbc_chain b x blk) (full_blocks (bsize b) n m) (replicate (bsize b) 0)"
    and "r = drop (bsize b * n) m"
  have spec: "cmac b rb m = enc b (xor_bytes x (if length r = bsize b then xor_bytes r k1
      else xor_bytes (r @ 0x80 # replicate (bsize b - length r - 1) 0) k2))"
    by (simp only: cmac_def k Let_def n split_conv x_def r_def)
  have st: "om_state o' = x" "om_buf o' = r"
    using view by (simp_all only: x_def r_def)
  have code: "omac_Sum o' pre = pre @ take (om_tagSize o') (enc b (xor_bytes x
      (if length r = bsize b then xor_bytes r k1
       else xor_bytes ((copy_into (bsize b) r)[length r := 0x80]) k2)))"
    using snap unfolding omac_Sum_def Let_def st k' * by (simp only:)
  show ?thesis
  proof (cases "length r = bsize b")
    case True
    then show ?thesis unfolding code spec by simp
  next
    case False
    then have "length r < bsize b" using *(3) st(2) by simp
    from pad [unfolded st(2), OF this] False show ?thesis
      by (simp only: code spec if_False)
  qed
qed

text \<open>The subkey step is multiplication by \<open>x\<close> in the field: a shift, reduced when a bit falls out.\<close>

lemma bit_be_word:
  "bit (be_word bs :: 'a::len word) (8 * q + r) \<longleftrightarrow>
     8 * q + r < LENGTH('a) \<and> q < length bs \<and> bit (bs ! (length bs - Suc q)) r"
  if "r < 8"
  using that by (auto simp: be_word_def bit_le_word rev_nth)

lemma drop_bit_7_byte: "drop_bit 7 (x :: byte) = of_bool (bit x 7)"
  by (rule bit_word_eqI) (auto simp: bit_simps less_Suc_eq numeral_nat dest: bit_imp_le_length)

lemma bit_push1:
  "bit (push_bit 1 (w :: 'a::len word)) i \<longleftrightarrow> 0 < i \<and> i < LENGTH('a) \<and> bit w (i - 1)"
  unfolding bit_push_bit_iff by (auto dest: bit_imp_le_length)

lemma bit_times2:
  "bit ((w :: 'a::len word) * 2) i \<longleftrightarrow> 0 < i \<and> i < LENGTH('a) \<and> bit w (i - 1)"
  using bit_push1 [of w i] by (simp add: push_bit_eq_mult)

lemma nth_shiftLeft:
  assumes "k < length inp"
  shows "omac_shiftLeftXorRb inp rb ! k =
    (if k + 1 < length inp then push_bit 1 (inp ! k) OR of_bool (bit (inp ! (k + 1)) 7)
     else push_bit 1 (inp ! k) XOR (if bit (inp ! 0) 7 then rb else 0))"
  using assms
  by (auto simp: omac_shiftLeftXorRb_def Let_def drop_bit_7_byte nth_append nth_list_update
      less_Suc_eq dest: less_antisym split: if_splits)

lemma be_word_shiftLeft:
  assumes len: "length inp = n" "LENGTH('a) = 8 * n"
  shows "(be_word (omac_shiftLeftXorRb inp rb) :: 'a::len word) =
    push_bit 1 (be_word inp) XOR (if bit (be_word inp :: 'a word) (LENGTH('a) - 1) then ucast rb else 0)"
proof (rule bit_word_eqI)
  fix i assume i: "i < LENGTH('a)"
  have n: "0 < n" using len(2) len_gt_0 [where 'a = 'a] by linarith
  define q r where "q = i div 8" and "r = i mod 8"
  have i_qr: "i = 8 * q + r" and r: "r < 8" and q: "q < n"
    using i len(2) by (auto simp: q_def r_def)
  have top: "bit (be_word inp :: 'a word) (LENGTH('a) - 1) \<longleftrightarrow> bit (inp ! 0) 7"
  proof -
    have L: "LENGTH('a) - 1 = 8 * (n - 1) + 7" "8 * (n - 1) + 7 < LENGTH('a)"
      using len(2) n by simp_all
    show ?thesis
      unfolding L(1) using bit_be_word [of 7 inp "n - 1", where 'a = 'a] len(1) n L(2) by simp
  qed
  have out: "bit (be_word (omac_shiftLeftXorRb inp rb) :: 'a word) i \<longleftrightarrow>
      bit (omac_shiftLeftXorRb inp rb ! (n - Suc q)) r"
    using bit_be_word [OF r, of "omac_shiftLeftXorRb inp rb" q, where 'a = 'a] i i_qr q len n
    by (simp add: length_shiftLeft)
  have "bit rb i \<Longrightarrow> q = 0"
    using i_qr bit_imp_le_length [of rb i] by simp
  then have rb: "bit (ucast rb :: 'a word) i \<longleftrightarrow> q = 0 \<and> bit rb r"
    using i i_qr by (auto simp: bit_simps)
  show "bit (be_word (omac_shiftLeftXorRb inp rb) :: 'a word) i \<longleftrightarrow>
      bit (push_bit 1 (be_word inp) XOR
        (if bit (be_word inp :: 'a word) (LENGTH('a) - 1) then ucast rb else 0) :: 'a word) i"
  proof (cases r)
    case 0
    show ?thesis
    proof (cases q)
      case 0
      then show ?thesis
        using \<open>r = 0\<close> i_qr i len n rb nth_shiftLeft [of "n - 1" inp rb]
        unfolding out top by (auto simp: bit_times2 bit_xor_iff)
    next
      case (Suc p)
      have "i - 1 = 8 * p + 7" using Suc \<open>r = 0\<close> i_qr by simp
      then have "bit (be_word inp :: 'a word) (i - 1) \<longleftrightarrow> bit (inp ! (n - q)) 7"
        using bit_be_word [of 7 inp p, where 'a = 'a] len i q Suc by simp
      moreover have "n - Suc q + 1 = n - q" "n - Suc q + 1 < n" using q Suc by simp_all
      ultimately show ?thesis
        using \<open>r = 0\<close> Suc i_qr i len n rb unfolding out top
        by (simp add: nth_shiftLeft bit_simps del: One_nat_def)
    qed
  next
    case (Suc r')
    have "i - 1 = 8 * q + r'" using Suc i_qr by simp
    then have "bit (be_word inp :: 'a word) (i - 1) \<longleftrightarrow> bit (inp ! (n - Suc q)) r'"
      using bit_be_word [of r' inp q, where 'a = 'a] len i q r Suc by simp
    moreover have "n - Suc q + 1 < n \<longleftrightarrow> q \<noteq> 0" using q by arith
    ultimately show ?thesis
      using Suc i_qr i len n r rb unfolding out top
      by (simp add: nth_shiftLeft bit_simps del: One_nat_def)
  qed
qed

section \<open>From construction to tag\<close>

text \<open>A caller's session: construct, write the pieces in order, take the tag.\<close>

definition omac_Writes :: "omac \<Rightarrow> bytes list \<Rightarrow> omac option" where
  "omac_Writes o' ps = fold (\<lambda>p oo. Option.bind oo (\<lambda>o'. map_option snd (omac_Write o' p))) ps (Some o')"

lemma omac_Writes_wf:
  "omac_wf b o' \<Longrightarrow> \<exists>o2. omac_Writes o' ps = Some o2 \<and> omac_wf b o2 \<and> same_params o2 o' \<and>
    omac_view o2 = omac_view (omac_absorb o' (concat ps))"
proof (induction ps arbitrary: o')
  case Nil
  then show ?case by (simp add: omac_Writes_def same_params_def omac_Write_wf)
next
  case (Cons p ps)
  let ?o1 = "omac_absorb o' p"
  have wf: "omac_wf b ?o1" using Cons.prems by (rule omac_Write_wf(2))
  obtain o2 where o2: "omac_Writes ?o1 ps = Some o2" "omac_wf b o2" "same_params o2 ?o1"
    "omac_view o2 = omac_view (omac_absorb ?o1 (concat ps))"
    using Cons.IH [OF wf] by blast
  have "omac_Writes o' (p # ps) = omac_Writes ?o1 ps"
    using omac_Write_wf(1) [OF Cons.prems] by (simp add: omac_Writes_def)
  moreover have "omac_view (omac_absorb ?o1 (concat ps)) = omac_view (omac_absorb o' (concat (p # ps)))"
    using om.absorb_append [OF Cons.prems] by simp
  moreover have "same_params o2 o'"
    using o2(3) omac_Write_wf(3) [OF Cons.prems, of p] by (simp add: same_params_def)
  ultimately show ?case using o2 by simp
qed

lemma omac_New_ok:
  assumes "omac_New b t = Inr o0" "0 < bsize b"
  obtains rb where "omac_rbForBlockSize (bsize b) = Inr rb" "omac_wf b o0"
    "omac_view o0 = (replicate (bsize b) 0, [])" "(om_k1 o0, om_k2 o0) = omac_cmacSubkeys b rb"
    "om_tagSize o0 = nat t" "1 \<le> t" "t \<le> int (bsize b)"
  using assms
  by (cases "omac_rbForBlockSize (bsize b)")
    (auto simp: omac_New_def Let_def omac_wf_def omac_view_def split: if_splits prod.splits)

lemma omac_session:
  assumes b: "block_enc b" and new: "omac_New b t = Inr o0"
  shows "\<exists>rb o1. omac_rbForBlockSize (bsize b) = Inr rb \<and> omac_Writes o0 ps = Some o1 \<and>
    omac_Sum o1 pre = pre @ take (nat t) (cmac b rb (concat ps))"
proof -
  obtain rb where o0: "omac_rbForBlockSize (bsize b) = Inr rb" "omac_wf b o0"
    "omac_view o0 = (replicate (bsize b) 0, [])" "(om_k1 o0, om_k2 o0) = omac_cmacSubkeys b rb"
    "om_tagSize o0 = nat t"
    using omac_New_ok [OF new block_enc.bsize_pos [OF b]] .
  obtain o1 where o1: "omac_Writes o0 ps = Some o1" "omac_wf b o1" "same_params o1 o0"
    "omac_view o1 = omac_view (omac_absorb o0 (concat ps))"
    using omac_Writes_wf [OF o0(2)] by blast
  have "omac_view o1 = fold (omac_step b) (concat ps) (replicate (bsize b) 0, [])"
    using o1(4) omac_Write_wf(4) [OF o0(2)] o0(3) by simp
  moreover have "(om_k1 o1, om_k2 o1) = omac_cmacSubkeys b rb" "om_tagSize o1 = nat t"
    using o1(3) o0(4,5) by (simp_all add: same_params_def)
  ultimately have "omac_Sum o1 pre = pre @ take (nat t) (cmac b rb (concat ps))"
    using omac_Sum_cmac [OF b o1(2)] by simp
  then show ?thesis using o0(1) o1(1) by blast
qed

section \<open>Properties\<close>

text \<open>
  The subkey step of OMAC is multiplication by x in the field of 128-bit polynomials: on
  the big-endian value, doubling with a conditional reduction by 0x87.
\<close>

theorem omac_subkey_doubling:
  assumes "length l = 16"
  shows "(be_word (omac_shiftLeftXorRb l 0x87) :: 128 word) =
    (if bit (be_word l :: 128 word) 127 then 2 * be_word l XOR 0x87 else 2 * be_word l)"
  using be_word_shiftLeft [of l 16 "0x87", where 'a = 128] assms
  by (simp add: push_bit_eq_mult mult.commute)

theorem omac_subkey_doubling_witness:
  "(be_word (omac_shiftLeftXorRb (replicate 16 0x80) 0x87) :: 128 word) = 2 * be_word (replicate 16 0x80) XOR 0x87"
  using omac_subkey_doubling [of "replicate 16 0x80"] by code_simp

end
