(* ===== verification/CNT.thy ===== *)
theory CNT
  imports Gost28147 Streaming Alias
begin

text \<open>
  \<^verbatim>\<open>gost28147cnt/cnt.go\<close>: the GOST 28147-89 counter mode with CryptoPro key meshing. The state
  is the Go struct; \<^verbatim>\<open>XORKeyStream\<close> is modelled twice, on lists and as the byte loop in memory,
  and the two agree on slices that do not overlap inexactly (the code has no check of its own).
\<close>

section \<open>State and operations\<close>

record cnt =
  cn_c :: gost_cipher
  cn_sbox :: SBox
  cn_iv :: bytes
  cn_gamma :: bytes
  cn_num :: nat
  cn_count :: nat
  cn_first :: bool

definition cnt_MeshingKey :: bytes where
  "cnt_MeshingKey = [
     0x69, 0x00, 0x72, 0x22, 0x64, 0xC9, 0x04, 0x23,
     0x8D, 0x3A, 0xDB, 0x96, 0x46, 0xE9, 0x2A, 0xC4,
     0x18, 0xFE, 0xAC, 0x94, 0x00, 0xED, 0x07, 0x12,
     0xC0, 0x86, 0xDC, 0xC2, 0xEF, 0x4C, 0xA9, 0x2B]"

definition cnt_NewCNT :: "gost_cipher \<Rightarrow> bytes \<Rightarrow> cnt res" where
  "cnt_NewCNT c iv =
     (if length iv \<noteq> 8 then Inl (Panic ''gost28147cnt: IV must be 8 bytes'')
      else Inr \<lparr>cn_c = c, cn_sbox = gc_sbox c, cn_iv = iv, cn_gamma = replicate 8 0,
                cn_num = 0, cn_count = 0, cn_first = True\<rparr>)"

text \<open>
  The four decryptions fill a 32-byte array, so \<^verbatim>\<open>NewCipher\<close> does not panic
  (\<open>length_cnt_newKey\<close>).
\<close>

definition cnt_newKey :: "gost_cipher \<Rightarrow> bytes" where
  "cnt_newKey c = concat (map (\<lambda>i. gost_decrypt_block c (slice (i * 8) 8 cnt_MeshingKey)) [0..<4])"

definition cnt_meshKey :: "cnt \<Rightarrow> cnt" where
  "cnt_meshKey s =
     (let c = gost_cipher_of (cnt_newKey (cn_c s)) (cn_sbox s);
          nextIV = gost_encrypt_block c (cn_iv s)
      in s\<lparr>cn_c := c, cn_iv := nextIV\<rparr>)"

text \<open>One step of the two-part counter: the lower half mod \<open>2^32\<close>, the upper with end-around carry.\<close>

definition cnt_lo :: "u32 \<Rightarrow> u32" where
  "cnt_lo lo = lo + 0x01010101"

definition cnt_hi :: "u32 \<Rightarrow> u32" where
  "cnt_hi hi = (let old = hi; hi = hi + 0x01010104 in if old > hi then hi + 1 else hi)"

definition cnt_counter :: "bytes \<Rightarrow> bytes" where
  "cnt_counter buf = word_le 4 (cnt_lo (le_word (slice 0 4 buf))) @ word_le 4 (cnt_hi (le_word (slice 4 4 buf)))"

definition cnt_nextGamma :: "cnt \<Rightarrow> cnt" where
  "cnt_nextGamma s =
     (let s = (if cn_count s = 1024 then (cnt_meshKey s)\<lparr>cn_count := 0\<rparr> else s);
          buf = (if cn_first s then gost_encrypt_block (cn_c s) (cn_iv s) else cn_iv s);
          s = s\<lparr>cn_first := False\<rparr>;
          buf = cnt_counter buf
      in s\<lparr>cn_iv := buf, cn_gamma := gost_encrypt_block (cn_c s) buf,
           cn_count := cn_count s mod 1024 + 8\<rparr>)"

definition cnt_next :: "cnt \<Rightarrow> byte \<times> cnt" where
  "cnt_next s =
     (let s = (if cn_num s = 0 then cnt_nextGamma s else s)
      in (cn_gamma s ! cn_num s, s\<lparr>cn_num := (cn_num s + 1) mod 8\<rparr>))"

fun cnt_stream :: "cnt \<Rightarrow> bytes \<Rightarrow> bytes \<times> cnt" where
  "cnt_stream s [] = ([], s)"
| "cnt_stream s (b # src) =
     (let (k, s) = cnt_next s; (rest, s) = cnt_stream s src in ((b XOR k) # rest, s))"

definition cnt_XORKeyStream :: "cnt \<Rightarrow> mslice \<Rightarrow> mslice \<Rightarrow> memory \<Rightarrow> (memory \<times> cnt) res" where
  "cnt_XORKeyStream s dst src mem =
     (if snd dst < snd src then Inl (Panic ''gost28147cnt: dst shorter than src'')
      else Inr (fold (\<lambda>i (mem, s).
          let (k, s) = cnt_next s in (mem(fst dst + i := mem (fst src + i) XOR k), s))
        [0..<snd src] (mem, s)))"

section \<open>The counter\<close>

lemma cnt_hi_cases:
  "unat (cnt_hi hi) = (if unat hi + 0x01010104 < 2 ^ 32 then unat hi + 0x01010104
     else unat hi + 0x01010104 - (2 ^ 32 - 1))"
proof -
  have u: "unat hi < 4294967296" using unsigned_less [of hi] by simp
  show ?thesis
  proof (cases "unat hi + 0x01010104 < 2 ^ 32")
    case True
    then have "unat (hi + 0x01010104) = unat hi + 0x01010104"
      by (simp add: unat_word_ariths)
    then show ?thesis
      using True by (simp add: cnt_hi_def Let_def word_less_nat_alt)
  next
    case False
    then have s: "unat (hi + 0x01010104) = unat hi + 0x01010104 - 4294967296"
      using u by (simp add: unat_word_ariths mod_if)
    moreover have "unat (hi + 0x01010104 + 1) = unat (hi + 0x01010104) + 1"
      using u s by (subst unat_word_ariths) simp
    ultimately show ?thesis
      using False u by (simp add: cnt_hi_def Let_def word_less_nat_alt add.assoc)
  qed
qed

text \<open>The upper half counts modulo \<open>2^32 - 1\<close> (RFC 5830), zero and \<open>2^32 - 1\<close> being one residue.\<close>

lemma cnt_hi_mod: "unat (cnt_hi hi) mod (2 ^ 32 - 1) = (unat hi + 0x01010104) mod (2 ^ 32 - 1)"
  using unsigned_less [of hi] by (simp add: cnt_hi_cases le_mod_geq)

lemma cnt_lo_pow: "(cnt_lo ^^ n) lo = lo + of_nat n * 0x01010101"
  by (induction n) (simp_all add: cnt_lo_def algebra_simps)

lemma cnt_hi_pow:
  "unat ((cnt_hi ^^ n) hi) mod (2 ^ 32 - 1) = (unat hi + n * 0x01010104) mod (2 ^ 32 - 1)"
proof (induction n)
  case (Suc n)
  have "unat ((cnt_hi ^^ Suc n) hi) mod (2 ^ 32 - 1) =
      (unat ((cnt_hi ^^ n) hi) mod (2 ^ 32 - 1) + 0x01010104) mod (2 ^ 32 - 1)"
    by (simp only: funpow.simps o_apply cnt_hi_mod mod_add_left_eq)
  then show ?case
    unfolding Suc.IH by (simp only: mod_add_left_eq) (simp add: algebra_simps)
qed simp

section \<open>The stream\<close>

lemma cnt_stream_gen:
  "fst (cnt_stream s src) = xor_bytes src (gen cnt_next (length src) s)"
  "snd (cnt_stream s src) = adv cnt_next (length src) s"
  by (induction src arbitrary: s) (simp_all add: Let_def case_prod_beta)

interpretation cnt: keystream cnt_stream "\<lambda>_. True" id cnt_next
  by unfold_locales (simp_all add: cnt_stream_gen)

lemma xor_loop_snoc:
  "xor_loop (ks @ [k]) d a mem =
     (let m = xor_loop ks d a mem in m(d + length ks := m (a + length ks) XOR k))"
proof -
  have "fold (\<lambda>i mem. mem(d + i := mem (a + i) XOR (ks @ [k]) ! i)) [0..<length ks] mem =
      fold (\<lambda>i mem. mem(d + i := mem (a + i) XOR ks ! i)) [0..<length ks] mem"
    by (rule fold_cong) (auto simp: nth_append)
  then show ?thesis
    unfolding xor_loop_def by (simp add: nth_append Let_def)
qed

lemma cnt_memory_loop:
  "fold (\<lambda>i (mem, s). let (k, s) = cnt_next s in (mem(d + i := mem (a + i) XOR k), s)) [0..<n] (mem, s)
   = (xor_loop (gen cnt_next n s) d a mem, adv cnt_next n s)"
proof -
  define R where "R = (\<lambda>i (mem :: memory, s). let (k, s) = cnt_next s in (mem(d + i := mem (a + i) XOR k), s))"
  have R: "R i (m, t) = (m(d + i := m (a + i) XOR fst (cnt_next t)), snd (cnt_next t))" for i m t
    by (simp add: R_def case_prod_beta Let_def)
  have "fold R [0..<n] (mem, s) = (xor_loop (gen cnt_next n s) d a mem, adv cnt_next n s)"
  proof (induction n)
    case 0
    show ?case by (simp add: xor_loop_def)
  next
    case (Suc n)
    have gen: "gen cnt_next (Suc n) s = gen cnt_next n s @ [fst (cnt_next (adv cnt_next n s))]"
      using gen_add [of cnt_next n 1 s] by simp
    have adv: "adv cnt_next (Suc n) s = snd (cnt_next (adv cnt_next n s))"
      using adv_add [of cnt_next n 1 s] by simp
    have "fold R [0..<Suc n] (mem, s) = R n (xor_loop (gen cnt_next n s) d a mem, adv cnt_next n s)"
      using Suc.IH by simp
    then show ?case
      unfolding gen adv R xor_loop_snoc by (simp add: Let_def fun_upd_def)
  qed
  then show ?thesis by (simp only: R_def)
qed

lemma cnt_XORKeyStream_result:
  assumes "cnt_XORKeyStream s (d, dn) (a, n) mem = Inr (mem', s')"
    and "\<not> alias_InexactOverlap (d, n) (a, n)"
  shows "load mem' d n = fst (cnt_stream s (load mem a n))" "s' = snd (cnt_stream s (load mem a n))"
    "x < d \<or> d + n \<le> x \<Longrightarrow> mem' x = mem x"
proof -
  have *: "mem' = xor_loop (gen cnt_next n s) d a mem" "s' = adv cnt_next n s"
    using assms(1) unfolding cnt_XORKeyStream_def fst_conv snd_conv cnt_memory_loop
    by (simp_all split: if_splits)
  show "load mem' d n = fst (cnt_stream s (load mem a n))" "s' = snd (cnt_stream s (load mem a n))"
    using xor_loop_result [of d "gen cnt_next n s" a mem] assms(2) by (simp_all add: * cnt_stream_gen)
  show "x < d \<or> d + n \<le> x \<Longrightarrow> mem' x = mem x"
    using xor_loop_outside [of x d "gen cnt_next n s" a mem] by (simp add: *)
qed

section \<open>Gamma blocks and meshing\<close>

lemma length_cnt_newKey [simp, len_simps]: "length (cnt_newKey c) = 32"
  unfolding cnt_newKey_def by (subst length_concat_upt [where m = 8]) simp_all

definition cnt_wf :: "cnt \<Rightarrow> bool" where
  "cnt_wf s \<longleftrightarrow> cn_num s < 8 \<and> (cn_num s \<noteq> 0 \<longrightarrow> length (cn_gamma s) = 8)"

lemma length_cnt_gamma [simp]: "length (cn_gamma (cnt_nextGamma s)) = 8"
  by (simp add: cnt_nextGamma_def Let_def)

lemma cnt_nextGamma_num [simp]: "cn_num (cnt_nextGamma s) = cn_num s"
  by (simp add: cnt_nextGamma_def cnt_meshKey_def Let_def)

text \<open>Eight bytes at a block boundary are one gamma block.\<close>

lemma cnt_within:
  assumes "cn_num s + k < 8" "cn_num s \<noteq> 0" "length (cn_gamma s) = 8"
  shows "gen cnt_next k s = take k (drop (cn_num s) (cn_gamma s))"
    "adv cnt_next k s = s\<lparr>cn_num := cn_num s + k\<rparr>"
proof -
  have "gen cnt_next k s = take k (drop (cn_num s) (cn_gamma s)) \<and>
      adv cnt_next k s = s\<lparr>cn_num := cn_num s + k\<rparr>"
    using assms
  proof (induction k arbitrary: s)
    case (Suc k)
    let ?s = "s\<lparr>cn_num := Suc (cn_num s)\<rparr>"
    have "cnt_next s = (cn_gamma s ! cn_num s, ?s)"
      using Suc.prems by (simp add: cnt_next_def)
    moreover have "gen cnt_next k ?s = take k (drop (Suc (cn_num s)) (cn_gamma s)) \<and>
        adv cnt_next k ?s = s\<lparr>cn_num := Suc (cn_num s) + k\<rparr>"
      using Suc.IH [of ?s] Suc.prems by simp
    moreover have "take (Suc k) (drop (cn_num s) (cn_gamma s)) =
        cn_gamma s ! cn_num s # take k (drop (Suc (cn_num s)) (cn_gamma s))"
      using Suc.prems by (metis Cons_nth_drop_Suc take_Suc_Cons add_lessD1)
    ultimately show ?case by simp
  qed simp
  then show "gen cnt_next k s = take k (drop (cn_num s) (cn_gamma s))"
    "adv cnt_next k s = s\<lparr>cn_num := cn_num s + k\<rparr>" by simp_all
qed

lemma cnt_block:
  assumes "cn_num s = 0"
  shows "gen cnt_next 8 s = cn_gamma (cnt_nextGamma s)" "adv cnt_next 8 s = cnt_nextGamma s"
proof -
  define g where "g = cnt_nextGamma s"
  let ?s = "g\<lparr>cn_num := 1\<rparr>"
  have g: "cn_num g = 0" "length (cn_gamma g) = 8" using assms by (simp_all add: g_def)
  have first: "cnt_next s = (cn_gamma g ! 0, ?s)"
    using assms g by (simp add: cnt_next_def g_def Let_def)
  have mid: "gen cnt_next 6 ?s = take 6 (drop 1 (cn_gamma g))" "adv cnt_next 6 ?s = g\<lparr>cn_num := 7\<rparr>"
    using cnt_within [of ?s 6] g by simp_all
  have last: "cnt_next (g\<lparr>cn_num := 7\<rparr>) = (cn_gamma g ! 7, g)"
    using g by (simp add: cnt_next_def)
  have gen: "gen cnt_next 8 s = fst (cnt_next s) # gen cnt_next 6 (snd (cnt_next s)) @
      [fst (cnt_next (adv cnt_next 6 (snd (cnt_next s))))]"
    using gen_add [of cnt_next 1 "6 + 1" s] gen_add [of cnt_next 6 1 "snd (cnt_next s)"] by simp
  have adv: "adv cnt_next 8 s = snd (cnt_next (adv cnt_next 6 (snd (cnt_next s))))"
    using adv_add [of cnt_next 1 "6 + 1" s] adv_add [of cnt_next 6 1 "snd (cnt_next s)"] by simp
  have "cn_gamma g = cn_gamma g ! 0 # take 6 (drop 1 (cn_gamma g)) @ [cn_gamma g ! 7]"
    using g(2) by (intro nth_equalityI) (auto simp: nth_Cons nth_append numeral_nat less_Suc_eq split: nat.splits)
  then show "gen cnt_next 8 s = cn_gamma (cnt_nextGamma s)"
    by (simp only: gen first mid last prod.sel flip: g_def)
  show "adv cnt_next 8 s = cnt_nextGamma s"
    by (simp only: adv first mid last prod.sel flip: g_def)
qed

lemma cnt_blocks:
  assumes "cn_num s = 0"
  shows "gen cnt_next (8 * m) s = concat (map (\<lambda>j. cn_gamma ((cnt_nextGamma ^^ Suc j) s)) [0..<m]) \<and>
    adv cnt_next (8 * m) s = (cnt_nextGamma ^^ m) s \<and> cn_num ((cnt_nextGamma ^^ m) s) = 0"
proof (induction m)
  case (Suc m)
  have "8 * Suc m = 8 * m + 8" by simp
  then show ?case
    using Suc cnt_block [of "(cnt_nextGamma ^^ m) s"] by (simp only: gen_add adv_add) simp
qed (simp add: assms)

section \<open>Properties\<close>

text \<open>
  The counter mode of GOST 28147-89 in memory: for slices that do not overlap inexactly
  the byte loop writes what the stream on lists gives, leaves the same state, and changes
  nothing outside the destination.
\<close>

theorem cnt_memory:
  assumes "cnt_XORKeyStream s (d, dn) (a, n) mem = Inr (mem', s')" "\<not> alias_InexactOverlap (d, n) (a, n)"
  shows "load mem' d n = fst (cnt_stream s (load mem a n)) \<and> s' = snd (cnt_stream s (load mem a n)) \<and>
    (\<forall>x. x < d \<or> d + n \<le> x \<longrightarrow> mem' x = mem x)"
  using cnt_XORKeyStream_result [OF assms] by blast

theorem cnt_memory_witness:
  "\<exists>s mem' s'. cnt_NewCNT (gost_cipher_of (replicate 32 5) SboxTC26Z) (replicate 8 1) = Inr s \<and>
     cnt_XORKeyStream s (0, 9) (0, 9) (\<lambda>_. 0) = Inr (mem', s') \<and>
     load mem' 0 9 = fst (cnt_stream s (load (\<lambda>_. 0) 0 9)) \<and> mem' 9 = 0"
proof -
  obtain s where s: "cnt_NewCNT (gost_cipher_of (replicate 32 5) SboxTC26Z) (replicate 8 1) = Inr s"
    by (simp add: cnt_NewCNT_def)
  obtain mem' s' where x: "cnt_XORKeyStream s (0, 9) (0, 9) (\<lambda>_. 0) = Inr (mem', s')"
    unfolding cnt_XORKeyStream_def fst_conv snd_conv cnt_memory_loop by simp
  show ?thesis
    using s x cnt_memory [OF x] by (auto simp: alias_InexactOverlap_def)
qed

section \<open>The key schedule of RFC 4357\<close>

text \<open>
  The specification, independent of \<open>cnt_nextGamma\<close>: after \<open>n \<ge> 1\<close> steps the lower half of
  the counter has advanced by \<open>n * C2\<close> modulo \<open>2^32\<close> and the upper by \<open>n * C1\<close> modulo
  \<open>2^32 - 1\<close>, its residues written 1, ..., \<open>2^32 - 1\<close>. An epoch is 128 blocks (1024 bytes): the key
  of the next epoch is the meshing constant decrypted under the key of this one, and its
  counter starts at the last counter encrypted under the new key. Block \<open>i\<close> is the counter
  encrypted under the key of epoch \<open>i div 128\<close>.
\<close>

definition rfc_counter :: "nat \<Rightarrow> bytes \<Rightarrow> bytes" where
  "rfc_counter n b =
     word_le 4 (le_word (slice 0 4 b) + of_nat n * 0x01010101 :: u32) @
     word_le 4 (of_nat ((unat (le_word (slice 4 4 b) :: u32) + n * 0x01010104 - 1) mod (2 ^ 32 - 1) + 1) :: u32)"

definition rfc_mesh :: "gost_cipher \<Rightarrow> gost_cipher" where
  "rfc_mesh k = gost_cipher_of
     (gost_decrypt_block k (slice 0 8 cnt_MeshingKey) @ gost_decrypt_block k (slice 8 8 cnt_MeshingKey) @
      gost_decrypt_block k (slice 16 8 cnt_MeshingKey) @ gost_decrypt_block k (slice 24 8 cnt_MeshingKey))
     (gc_sbox k)"

primrec rfc_epoch :: "gost_cipher \<Rightarrow> bytes \<Rightarrow> nat \<Rightarrow> gost_cipher \<times> bytes" where
  "rfc_epoch c iv 0 = (c, gost_encrypt_block c iv)"
| "rfc_epoch c iv (Suc j) =
     (let (k, start) = rfc_epoch c iv j; k' = rfc_mesh k
      in (k', gost_encrypt_block k' (rfc_counter 128 start)))"

definition rfc_gamma :: "gost_cipher \<Rightarrow> bytes \<Rightarrow> nat \<Rightarrow> bytes" where
  "rfc_gamma c iv i =
     (let (k, start) = rfc_epoch c iv (i div 128)
      in gost_encrypt_block k (rfc_counter (i mod 128 + 1) start))"

lemma slice_halves:
  "slice 0 4 (word_le 4 v @ word_le 4 w) = word_le 4 v" "slice 4 4 (word_le 4 v @ word_le 4 w) = word_le 4 w"
  by (simp_all add: slice_def)

lemma cnt_hi_nat:
  "cnt_hi hi = of_nat ((unat hi + 0x01010104 - 1) mod (2 ^ 32 - 1) + 1)"
proof -
  have u: "unat hi < 4294967296" using unsigned_less [of hi] by simp
  have "unat (cnt_hi hi) = (unat hi + 0x01010104 - 1) mod (2 ^ 32 - 1) + 1"
    using u by (auto simp: cnt_hi_cases le_mod_geq)
  then show ?thesis by (metis of_nat_unat ucast_id)
qed

lemma rfc_counter_1: "cnt_counter b = rfc_counter 1 b"
  by (simp add: cnt_counter_def rfc_counter_def cnt_lo_def cnt_hi_nat)

lemma rfc_upper_Suc:
  assumes "0 < n"
  shows "cnt_hi (of_nat ((u + n * 0x01010104 - 1) mod (2 ^ 32 - 1) + 1)) =
    of_nat ((u + Suc n * 0x01010104 - 1) mod (2 ^ 32 - 1) + 1)"
proof -
  define r where "r = (u + n * 0x01010104 - 1) mod (2 ^ 32 - 1)"
  have r: "r < 2 ^ 32 - 1" unfolding r_def by (rule mod_less_divisor) simp
  have un: "unat (of_nat (r + 1) :: u32) = r + 1"
    unfolding unat_of_nat using r by simp
  have "cnt_hi (of_nat (r + 1)) = of_nat ((r + 0x01010104) mod (2 ^ 32 - 1) + 1)"
    unfolding cnt_hi_nat un by (simp add: add.commute)
  also have "(r + 0x01010104) mod (2 ^ 32 - 1) = (u + n * 0x01010104 - 1 + 0x01010104) mod (2 ^ 32 - 1)"
    unfolding r_def by (rule mod_add_left_eq)
  also have "u + n * 0x01010104 - 1 + 0x01010104 = u + Suc n * 0x01010104 - 1"
    using assms by simp
  finally show ?thesis by (simp only: r_def)
qed

lemma rfc_counter_Suc: "0 < n \<Longrightarrow> cnt_counter (rfc_counter n b) = rfc_counter (Suc n) b"
  unfolding cnt_counter_def rfc_counter_def slice_halves
  by (simp add: rfc_upper_Suc [simplified] cnt_lo_def algebra_simps)

lemma cnt_newKey_mesh: "gost_cipher_of (cnt_newKey c) (gc_sbox c) = rfc_mesh c"
  by (simp add: cnt_newKey_def rfc_mesh_def upt_conv_Cons)

lemma gc_sbox_mesh [simp]: "gc_sbox (rfc_mesh c) = gc_sbox c"
  by (simp add: rfc_mesh_def gost_cipher_of_def)

lemma gc_sbox_epoch [simp]: "gc_sbox (fst (rfc_epoch c iv j)) = gc_sbox c"
  by (induction j) (simp_all add: Let_def case_prod_beta)

text \<open>The state after block \<open>n\<close>: the key, the counter and the byte count of the epoch.\<close>

lemma cnt_after:
  assumes "cnt_NewCNT c iv = Inr s"
  shows "cnt_after_n = (cnt_nextGamma ^^ Suc n) s \<Longrightarrow>
    cn_c cnt_after_n = fst (rfc_epoch c iv (n div 128)) \<and>
    cn_iv cnt_after_n = rfc_counter (n mod 128 + 1) (snd (rfc_epoch c iv (n div 128))) \<and>
    cn_gamma cnt_after_n = rfc_gamma c iv n \<and> cn_sbox cnt_after_n = gc_sbox c \<and>
    \<not> cn_first cnt_after_n \<and> cn_count cnt_after_n = 8 * (n mod 128) + 8"
proof (induction n arbitrary: cnt_after_n)
  case 0
  then show ?case
    using assms by (auto simp: cnt_NewCNT_def cnt_nextGamma_def rfc_gamma_def rfc_counter_1 Let_def split: if_splits)
next
  case (Suc n)
  define t where "t = (cnt_nextGamma ^^ Suc n) s"
  have IH: "cn_c t = fst (rfc_epoch c iv (n div 128))"
    "cn_iv t = rfc_counter (n mod 128 + 1) (snd (rfc_epoch c iv (n div 128)))"
    "cn_sbox t = gc_sbox c" "\<not> cn_first t" "cn_count t = 8 * (n mod 128) + 8"
    using Suc.IH [OF t_def] by simp_all
  have step: "cnt_after_n = cnt_nextGamma t" using Suc.prems by (simp add: t_def)
  have lt: "n mod 128 < 128" by simp
  show ?case
  proof (cases "n mod 128 = 127")
    case True
    then have dm: "Suc n mod 128 = 0" "Suc n div 128 = Suc (n div 128)"
      by (simp_all add: mod_Suc div_Suc)
    have "cnt_meshKey t = t\<lparr>cn_c := fst (rfc_epoch c iv (Suc (n div 128))),
        cn_iv := snd (rfc_epoch c iv (Suc (n div 128)))\<rparr>"
      using IH True cnt_newKey_mesh [of "fst (rfc_epoch c iv (n div 128))"]
      by (simp add: cnt_meshKey_def Let_def case_prod_beta)
    then show ?thesis
      using IH True unfolding step dm
      by (simp add: cnt_nextGamma_def rfc_gamma_def rfc_counter_1 dm Let_def case_prod_beta del: rfc_epoch.simps)
  next
    case False
    then have dm: "Suc n mod 128 = Suc (n mod 128)" "Suc n div 128 = n div 128"
      by (simp_all add: mod_Suc div_Suc)
    have "cn_count t \<noteq> 1024" "cn_count t mod 1024 = cn_count t" using IH(5) lt False by simp_all
    then show ?thesis
      using IH unfolding step dm
      by (simp add: cnt_nextGamma_def rfc_gamma_def rfc_counter_Suc dm Let_def case_prod_beta)
  qed
qed

section \<open>The keystream\<close>

text \<open>
  C31. The keystream of a fresh generator is that of RFC 4357: block i is the two-part
  counter after i mod 128 + 1 steps from the start of its epoch, encrypted under the key of
  epoch i div 128; the first epoch has the given key and starts at the encrypted IV, and
  every 128 blocks the next epoch's key is the meshing constant decrypted under the current
  key and its start the last counter encrypted under that new key. The specification
  (rfc_gamma) is written without nextGamma, meshKey or the byte count. It holds for input of
  any length; a generator exists exactly for an IV of eight bytes (the hypothesis).
\<close>

theorem cnt_keystream:
  assumes "cnt_NewCNT c iv = Inr s" "length src \<le> 8 * m"
  shows "fst (cnt_stream s src) = xor_bytes src (concat (map (rfc_gamma c iv) [0..<m]))"
proof -
  have s: "cn_num s = 0" using assms(1) by (auto simp: cnt_NewCNT_def split: if_splits)
  have "gen cnt_next (8 * m) s = concat (map (rfc_gamma c iv) [0..<m])"
    using cnt_blocks [OF s, of m] cnt_after [OF assms(1) refl] by simp
  then have "concat (map (rfc_gamma c iv) [0..<m]) =
      gen cnt_next (length src) s @ gen cnt_next (8 * m - length src) (adv cnt_next (length src) s)"
    using gen_add [of cnt_next "length src" "8 * m - length src" s] assms(2) by simp
  then have "take (length src) (concat (map (rfc_gamma c iv) [0..<m])) = gen cnt_next (length src) s"
    by simp
  then show ?thesis by (metis cnt_stream_gen(1) xor_bytes_take_right)
qed

theorem cnt_keystream_witness:
  "\<exists>s. cnt_NewCNT (gost_cipher_of (replicate 32 5) SboxTC26Z) (replicate 8 1) = Inr s \<and>
     drop 1024 (fst (cnt_stream s (replicate 1030 0))) =
       take 6 (gost_encrypt_block (rfc_mesh (gost_cipher_of (replicate 32 5) SboxTC26Z))
         (rfc_counter 1 (snd (rfc_epoch (gost_cipher_of (replicate 32 5) SboxTC26Z) (replicate 8 1) 1))))"
proof -
  let ?c = "gost_cipher_of (replicate 32 5) SboxTC26Z" and ?iv = "replicate 8 1 :: bytes"
  obtain s where s: "cnt_NewCNT ?c ?iv = Inr s" by (simp add: cnt_NewCNT_def)
  have len: "length (concat (map (rfc_gamma ?c ?iv) [0..<128])) = 1024"
    by (subst length_concat_upt [where m = 8]) (simp_all add: rfc_gamma_def case_prod_beta)
  have "drop 1024 (fst (cnt_stream s (replicate 1030 0))) = take 6 (rfc_gamma ?c ?iv 128)"
  proof -
    have "concat (map (rfc_gamma ?c ?iv) [0..<129]) = concat (map (rfc_gamma ?c ?iv) [0..<128]) @ rfc_gamma ?c ?iv 128"
      using upt_Suc_append [of 0 128] by simp
    then have "drop 1024 (fst (cnt_stream s (replicate 1030 0))) = xor_bytes (replicate 6 0) (rfc_gamma ?c ?iv 128)"
      using cnt_keystream [OF s, of "replicate 1030 0" 129] len by (simp add: drop_xor_bytes)
    also have "\<dots> = xor_bytes (take 6 (rfc_gamma ?c ?iv 128)) (replicate 6 0)"
      by (metis xor_bytes_take_right xor_bytes_commute length_replicate)
    finally show ?thesis by (simp add: xor_bytes_zero)
  qed
  moreover have "rfc_gamma ?c ?iv 128 = gost_encrypt_block (rfc_mesh ?c) (rfc_counter 1 (snd (rfc_epoch ?c ?iv 1)))"
    by (simp add: rfc_gamma_def case_prod_beta Let_def)
  ultimately show ?thesis using s by auto
qed

text \<open>
  Splitting a call of the counter mode gives the same output and the same final state.
\<close>

theorem cnt_split:
  "\<exists>u s' v s''. cnt_stream s p = (u, s') \<and> cnt_stream s' q = (v, s'') \<and> cnt_stream s (p @ q) = (u @ v, s'')"
proof -
  obtain u s' v s'' where "cnt_stream s p = (u, s')" "cnt_stream s' q = (v, s'')" by fastforce
  with cnt.xks_split [OF TrueI this] show ?thesis by (metis id_apply prod.collapse)
qed

text \<open>
  The two counter halves: the lower counts modulo 2^32, the upper modulo 2^32 - 1
  through its end-around carry.
\<close>

theorem cnt_counter_steps:
  "(cnt_lo ^^ n) lo = lo + of_nat n * 0x01010101 \<and>
   unat ((cnt_hi ^^ n) hi) mod (2 ^ 32 - 1) = (unat hi + n * 0x01010104) mod (2 ^ 32 - 1)"
  using cnt_lo_pow cnt_hi_pow by blast

end
