(* ===== verification/IMIT.thy ===== *)
theory IMIT
  imports CNT
begin

text \<open>
  \<^verbatim>\<open>gost28147imit/imit.go\<close>: the 16-round MAC of GOST 28147-89 with CryptoPro key meshing. The
  MAC cipher is a record of subkeys and S-box that meshing replaces; \<open>imit\<close> is the
  loop of the code, with its short-message rule.
\<close>

section \<open>State and operations\<close>

record mac_cipher =
  mac_x :: "u32 list"
  mac_sbox :: SBox

definition imit_MeshingKey :: bytes where
  "imit_MeshingKey = [
     0x69, 0x00, 0x72, 0x22, 0x64, 0xC9, 0x04, 0x23,
     0x8D, 0x3A, 0xDB, 0x96, 0x46, 0xE9, 0x2A, 0xC4,
     0x18, 0xFE, 0xAC, 0x94, 0x00, 0xED, 0x07, 0x12,
     0xC0, 0x86, 0xDC, 0xC2, 0xEF, 0x4C, 0xA9, 0x2B]"

definition newMACCipher :: "bytes \<Rightarrow> SBox \<Rightarrow> mac_cipher" where
  "newMACCipher key sbox = \<lparr>mac_x = map (\<lambda>i. le_word (slice (i * 4) 4 key)) [0..<8], mac_sbox = sbox\<rparr>"

definition imit_t :: "mac_cipher \<Rightarrow> u32 \<Rightarrow> u32" where
  "imit_t c x =
     fold (\<lambda>i out. out OR push_bit (4 * i) (ucast (mac_sbox c ! i ! unat (drop_bit (4 * i) x AND 0xF))))
       [0..<8] 0"

definition imit_f :: "mac_cipher \<Rightarrow> u32 \<Rightarrow> u32" where
  "imit_f c x = (let y = imit_t c x in push_bit 11 y OR drop_bit (32 - 11) y)"

definition imit_rounds :: "mac_cipher \<Rightarrow> u32 \<times> u32 \<Rightarrow> u32 \<times> u32" where
  "imit_rounds c p =
     fold (\<lambda>_ p. fold (\<lambda>k (n1, n2). (imit_f c (n1 + mac_x c ! k) XOR n2, n1)) [0..<8] p) [0..<2] p"

definition imit_macBlock :: "mac_cipher \<Rightarrow> bytes \<Rightarrow> bytes \<Rightarrow> bytes" where
  "imit_macBlock c state blk =
     (let state = xor_bytes state blk;
          (n1, n2) = imit_rounds c (le_word (slice 0 4 state), le_word (slice 4 4 state))
      in word_le 4 n1 @ word_le 4 n2)"

definition imit_keyBytes :: "mac_cipher \<Rightarrow> bytes" where
  "imit_keyBytes c = concat (map (\<lambda>i. word_le 4 (mac_x c ! i)) [0..<8])"

definition imit_mesh :: "mac_cipher \<Rightarrow> mac_cipher" where
  "imit_mesh c =
     (let cur = gost_cipher_of (imit_keyBytes c) (mac_sbox c);
          newKey = concat (map (\<lambda>i. gost_decrypt_block cur (slice (i * 8) 8 imit_MeshingKey)) [0..<4])
      in c\<lparr>mac_x := map (\<lambda>i. le_word (slice (i * 4) 4 newKey)) [0..<8]\<rparr>)"

text \<open>The closure \<^verbatim>\<open>process\<close> and the variables it captures: cipher, MAC state, byte count.\<close>

definition imit_process :: "bytes \<Rightarrow> mac_cipher \<times> bytes \<times> nat \<Rightarrow> mac_cipher \<times> bytes \<times> nat" where
  "imit_process blk = (\<lambda>(c, state, count).
     let c = (if count = 1024 then imit_mesh c else c)
     in (c, imit_macBlock c state blk, count mod 1024 + 8))"

text \<open>The loop over all blocks but the last: it stops with one to eight bytes left.\<close>

function imit_blocks :: "bytes \<Rightarrow> mac_cipher \<times> bytes \<times> nat \<Rightarrow> bytes \<times> mac_cipher \<times> bytes \<times> nat" where
  "imit_blocks msg st =
     (if length msg > 8 then imit_blocks (drop 8 msg) (imit_process (take 8 msg) st) else (msg, st))"
  by pat_completeness auto
termination
  by (relation "measure (\<lambda>(msg, st). length msg)") auto

declare imit_blocks.simps [simp del]

definition imit :: "bytes \<Rightarrow> bytes \<Rightarrow> SBox \<Rightarrow> bytes" where
  "imit key msg sbox =
     (let st = (newMACCipher key sbox, replicate 8 0, 0) in
      if length msg > 0
      then let (rem, st) = imit_blocks msg st;
               blk = copy_into 8 rem;
               dataCountWasZero = (snd (snd st) = 0);
               st = imit_process blk st;
               st = (if dataCountWasZero then imit_process (replicate 8 0) st else st)
           in copy_into 8 (fst (snd st))
      else copy_into 8 (fst (snd st)))"

definition SeqMACBlock :: "bytes \<Rightarrow> SBox \<Rightarrow> bytes \<Rightarrow> bytes res" where
  "SeqMACBlock key sbox blk =
     (if length key \<noteq> 32 then Inl (Panic ''gost28147imit: SeqMACBlock: key must be 32 bytes'')
      else if length blk \<noteq> 8 then Inl (Panic ''gost28147imit: SeqMACBlock: block must be 8 bytes'')
      else Inr (imit_macBlock (newMACCipher key sbox) (replicate 8 0) blk))"

definition IMIT_tag :: "bytes \<Rightarrow> bytes \<Rightarrow> bytes res" where
  "IMIT_tag key msg =
     (if length key \<noteq> 32 then Inl (Panic ''gost28147imit: bad key size'')
      else if length msg = 0 then Inl (Panic ''gost28147imit: empty message'')
      else Inr (take 4 (imit key msg SboxCryptoProA)))"

section \<open>The MAC step is the first sixteen rounds of encryption\<close>

lemma imit_t_gost: "imit_t c = gost_t (mac_sbox c)"
  by (simp add: fun_eq_iff imit_t_def gost_t_def)

lemma imit_f_gost: "imit_f c = gost_f (mac_sbox c)"
  by (simp add: fun_eq_iff imit_f_def gost_f_def imit_t_gost)

definition gost_of_mac :: "mac_cipher \<Rightarrow> gost_cipher" where
  "gost_of_mac c = \<lparr>gc_x = mac_x c, gc_sbox = mac_sbox c\<rparr>"

lemma gost_of_newMAC: "gost_of_mac (newMACCipher key sbox) = gost_cipher_of key sbox"
  by (simp add: gost_of_mac_def newMACCipher_def gost_cipher_of_def gost_subkeys_def mult.commute)

lemma take_seqEncrypt: "take 16 seqEncrypt = [0..<8] @ [0..<8]"
  by (simp add: seqEncrypt_def upt_rec)

lemma imit_rounds_gost: "imit_rounds c = gost_xcrypt (gost_of_mac c) (take 16 seqEncrypt)"
proof -
  define R where "R = (\<lambda>k (n1, n2). (imit_f c (n1 + mac_x c ! k) XOR n2, n1))"
  have "imit_rounds c p = fold R [0..<8] (fold R [0..<8] p)" for p
    unfolding imit_rounds_def R_def by (simp add: numeral_2_eq_2 del: upt_rec_numeral)
  moreover have "gost_xcrypt (gost_of_mac c) sq p = fold R sq p" for sq p
    by (simp add: gost_xcrypt_def R_def gost_of_mac_def imit_f_gost)
  ultimately show ?thesis
    unfolding take_seqEncrypt by (simp add: fun_eq_iff del: upt_rec_numeral)
qed

lemma length_imit_macBlock [simp, len_simps]: "length (imit_macBlock c s b) = 8"
  by (simp add: imit_macBlock_def Let_def split: prod.splits)

section \<open>Meshing is the meshing of the counter mode\<close>

lemma concat_words_subkeys:
  assumes "length xs = 8"
  shows "gost_subkeys (concat (map (\<lambda>i. word_le 4 (xs ! i :: u32)) [0..<8])) = xs"
proof (rule nth_equalityI)
  have *: "slice (4 * i) 4 (concat (map (\<lambda>i. word_le 4 (xs ! i)) [0..<n])) = word_le 4 (xs ! i)"
    if "i < n" for i n
    using that
  proof (induction n)
    case (Suc n)
    have len: "length (concat (map (\<lambda>i. word_le 4 (xs ! i)) [0..<n])) = 4 * n"
      by (intro length_concat_upt) simp
    show ?case
    proof (cases "i = n")
      case True
      then show ?thesis using len by (simp add: slice_def)
    next
      case False
      then have "4 * i + 4 \<le> 4 * n" using Suc.prems by simp
      then show ?thesis using Suc False len by (simp add: slice_append_left)
    qed
  qed simp
  fix i assume "i < length (gost_subkeys (concat (map (\<lambda>i. word_le 4 (xs ! i)) [0..<8])))"
  then have "i < 8" by simp
  then show "gost_subkeys (concat (map (\<lambda>i. word_le 4 (xs ! i)) [0..<8])) ! i = xs ! i"
    using * [of i 8] by (simp add: gost_subkeys_def del: upt_rec_numeral)
qed (simp add: assms del: upt_rec_numeral)

definition mac_wf :: "mac_cipher \<Rightarrow> bool" where
  "mac_wf c \<longleftrightarrow> length (mac_x c) = 8"

lemma imit_mesh_cnt:
  assumes "mac_wf c"
  shows "gost_of_mac (imit_mesh c) = gost_cipher_of (cnt_newKey (gost_of_mac c)) (mac_sbox c)"
    and "mac_wf (imit_mesh c)"
proof -
  have "gost_cipher_of (imit_keyBytes c) (mac_sbox c) = gost_of_mac c"
    using assms by (simp add: gost_cipher_of_def gost_of_mac_def imit_keyBytes_def concat_words_subkeys
        mac_wf_def del: upt_rec_numeral)
  moreover have "imit_MeshingKey = cnt_MeshingKey"
    by (simp add: imit_MeshingKey_def cnt_MeshingKey_def)
  ultimately show "gost_of_mac (imit_mesh c) = gost_cipher_of (cnt_newKey (gost_of_mac c)) (mac_sbox c)"
    by (simp add: imit_mesh_def cnt_newKey_def Let_def gost_of_mac_def [of "_\<lparr>mac_x := _\<rparr>"]
        gost_cipher_of_def gost_subkeys_def mult.commute del: upt_rec_numeral)
  show "mac_wf (imit_mesh c)" by (simp add: mac_wf_def imit_mesh_def Let_def)
qed

section \<open>The loop against the one-pass specification\<close>

text \<open>
  The reference: the message padded with zeros to whole blocks, and to two blocks when it has
  one; block \<open>i\<close> is processed after one meshing for each full kilobyte before it.
\<close>

definition imit_padded :: "bytes \<Rightarrow> bytes" where
  "imit_padded msg =
     (let p = msg @ replicate ((8 - length msg mod 8) mod 8) 0
      in if length p = 8 then p @ replicate 8 0 else p)"

definition imit_key_at :: "mac_cipher \<Rightarrow> nat \<Rightarrow> mac_cipher" where
  "imit_key_at c i = (imit_mesh ^^ (i div 128)) c"

definition imit_spec :: "bytes \<Rightarrow> bytes \<Rightarrow> SBox \<Rightarrow> bytes" where
  "imit_spec key msg sbox =
     (let p = imit_padded msg; c = newMACCipher key sbox
      in fold (\<lambda>i s. imit_macBlock (imit_key_at c i) s (slice (8 * i) 8 p)) [0..<length p div 8] (replicate 8 0))"

lemma imit_blocks_run:
  "imit_blocks msg st =
    (drop (8 * ((length msg - 1) div 8)) msg,
     fold (\<lambda>i. imit_process (slice (8 * i) 8 msg)) [0..<(length msg - 1) div 8] st)"
proof (induction "(length msg - 1) div 8" arbitrary: msg st)
  case 0
  then have "\<not> 8 < length msg" by (auto simp: div_eq_0_iff)
  then show ?case using 0 by (subst imit_blocks.simps) simp
next
  case (Suc k)
  then have len: "8 < length msg" and k: "k = (length (drop 8 msg) - 1) div 8"
    by (cases "8 < length msg"; simp add: div_eq_0_iff; linarith)+
  have "imit_blocks msg st = imit_blocks (drop 8 msg) (imit_process (take 8 msg) st)"
    using len by (subst imit_blocks.simps) simp
  also have "\<dots> = (drop (8 * k) (drop 8 msg),
      fold (\<lambda>i. imit_process (slice (8 * i) 8 (drop 8 msg))) [0..<k] (imit_process (take 8 msg) st))"
    using Suc.hyps(1) [OF k] by (simp only: k [symmetric])
  also have "fold (\<lambda>i. imit_process (slice (8 * i) 8 (drop 8 msg))) [0..<k] (imit_process (take 8 msg) st) =
      fold (\<lambda>i. imit_process (slice (8 * i) 8 msg)) [0..<Suc k] st"
  proof -
    have "fold (\<lambda>i. imit_process (slice (8 * i) 8 msg)) (map Suc [0..<k]) st' =
        fold (\<lambda>i. imit_process (slice (8 * i) 8 (drop 8 msg))) [0..<k] st'" for st'
      by (simp add: fold_map o_def slice_def drop_drop add.commute)
    then show ?thesis
      by (simp add: upt_conv_Cons map_Suc_upt [symmetric] slice_def del: upt_Suc map_Suc_upt)
  qed
  finally show ?case
    by (simp only: Suc.hyps(2) [symmetric]) (simp add: drop_drop add.commute)
qed

text \<open>The captured variables after \<open>n\<close> blocks.\<close>

definition imit_after :: "mac_cipher \<Rightarrow> bytes \<Rightarrow> nat \<Rightarrow> mac_cipher \<times> bytes \<times> nat" where
  "imit_after c p n =
     (imit_key_at c (n - 1),
      fold (\<lambda>i s. imit_macBlock (imit_key_at c i) s (slice (8 * i) 8 p)) [0..<n] (replicate 8 0),
      if n = 0 then 0 else 8 * ((n - 1) mod 128) + 8)"

lemma imit_after_Suc:
  "imit_process (slice (8 * n) 8 p) (imit_after c p n) = imit_after c p (Suc n)"
proof (cases n)
  case 0
  then show ?thesis by (simp add: imit_process_def imit_after_def imit_key_at_def)
next
  case (Suc m)
  have m: "m mod 128 < 128" by simp
  have wrap: "8 * (m mod 128) + 8 = 1024 \<longleftrightarrow> m mod 128 = 127" by auto
  have key: "m mod 128 = 127 \<Longrightarrow> imit_mesh (imit_key_at c m) = imit_key_at c (Suc m)"
    "m mod 128 \<noteq> 127 \<Longrightarrow> imit_key_at c (Suc m) = imit_key_at c m"
    by (simp_all add: imit_key_at_def div_Suc mod_Suc)
  have count: "(8 * (m mod 128) + 8) mod 1024 + 8 = 8 * (Suc m mod 128) + 8"
    using m by (auto simp: mod_Suc)
  show ?thesis
    unfolding imit_after_def imit_process_def
    by (cases "m mod 128 = 127") (simp_all add: Suc wrap key count [simplified] mod_Suc Let_def)
qed

lemma imit_after_run:
  "fold (\<lambda>i. imit_process (slice (8 * i) 8 p)) [0..<n] (c, replicate 8 0, 0) = imit_after c p n"
proof (induction n)
  case 0
  show ?case by (simp add: imit_after_def imit_key_at_def)
next
  case (Suc n)
  then show ?case by (simp add: imit_after_Suc)
qed

lemma imit_padded_blocks:
  assumes "msg \<noteq> []"
  defines "k \<equiv> (length msg - 1) div 8"
  shows "length (imit_padded msg) = (if k = 0 then 16 else 8 * Suc k)"
    and "i < k \<Longrightarrow> slice (8 * i) 8 (imit_padded msg) = slice (8 * i) 8 msg"
    and "slice (8 * k) 8 (imit_padded msg) = copy_into 8 (drop (8 * k) msg)"
    and "k = 0 \<Longrightarrow> slice 8 8 (imit_padded msg) = replicate 8 0"
proof -
  obtain r where r: "length msg = 8 * k + Suc r" "r < 8"
  proof
    have "0 < length msg" using assms(1) by simp
    then show "length msg = 8 * k + Suc ((length msg - 1) mod 8)" "(length msg - 1) mod 8 < 8"
      using mult_div_mod_eq [of 8 "length msg - 1"] unfolding k_def by simp_all
  qed
  define z where "z = (8 - length msg mod 8) mod 8"
  have "length msg mod 8 = Suc r mod 8"
    by (simp only: r(1) mod_mult_self4)
  then have z: "z = 7 - r"
    using r(2) by (cases "r = 7") (simp_all add: z_def)
  define p where "p = msg @ replicate z (0 :: byte)"
  have p: "length p = 8 * Suc k" using r z by (simp add: p_def)
  have pad: "imit_padded msg = (if k = 0 then p @ replicate 8 0 else p)"
    using p by (simp add: imit_padded_def Let_def z_def p_def)
  show "length (imit_padded msg) = (if k = 0 then 16 else 8 * Suc k)"
    using p by (simp add: pad)
  show "slice (8 * i) 8 (imit_padded msg) = slice (8 * i) 8 msg" if "i < k"
    using that r by (simp add: pad p_def slice_append_left)
  have "slice (8 * k) 8 p = drop (8 * k) msg @ replicate z 0"
    using r z by (simp add: slice_def p_def)
  also have "\<dots> = copy_into 8 (drop (8 * k) msg)"
    using r z by (simp add: copy_into_def)
  finally have "slice (8 * k) 8 p = copy_into 8 (drop (8 * k) msg)" .
  moreover have "slice (8 * k) 8 (imit_padded msg) = slice (8 * k) 8 p"
    using p by (simp add: pad slice_append_left)
  ultimately show "slice (8 * k) 8 (imit_padded msg) = copy_into 8 (drop (8 * k) msg)"
    by (rule trans [rotated])
  show "slice 8 8 (imit_padded msg) = replicate 8 0" if "k = 0"
    using that p slice_append_right [of p 8 "replicate 8 0"] by (simp add: pad)
qed

lemma imit_refines_spec:
  assumes "msg \<noteq> []"
  shows "imit key msg sbox = imit_spec key msg sbox"
proof -
  define c k p where "c = newMACCipher key sbox" and "k = (length msg - 1) div 8" and "p = imit_padded msg"
  note pad = imit_padded_blocks [OF assms, folded k_def p_def]
  have run: "imit_blocks msg (c, replicate 8 0, 0) = (drop (8 * k) msg, imit_after c p k)"
  proof -
    have "fold (\<lambda>i. imit_process (slice (8 * i) 8 msg)) [0..<k] (c, replicate 8 0, 0) =
        fold (\<lambda>i. imit_process (slice (8 * i) 8 p)) [0..<k] (c, replicate 8 0, 0)"
      by (rule fold_cong) (auto simp: pad(2))
    then have "imit_after c msg k = imit_after c p k"
      by (simp only: imit_after_run)
    then show ?thesis
      by (simp only: imit_blocks_run flip: k_def) (simp only: imit_after_run)
  qed
  have zero: "snd (snd (imit_after c p k)) = 0 \<longleftrightarrow> k = 0"
    by (simp add: imit_after_def)
  have last: "imit_process (copy_into 8 (drop (8 * k) msg)) (imit_after c p k) = imit_after c p (Suc k)"
    using imit_after_Suc [of k p c] by (simp only: pad(3))
  have extra: "k = 0 \<Longrightarrow> imit_process (replicate 8 0) (imit_after c p (Suc k)) = imit_after c p 2"
    using imit_after_Suc [of 1 p c] pad(4) by (simp add: numeral_2_eq_2)
  have st: "length (fst (snd (imit_after c p (Suc n)))) = 8" for n
    by (simp add: imit_after_def)
  have spec: "imit_spec key msg sbox = fst (snd (imit_after c p (length p div 8)))"
    by (simp add: imit_spec_def imit_after_def Let_def c_def p_def)
  have "imit key msg sbox =
      copy_into 8 (fst (snd (if k = 0 then imit_after c p 2 else imit_after c p (Suc k))))"
    using assms extra unfolding imit_def Let_def c_def [symmetric] run split_conv last zero by simp
  also have "\<dots> = fst (snd (imit_after c p (length p div 8)))"
    using st [of 1] st [of k] pad(1) by (simp add: numeral_2_eq_2)
  finally show ?thesis using spec by simp
qed

section \<open>Properties\<close>

text \<open>
  C29. The imitovstavka is the 16-round CBC-MAC of the zero-padded message, a single block
  extended by a zero block, meshed after every 1024 bytes, cut to four bytes; the panics are
  those of the source.
\<close>

theorem IMIT_tag_spec:
  "IMIT_tag key msg =
     (if length key \<noteq> 32 then Inl (Panic ''gost28147imit: bad key size'')
      else if msg = [] then Inl (Panic ''gost28147imit: empty message'')
      else Inr (take 4 (imit_spec key msg SboxCryptoProA)))"
  by (simp add: IMIT_tag_def imit_refines_spec)

end
