(* ===== verification/KExp15.thy ===== *)
theory KExp15
  imports OMAC CTR_ACPKM
begin

text \<open>
  \<^verbatim>\<open>kexp15/kexp15.go\<close>: the key-export envelope, OMAC over \<open>IV || S\<close> and then CTR over
  \<open>S || MAC\<close>. The composition is the code's: the sibling packages' operations in its order.
\<close>

section \<open>Variants\<close>

text \<open>\<^verbatim>\<open>KexpVariant\<close> is an \<^verbatim>\<open>int\<close>: the two named values, and every other.\<close>

datatype KexpVariant = KexpKuznyechik | KexpMagma | KexpOther int

record kexp_params =
  kp_block :: nat
  kp_ivLen :: nat
  kp_macLen :: nat
  kp_newBlk :: "bytes \<Rightarrow> block_cipher res"

definition kexp_params_of :: "KexpVariant \<Rightarrow> kexp_params res" where
  "kexp_params_of v =
     (case v of
        KexpKuznyechik \<Rightarrow> Inr \<lparr>kp_block = 16, kp_ivLen = 8, kp_macLen = 16,
          kp_newBlk = (\<lambda>k. bind_res (kuz_NewCipher k) (\<lambda>c. Inr (kuz_block c)))\<rparr>
      | KexpMagma \<Rightarrow> Inr \<lparr>kp_block = 8, kp_ivLen = 4, kp_macLen = 8,
          kp_newBlk = (\<lambda>k. bind_res (magma_NewCipher k) (\<lambda>c. Inr (magma_block c)))\<rparr>
      | KexpOther _ \<Rightarrow> Inl (Err ''kexp15: unknown variant''))"

section \<open>The envelope\<close>

text \<open>\<open>None\<close> is a call that does not return (the write loop of OMAC); \<open>Kexp15_output\<close> excludes it.\<close>

definition Kexp15 :: "KexpVariant \<Rightarrow> bytes \<Rightarrow> bytes \<Rightarrow> bytes \<Rightarrow> bytes \<Rightarrow> bytes res option" where
  "Kexp15 variant sharedKey cipherKey macKey iv =
     (case kexp_params_of variant of
        Inl e \<Rightarrow> Some (Inl e)
      | Inr p \<Rightarrow>
        if length sharedKey < 1 then Some (Inl (Err ''kexp15: shared key must be non-empty''))
        else if length cipherKey \<noteq> 32 then Some (Inl (Err ''kexp15: key must be 32 bytes''))
        else if length macKey \<noteq> 32 then Some (Inl (Err ''kexp15: key must be 32 bytes''))
        else if length iv \<noteq> kp_ivLen p then Some (Inl (Err ''kexp15: bad iv length''))
        else
          (case kp_newBlk p macKey of
            Inl e \<Rightarrow> Some (Inl e)
          | Inr macBlock \<Rightarrow>
          (case omac_New macBlock (int (kp_macLen p)) of
            Inl e \<Rightarrow> Some (Inl e)
          | Inr m \<Rightarrow>
            Option.bind (omac_Write m iv) (\<lambda>(_, m).
            Option.bind (omac_Write m sharedKey) (\<lambda>(_, m).
              let cekMAC = omac_Sum m [];
                  plain = sharedKey @ cekMAC
              in case kp_newBlk p cipherKey of
                Inl e \<Rightarrow> Some (Inl e)
              | Inr ctrBlock \<Rightarrow>
              (case ctr_NewCTR ctrBlock (copy_into (kp_block p) iv) of
                Inl e \<Rightarrow> Some (Inl e)
              | Inr stream \<Rightarrow> Some (Inr (fst (ctr_stream stream plain)))))))))"

section \<open>The envelope is MAC-then-encrypt\<close>

definition kexp_blk :: "kexp_params \<Rightarrow> bytes \<Rightarrow> block_cipher" where
  "kexp_blk p k = (if kp_block p = 16 then kuz_block (kuz_cipher_of False k) else magma_block (magma_cipher_of k))"

definition kexp_ok :: "kexp_params \<Rightarrow> bool" where
  "kexp_ok p \<longleftrightarrow> (\<forall>k. length k = 32 \<longrightarrow> kp_newBlk p k = Inr (kexp_blk p k) \<and>
       ctr_cipher (kexp_blk p k) \<and> bsize (kexp_blk p k) = kp_block p) \<and>
     (kp_block p = 8 \<or> kp_block p = 16) \<and> kp_macLen p = kp_block p \<and> kp_ivLen p < kp_block p"

lemma kexp_params_ok: "kexp_params_of v = Inr p \<Longrightarrow> kexp_ok p"
  by (cases v)
    (auto simp: kexp_params_of_def kexp_ok_def kexp_blk_def kuz_NewCipher_def magma_NewCipher_def
      kuz_ctr.ctr_cipher_axioms magma_ctr.ctr_cipher_axioms kuz_block_def [of "kuz_cipher_of _ _"]
      magma_block_def [of "magma_cipher_of _"]
      intro: kuz_ctr.ctr_cipher_axioms [unfolded kuz_block_def] magma_ctr.ctr_cipher_axioms [unfolded magma_block_def])

definition kexp_rb :: "nat \<Rightarrow> byte" where
  "kexp_rb n = (if n = 16 then 0x87 else 0x1b)"

lemma omac_rb_kexp: "n = 8 \<or> n = 16 \<Longrightarrow> omac_rbForBlockSize n = Inr (kexp_rb n)"
  by (auto simp: omac_rbForBlockSize_def kexp_rb_def)

text \<open>The MAC of the envelope, by the one-shot CMAC.\<close>

definition kexp_mac :: "kexp_params \<Rightarrow> bytes \<Rightarrow> bytes \<Rightarrow> bytes \<Rightarrow> bytes" where
  "kexp_mac p macKey iv s =
     take (kp_macLen p) (cmac (kexp_blk p macKey) (kexp_rb (kp_block p)) (iv @ s))"

lemma ctr_fresh_out:
  assumes "ctr_cipher b" "ctr_NewCTR b iv = Inr c"
  shows "fst (ctr_stream c src) = xor_bytes src (gen ctr_next (length src) (ctr_view c))"
  by (rule ctr.xks_out [OF ctr_NewCTR_wf(1) [OF assms]])

lemma Kexp15_result:
  assumes p: "kexp_params_of v = Inr p" and args: "s \<noteq> []" "length ck = 32" "length mk = 32" "length iv = kp_ivLen p"
  shows "\<exists>c. ctr_NewCTR (kexp_blk p ck) (iv @ replicate (kp_block p - kp_ivLen p) 0) = Inr c \<and>
    Kexp15 v s ck mk iv = Some (Inr (fst (ctr_stream c (s @ kexp_mac p mk iv s))))"
proof -
  have ok: "kexp_ok p" using p by (rule kexp_params_ok)
  let ?b = "kexp_blk p mk"
  have b: "ctr_cipher ?b" "bsize ?b = kp_block p" and pb: "kp_block p = 8 \<or> kp_block p = 16"
    using ok args by (simp_all add: kexp_ok_def)
  have new: "kp_newBlk p mk = Inr ?b" "kp_newBlk p ck = Inr (kexp_blk p ck)"
    using ok args by (simp_all add: kexp_ok_def)
  have enc: "block_enc ?b" using b(1) by (rule ctr_cipher.axioms(1))
  have iv: "copy_into (kp_block p) iv = iv @ replicate (kp_block p - kp_ivLen p) 0"
    using ok args by (simp add: copy_into_def kexp_ok_def)
  obtain k1 k2 where "omac_cmacSubkeys ?b (kexp_rb (kp_block p)) = (k1, k2)" by fastforce
  then obtain m where m: "omac_New ?b (int (kp_macLen p)) = Inr m"
    using pb ok b(2) by (auto simp: omac_New_def omac_rb_kexp kexp_ok_def Let_def)
  have "\<exists>rb o1. omac_rbForBlockSize (bsize ?b) = Inr rb \<and> omac_Writes m [iv, s] = Some o1 \<and>
      omac_Sum o1 [] = [] @ take (nat (int (kp_macLen p))) (cmac ?b rb (concat [iv, s]))"
    by (rule omac_session [OF enc m])
  then obtain o1 where o1: "omac_Writes m [iv, s] = Some o1" "omac_Sum o1 [] = kexp_mac p mk iv s"
    using b(2) omac_rb_kexp [OF pb] by (auto simp: kexp_mac_def)
  obtain m1 m2 n1 n2 where w: "omac_Write m iv = Some (n1, m1)" "omac_Write m1 s = Some (n2, m2)" "m2 = o1"
    using o1(1) by (auto simp: omac_Writes_def split: bind_splits)
  have "length (iv @ replicate (kp_block p - kp_ivLen p) (0 :: byte)) = bsize (kexp_blk p ck)"
    using ok args by (simp add: kexp_ok_def)
  then obtain c where c: "ctr_NewCTR (kexp_blk p ck) (iv @ replicate (kp_block p - kp_ivLen p) 0) = Inr c"
    by (simp add: ctr_NewCTR_def Let_def)
  have "Kexp15 v s ck mk iv = Some (Inr (fst (ctr_stream c (s @ kexp_mac p mk iv s))))"
    using args new by (simp add: Kexp15_def p iv m w o1 c Let_def)
  with c show ?thesis by blast
qed

text \<open>The receiver's side: decrypting the envelope with the same key and IV gives back both parts.\<close>

lemma Kexp15_recover:
  assumes v: "kexp_params_of v = Inr p" and k: "Kexp15 v s ck mk iv = Some (Inr out)"
    and c: "ctr_NewCTR (kexp_blk p ck) (copy_into (kp_block p) iv) = Inr c"
  shows "fst (ctr_stream c out) = s @ kexp_mac p mk iv s" "length out = length s + kp_macLen p"
proof -
  have args: "s \<noteq> []" "length ck = 32" "length mk = 32" "length iv = kp_ivLen p"
    using k by (auto simp: Kexp15_def v split: if_splits)
  have ok: "kexp_ok p" using v by (rule kexp_params_ok)
  have iv: "copy_into (kp_block p) iv = iv @ replicate (kp_block p - kp_ivLen p) 0"
    using ok args by (simp add: copy_into_def kexp_ok_def)
  have out: "out = fst (ctr_stream c (s @ kexp_mac p mk iv s))"
    using Kexp15_result [OF v args] c k by (auto simp: iv)
  have b: "ctr_cipher (kexp_blk p ck)" using ok args by (simp add: kexp_ok_def)
  have wf: "ctr_wf c" by (rule ctr_NewCTR_wf(1) [OF b c])
  show "fst (ctr_stream c out) = s @ kexp_mac p mk iv s"
    unfolding out by (rule ctr.xks_involution [OF wf wf refl])
  have mb: "block_enc (kexp_blk p mk)" "bsize (kexp_blk p mk) = kp_block p"
    using ok args ctr_cipher.axioms(1) by (auto simp: kexp_ok_def)
  have "length (cmac (kexp_blk p mk) (kexp_rb (kp_block p)) (iv @ s)) = kp_block p"
    using length_cmac [OF mb(1)] mb(2) by simp
  then show "length out = length s + kp_macLen p"
    using ctr.xks_length [OF wf] ok by (simp add: out kexp_mac_def kexp_ok_def)
qed

section \<open>The envelope\<close>

text \<open>The specification: key and CMAC, masked with the encrypted big-endian counters.\<close>

definition kexp_envelope :: "kexp_params \<Rightarrow> bytes \<Rightarrow> bytes \<Rightarrow> bytes \<Rightarrow> bytes \<Rightarrow> bytes" where
  "kexp_envelope p s ck mk iv =
     xor_bytes (s @ kexp_mac p mk iv s)
       (concat (map (\<lambda>j. enc (kexp_blk p ck) ((inc_be ^^ j) (iv @ replicate (kp_block p - kp_ivLen p) 0)))
         [0..<(length s + 2 * kp_block p - 1) div kp_block p]))"

lemma Kexp15_envelope:
  assumes "kexp_params_of v = Inr p" "s \<noteq> []" "length ck = 32" "length mk = 32" "length iv = kp_ivLen p"
  shows "Kexp15 v s ck mk iv = Some (Inr (kexp_envelope p s ck mk iv))"
proof -
  obtain c where c: "ctr_NewCTR (kexp_blk p ck) (iv @ replicate (kp_block p - kp_ivLen p) 0) = Inr c"
    and out: "Kexp15 v s ck mk iv = Some (Inr (fst (ctr_stream c (s @ kexp_mac p mk iv s))))"
    using Kexp15_result [OF assms] by blast
  have ok: "ctr_cipher (kexp_blk p ck)" "bsize (kexp_blk p ck) = kp_block p" "block_enc (kexp_blk p mk)"
      "bsize (kexp_blk p mk) = kp_block p" "kp_macLen p = kp_block p"
    using kexp_params_ok [OF assms(1)] assms(3,4) by (auto simp: kexp_ok_def intro: ctr_cipher.axioms(1))
  have "length (s @ kexp_mac p mk iv s) = length s + kp_block p"
    using ok by (simp add: kexp_mac_def length_cmac)
  moreover note ctr_stream_closed [OF ctr_NewCTR_wf(1-3) [OF ok(1) c], of "s @ kexp_mac p mk iv s"]
  moreover note ctr_NewCTR_wf [OF ok(1) c]
  moreover have "ct_newBlock c = None" using c by (auto simp: ctr_NewCTR_def Let_def split: if_splits)
  moreover have "acpkm_block None b iv 0 = (\<lambda>j. enc b ((inc_be ^^ j) iv))" for b iv
    by (simp add: fun_eq_iff acpkm_block_def)
  ultimately show ?thesis
    using out ok by (simp add: kexp_envelope_def mult_2 add.assoc)
qed

lemma Kexp15_exact:
  "Kexp15 v s ck mk iv = Some (case kexp_params_of v of
         Inl e \<Rightarrow> Inl (Err ''kexp15: unknown variant'')
       | Inr p \<Rightarrow>
           if s = [] then Inl (Err ''kexp15: shared key must be non-empty'')
           else if length ck = 32 \<and> length mk = 32 then
             if length iv = kp_ivLen p then Inr (kexp_envelope p s ck mk iv)
             else Inl (Err ''kexp15: bad iv length'')
           else Inl (Err ''kexp15: key must be 32 bytes''))"
proof (cases "kexp_params_of v")
  case (Inl e)
  then show ?thesis by (cases v) (auto simp: Kexp15_def kexp_params_of_def)
next
  case p: (Inr p)
  show ?thesis
  proof (cases "s \<noteq> [] \<and> length ck = 32 \<and> length mk = 32 \<and> length iv = kp_ivLen p")
    case True
    then show ?thesis using Kexp15_envelope [OF p] p by simp
  next
    case False
    then show ?thesis by (auto simp: Kexp15_def p Suc_le_eq)
  qed
qed

lemma Kexp15_returns: "\<exists>r. Kexp15 v s ck mk iv = Some r \<and> no_panic r"
  unfolding Kexp15_exact by (simp split: sum.split)

section \<open>Properties\<close>

text \<open>
  C28. Every call of Kexp15 returns (the write loop of its MAC ends for every input), never
  panics, and its result is determined: an unknown variant, an empty key to export, a cipher
  or MAC key of other than 32 bytes and an IV of another length than the variant's give the
  error of that check, in this order, although the cipher constructors and the CTR
  constructor below would panic on these arguments; every other call gives the envelope: the
  shared key and its CMAC over IV and key, masked with the CTR keystream of the cipher key from
  the zero-extended IV.
\<close>

theorem Kexp15_output:
  "\<exists>r. Kexp15 v s ck mk iv = Some r \<and> no_panic r \<and>
     r = (case kexp_params_of v of
         Inl e \<Rightarrow> Inl (Err ''kexp15: unknown variant'')
       | Inr p \<Rightarrow>
           if s = [] then Inl (Err ''kexp15: shared key must be non-empty'')
           else if length ck = 32 \<and> length mk = 32 then
             if length iv = kp_ivLen p then Inr (kexp_envelope p s ck mk iv)
             else Inl (Err ''kexp15: bad iv length'')
           else Inl (Err ''kexp15: key must be 32 bytes''))"
  using Kexp15_exact [of v s ck mk iv] Kexp15_returns [of v s ck mk iv] by simp

theorem Kexp15_output_witness:
  "(\<exists>p out. kexp_params_of KexpMagma = Inr p \<and> out = kexp_envelope p [1, 2, 3] (replicate 32 4) (replicate 32 5) [6, 7, 8, 9] \<and>
     Kexp15 KexpMagma [1, 2, 3] (replicate 32 4) (replicate 32 5) [6, 7, 8, 9] = Some (Inr out)) \<and>
   Kexp15 KexpMagma [1, 2, 3] (replicate 31 4) (replicate 32 5) [6, 7, 8, 9] =
     Some (Inl (Err ''kexp15: key must be 32 bytes''))"
  using Kexp15_output [of KexpMagma "[1, 2, 3]" "replicate 32 4" "replicate 32 5" "[6, 7, 8, 9]"]
    Kexp15_output [of KexpMagma "[1, 2, 3]" "replicate 31 4" "replicate 32 5" "[6, 7, 8, 9]"]
  by (auto simp: kexp_params_of_def)

end
