(* ===== verification/KeyWrap.thy ===== *)
theory KeyWrap
  imports IMIT
begin

text \<open>
  \<^verbatim>\<open>keywrap/keywrap.go\<close>: the CryptoPro key wrap of RFC 4357: KEK diversification, ECB
  encryption of the session key, and the MAC under the UKM. The package has its own
  copy of the MAC step; it is shown to be the step of \<^verbatim>\<open>gost28147imit\<close>.
\<close>

section \<open>Operations\<close>

definition kw_t :: "SBox \<Rightarrow> u32 \<Rightarrow> u32" where
  "kw_t sbox x =
     fold (\<lambda>i out. out OR push_bit (4 * i) (ucast (sbox ! i ! unat (drop_bit (4 * i) x AND 0xF))))
       [0..<8] 0"

definition kw_macRound :: "SBox \<Rightarrow> u32 list \<Rightarrow> nat \<Rightarrow> u32 \<times> u32 \<Rightarrow> u32 \<times> u32" where
  "kw_macRound sbox x k = (\<lambda>(n1, n2).
     let y = kw_t sbox (n1 + x ! k); y = push_bit 11 y OR drop_bit (32 - 11) y in (y XOR n2, n1))"

definition kw_macStep :: "SBox \<Rightarrow> u32 list \<Rightarrow> bytes \<Rightarrow> bytes" where
  "kw_macStep sbox x state =
     (let (n1, n2) = fold (\<lambda>_ p. fold (kw_macRound sbox x) [0..<8] p) [0..<2]
            (le_word (slice 0 4 state), le_word (slice 4 4 state))
      in word_le 4 n1 @ word_le 4 n2)"

definition kw_imit4 :: "SBox \<Rightarrow> bytes \<Rightarrow> bytes \<Rightarrow> bytes \<Rightarrow> bytes" where
  "kw_imit4 sbox macKey iv msg =
     (let x = map (\<lambda>i. le_word (slice (i * 4) 4 macKey)) [0..<8];
          state = copy_into 8 iv;
          state = fold (\<lambda>i state. kw_macStep sbox x (xor_bytes state (slice (8 * i) 8 msg)))
                    [0..<length msg div 8] state
      in take 4 state)"

definition kw_cfbEncrypt :: "SBox \<Rightarrow> bytes \<Rightarrow> bytes \<Rightarrow> bytes \<Rightarrow> bytes" where
  "kw_cfbEncrypt sbox cipherKey iv src =
     (let c = gost_cipher_of cipherKey sbox;
          (_, out) = fold (\<lambda>i (feedback, out).
             let gamma = gost_encrypt_block c feedback;
                 ct = xor_bytes (slice (8 * i) 8 src) gamma
             in (ct, out @ ct)) [0..<length src div 8] (copy_into 8 iv, [])
      in out)"

definition kw_sums :: "bytes \<Rightarrow> byte \<Rightarrow> u32 \<times> u32" where
  "kw_sums key u =
     fold (\<lambda>j (s1, s2). let w = le_word (slice (j * 4) 4 key)
        in if u AND push_bit j 1 \<noteq> 0 then (s1 + w, s2) else (s1, s2 + w)) [0..<8] (0, 0)"

definition kw_diversify :: "SBox \<Rightarrow> bytes \<Rightarrow> bytes \<Rightarrow> bytes" where
  "kw_diversify sbox kek ukm =
     fold (\<lambda>i key. let (s1, s2) = kw_sums key (ukm ! i); iv = word_le 4 s1 @ word_le 4 s2
        in kw_cfbEncrypt sbox key iv key) [0..<8] (copy_into 32 kek)"

definition kw_Diversify :: "SBox \<Rightarrow> bytes \<Rightarrow> bytes \<Rightarrow> bytes res" where
  "kw_Diversify sbox kek ukm =
     (if length kek \<noteq> 32 then Inl (Panic ''keywrap: kek must be 32 bytes'')
      else if length ukm \<noteq> 8 then Inl (Panic ''keywrap: ukm must be 8 bytes'')
      else Inr (kw_diversify sbox kek ukm))"

definition KeyWrapCryptoPro :: "SBox \<Rightarrow> bytes \<Rightarrow> bytes \<Rightarrow> bytes \<Rightarrow> bytes res" where
  "KeyWrapCryptoPro sbox kek ukm sessionKey =
     (if length kek \<noteq> 32 then Inl (Err ''keywrap: kek has wrong length'')
      else if length ukm \<noteq> 8 then Inl (Err ''keywrap: ukm has wrong length'')
      else if length sessionKey \<noteq> 32 then Inl (Err ''keywrap: sessionKey has wrong length'')
      else
        let kekUKM = kw_diversify sbox kek ukm;
            c = gost_cipher_of kekUKM sbox;
            encd = concat (map (\<lambda>i. gost_encrypt_block c (slice (8 * i) 8 sessionKey)) [0..<4]);
            mac = kw_imit4 sbox kekUKM ukm sessionKey
        in Inr (ukm @ encd @ mac))"

section \<open>Lengths\<close>

lemma length_kw_macStep [simp, len_simps]: "length (kw_macStep sbox x s) = 8"
  by (simp add: kw_macStep_def split: prod.splits)

lemma fold_snd_length:
  assumes "\<And>i p. i \<in> set js \<Longrightarrow> length (snd (F i p)) = length (snd p) + m"
  shows "length (snd (fold F js p)) = length (snd p) + m * length js"
  using assms by (induction js arbitrary: p) simp_all

lemma length_kw_cfbEncrypt [len_simps]:
  assumes "length src mod 8 = 0"
  shows "length (kw_cfbEncrypt sbox key iv src) = length src"
proof -
  let ?F = "\<lambda>i (feedback, out).
     let gamma = gost_encrypt_block (gost_cipher_of key sbox) feedback;
         ct = xor_bytes (slice (8 * i) 8 src) gamma
     in (ct, out @ ct)"
  have "length (snd (fold ?F [0..<length src div 8] (copy_into 8 iv, []))) = 0 + 8 * length [0..<length src div 8]"
    by (subst fold_snd_length [where m = 8]) (auto simp: Let_def)
  then show ?thesis
    using assms by (auto simp: kw_cfbEncrypt_def Let_def case_prod_beta)
qed

lemma length_kw_diversify [simp, len_simps]: "length (kw_diversify sbox kek ukm) = 32"
proof -
  have "length (fold (\<lambda>i key. let (s1, s2) = kw_sums key (ukm ! i); iv = word_le 4 s1 @ word_le 4 s2
        in kw_cfbEncrypt sbox key iv key) js key) = 32" if "length key = 32" for js key
    using that by (induction js arbitrary: key) (simp_all add: Let_def case_prod_beta length_kw_cfbEncrypt)
  then show ?thesis by (simp add: kw_diversify_def del: upt_rec_numeral)
qed

lemma kw_imit4_length [simp]: "length (kw_imit4 sbox k iv msg) = 4"
proof -
  have "length (fold (\<lambda>i state. kw_macStep sbox x (xor_bytes state (slice (8 * i) 8 msg))) js s) = 8"
    if "length s = 8" for x js s
    using that by (induction js arbitrary: s) simp_all
  then show ?thesis by (simp add: kw_imit4_def Let_def)
qed

section \<open>Unwrapping\<close>

text \<open>What a receiver does with the blob: the UKM, the key diversified again, ECB decryption.\<close>

definition kw_unwrap :: "SBox \<Rightarrow> bytes \<Rightarrow> bytes \<Rightarrow> bytes" where
  "kw_unwrap sbox kek blob =
     (let c = gost_cipher_of (kw_diversify sbox kek (take 8 blob)) sbox
      in concat (map (\<lambda>i. gost_decrypt_block c (slice (8 + 8 * i) 8 blob)) [0..<4]))"

lemma KeyWrap_parts:
  assumes "KeyWrapCryptoPro sbox kek ukm cek = Inr blob"
  defines "k \<equiv> kw_diversify sbox kek ukm"
  shows "length blob = 44" "take 8 blob = ukm" "drop 40 blob = kw_imit4 sbox k ukm cek"
    "kw_unwrap sbox kek blob = cek"
proof -
  define encd where "encd = concat (map (\<lambda>i. gost_encrypt_block (gost_cipher_of k sbox) (slice (8 * i) 8 cek)) [0..<4])"
  have len: "length ukm = 8" "length cek = 32" and blob: "blob = ukm @ encd @ kw_imit4 sbox k ukm cek"
    using assms by (auto simp: KeyWrapCryptoPro_def Let_def encd_def split: if_splits simp del: upt_rec_numeral)
  have encd: "length encd = 32"
    unfolding encd_def by (subst length_concat_upt [where m = 8]) simp_all
  show "length blob = 44" "take 8 blob = ukm" "drop 40 blob = kw_imit4 sbox k ukm cek"
    using len encd by (simp_all add: blob)
  have blk: "slice (8 + 8 * i) 8 blob = gost_encrypt_block (gost_cipher_of k sbox) (slice (8 * i) 8 cek)" if "i < 4" for i
  proof -
    have "slice (8 + 8 * i) 8 blob = slice (8 * i) 8 encd"
      using that len encd by (simp add: blob slice_def)
    also have "\<dots> = full_blocks 8 4 encd ! i"
      using that by (simp add: full_blocks_def del: upt_rec_numeral)
    also have "full_blocks 8 4 encd = map (\<lambda>i. gost_encrypt_block (gost_cipher_of k sbox) (slice (8 * i) 8 cek)) [0..<4]"
      unfolding encd_def by (rule full_blocks_concat) simp
    finally show ?thesis using that by (simp del: upt_rec_numeral)
  qed
  have "kw_unwrap sbox kek blob = concat (map (\<lambda>i. slice (8 * i) 8 cek) [0..<4])"
    unfolding kw_unwrap_def Let_def \<open>take 8 blob = ukm\<close> k_def [symmetric]
    by (intro arg_cong [where f = concat] map_cong refl) (simp add: blk gost_dec_enc len)
  also have "\<dots> = cek" using len by (intro concat_slices) simp
  finally show "kw_unwrap sbox kek blob = cek" .
qed

section \<open>The copied MAC step\<close>

lemma kw_t_gost: "kw_t = gost_t"
  by (simp add: fun_eq_iff kw_t_def gost_t_def)

lemma kw_macStep_imit:
  assumes "length (s :: bytes) = 8"
  shows "kw_macStep sbox x s = imit_macBlock \<lparr>mac_x = x, mac_sbox = sbox\<rparr> s (replicate 8 0)"
proof -
  have "kw_macRound sbox x = (\<lambda>k (n1, n2). (imit_f \<lparr>mac_x = x, mac_sbox = sbox\<rparr> (n1 + x ! k) XOR n2, n1))"
    by (simp add: fun_eq_iff kw_macRound_def Let_def imit_f_def imit_t_gost kw_t_gost)
  then show ?thesis
    using assms by (simp add: kw_macStep_def imit_macBlock_def imit_rounds_def xor_bytes_zero Let_def
        del: upt_rec_numeral)
qed

text \<open>With a zero IV the wrap's MAC is the truncated IMIT of \<^verbatim>\<open>gost28147imit\<close>.\<close>

lemma kw_imit4_imit:
  assumes "length msg = 32"
  shows "kw_imit4 sbox key (replicate 8 0) msg = take 4 (imit key msg sbox)"
proof -
  define c where "c = newMACCipher key sbox"
  have c: "c = \<lparr>mac_x = map (\<lambda>i. le_word (slice (i * 4) 4 key)) [0..<8], mac_sbox = sbox\<rparr>"
    by (simp add: c_def newMACCipher_def)
  have step: "kw_macStep sbox (map (\<lambda>i. le_word (slice (i * 4) 4 key)) [0..<8]) (xor_bytes s b) = imit_macBlock c s b"
    if "length s = 8" "length b = 8" for s b
    using that kw_macStep_imit [of "xor_bytes s b" sbox]
    by (simp add: c imit_macBlock_def xor_bytes_zero del: upt_rec_numeral)
  have p: "imit_padded msg = msg" using assms by (simp add: imit_padded_def)
  have key: "imit_key_at c i = c" if "i < 4" for i using that by (simp add: imit_key_at_def)
  have "length (fold (\<lambda>i s. imit_macBlock (imit_key_at c i) s (slice (8 * i) 8 msg)) [0..<n] (replicate 8 0)) = 8 \<and>
      fold (\<lambda>i s. kw_macStep sbox (map (\<lambda>i. le_word (slice (i * 4) 4 key)) [0..<8]) (xor_bytes s (slice (8 * i) 8 msg)))
        [0..<n] (replicate 8 0) =
      fold (\<lambda>i s. imit_macBlock (imit_key_at c i) s (slice (8 * i) 8 msg)) [0..<n] (replicate 8 0)"
    if "n \<le> 4" for n
    using that
  proof (induction n)
    case (Suc n)
    then show ?case
      using assms step [of _ "slice (8 * n) 8 msg"] by (simp add: key del: upt_rec_numeral)
  qed simp
  moreover have "msg \<noteq> []" using assms by auto
  ultimately show ?thesis
    using assms imit_refines_spec [of msg key sbox]
    by (auto simp: kw_imit4_def imit_spec_def Let_def p c_def dest: spec [of _ 4] simp del: upt_rec_numeral)
qed

section \<open>Properties\<close>

text \<open>
  C20. The CryptoPro key wrap: the blob has 44 bytes, starts with the UKM and ends with the
  MAC of the session key under the diversified key, and decrypting its middle recovers the
  session key.
\<close>

theorem KeyWrap_unwraps:
  assumes "KeyWrapCryptoPro sbox kek ukm cek = Inr blob"
  shows "length blob = 44 \<and> take 8 blob = ukm \<and> kw_unwrap sbox kek blob = cek \<and>
    drop 40 blob = kw_imit4 sbox (kw_diversify sbox kek ukm) ukm cek"
  using KeyWrap_parts [OF assms] by simp

theorem KeyWrap_unwraps_witness:
  "\<exists>blob. KeyWrapCryptoPro SboxCryptoProA (replicate 32 1) (replicate 8 2) (replicate 32 3) = Inr blob \<and>
     kw_unwrap SboxCryptoProA (replicate 32 1) blob = replicate 32 3"
  using KeyWrap_unwraps [of SboxCryptoProA "replicate 32 1" "replicate 8 2" "replicate 32 3"]
  by (simp add: KeyWrapCryptoPro_def Let_def)

text \<open>
  The MAC inside the key wrap, which is a copy of the code of gost28147imit, agrees with
  it on a session key and a zero start value.
\<close>

theorem kw_imit4_is_imit:
  assumes "length msg = 32"
  shows "kw_imit4 sbox key (replicate 8 0) msg = take 4 (imit key msg sbox)"
  by (rule kw_imit4_imit [OF assms])

theorem kw_imit4_is_imit_witness:
  "kw_imit4 SboxTC26Z (replicate 32 1) (replicate 8 0) (replicate 32 9) = take 4 (imit (replicate 32 1) (replicate 32 9) SboxTC26Z)"
  by (rule kw_imit4_is_imit) simp

end
