(* ===== verification/Facade.thy ===== *)
theory Facade
  imports KEG CTR_ACPKM OMAC CNT IMIT KExp15 KeyWrap
begin

text \<open>
  The facade: \<^verbatim>\<open>primitives.go\<close>, \<^verbatim>\<open>modes.go\<close> and \<^verbatim>\<open>exports.go\<close>. The opaque handles
  wrap one value, which stands for them here; methods that only forward are the forwarded
  operation. Randomness is a parameter: a reader state and what \<^verbatim>\<open>io.ReadFull\<close> and
  \<^verbatim>\<open>rand.Int\<close> make of it.
\<close>

section \<open>One-shots\<close>

definition gc_errUnsupportedCurveOID :: fault where
  "gc_errUnsupportedCurveOID = Err ''gost: unsupported curve OID''"

definition gc_CurveByOID :: "string \<Rightarrow> curve res" where
  "gc_CurveByOID oid =
     (case CurveByOID oid of Inl err \<Rightarrow> Inl gc_errUnsupportedCurveOID | Inr c \<Rightarrow> Inr c)"

definition gc_KuznyechikEncrypt :: "bytes \<Rightarrow> bytes \<Rightarrow> bytes res" where
  "gc_KuznyechikEncrypt key plaintext =
     (if length plaintext \<noteq> 16
      then Inl (Err ''gost: KuznyechikEncrypt/Decrypt: input must be exactly 16 bytes'')
      else bind_res (kuz_NewCipher key) (\<lambda>c. kuz_Encrypt c (replicate 16 0) plaintext))"

definition gc_KuznyechikDecrypt :: "bytes \<Rightarrow> bytes \<Rightarrow> bytes res" where
  "gc_KuznyechikDecrypt key ciphertext =
     (if length ciphertext \<noteq> 16
      then Inl (Err ''gost: KuznyechikEncrypt/Decrypt: input must be exactly 16 bytes'')
      else bind_res (kuz_NewCipher key) (\<lambda>c. kuz_Decrypt c (replicate 16 0) ciphertext))"

definition gc_MagmaEncrypt :: "bytes \<Rightarrow> bytes \<Rightarrow> bytes res" where
  "gc_MagmaEncrypt key plaintext =
     (if length plaintext \<noteq> 8
      then Inl (Err ''gost: MagmaEncrypt/Decrypt: input must be exactly 8 bytes'')
      else bind_res (magma_NewCipher key) (\<lambda>c. magma_Encrypt c (replicate 8 0) plaintext))"

definition gc_MagmaDecrypt :: "bytes \<Rightarrow> bytes \<Rightarrow> bytes res" where
  "gc_MagmaDecrypt key ciphertext =
     (if length ciphertext \<noteq> 8
      then Inl (Err ''gost: MagmaEncrypt/Decrypt: input must be exactly 8 bytes'')
      else bind_res (magma_NewCipher key) (\<lambda>c. magma_Decrypt c (replicate 8 0) ciphertext))"

definition gc_GOST2814789Encrypt :: "bytes \<Rightarrow> bytes \<Rightarrow> bytes res" where
  "gc_GOST2814789Encrypt key plaintext =
     (if length plaintext \<noteq> 8
      then Inl (Err ''gost: GOST2814789Encrypt/Decrypt: input must be exactly 8 bytes'')
      else bind_res (gost_NewCipher key SboxCryptoProA) (\<lambda>c. gost_Encrypt c (replicate 8 0) plaintext))"

definition gc_GOST2814789Decrypt :: "bytes \<Rightarrow> bytes \<Rightarrow> bytes res" where
  "gc_GOST2814789Decrypt key ciphertext =
     (if length ciphertext \<noteq> 8
      then Inl (Err ''gost: GOST2814789Encrypt/Decrypt: input must be exactly 8 bytes'')
      else bind_res (gost_NewCipher key SboxCryptoProA) (\<lambda>c. gost_Decrypt c (replicate 8 0) ciphertext))"

definition gc_Streebog256 :: "bytes \<Rightarrow> bytes" where
  "gc_Streebog256 msg = sb_Sum256 msg"

definition gc_Streebog512 :: "bytes \<Rightarrow> bytes" where
  "gc_Streebog512 msg = sb_Sum512 msg"

definition gc_GOSTR341194 :: "bytes \<Rightarrow> bytes" where
  "gc_GOSTR341194 msg = gh_Sum_bytes msg"

definition verifyOnCurve :: "curve \<Rightarrow> bytes \<Rightarrow> bytes \<Rightarrow> bytes \<Rightarrow> bool res" where
  "verifyOnCurve c pubRaw digest sig = Inr (VerifyDigest c pubRaw digest sig)"

definition VerifyDigestOnCurve :: "curve \<Rightarrow> bytes \<Rightarrow> bytes \<Rightarrow> bytes \<Rightarrow> bool res" where
  "VerifyDigestOnCurve curve pubRaw digest sig = verifyOnCurve curve pubRaw digest sig"

definition R342001Verify :: "bytes \<Rightarrow> bytes \<Rightarrow> bytes \<Rightarrow> bool res" where
  "R342001Verify pubRaw digest sig =
     bind_res (CurveByOID ''1.2.643.2.2.35.1'') (\<lambda>c. verifyOnCurve c pubRaw digest sig)"

definition VKO2001OnCurve :: "curve \<Rightarrow> bytes \<Rightarrow> bytes \<Rightarrow> bytes \<Rightarrow> bytes res" where
  "VKO2001OnCurve curve prvRaw pubRaw ukmRaw = KEK2001 curve prvRaw pubRaw ukmRaw"

definition VKO2001 :: "bytes \<Rightarrow> bytes \<Rightarrow> bytes \<Rightarrow> bytes res" where
  "VKO2001 prvRaw pubRaw ukmRaw =
     bind_res (CurveByOID ''1.2.643.2.2.35.1'') (\<lambda>c. VKO2001OnCurve c prvRaw pubRaw ukmRaw)"

definition gc_VKO2001TestCurve :: "bytes \<Rightarrow> bytes \<Rightarrow> bytes \<Rightarrow> bytes res" where
  "gc_VKO2001TestCurve prvRaw pubRaw ukmRaw = VKO2001TestCurve prvRaw pubRaw ukmRaw"

definition gc_VKO2012_256 :: "bytes \<Rightarrow> bytes \<Rightarrow> bytes \<Rightarrow> bytes res" where
  "gc_VKO2012_256 prvRaw pubRaw ukmRaw = VKO2012_256 prvRaw pubRaw ukmRaw"

definition VKO2012_256OnCurve :: "curve \<Rightarrow> bytes \<Rightarrow> bytes \<Rightarrow> bytes \<Rightarrow> bytes res" where
  "VKO2012_256OnCurve curve prvRaw pubRaw ukmRaw = KEK2012256 curve prvRaw pubRaw ukmRaw"

definition gc_VKO2012_512 :: "bytes \<Rightarrow> bytes \<Rightarrow> bytes \<Rightarrow> bytes res" where
  "gc_VKO2012_512 prvRaw pubRaw ukmRaw = VKO2012_512 prvRaw pubRaw ukmRaw"

section \<open>Modes\<close>

definition gc_NewCTR :: "block_cipher \<Rightarrow> bytes \<Rightarrow> ctr res" where
  "gc_NewCTR block iv =
     (if length iv \<noteq> bsize block then Inl (Err ''gost/ctr: iv length does not match block size'')
      else ctr_NewCTR block iv)"

definition gc_NewCTRACPKM :: "(bytes \<Rightarrow> block_cipher) \<Rightarrow> bytes \<Rightarrow> bytes \<Rightarrow> int \<Rightarrow> ctr res" where
  "gc_NewCTRACPKM newBlock key iv sectionSize =
     (if length key \<noteq> 32 then Inl (Err ''gost/ctr: ACPKM key length, want 32'')
      else let bs = bsize (newBlock key)
           in if length iv \<noteq> bs then Inl (Err ''gost/ctr: iv length does not match block size'')
              else if sectionSize < 0 then Inl (Err ''gost/ctr: negative sectionSize'')
              else if sectionSize \<noteq> 0 \<and> bs = 0 then Inl (Panic ''runtime error: integer divide by zero'')
              else if sectionSize \<noteq> 0 \<and> sectionSize mod int bs \<noteq> 0
              then Inl (Err ''gost/ctr: sectionSize not a multiple of block size'')
              else ctr_NewCTRACPKM (Some newBlock) key iv sectionSize)"

record gc_OMAC =
  go_inner :: omac
  go_block :: block_cipher
  go_tagSize :: int

definition gc_NewOMAC :: "block_cipher \<Rightarrow> int \<Rightarrow> gc_OMAC res" where
  "gc_NewOMAC block tagSize =
     (let bs = bsize block
      in if tagSize < 1 \<or> tagSize > int bs then Inl (Err ''gost: NewOMAC: tagSize out of range'')
         else bind_res (omac_New block tagSize) (\<lambda>inner.
                Inr \<lparr>go_inner = inner, go_block = block, go_tagSize = tagSize\<rparr>))"

definition gc_OMAC_Write :: "gc_OMAC \<Rightarrow> bytes \<Rightarrow> (nat \<times> gc_OMAC) option" where
  "gc_OMAC_Write h p = map_option (\<lambda>(n, inner). (n, h\<lparr>go_inner := inner\<rparr>)) (omac_Write (go_inner h) p)"

definition gc_OMAC_Sum :: "gc_OMAC \<Rightarrow> bytes \<Rightarrow> bytes" where
  "gc_OMAC_Sum h b = omac_Sum (go_inner h) b"

definition gc_OMAC_Reset :: "gc_OMAC \<Rightarrow> gc_OMAC res" where
  "gc_OMAC_Reset h = bind_res (omac_New (go_block h) (go_tagSize h)) (\<lambda>inner. Inr (h\<lparr>go_inner := inner\<rparr>))"

definition KDFTree2012_256 :: "bytes \<Rightarrow> bytes \<Rightarrow> bytes \<Rightarrow> int \<Rightarrow> bytes res" where
  "KDFTree2012_256 key label seed keyOutLen =
     (if keyOutLen \<le> 0 \<or> keyOutLen mod 32 \<noteq> 0
      then Inl (Panic ''gost.KDFTree2012_256: keyOutLen must be a positive multiple of 32'')
      else if keyOutLen > 0xFFFF div 8
      then Inl (Panic ''gost.KDFTree2012_256: keyOutLen too large for 2-byte length encoding'')
      else KDFTree256 key label seed 1 keyOutLen)"

definition gc_NewTLSTreeKuznyechikCTROMAC :: "bytes \<Rightarrow> tls_tree res" where
  "gc_NewTLSTreeKuznyechikCTROMAC masterKey =
     (if length masterKey \<noteq> 32 then Inl (Panic ''gost/tlstree: masterKey must be 32 bytes for KuznyechikCTROMAC'')
      else NewTLSTreeKuznyechikCTROMAC masterKey)"

definition gc_NewTLSTreeMagmaCTROMAC :: "bytes \<Rightarrow> tls_tree res" where
  "gc_NewTLSTreeMagmaCTROMAC masterKey =
     (if length masterKey \<noteq> 32 then Inl (Panic ''gost/tlstree: masterKey must be 32 bytes for MagmaCTROMAC'')
      else NewTLSTreeMagmaCTROMAC masterKey)"

definition gc_KEG2012_256 :: "curve \<Rightarrow> bytes \<Rightarrow> bytes \<Rightarrow> bytes \<Rightarrow> bytes res" where
  "gc_KEG2012_256 curve serverPubRaw clientPrivRaw ukmSource =
     (if length ukmSource \<noteq> 32 then Inl (Err ''gost.KEG2012_256: ukmSource must be 32 bytes'')
      else KEG2012_256 (Some curve) serverPubRaw clientPrivRaw ukmSource)"

definition gc_Kexp15 :: "KexpVariant \<Rightarrow> bytes \<Rightarrow> bytes \<Rightarrow> bytes \<Rightarrow> bytes \<Rightarrow> bytes res option" where
  "gc_Kexp15 variant sharedKey cipherKey macKey iv =
     (case variant of
        KexpKuznyechik \<Rightarrow> Kexp15 KexpKuznyechik sharedKey cipherKey macKey iv
      | KexpMagma \<Rightarrow> Kexp15 KexpMagma sharedKey cipherKey macKey iv
      | KexpOther v \<Rightarrow> Some (Inl (Err ''gost.Kexp15: unknown variant'')))"

definition NewGOST28147_CNT :: "bytes \<Rightarrow> bytes \<Rightarrow> cnt res" where
  "NewGOST28147_CNT key iv =
     (if length key \<noteq> 32 then Inl (Err ''gost: GOST28147_CNT key length'')
      else if length iv \<noteq> 8 then Inl (Err ''gost: GOST28147_CNT iv length'')
      else bind_res (gost_NewCipher key SboxCryptoProA) (\<lambda>c. cnt_NewCNT c iv))"

definition GOST28147_IMIT :: "bytes \<Rightarrow> bytes \<Rightarrow> bytes res" where
  "GOST28147_IMIT key msg =
     (if length key \<noteq> 32 then Inl (Err ''gost: GOST28147_IMIT key length'')
      else if length msg = 0 then Inl (Err ''gost: GOST28147_IMIT message must not be empty'')
      else IMIT_tag key msg)"

definition gc_KeyWrapCryptoPro :: "SBox \<Rightarrow> bytes \<Rightarrow> bytes \<Rightarrow> bytes \<Rightarrow> bytes res" where
  "gc_KeyWrapCryptoPro sbox kek ukm sessionKey =
     (if length kek \<noteq> 32 then Inl (Err ''gost: KeyWrapCryptoPro KEK must be 32 bytes'')
      else if length ukm \<noteq> 8 then Inl (Err ''gost: KeyWrapCryptoPro UKM must be 8 bytes'')
      else if length sessionKey \<noteq> 32 then Inl (Err ''gost: KeyWrapCryptoPro session key must be 32 bytes'')
      else KeyWrapCryptoPro sbox kek ukm sessionKey)"

section \<open>Placeholder hash and the opaque cipher\<close>

definition keyDiversifyCryptoPro :: "SBox \<Rightarrow> bytes \<Rightarrow> bytes \<Rightarrow> bytes" where
  "keyDiversifyCryptoPro sbox inputKey ukm = kw_diversify sbox inputKey ukm"

record imitPlaceholderHash =
  ph_n :: nat

definition ph_Write :: "imitPlaceholderHash \<Rightarrow> bytes \<Rightarrow> nat \<times> imitPlaceholderHash" where
  "ph_Write h p = (length p, h\<lparr>ph_n := ph_n h + length p\<rparr>)"

definition ph_Sum :: "imitPlaceholderHash \<Rightarrow> bytes \<Rightarrow> bytes" where
  "ph_Sum h b = b @ replicate 4 0"

definition ph_Reset :: "imitPlaceholderHash \<Rightarrow> imitPlaceholderHash" where
  "ph_Reset h = h\<lparr>ph_n := 0\<rparr>"

record GOST28147Cipher =
  g28_inner :: gost_cipher
  g28_key :: bytes
  g28_sbox :: SBox

definition NewGOST28147Cipher :: "bytes \<Rightarrow> SBox \<Rightarrow> GOST28147Cipher res" where
  "NewGOST28147Cipher key sbox =
     bind_res (gost_NewCipher key sbox) (\<lambda>inner. Inr \<lparr>g28_inner = inner, g28_key = key, g28_sbox = sbox\<rparr>)"

definition g28_Encrypt :: "GOST28147Cipher \<Rightarrow> bytes \<Rightarrow> bytes \<Rightarrow> bytes res" where
  "g28_Encrypt c dst src = gost_Encrypt (g28_inner c) dst src"

definition g28_Decrypt :: "GOST28147Cipher \<Rightarrow> bytes \<Rightarrow> bytes \<Rightarrow> bytes res" where
  "g28_Decrypt c dst src = gost_Decrypt (g28_inner c) dst src"

definition g28_SeqMACBlock :: "GOST28147Cipher \<Rightarrow> bytes \<Rightarrow> bytes res" where
  "g28_SeqMACBlock c blk = SeqMACBlock (g28_key c) (g28_sbox c) blk"

section \<open>Keys and signatures\<close>

definition errDegeneratePrivateKey :: fault where
  "errDegeneratePrivateKey = Err ''gost: degenerate private key (reduces to zero mod q)''"

definition errExhaustedNonceAttempts :: fault where
  "errExhaustedNonceAttempts = Err ''gost: SignDigestOnCurve: exhausted nonce attempts''"

definition errEphemeralZeroKey :: fault where
  "errEphemeralZeroKey = Err ''gost.GenerateEphemeralKey: zero private key''"

definition PublicKeyRawFromPrivate :: "curve \<Rightarrow> bytes \<Rightarrow> bytes res" where
  "PublicKeyRawFromPrivate curve prvRaw =
     bind_res (PublicKeyRaw curve prvRaw) (\<lambda>pub.
       case pub of None \<Rightarrow> Inl errDegeneratePrivateKey | Some pub \<Rightarrow> Inr pub)"

text \<open>The facade's own \<^verbatim>\<open>big2leFixed\<close> truncates a number that does not fit.\<close>

definition gc_big2leFixed :: "int \<Rightarrow> nat \<Rightarrow> bytes" where
  "gc_big2leFixed n sz =
     (let be = big_Bytes n;
          be = (if length be > sz then drop (length be - sz) be else be);
          out = replicate (sz - length be) 0 @ be
      in rev out)"

text \<open>The loop over the nonce attempts; \<open>rand_Int q\<close> is \<^verbatim>\<open>rand.Int(rnd, q)\<close>.\<close>

fun signDigest_attempts ::
  "nat \<Rightarrow> (int \<Rightarrow> 's \<Rightarrow> int res \<times> 's) \<Rightarrow> curve \<Rightarrow> bytes \<Rightarrow> bytes \<Rightarrow> 's \<Rightarrow> bytes res \<times> 's" where
  "signDigest_attempts 0 rand_Int c prvRaw digest rnd = (Inl errExhaustedNonceAttempts, rnd)"
| "signDigest_attempts (Suc n) rand_Int c prvRaw digest rnd =
     (let (k, rnd) = rand_Int (cv_Q c) rnd
      in case k of
           Inl err \<Rightarrow> (Inl err, rnd)
         | Inr k \<Rightarrow>
           if k = 0 then signDigest_attempts n rand_Int c prvRaw digest rnd
           else
             let kRaw = gc_big2leFixed k (PointSize c)
             in case SignDigest c prvRaw digest kRaw of
                  Inl p \<Rightarrow> (Inl p, rnd)
                | Inr None \<Rightarrow> signDigest_attempts n rand_Int c prvRaw digest rnd
                | Inr (Some sig) \<Rightarrow> (Inr sig, rnd))"

definition signDigestOnCurve ::
  "(int \<Rightarrow> 's \<Rightarrow> int res \<times> 's) \<Rightarrow> curve \<Rightarrow> bytes \<Rightarrow> bytes \<Rightarrow> 's \<Rightarrow> bytes res \<times> 's" where
  "signDigestOnCurve rand_Int c prvRaw digest rnd = signDigest_attempts 64 rand_Int c prvRaw digest rnd"

definition SignDigestOnCurve ::
  "(int \<Rightarrow> 's \<Rightarrow> int res \<times> 's) \<Rightarrow> curve \<Rightarrow> bytes \<Rightarrow> bytes \<Rightarrow> 's \<Rightarrow> bytes res \<times> 's" where
  "SignDigestOnCurve rand_Int curve prvRaw digest rnd = signDigestOnCurve rand_Int curve prvRaw digest rnd"

text \<open>\<open>read_full n\<close> is \<^verbatim>\<open>io.ReadFull\<close> into a buffer of \<open>n\<close> bytes.\<close>

definition GenerateEphemeralKey ::
  "(nat \<Rightarrow> 's \<Rightarrow> bytes res \<times> 's) \<Rightarrow> curve \<Rightarrow> 's \<Rightarrow> (bytes \<times> bytes) res \<times> 's" where
  "GenerateEphemeralKey read_full curve rnd =
     (let ps = PointSize curve;
          q = cv_Q curve;
          (raw, rnd) = read_full ps rnd
      in case raw of
           Inl err \<Rightarrow> (Inl err, rnd)
         | Inr raw \<Rightarrow>
           let beRaw = rev raw;
               d = big_SetBytes beRaw mod q
           in if d = 0 then (Inl errEphemeralZeroKey, rnd)
              else let priv = gc_big2leFixed d ps
                   in (bind_res (PublicKeyRaw curve priv) (\<lambda>pub.
                         case pub of None \<Rightarrow> Inl errEphemeralZeroKey | Some pub \<Rightarrow> Inr (priv, pub)), rnd))"

definition GOST2001CryptoProAParamSetCurve :: "curve res" where
  "GOST2001CryptoProAParamSetCurve =
     (case CurveByOID ''1.2.643.2.2.35.1'' of
        Inl err \<Rightarrow> Inl (Panic ''gost: CryptoPro-A curve missing: '') | Inr c \<Rightarrow> Inr c)"

definition GOST2001TestParamSetCurve :: curve where
  "GOST2001TestParamSetCurve = curve2001Test"

definition PublicKeyRawFromPrivate2001Test :: "bytes \<Rightarrow> bytes res" where
  "PublicKeyRawFromPrivate2001Test prvRaw =
     bind_res (PublicKeyRaw curve2001Test prvRaw) (\<lambda>pub.
       case pub of None \<Rightarrow> Inl errDegeneratePrivateKey | Some pub \<Rightarrow> Inr pub)"

definition R341012Sign ::
  "(int \<Rightarrow> 's \<Rightarrow> int res \<times> 's) \<Rightarrow> bytes \<Rightarrow> bytes \<Rightarrow> 's \<Rightarrow> bytes res \<times> 's" where
  "R341012Sign rand_Int prvRaw digest rnd = signDigestOnCurve rand_Int curve2001Test prvRaw digest rnd"

text \<open>A nil key goes on as an empty slice.\<close>

definition R341012Verify :: "bytes \<Rightarrow> bytes \<Rightarrow> bytes \<Rightarrow> bool res" where
  "R341012Verify prvRaw digest sig =
     bind_res (PublicKeyRaw curve2001Test prvRaw) (\<lambda>pub.
       verifyOnCurve curve2001Test (case pub of None \<Rightarrow> [] | Some p \<Rightarrow> p) digest sig)"

section \<open>What the checks rule out\<close>

lemma gc_NewCTR_no_panic: "no_panic (gc_NewCTR b iv)"
  by (simp add: gc_NewCTR_def ctr_NewCTR_def Let_def)

lemma gc_NewCTRACPKM_no_panic: "0 < bsize (nb key) \<Longrightarrow> 32 mod bsize (nb key) = 0 \<Longrightarrow> no_panic (gc_NewCTRACPKM nb key iv n)"
  by (auto simp: gc_NewCTRACPKM_def ctr_NewCTRACPKM_def Let_def)

lemma gc_NewOMAC_no_panic: "bsize b \<in> {8, 16} \<Longrightarrow> no_panic (gc_NewOMAC b t)"
  by (auto simp: gc_NewOMAC_def omac_New_def omac_rbForBlockSize_def Let_def split: prod.splits)

lemma NewGOST28147_CNT_no_panic: "no_panic (NewGOST28147_CNT key iv)"
  by (simp add: NewGOST28147_CNT_def gost_NewCipher_def cnt_NewCNT_def)

lemma GOST28147_IMIT_no_panic: "no_panic (GOST28147_IMIT key msg)"
  by (simp add: GOST28147_IMIT_def IMIT_tag_def)

lemma gc_KeyWrapCryptoPro_no_panic: "no_panic (gc_KeyWrapCryptoPro s kek ukm key)"
  by (simp add: gc_KeyWrapCryptoPro_def KeyWrapCryptoPro_def Let_def)

lemma gc_one_shots_no_panic:
  "no_panic (gc_KuznyechikEncrypt key m) \<longleftrightarrow> length m = 16 \<longrightarrow> length key = 32"
  "no_panic (gc_KuznyechikDecrypt key m) \<longleftrightarrow> length m = 16 \<longrightarrow> length key = 32"
  "no_panic (gc_MagmaEncrypt key m) \<longleftrightarrow> length m = 8 \<longrightarrow> length key = 32"
  "no_panic (gc_MagmaDecrypt key m) \<longleftrightarrow> length m = 8 \<longrightarrow> length key = 32"
  "no_panic (gc_GOST2814789Encrypt key m) \<longleftrightarrow> length m = 8 \<longrightarrow> length key = 32"
  "no_panic (gc_GOST2814789Decrypt key m) \<longleftrightarrow> length m = 8 \<longrightarrow> length key = 32"
  by (auto simp: gc_KuznyechikEncrypt_def gc_KuznyechikDecrypt_def kuz_NewCipher_def kuz_Encrypt_def kuz_Decrypt_def
      gc_MagmaEncrypt_def gc_MagmaDecrypt_def magma_NewCipher_def magma_Encrypt_def magma_Decrypt_def magma_crypt_def
      gc_GOST2814789Encrypt_def gc_GOST2814789Decrypt_def gost_NewCipher_def gost_Encrypt_def gost_Decrypt_def Let_def)

lemma gc_NewTLSTree_no_panic:
  "no_panic (gc_NewTLSTreeKuznyechikCTROMAC key) \<longleftrightarrow> length key = 32"
  "no_panic (gc_NewTLSTreeMagmaCTROMAC key) \<longleftrightarrow> length key = 32"
  by (auto simp: gc_NewTLSTreeKuznyechikCTROMAC_def gc_NewTLSTreeMagmaCTROMAC_def NewTLSTreeKuznyechikCTROMAC_def
      NewTLSTreeMagmaCTROMAC_def tls_newTree_def)

lemma gc_CurveByOID_no_panic: "no_panic (gc_CurveByOID oid)"
  by (simp add: gc_CurveByOID_def gc_errUnsupportedCurveOID_def split: sum.split)

lemma gc_Kexp15_no_panic: "\<exists>r. gc_Kexp15 v s ck mk iv = Some r \<and> no_panic r"
  using Kexp15_returns [of v s ck mk iv] by (cases v) (auto simp: gc_Kexp15_def)

lemma KDFTree256_Inr: "0 < n \<Longrightarrow> n \<le> 8160 \<Longrightarrow> \<exists>out. KDFTree256 key label seed 1 n = Inr out"
proof -
  assume n: "0 < n" "n \<le> 8160"
  let ?it = "(nat n + 32 - 1) div 32"
  have "?it \<le> 255" using n by linarith
  then have "\<not> (of_nat ?it :: u64) > push_bit (8 * nat 1) 1 - 1"
    by (simp add: word_less_nat_alt unat_of_nat take_bit_nat_eq_self not_less)
  then show ?thesis using n by (simp add: KDFTree256_def Let_def)
qed

lemma KDFTree2012_256_no_panic:
  "no_panic (KDFTree2012_256 key label seed n) \<longleftrightarrow> 0 < n \<and> n mod 32 = 0 \<and> n \<le> 8160"
proof (cases "0 < n \<and> n mod 32 = 0 \<and> n \<le> 8160")
  case True
  then obtain out where "KDFTree256 key label seed 1 n = Inr out" using KDFTree256_Inr by blast
  with True show ?thesis by (simp add: KDFTree2012_256_def)
next
  case False
  then have "\<not> 0 < n \<or> n mod 32 \<noteq> 0 \<or> n > 0xFFFF div 8" by presburger
  with False show ?thesis by (auto simp: KDFTree2012_256_def)
qed

text \<open>Key agreement, whatever bytes the keys are: a point it loads is on the curve, and so are its multiples.\<close>

lemma vko_kek_no_panic:
  assumes dom: "sign_domain c" and ct: "\<not> cv_ConstantTime c"
  shows "no_panic (vko_kek c prv pub ukm h)"
proof -
  note D = sign_domainD [OF dom]
  have point: "no_panic (vko_point c errIdentity r)" if "IsOnCurve c r" for r
    using vko_point_Affine [OF dom, of _ _ errIdentity] that
    by (cases r) (simp_all add: vko_point_def errIdentity_def)
  have "no_panic (agreementRaw c d u q)" if q: "IsOnCurve c q" for d u q
  proof -
    have k1: "IsOnCurve c (ec_ScalarMult c n r)" if "IsOnCurve c r" for n r
      using ec_ScalarMult_mult [OF D(1) that] ec_mult_on_curve [OF D(6) that] by simp
    note p = point [OF k1 [OF q]] point [OF k1 [OF k1 [OF q]]]
    show ?thesis using p ct
      by (auto simp: agreementRaw_def ScalarMultSecret_def vko_cofactor_def errZeroUKM_def errIdentity_def
          errUnsupportedCofactor_def Let_def)
  qed
  moreover have "no_panic (loadPrivateLE c prv)" "no_panic (loadPublicLE c pub)"
    by (simp_all add: loadPrivateLE_def loadPublicLE_def ErrBadPrivLen_def ErrZeroPrivate_def ErrBadPubLen_def
        ErrPubNotOn_def Let_def)
  moreover have "IsOnCurve c q" if "loadPublicLE c pub = Inr q" for q
    using that by (auto simp: loadPublicLE_def Let_def split: if_splits)
  ultimately show ?thesis unfolding vko_kek_def by (intro no_panic_bind) (simp_all add: Let_def no_panic_bind)
qed

lemma gc_KEG_no_panic:
  assumes "sign_domain c" "\<not> cv_ConstantTime c"
  shows "no_panic (gc_KEG2012_256 c pub prv src)"
  using vko_kek_no_panic [OF assms]
  by (auto simp: gc_KEG2012_256_def KEG2012_256_def KEK2012256_def KDFTree256_64 ErrUKMSourceLen_def ErrCurve512_def Let_def
      intro!: no_panic_bind)

lemma PublicKeyRawFromPrivate_no_panic:
  "\<not> cv_ConstantTime c \<Longrightarrow> no_panic (PublicKeyRawFromPrivate c prv)"
  by (auto simp: PublicKeyRawFromPrivate_def PublicKeyRaw_def ScalarMultSecret_def errDegeneratePrivateKey_def Let_def
      intro!: no_panic_bind split: ec_point.splits)

section \<open>Signing and key generation\<close>

lemma SignDigest_returns: "sign_domain c \<Longrightarrow> \<exists>r. SignDigest c prv digest k = Inr r"
proof -
  assume dom: "sign_domain c"
  note D = sign_domainD [OF dom]
  have "ScalarMultSecret c (big_SetBytes k mod cv_Q c) (ec_Base c) = Inr (ec_mult c (nat (big_SetBytes k mod cv_Q c)) (ec_Base c))"
    using D(4,12) by (intro D(9) D(2)) simp_all
  then show ?thesis by (simp add: SignDigest_def Let_def split: ec_point.split)
qed

lemma signDigest_attempts_Inr:
  "fst (signDigest_attempts n rand_Int c prv digest rnd) = Inr sig \<Longrightarrow> \<exists>k. SignDigest c prv digest k = Inr (Some sig)"
  by (induction n arbitrary: rnd) (auto simp: Let_def split: prod.splits sum.splits if_splits option.splits)

lemma signDigest_attempts_Inl:
  assumes "sign_domain c"
  shows "fst (signDigest_attempts n rand_Int c prv digest rnd) = Inl e \<Longrightarrow>
    e = errExhaustedNonceAttempts \<or> (\<exists>s. fst (rand_Int (cv_Q c) s) = Inl e)"
proof (induction n arbitrary: rnd)
  case (Suc n)
  obtain k rnd' where k: "rand_Int (cv_Q c) rnd = (k, rnd')" by fastforce
  show ?case
  proof (cases k)
    case (Inl x)
    then have "fst (rand_Int (cv_Q c) rnd) = Inl e" using Suc.prems k by simp
    then show ?thesis by blast
  next
    case (Inr x)
    obtain r where "SignDigest c prv digest (gc_big2leFixed x (PointSize c)) = Inr r"
      using SignDigest_returns [OF assms] by blast
    then show ?thesis using Suc.prems Suc.IH [of rnd'] k Inr
      by (cases "x = 0"; cases r) (simp_all add: Let_def)
  qed
qed simp

text \<open>The nonces a stream of draws gives, and when an attempt yields a signature.\<close>

definition good_draw :: "curve \<Rightarrow> bytes \<Rightarrow> bytes \<Rightarrow> int \<Rightarrow> bool" where
  "good_draw c prv digest k \<longleftrightarrow> k \<noteq> 0 \<and> SignDigest c prv digest (gc_big2leFixed k (PointSize c)) \<noteq> Inr None"

lemma signDigest_attempts_stream:
  assumes "sign_domain c"
  shows "(\<exists>sig. fst (signDigest_attempts n (\<lambda>q i. (Inr (f i), Suc i)) c prv digest m) = Inr sig) \<longleftrightarrow>
    (\<exists>i<n. good_draw c prv digest (f (m + i)))"
proof (induction n arbitrary: m)
  case (Suc n)
  have split: "(\<exists>i<Suc n. good_draw c prv digest (f (m + i))) \<longleftrightarrow>
      good_draw c prv digest (f m) \<or> (\<exists>i<n. good_draw c prv digest (f (Suc m + i)))"
    unfolding Ex_less_Suc2 by simp
  obtain r where "SignDigest c prv digest (gc_big2leFixed (f m) (PointSize c)) = Inr r"
    using SignDigest_returns [OF assms] by blast
  then show ?case unfolding split using Suc.IH [of "Suc m"]
    by (cases "f m = 0"; cases r) (simp_all add: good_draw_def Let_def)
qed simp

lemma gc_big2leFixed_eq: "0 \<le> n \<Longrightarrow> nat n < 256 ^ sz \<Longrightarrow> gc_big2leFixed n sz = le_bytes sz (nat n)"
proof -
  assume n: "0 \<le> n" "nat n < 256 ^ sz"
  have "rev (replicate (sz - length (big_Bytes n)) 0 @ big_Bytes n) = le_bytes sz (nat n)"
    unfolding big_Bytes_pad(1) [OF n] by simp
  then show ?thesis using big_Bytes_pad(2) [OF n] by (simp add: gc_big2leFixed_def Let_def)
qed

lemma GenerateEphemeralKey_eq:
  assumes dom: "sign_domain c" and raw: "read_full (PointSize c) rnd = (Inr raw, rnd')"
    and d: "d = big_SetBytes (rev raw) mod cv_Q c" and P: "ec_mult c (nat d) (ec_Base c) = Affine x y"
  shows "GenerateEphemeralKey read_full c rnd =
    (Inr (le_bytes (PointSize c) (nat d), le_bytes (PointSize c) (nat x) @ le_bytes (PointSize c) (nat y)), rnd')"
    and "DeriveQLE c (le_bytes (PointSize c) (nat d)) = Inr (le_bytes (PointSize c) (nat x) @ le_bytes (PointSize c) (nat y))"
proof -
  note D = sign_domainD [OF dom]
  have dr: "0 \<le> d" "d < cv_Q c" using d D(4) by simp_all
  have d0: "d \<noteq> 0" using P by auto
  have fit: "nat d < 256 ^ PointSize c" using D(7) dr by simp
  have on: "IsOnCurve c (Affine x y)" using ec_mult_on_curve [OF D(6,2), of "nat d"] P by simp
  then have xy: "0 \<le> x" "x < cv_P c" "0 \<le> y" "y < cv_P c" by (simp_all add: IsOnCurve_Affine [OF D(5)])
  have bk: "big_SetBytes (rev (le_bytes (PointSize c) (nat d))) = d" using dr fit by (simp add: big_SetBytes_rev_le)
  have mult: "ScalarMultSecret c d (ec_Base c) = Inr (Affine x y)" using D(9) [OF D(2) dr] D(12) P by simp
  have dm: "d mod cv_Q c = d" using dr by simp
  show "GenerateEphemeralKey read_full c rnd =
    (Inr (le_bytes (PointSize c) (nat d), le_bytes (PointSize c) (nat x) @ le_bytes (PointSize c) (nat y)), rnd')"
    using d0 xy D(8)
    by (simp add: GenerateEphemeralKey_def raw d [symmetric] gc_big2leFixed_eq [OF dr(1) fit] PublicKeyRaw_def reverse_def
        bk dm mult putLE_eq Let_def)
  show "DeriveQLE c (le_bytes (PointSize c) (nat d)) = Inr (le_bytes (PointSize c) (nat x) @ le_bytes (PointSize c) (nat y))"
    using d0 vko_point_Affine [OF dom on]
    by (simp add: DeriveQLE_def loadPrivateLE_def leBytes2big_def reverse_def bk dm mult Let_def)
qed

lemma GenerateEphemeralKey_Inr:
  assumes dom: "sign_domain c" and raw: "read_full (PointSize c) rnd = (Inr raw, rnd')"
    and gen: "GenerateEphemeralKey read_full c rnd = (Inr (prv, pub), rnd'')"
  shows "leBytes2big prv = big_SetBytes (rev raw) mod cv_Q c" "length prv = PointSize c" "length pub = 2 * PointSize c"
    "PublicKeyRaw c prv = Inr (Some pub)" "DeriveQLE c prv = Inr pub"
proof -
  note D = sign_domainD [OF dom]
  define d where "d = big_SetBytes (rev raw) mod cv_Q c"
  have dr: "0 \<le> d" "d < cv_Q c" using D(4) by (simp_all add: d_def)
  have fit: "nat d < 256 ^ PointSize c" using D(7) dr by simp
  have prv: "prv = le_bytes (PointSize c) (nat d)" and pk: "PublicKeyRaw c prv = Inr (Some pub)"
    using gen raw gc_big2leFixed_eq [OF dr(1) fit]
    by (auto simp: GenerateEphemeralKey_def Let_def d_def [symmetric] bind_res_def split: if_splits sum.splits option.splits)
  have bk: "big_SetBytes (rev prv) = d" using dr fit by (simp add: prv big_SetBytes_rev_le)
  then have db: "big_SetBytes (reverse prv) mod cv_Q c = d" using dr by (simp add: reverse_def)
  obtain x y where P: "ec_mult c (nat d) (ec_Base c) = Affine x y" and l: "length pub = 2 * PointSize c"
    by (rule PublicKeyRaw_Some [OF dom pk]) (simp add: db)
  note E = GenerateEphemeralKey_eq [of c read_full rnd raw rnd' d x y, OF dom raw d_def P]
  show "leBytes2big prv = big_SetBytes (rev raw) mod cv_Q c" using bk by (simp add: leBytes2big_def reverse_def d_def)
  show "length prv = PointSize c" by (simp add: prv)
  show "length pub = 2 * PointSize c" by (rule l)
  show "PublicKeyRaw c prv = Inr (Some pub)" by (rule pk)
  show "DeriveQLE c prv = Inr pub" using E gen by (simp add: prv)
qed

lemma le_nat_key5: "le_nat (key5 k) = unat k"
proof -
  have "le_nat (replicate n 0) = 0" for n by (induction n) simp_all
  then show ?thesis by (simp add: key5_def)
qed

lemma key5_value: "big_SetBytes (rev (key5 k)) = int (unat k)"
  by (simp add: big_SetBytes_def be_nat_def le_nat_key5)

lemma le_bytes_key5: "le_bytes 32 (unat k) = key5 k"
  using le_bytes_le_nat [of "key5 k" 32] by (simp add: le_nat_key5) (simp add: key5_def)

section \<open>Properties\<close>

text \<open>
  C15. What SignDigestOnCurve returns verifies under the public key of the signing key, on any
  source of randomness and a curve C1 describes; its only errors are that of the source and the
  exhaustion of the nonce attempts, and it never panics.
\<close>

theorem signDigestOnCurve_verifies:
  assumes "sign_domain c" "PublicKeyRaw c prv = Inr (Some pub)"
  shows "case fst (SignDigestOnCurve rand_Int c prv digest rnd) of
      Inr sig \<Rightarrow> VerifyDigestOnCurve c pub digest sig = Inr True
    | Inl e \<Rightarrow> e = errExhaustedNonceAttempts \<or> (\<exists>s. fst (rand_Int (cv_Q c) s) = Inl e)"
proof (cases "fst (SignDigestOnCurve rand_Int c prv digest rnd)")
  case (Inl e)
  then show ?thesis
    using signDigest_attempts_Inl [OF assms(1)] by (simp add: SignDigestOnCurve_def signDigestOnCurve_def)
next
  case (Inr sig)
  then show ?thesis using signDigest_attempts_Inr VerifyDigest_iff [OF assms]
    by (fastforce simp: SignDigestOnCurve_def signDigestOnCurve_def VerifyDigestOnCurve_def verifyOnCurve_def)
qed

text \<open>A source that counts: draw i is i + 1 modulo q.\<close>

definition count_Int :: "int \<Rightarrow> nat \<Rightarrow> int res \<times> nat" where
  "count_Int q s = (Inr (int (Suc s) mod q), Suc s)"

theorem signDigestOnCurve_verifies_witness:
  "case fst (SignDigestOnCurve count_Int curve5 [2] [5] 3) of
      Inr sig \<Rightarrow> VerifyDigestOnCurve curve5 (putLE 32 1 @ putLE 32 3) [5] sig = Inr True
    | Inl e \<Rightarrow> e = errExhaustedNonceAttempts"
  using signDigestOnCurve_verifies [OF curve5_sign_domain curve5_PublicKeyRaw, of count_Int "[5]" 3]
  by (simp add: count_Int_def split: sum.splits)

text \<open>
  C33. On a curve C1 describes SignDigestOnCurve keeps drawing: on a source whose draws are f 0, f 1, ... it returns a
  signature exactly when one of the first 64 draws is not zero and gives one.
\<close>

theorem signDigestOnCurve_retries:
  assumes "sign_domain c"
  shows "(\<exists>sig. fst (signDigestOnCurve (\<lambda>q i. (Inr (f i), Suc i)) c prv digest 0) = Inr sig) \<longleftrightarrow>
    (\<exists>i<64. good_draw c prv digest (f i))"
  using signDigest_attempts_stream [OF assms, of 64 f prv digest 0] by (simp add: signDigestOnCurve_def)

theorem signDigestOnCurve_retries_witness:
  "\<exists>sig. fst (signDigestOnCurve (\<lambda>q i. (Inr (if i = 63 then 4 * 256 ^ 31 else 0), Suc i)) curve5 [2] [5] 0) = Inr sig"
proof -
  have le: "le_nat (replicate n 0 @ [4]) = 4 * 256 ^ n" for n by (induction n) simp_all
  have "gc_big2leFixed (4 * 256 ^ 31) 32 = le_bytes 32 (le_nat (replicate 31 0 @ [4]))"
    using le_nat_less [of "replicate 31 0 @ [4]"] unfolding le by (subst gc_big2leFixed_eq) simp_all
  also have "\<dots> = replicate 31 0 @ [4]" by (rule le_bytes_le_nat) simp
  finally have "big_SetBytes (gc_big2leFixed (4 * 256 ^ 31) 32) = 4"
    using key5_value [of 4] by (simp add: key5_def)
  then have "good_draw curve5 [2] [5] (4 * 256 ^ 31)"
    using curve5_ScalarMultSecret [of 4] curve5_mult(2)
    by (simp add: good_draw_def SignDigest_def sign_digest_e_def curve5_base curve5_PointSize reverse_def big_SetBytes_def be_nat_def Let_def)
  then have "\<exists>i<64. good_draw curve5 [2] [5] (if i = (63 :: nat) then 4 * 256 ^ 31 else 0)"
    by (intro exI [of _ 63]) simp
  then show ?thesis
    unfolding signDigestOnCurve_retries [OF curve5_sign_domain, of "\<lambda>i. if i = 63 then 4 * 256 ^ 31 else 0" "[2]" "[5]"] .
qed

text \<open>
  C16. On a curve C1 describes a generated pair is the private scalar, little-endian and below q, and its public key; two
  generated pairs agree under VKO and under KEG: what the first side derives from the
  second's public key is what the second derives from the first's.
\<close>

theorem ephemeral_exchange:
  assumes "sign_domain c"
    and "read_full (PointSize c) sA = (Inr rawA, sA')" "read_full (PointSize c) sB = (Inr rawB, sB')"
    and "GenerateEphemeralKey read_full c sA = (Inr (prvA, pubA), sA'')" "GenerateEphemeralKey read_full c sB = (Inr (prvB, pubB), sB'')"
  shows "leBytes2big prvA = big_SetBytes (rev rawA) mod cv_Q c \<and> length prvA = PointSize c \<and> length pubA = 2 * PointSize c \<and>
    PublicKeyRaw c prvA = Inr (Some pubA) \<and> DeriveQLE c prvA = Inr pubA \<and>
    KEK2001 c prvA pubB ukm = KEK2001 c prvB pubA ukm \<and>
    KEK2012256 c prvA pubB ukm = KEK2012256 c prvB pubA ukm \<and>
    KEK2012512 c prvA pubB ukm = KEK2012512 c prvB pubA ukm \<and>
    gc_KEG2012_256 c pubB prvA src = gc_KEG2012_256 c pubA prvB src"
proof -
  note A = GenerateEphemeralKey_Inr [OF assms(1,2,4)] and B = GenerateEphemeralKey_Inr [OF assms(1,3,5)]
  have "vko_kek c prvA pubB u h = vko_kek c prvB pubA u h" for u h
    by (rule vko_symmetric [OF assms(1) A(5) B(5)])
  then show ?thesis using A by (simp add: KEK2001_def KEK2012256_def KEK2012512_def gc_KEG2012_256_def KEG2012_256_def)
qed

theorem ephemeral_exchange_witness:
  "KEK2012256 curve5 (key5 2) (le_bytes 32 3 @ le_bytes 32 2) [5] = KEK2012256 curve5 (key5 4) (le_bytes 32 1 @ le_bytes 32 3) [5] \<and>
   gc_KEG2012_256 curve5 (le_bytes 32 3 @ le_bytes 32 2) (key5 2) (replicate 32 7) =
   gc_KEG2012_256 curve5 (le_bytes 32 1 @ le_bytes 32 3) (key5 4) (replicate 32 7)"
proof -
  let ?rd = "\<lambda>n s. (Inr (key5 (of_nat s)), Suc s)"
  have k: "le_bytes 32 2 = key5 2" "le_bytes 32 4 = key5 4" using le_bytes_key5 [of 2] le_bytes_key5 [of 4] by simp_all
  have v: "big_SetBytes (rev (key5 2)) = 2" "big_SetBytes (rev (key5 4)) = 4" using key5_value [of 2] key5_value [of 4] by simp_all
  have "GenerateEphemeralKey ?rd curve5 2 = (Inr (key5 2, le_bytes 32 1 @ le_bytes 32 3), 3)"
    using GenerateEphemeralKey_eq(1) [OF curve5_sign_domain, of ?rd 2 "key5 2" 3 2 1 3] curve5_mult(1)
    by (simp add: curve5_PointSize curve5_base v k)
  moreover have "GenerateEphemeralKey ?rd curve5 4 = (Inr (key5 4, le_bytes 32 3 @ le_bytes 32 2), 5)"
    using GenerateEphemeralKey_eq(1) [OF curve5_sign_domain, of ?rd 4 "key5 4" 5 4 3 2] curve5_mult(2)
    by (simp add: curve5_PointSize curve5_base v k)
  ultimately show ?thesis
    using ephemeral_exchange [OF curve5_sign_domain, of ?rd 2 "key5 2" 3 4 "key5 4" 5 "key5 2" _ 3 "key5 4" _ 5 "[5]" "replicate 32 7"]
    by simp
qed

text \<open>
  C34. When these functions of the facade panic. For blocks of 8 or 16 bytes: the six one-shots exactly
  on a key of other than 32 bytes with an input of one block; the TLSTREE constructors exactly on a key
  of other than 32 bytes; KDFTree2012_256 exactly off the lengths 32, 64, ..., 8160; never
  CurveByOID, the constructors of CTR, CTR-ACPKM, OMAC and CNT, IMIT, key wrap and
  Kexp15, which returns, and, on a curve C1 describes whose constant-time flag is off,
  PublicKeyRawFromPrivate, the VKO calls and KEG, whatever the keys.
\<close>

theorem facade_no_panic:
  assumes "bsize b \<in> {8, 16}" "bsize (nb mk) \<in> {8, 16}" "sign_domain c" "\<not> cv_ConstantTime c"
  shows "(no_panic (gc_KuznyechikEncrypt key m) \<longleftrightarrow> length m = 16 \<longrightarrow> length key = 32) \<and>
    (no_panic (gc_KuznyechikDecrypt key m) \<longleftrightarrow> length m = 16 \<longrightarrow> length key = 32) \<and>
    (no_panic (gc_MagmaEncrypt key m) \<longleftrightarrow> length m = 8 \<longrightarrow> length key = 32) \<and>
    (no_panic (gc_MagmaDecrypt key m) \<longleftrightarrow> length m = 8 \<longrightarrow> length key = 32) \<and>
    (no_panic (gc_GOST2814789Encrypt key m) \<longleftrightarrow> length m = 8 \<longrightarrow> length key = 32) \<and>
    (no_panic (gc_GOST2814789Decrypt key m) \<longleftrightarrow> length m = 8 \<longrightarrow> length key = 32) \<and>
    (no_panic (gc_NewTLSTreeKuznyechikCTROMAC key) \<longleftrightarrow> length key = 32) \<and>
    (no_panic (gc_NewTLSTreeMagmaCTROMAC key) \<longleftrightarrow> length key = 32) \<and>
    (no_panic (KDFTree2012_256 key label seed n) \<longleftrightarrow> 0 < n \<and> n mod 32 = 0 \<and> n \<le> 8160) \<and>
    no_panic (gc_CurveByOID oid) \<and> no_panic (gc_NewCTR b iv) \<and> no_panic (gc_NewCTRACPKM nb mk iv section) \<and>
    no_panic (gc_NewOMAC b t) \<and> no_panic (NewGOST28147_CNT k iv) \<and> no_panic (GOST28147_IMIT k m) \<and>
    no_panic (gc_KeyWrapCryptoPro sb k ukm m) \<and> (\<exists>r. gc_Kexp15 v m k key iv = Some r \<and> no_panic r) \<and>
    no_panic (PublicKeyRawFromPrivate c k) \<and> no_panic (VKO2001OnCurve c k pub ukm) \<and>
    no_panic (VKO2012_256OnCurve c k pub ukm) \<and> no_panic (KEK2012512 c k pub ukm) \<and> no_panic (gc_KEG2012_256 c pub k ukm)"
proof -
  note V = vko_kek_no_panic [OF assms(3,4)]
  show ?thesis
    unfolding gc_one_shots_no_panic gc_NewTLSTree_no_panic KDFTree2012_256_no_panic simp_thms
    using assms(1,2) gc_NewCTRACPKM_no_panic [of nb mk]
    by (auto simp: gc_CurveByOID_no_panic gc_NewCTR_no_panic gc_NewOMAC_no_panic NewGOST28147_CNT_no_panic GOST28147_IMIT_no_panic
        gc_KeyWrapCryptoPro_no_panic PublicKeyRawFromPrivate_no_panic [OF assms(4)] gc_KEG_no_panic [OF assms(3,4)]
        VKO2001OnCurve_def VKO2012_256OnCurve_def KEK2001_def KEK2012256_def KEK2012512_def V gc_Kexp15_no_panic)
qed

theorem facade_no_panic_witness:
  "no_panic (gc_NewCTRACPKM (\<lambda>k. magma_block (magma_cipher_of k)) [1] [] 7) \<and>
   no_panic (gc_NewOMAC (magma_block (magma_cipher_of (replicate 32 0))) 9) \<and> no_panic (gc_MagmaEncrypt [] [1]) \<and>
   \<not> no_panic (gc_MagmaEncrypt [] (replicate 8 1)) \<and> \<not> no_panic (KDFTree2012_256 [] [] [] 33) \<and>
   no_panic (gc_KEG2012_256 curve5 [1] [2] [])"
  using facade_no_panic [of "magma_block (magma_cipher_of (replicate 32 0))" "\<lambda>k. magma_block (magma_cipher_of k)" "[1]" curve5 "[]" "replicate 8 1" "[]" "[]" 33 _ "[]" 7 9 "[2]" _ "[]" _ "[1]"]
    facade_no_panic [of "magma_block (magma_cipher_of (replicate 32 0))" "\<lambda>k. magma_block (magma_cipher_of k)" "[1]" curve5 "[]" "[1]"]
    curve5_sign_domain
  by (simp add: curve5_def)

text \<open>
  KDFTree2012_256 returns exactly for the lengths 32, 64, ..., 8160, and then the requested
  number of bytes of KDF_TREE; every other length is one of its own two panics, so the panics
  of the package below are not reached.
\<close>

theorem KDFTree2012_256_exact:
  "(if 0 < n \<and> n mod 32 = 0 \<and> n \<le> 8160
    then \<exists>out. KDFTree2012_256 key label seed n = Inr out \<and> length out = nat n \<and> KDFTree256 key label seed 1 n = Inr out
    else KDFTree2012_256 key label seed n \<in>
      {Inl (Panic ''gost.KDFTree2012_256: keyOutLen must be a positive multiple of 32''),
       Inl (Panic ''gost.KDFTree2012_256: keyOutLen too large for 2-byte length encoding'')})"
proof (cases "0 < n \<and> n mod 32 = 0 \<and> n \<le> 8160")
  case True
  then obtain out where "KDFTree256 key label seed 1 n = Inr out" using KDFTree256_Inr by blast
  with True show ?thesis using KDFTree256_spec(2) [of key label seed 1 n out] by (simp add: KDFTree2012_256_def)
next
  case False
  then have "\<not> 0 < n \<or> n mod 32 \<noteq> 0 \<or> n > 0xFFFF div 8" by presburger
  then show ?thesis unfolding if_not_P [OF False] by (auto simp: KDFTree2012_256_def)
qed

end
