(* ===== verification/X509_Parse.thy ===== *)
theory X509_Parse
  imports ASN1 X509_Names Facade
begin

text \<open>
  \<^verbatim>\<open>x509gost/parse.go\<close> and \<^verbatim>\<open>x509gost/oids.go\<close>: the certificate with its GOST fields, and the
  parser that fills them. \<^verbatim>\<open>x509.ParseCertificate\<close> of the standard library is a parameter; the
  package's own walk over the DER bytes is modelled. A wrapped error is the error it wraps.
\<close>

section \<open>Identifiers and errors\<close>

definition OIDSignatureGOSTR341001 :: oid where "OIDSignatureGOSTR341001 = [1, 2, 643, 2, 2, 3]"
definition OIDSignatureGOSTR341012_256 :: oid where "OIDSignatureGOSTR341012_256 = [1, 2, 643, 7, 1, 1, 3, 2]"
definition OIDSignatureGOSTR341012_512 :: oid where "OIDSignatureGOSTR341012_512 = [1, 2, 643, 7, 1, 1, 3, 3]"
definition OIDPublicKeyGOSTR341001 :: oid where "OIDPublicKeyGOSTR341001 = [1, 2, 643, 2, 2, 19]"
definition OIDPublicKeyGOSTR341012_256 :: oid where "OIDPublicKeyGOSTR341012_256 = [1, 2, 643, 7, 1, 1, 1, 1]"
definition OIDPublicKeyGOSTR341012_512 :: oid where "OIDPublicKeyGOSTR341012_512 = [1, 2, 643, 7, 1, 1, 1, 2]"

definition OIDHashGOSTR341194 :: oid where "OIDHashGOSTR341194 = [1, 2, 643, 2, 2, 9]"
definition OIDHashStreebog256 :: oid where "OIDHashStreebog256 = [1, 2, 643, 7, 1, 1, 2, 2]"
definition OIDHashStreebog512 :: oid where "OIDHashStreebog512 = [1, 2, 643, 7, 1, 1, 2, 3]"

definition OIDParamCryptoProA :: oid where "OIDParamCryptoProA = [1, 2, 643, 2, 2, 35, 1]"
definition OIDParamCryptoProB :: oid where "OIDParamCryptoProB = [1, 2, 643, 2, 2, 35, 2]"
definition OIDParamCryptoProC :: oid where "OIDParamCryptoProC = [1, 2, 643, 2, 2, 35, 3]"
definition OIDParamTC26_256A :: oid where "OIDParamTC26_256A = [1, 2, 643, 7, 1, 2, 1, 1, 1]"
definition OIDParamTC26_256B :: oid where "OIDParamTC26_256B = [1, 2, 643, 7, 1, 2, 1, 1, 2]"
definition OIDParamTC26_256C :: oid where "OIDParamTC26_256C = [1, 2, 643, 7, 1, 2, 1, 1, 3]"
definition OIDParamTC26_256D :: oid where "OIDParamTC26_256D = [1, 2, 643, 7, 1, 2, 1, 1, 4]"
definition OIDParamTC26_512A :: oid where "OIDParamTC26_512A = [1, 2, 643, 7, 1, 2, 1, 2, 1]"
definition OIDParamTC26_512B :: oid where "OIDParamTC26_512B = [1, 2, 643, 7, 1, 2, 1, 2, 2]"
definition OIDParamTC26_512C :: oid where "OIDParamTC26_512C = [1, 2, 643, 7, 1, 2, 1, 2, 3]"

definition errEmptyDERInput :: fault where "errEmptyDERInput = Err ''x509gost: empty DER input''"
definition errTrailingData :: fault where "errTrailingData = Err ''x509gost: trailing data after certificate''"
definition errSigGOSTButPubKeyNotGOST :: fault where
  "errSigGOSTButPubKeyNotGOST =
     Err ''x509gost: GOST signature OID but public key OID is not a recognized GOST public key OID''"
definition errSPKINoParameters :: fault where "errSPKINoParameters = Err ''SPKI AlgorithmIdentifier has no parameters''"
definition errCannotParseCurveOID :: fault where
  "errCannotParseCurveOID = Err ''cannot parse curve OID from SPKI parameters''"
definition errEmptyPubKeyBitString :: fault where "errEmptyPubKeyBitString = Err ''empty public key BIT STRING value''"
definition errPubKeyLength :: fault where "errPubKeyLength = Err ''GOST public key has wrong length for its curve''"

text \<open>Any error of \<^verbatim>\<open>asn1.Unmarshal\<close>.\<close>

definition errASN1 :: fault where "errASN1 = Err ''asn1''"

text \<open>The constants start at 2: the first line of their block takes \<^verbatim>\<open>iota\<close> 0.\<close>

type_synonym GOSTAlgorithm = int

definition AlgoR341001 :: GOSTAlgorithm where "AlgoR341001 = 2"
definition AlgoR341012_256 :: GOSTAlgorithm where "AlgoR341012_256 = 3"
definition AlgoR341012_512 :: GOSTAlgorithm where "AlgoR341012_512 = 4"

definition GOSTAlgorithm_String :: "GOSTAlgorithm \<Rightarrow> string" where
  "GOSTAlgorithm_String a =
     (if a = AlgoR341001 then ''GOST R 34.10-2001''
      else if a = AlgoR341012_256 then ''GOST R 34.10-2012/256''
      else if a = AlgoR341012_512 then ''GOST R 34.10-2012/512''
      else ''GOSTAlgorithm('' @ (if a < 0 then ''-'' else []) @ decimal (nat \<bar>a\<bar>) @ '')'')"

section \<open>Certificates\<close>

record Certificate =
  xg_Stdlib :: x509_cert
  xg_Raw :: bytes
  xg_IsGOST :: bool
  xg_HasGOSTPubKey :: bool
  xg_GOSTAlgo :: GOSTAlgorithm
  xg_SigGOSTAlgo :: GOSTAlgorithm
  xg_PubKeyRaw :: bytes
  xg_CurveOID :: oid
  xg_SPKIAlgorithmDER :: bytes

record pkixAlgorithmIdentifier =
  ai_Raw :: bytes
  ai_Algorithm :: oid
  ai_Parameters :: RawValue

record subjectPublicKeyInfo =
  pk_Algorithm :: pkixAlgorithmIdentifier
  pk_PublicKey :: bytes

record tbsCertificate =
  tc_Raw :: bytes
  tc_Version :: int
  tc_SerialNumber :: RawValue
  tc_SignatureAlgorithm :: pkixAlgorithmIdentifier
  tc_Issuer :: RawValue
  tc_Validity :: RawValue
  tc_Subject :: RawValue
  tc_PublicKey :: subjectPublicKeyInfo

record certificate =
  oc_Raw :: bytes
  oc_TBSCertificate :: tbsCertificate
  oc_SignatureAlgorithm :: pkixAlgorithmIdentifier
  oc_Signature :: bytes

text \<open>
  \<^verbatim>\<open>asn1.Unmarshal\<close> into these structures: a sequence, its fields in order, further elements at
  its end ignored; a raw field is the whole element.
\<close>

definition unmarshal_algid :: "bytes \<Rightarrow> (pkixAlgorithmIdentifier \<times> bytes) option" where
  "unmarshal_algid bs =
     Option.bind (expect_tag 16 True bs) (\<lambda>(inner, rest).
     Option.bind (unmarshal_oid inner) (\<lambda>(oid, r).
     Option.bind (if r = [] then Some (no_value, r) else unmarshal_raw r) (\<lambda>(params, r).
       Some (\<lparr>ai_Raw = take (length bs - length rest) bs, ai_Algorithm = oid, ai_Parameters = params\<rparr>, rest))))"

definition unmarshal_spki :: "bytes \<Rightarrow> (subjectPublicKeyInfo \<times> bytes) option" where
  "unmarshal_spki bs =
     Option.bind (expect_tag 16 True bs) (\<lambda>(inner, rest).
     Option.bind (unmarshal_algid inner) (\<lambda>(alg, r).
     Option.bind (unmarshal_bits r) (\<lambda>(bits, r).
       Some (\<lparr>pk_Algorithm = alg, pk_PublicKey = bits\<rparr>, rest))))"

definition unmarshal_tbs :: "bytes \<Rightarrow> (tbsCertificate \<times> bytes) option" where
  "unmarshal_tbs bs =
     Option.bind (expect_tag 16 True bs) (\<lambda>(inner, rest).
     Option.bind (unmarshal_version inner) (\<lambda>(version, r).
     Option.bind (unmarshal_raw r) (\<lambda>(serial, r).
     Option.bind (unmarshal_algid r) (\<lambda>(alg, r).
     Option.bind (unmarshal_raw r) (\<lambda>(issuer, r).
     Option.bind (unmarshal_raw r) (\<lambda>(validity, r).
     Option.bind (unmarshal_raw r) (\<lambda>(subject, r).
     Option.bind (unmarshal_spki r) (\<lambda>(spki, r).
       Some (\<lparr>tc_Raw = take (length bs - length rest) bs, tc_Version = version, tc_SerialNumber = serial,
              tc_SignatureAlgorithm = alg, tc_Issuer = issuer, tc_Validity = validity, tc_Subject = subject,
              tc_PublicKey = spki\<rparr>, rest)))))))))"

definition unmarshal_certificate :: "bytes \<Rightarrow> (certificate \<times> bytes) option" where
  "unmarshal_certificate bs =
     Option.bind (expect_tag 16 True bs) (\<lambda>(inner, rest).
     Option.bind (unmarshal_tbs inner) (\<lambda>(tbs, r).
     Option.bind (unmarshal_algid r) (\<lambda>(alg, r).
     Option.bind (unmarshal_bits r) (\<lambda>(sig, r).
       Some (\<lparr>oc_Raw = take (length bs - length rest) bs, oc_TBSCertificate = tbs, oc_SignatureAlgorithm = alg,
              oc_Signature = sig\<rparr>, rest)))))"

section \<open>Parsing\<close>

definition gostAlgoFromSigOID :: "oid \<Rightarrow> GOSTAlgorithm \<times> bool" where
  "gostAlgoFromSigOID oid =
     (if oid = OIDSignatureGOSTR341001 then (AlgoR341001, True)
      else if oid = OIDSignatureGOSTR341012_256 then (AlgoR341012_256, True)
      else if oid = OIDSignatureGOSTR341012_512 then (AlgoR341012_512, True)
      else (0, False))"

definition gostAlgoFromPubKeyOID :: "oid \<Rightarrow> GOSTAlgorithm \<times> bool" where
  "gostAlgoFromPubKeyOID oid =
     (if oid = OIDPublicKeyGOSTR341001 then (AlgoR341001, True)
      else if oid = OIDPublicKeyGOSTR341012_256 then (AlgoR341012_256, True)
      else if oid = OIDPublicKeyGOSTR341012_512 then (AlgoR341012_512, True)
      else (0, False))"

definition parseCurveOID :: "RawValue \<Rightarrow> oid res" where
  "parseCurveOID params =
     (if rv_FullBytes params = [] \<and> rv_Bytes params = [] then Inl errSPKINoParameters
      else case (if rv_Class params = 0 \<and> rv_Tag params = 6 then unmarshal_oid (rv_FullBytes params) else None) of
        Some (oid, _) \<Rightarrow> Inr oid
      | None \<Rightarrow>
        case (if rv_Class params = 0 \<and> rv_Tag params = 16 then unmarshal_oid (rv_Bytes params) else None) of
          Some (oid, _) \<Rightarrow> Inr oid
        | None \<Rightarrow> Inl errCannotParseCurveOID)"

definition extractGOSTPubKeyBytes :: "bytes \<Rightarrow> nat \<Rightarrow> bytes res" where
  "extractGOSTPubKeyBytes bits wantLen =
     (if bits = [] then Inl errEmptyPubKeyBitString
      else case unmarshal_octets bits of
        Some (inner, rest) \<Rightarrow>
          if rest = [] \<and> length inner = wantLen then Inr inner
          else if length bits \<noteq> wantLen then Inl errPubKeyLength else Inr bits
      | None \<Rightarrow> if length bits \<noteq> wantLen then Inl errPubKeyLength else Inr bits)"

definition ParseCertificate :: "(bytes \<Rightarrow> x509_cert res) \<Rightarrow> bytes \<Rightarrow> Certificate res" where
  "ParseCertificate std_Parse der =
     (if der = [] then Inl errEmptyDERInput
      else bind_res (std_Parse der) (\<lambda>stdlibCert.
        let cert = \<lparr>xg_Stdlib = stdlibCert, xg_Raw = der, xg_IsGOST = False, xg_HasGOSTPubKey = False, xg_GOSTAlgo = 0,
                    xg_SigGOSTAlgo = 0, xg_PubKeyRaw = [], xg_CurveOID = [], xg_SPKIAlgorithmDER = []\<rparr>
        in case unmarshal_certificate der of
             None \<Rightarrow> Inl errASN1
           | Some (outer, rest) \<Rightarrow>
             if length rest \<noteq> 0 then Inl errTrailingData
             else
               let sigOID = ai_Algorithm (oc_SignatureAlgorithm outer);
                   (sigAlgo, sigIsGOST) = gostAlgoFromSigOID sigOID;
                   spki = tc_PublicKey (oc_TBSCertificate outer);
                   pkAlgOID = ai_Algorithm (pk_Algorithm spki);
                   (pkAlgo, pkIsGOST) = gostAlgoFromPubKeyOID pkAlgOID
               in if sigIsGOST \<and> \<not> pkIsGOST then Inl errSigGOSTButPubKeyNotGOST
                  else if \<not> sigIsGOST \<and> \<not> pkIsGOST then Inr cert
                  else
                    let cert = (if sigIsGOST then cert\<lparr>xg_IsGOST := True, xg_SigGOSTAlgo := sigAlgo\<rparr> else cert);
                        cert = (if pkIsGOST then cert\<lparr>xg_HasGOSTPubKey := True, xg_GOSTAlgo := pkAlgo\<rparr>
                                else cert\<lparr>xg_GOSTAlgo := sigAlgo\<rparr>);
                        cert = cert\<lparr>xg_SPKIAlgorithmDER := ai_Raw (pk_Algorithm spki)\<rparr>
                    in bind_res (parseCurveOID (ai_Parameters (pk_Algorithm spki))) (\<lambda>curveOID.
                         let cert = cert\<lparr>xg_CurveOID := curveOID\<rparr>
                         in bind_res (gc_CurveByOID (oid_String curveOID)) (\<lambda>curve.
                              let wantPubLen = 2 * PointSize curve
                              in bind_res (extractGOSTPubKeyBytes (pk_PublicKey spki) wantPubLen) (\<lambda>pubKeyBytes.
                                   Inr (cert\<lparr>xg_PubKeyRaw := pubKeyBytes\<rparr>))))))"

section \<open>What parsing establishes\<close>

text \<open>The relations between the fields of a parsed certificate.\<close>

definition cert_wf :: "Certificate \<Rightarrow> bool" where
  "cert_wf c \<longleftrightarrow> (xg_IsGOST c \<longrightarrow> xg_HasGOSTPubKey c) \<and>
     xg_SigGOSTAlgo c \<in> (if xg_IsGOST c then {AlgoR341001, AlgoR341012_256, AlgoR341012_512} else {0}) \<and>
     (if xg_HasGOSTPubKey c
      then xg_GOSTAlgo c \<in> {AlgoR341001, AlgoR341012_256, AlgoR341012_512} \<and>
        (\<exists>curve. gc_CurveByOID (oid_String (xg_CurveOID c)) = Inr curve \<and> length (xg_PubKeyRaw c) = 2 * PointSize curve)
      else xg_GOSTAlgo c = 0 \<and> xg_CurveOID c = [] \<and> xg_PubKeyRaw c = [] \<and> xg_SPKIAlgorithmDER c = [])"

lemma extractGOSTPubKeyBytes_length: "extractGOSTPubKeyBytes bits n = Inr k \<Longrightarrow> length k = n"
  by (auto simp: extractGOSTPubKeyBytes_def split: if_splits option.splits)

lemma extractGOSTPubKeyBytes_octets:
  assumes "length key < 2 ^ 16"
  shows "extractGOSTPubKeyBytes (der_element 4 False key) (length key) = Inr key"
proof -
  have "der_element 4 False key \<noteq> []" by (simp add: der_element_def)
  then show ?thesis using parse_element_der [of 4 key False "[]"] assms
    by (simp add: extractGOSTPubKeyBytes_def unmarshal_octets_def expect_tag_def)
qed

lemma extractGOSTPubKeyBytes_raw: "key \<noteq> [] \<Longrightarrow> extractGOSTPubKeyBytes key (length key) = Inr key"
  by (auto simp: extractGOSTPubKeyBytes_def split: option.split dest!: unmarshal_octets_length)

lemma gostAlgo_cases:
  "gostAlgoFromSigOID oid = (a, b) \<Longrightarrow> a \<in> (if b then {AlgoR341001, AlgoR341012_256, AlgoR341012_512} else {0})"
  "gostAlgoFromPubKeyOID oid = (a, b) \<Longrightarrow> a \<in> (if b then {AlgoR341001, AlgoR341012_256, AlgoR341012_512} else {0})"
  by (auto simp: gostAlgoFromSigOID_def gostAlgoFromPubKeyOID_def split: if_splits)

lemma ParseCertificate_Inr:
  assumes "ParseCertificate std_Parse der = Inr c"
  shows "std_Parse der = Inr (xg_Stdlib c)" "xg_Raw c = der" "cert_wf c"
proof -
  obtain std where std: "std_Parse der = Inr std" using assms
    by (cases "std_Parse der") (auto simp: ParseCertificate_def split: if_splits)
  obtain outer rest where outer: "unmarshal_certificate der = Some (outer, rest)" using assms std
    by (cases "unmarshal_certificate der") (auto simp: ParseCertificate_def Let_def split: if_splits)
  obtain sa sg where sig: "gostAlgoFromSigOID (ai_Algorithm (oc_SignatureAlgorithm outer)) = (sa, sg)" by fastforce
  let ?spki = "tc_PublicKey (oc_TBSCertificate outer)"
  obtain pa pg where pk: "gostAlgoFromPubKeyOID (ai_Algorithm (pk_Algorithm ?spki)) = (pa, pg)" by fastforce
  note G = gostAlgo_cases(1) [OF sig] gostAlgo_cases(2) [OF pk]
  have "std_Parse der = Inr (xg_Stdlib c) \<and> xg_Raw c = der \<and> cert_wf c"
  proof (cases pg)
    case False
    then show ?thesis using assms G
      by (auto simp: ParseCertificate_def std outer sig pk cert_wf_def Let_def split: if_splits)
  next
    case True
    then obtain oid curve key where
      "gc_CurveByOID (oid_String oid) = Inr curve" "extractGOSTPubKeyBytes (pk_PublicKey ?spki) (2 * PointSize curve) = Inr key"
      and c: "xg_CurveOID c = oid" "xg_PubKeyRaw c = key" "xg_HasGOSTPubKey c" "xg_IsGOST c = sg" "xg_GOSTAlgo c = pa"
        "xg_SigGOSTAlgo c = (if sg then sa else 0)" "xg_Stdlib c = std" "xg_Raw c = der"
      using assms
      by (auto simp: ParseCertificate_def std outer sig pk Let_def bind_res_Inr_iff split: if_splits)
    moreover from this have "length key = 2 * PointSize curve" by (simp add: extractGOSTPubKeyBytes_length)
    ultimately show ?thesis using True G std by (auto simp: cert_wf_def)
  qed
  then show "std_Parse der = Inr (xg_Stdlib c)" "xg_Raw c = der" "cert_wf c" by simp_all
qed

section \<open>Printing a certificate\<close>

definition der_algid :: "oid \<Rightarrow> bytes \<Rightarrow> bytes" where
  "der_algid oid params = der_element 16 True (der_oid oid @ params)"

definition der_bits :: "bytes \<Rightarrow> bytes" where
  "der_bits b = der_element 3 False (0 # b)"

definition der_tbs :: "bytes \<Rightarrow> oid \<Rightarrow> bytes \<Rightarrow> bytes \<Rightarrow> bytes \<Rightarrow> bytes \<Rightarrow> bytes \<Rightarrow> bytes" where
  "der_tbs serial sigOID issuer validity subject alg bits =
     der_element 16 True ([0xa0, 3, 2, 1, 2] @ der_element 2 False serial @ der_algid sigOID [] @ der_element 16 True issuer @
       der_element 16 True validity @ der_element 16 True subject @ der_element 16 True (alg @ der_bits bits))"

definition der_certificate :: "bytes \<Rightarrow> oid \<Rightarrow> bytes \<Rightarrow> bytes" where
  "der_certificate tbs sigOID signature = der_element 16 True (tbs @ der_algid sigOID [] @ der_bits signature)"

lemma length_der_element: "length content < length (der_element tag c content)"
  by (simp add: der_element_def)

lemma expect_tag_der:
  "tag < 31 \<Longrightarrow> length content < 2 ^ 16 \<Longrightarrow> expect_tag tag c (der_element tag c content @ bs) = Some (content, bs)"
  using parse_element_der [of tag content c bs] by (simp add: expect_tag_def)

lemma unmarshal_oid_der: "oid_ok oid \<Longrightarrow> length (der_oid oid) < 2 ^ 16 \<Longrightarrow> unmarshal_oid (der_oid oid @ bs) = Some (oid, bs)"
proof -
  let ?c = "base128 (40 * oid ! 0 + oid ! 1) @ concat (map base128 (drop 2 oid))"
  assume oid: "oid_ok oid" and l: "length (der_oid oid) < 2 ^ 16"
  have "length ?c < length (der_oid oid)" unfolding der_oid_def by (rule length_der_element)
  then have "length ?c < 2 ^ 16" using l by (rule less_trans)
  then show ?thesis using expect_tag_der [of 6 ?c False bs] parseObjectIdentifier_print [OF oid]
    by (simp add: unmarshal_oid_def der_oid_def)
qed

lemma unmarshal_raw_der:
  "tag < 31 \<Longrightarrow> length content < 2 ^ 16 \<Longrightarrow> unmarshal_raw (der_element tag c content @ bs) =
    Some (\<lparr>rv_Class = 0, rv_Tag = tag, rv_IsCompound = c, rv_Bytes = content, rv_FullBytes = der_element tag c content\<rparr>, bs)"
  using parse_element_der [of tag content c bs] by (simp add: unmarshal_raw_def)

lemma unmarshal_bits_der: "length b + 1 < 2 ^ 16 \<Longrightarrow> unmarshal_bits (der_bits b @ bs) = Some (b, bs)"
  using expect_tag_der [of 3 "0 # b" False bs] by (simp add: unmarshal_bits_def der_bits_def)

text \<open>Parameters of the two forms the package reads, as elements.\<close>

definition curve_params :: "bool \<Rightarrow> oid \<Rightarrow> bytes \<Rightarrow> bytes" where
  "curve_params bare oid extra = (if bare then der_oid oid else der_element 16 True (der_oid oid @ extra))"

lemma parseCurveOID_params:
  assumes "oid_ok oid" "length (curve_params bare oid extra) < 2 ^ 16"
  obtains rv where "unmarshal_raw (curve_params bare oid extra @ bs) = Some (rv, bs)" "parseCurveOID rv = Inr oid"
proof (cases bare)
  case True
  let ?c = "base128 (40 * oid ! 0 + oid ! 1) @ concat (map base128 (drop 2 oid))"
  have l: "length (der_oid oid) < 2 ^ 16" using assms(2) True by (simp add: curve_params_def)
  have "length ?c < length (der_oid oid)" unfolding der_oid_def by (rule length_der_element)
  then have "length ?c < 2 ^ 16" using l by (rule less_trans)
  from unmarshal_raw_der [of 6 ?c False bs, OF _ this]
  have "unmarshal_raw (curve_params bare oid extra @ bs) =
    Some (\<lparr>rv_Class = 0, rv_Tag = 6, rv_IsCompound = False, rv_Bytes = ?c, rv_FullBytes = der_oid oid\<rparr>, bs)"
    using True by (simp add: curve_params_def der_oid_def)
  moreover have "parseCurveOID \<lparr>rv_Class = 0, rv_Tag = 6, rv_IsCompound = False, rv_Bytes = ?c, rv_FullBytes = der_oid oid\<rparr> = Inr oid"
    using unmarshal_oid_der [OF assms(1) l, of "[]"] by (simp add: parseCurveOID_def)
  ultimately show ?thesis by (rule that)
next
  case False
  let ?c = "der_oid oid @ extra"
  have l: "length (der_element 16 True ?c) < 2 ^ 16" using assms(2) False by (simp add: curve_params_def)
  have c: "length ?c < 2 ^ 16" using length_der_element [of ?c 16 True] l by (rule less_trans)
  then have o: "length (der_oid oid) < 2 ^ 16" by simp
  have "unmarshal_raw (curve_params bare oid extra @ bs) =
    Some (\<lparr>rv_Class = 0, rv_Tag = 16, rv_IsCompound = True, rv_Bytes = ?c, rv_FullBytes = der_element 16 True ?c\<rparr>, bs)"
    using unmarshal_raw_der [of 16 ?c True bs, OF _ c] False by (simp add: curve_params_def)
  moreover have "parseCurveOID \<lparr>rv_Class = 0, rv_Tag = 16, rv_IsCompound = True, rv_Bytes = ?c, rv_FullBytes = der_element 16 True ?c\<rparr> = Inr oid"
    using unmarshal_oid_der [OF assms(1) o, of extra] by (simp add: parseCurveOID_def der_oid_def der_element_def)
  ultimately show ?thesis by (rule that)
qed

lemma unmarshal_algid_der:
  assumes "oid_ok oid" "length (der_algid oid p) < 2 ^ 16" "if p = [] then rv = no_value else unmarshal_raw p = Some (rv, r)"
  shows "unmarshal_algid (der_algid oid p @ bs) =
    Some (\<lparr>ai_Raw = der_algid oid p, ai_Algorithm = oid, ai_Parameters = rv\<rparr>, bs)"
proof -
  have c: "length (der_oid oid @ p) < 2 ^ 16"
    using length_der_element [of "der_oid oid @ p" 16 True] assms(2) unfolding der_algid_def by (rule less_trans)
  then have "length (der_oid oid) < 2 ^ 16" by simp
  note o = unmarshal_oid_der [OF assms(1) this, of p]
  show ?thesis using assms(3) expect_tag_der [OF _ c, of 16 True bs] o
    by (cases "p = []") (simp_all add: unmarshal_algid_def der_algid_def)
qed

lemma unmarshal_spki_der:
  assumes "oid_ok pkOID" "oid_ok curveOID" "alg = der_algid pkOID (curve_params bare curveOID extra)"
    and "length (der_element 16 True (alg @ der_bits bits)) < 2 ^ 16"
  obtains rv where "unmarshal_spki (der_element 16 True (alg @ der_bits bits) @ bs) =
      Some (\<lparr>pk_Algorithm = \<lparr>ai_Raw = alg, ai_Algorithm = pkOID, ai_Parameters = rv\<rparr>, pk_PublicKey = bits\<rparr>, bs)"
    "parseCurveOID rv = Inr curveOID"
proof -
  let ?p = "curve_params bare curveOID extra"
  have c: "length (alg @ der_bits bits) < 2 ^ 16"
    using length_der_element [of "alg @ der_bits bits" 16 True] assms(4) by (rule less_trans)
  have a: "length (der_algid pkOID ?p) < 2 ^ 16" using c assms(3) by simp
  have b: "length bits + 1 < 2 ^ 16"
    using length_der_element [of "0 # bits" 3 False] c by (simp add: der_bits_def)
  have "length (der_oid pkOID @ ?p) < 2 ^ 16"
    using length_der_element [of "der_oid pkOID @ ?p" 16 True] a unfolding der_algid_def by (rule less_trans)
  then have "length ?p < 2 ^ 16" by simp
  then obtain rv where rv: "unmarshal_raw (?p @ []) = Some (rv, [])" "parseCurveOID rv = Inr curveOID"
    using parseCurveOID_params [OF assms(2)] by metis
  have ne: "?p \<noteq> []" by (simp add: curve_params_def der_oid_def der_element_def)
  have "unmarshal_algid (alg @ der_bits bits) =
      Some (\<lparr>ai_Raw = alg, ai_Algorithm = pkOID, ai_Parameters = rv\<rparr>, der_bits bits)"
    unfolding assms(3) by (rule unmarshal_algid_der [OF assms(1) a]) (use ne rv(1) in simp)
  then have "unmarshal_spki (der_element 16 True (alg @ der_bits bits) @ bs) =
      Some (\<lparr>pk_Algorithm = \<lparr>ai_Raw = alg, ai_Algorithm = pkOID, ai_Parameters = rv\<rparr>, pk_PublicKey = bits\<rparr>, bs)"
    using expect_tag_der [OF _ c, of 16 True bs] unmarshal_bits_der [OF b, of "[]"]
    by (simp add: unmarshal_spki_def)
  then show ?thesis using rv(2) by (rule that)
qed

lemma unmarshal_version_v3: "bs \<noteq> [] \<Longrightarrow> unmarshal_version ([0xa0, 3, 2, 1, 2] @ bs) = Some (2, bs)"
proof -
  assume "bs \<noteq> []"
  have "parseTagAndLength ([0xa0, 3, 2, 1, 2] @ bs) =
      Some (\<lparr>tl_class = 2, tl_compound = True, tl_tag = 0, tl_length = 3\<rparr>, [2, 1, 2] @ bs)"
    "parseTagAndLength ([2, 1, 2] @ bs) = Some (\<lparr>tl_class = 0, tl_compound = False, tl_tag = 2, tl_length = 1\<rparr>, 2 # bs)"
    by (simp_all add: parseTagAndLength_def parse_length_def Let_def)
  then show ?thesis by (simp add: unmarshal_version_def int64_value_def be_nat_def)
qed

lemma unmarshal_tbs_der:
  assumes "oid_ok sigOID" "oid_ok pkOID" "oid_ok curveOID" "alg = der_algid pkOID (curve_params bare curveOID extra)"
    and len: "length (der_tbs serial sigOID issuer validity subject alg bits) < 2 ^ 16"
  obtains tbs rv where "unmarshal_tbs (der_tbs serial sigOID issuer validity subject alg bits @ bs) = Some (tbs, bs)"
    "tc_PublicKey tbs = \<lparr>pk_Algorithm = \<lparr>ai_Raw = alg, ai_Algorithm = pkOID, ai_Parameters = rv\<rparr>, pk_PublicKey = bits\<rparr>"
    "parseCurveOID rv = Inr curveOID"
proof -
  let ?s = "der_element 2 False serial" and ?i = "der_element 16 True issuer" and ?v = "der_element 16 True validity"
    and ?j = "der_element 16 True subject" and ?k = "der_element 16 True (alg @ der_bits bits)" and ?a = "der_algid sigOID []"
  let ?c = "[0xa0, 3, 2, 1, 2] @ ?s @ ?a @ ?i @ ?v @ ?j @ ?k"
  have c: "length ?c < 2 ^ 16"
    using length_der_element [of ?c 16 True] len unfolding der_tbs_def by (rule less_trans)
  have "length ?a < 2 ^ 16" "length ?k < 2 ^ 16" using c by simp_all
  note ak = this
  have l: "length serial < 2 ^ 16" "length issuer < 2 ^ 16" "length validity < 2 ^ 16" "length subject < 2 ^ 16"
    using c length_der_element [of serial 2 False] length_der_element [of issuer 16 True]
      length_der_element [of validity 16 True] length_der_element [of subject 16 True]
    by simp_all
  obtain rv where k: "unmarshal_spki (?k @ []) =
      Some (\<lparr>pk_Algorithm = \<lparr>ai_Raw = alg, ai_Algorithm = pkOID, ai_Parameters = rv\<rparr>, pk_PublicKey = bits\<rparr>, [])"
    and rv: "parseCurveOID rv = Inr curveOID"
    by (rule unmarshal_spki_der [OF assms(2,3,4) ak(2)])
  note steps = unmarshal_version_v3 unmarshal_raw_der [of 2 serial False, OF _ l(1)] unmarshal_raw_der [of 16 issuer True, OF _ l(2)]
    unmarshal_raw_der [of 16 validity True, OF _ l(3)] unmarshal_raw_der [of 16 subject True, OF _ l(4)]
    unmarshal_algid_der [OF assms(1) ak(1), of no_value "[]"] k [simplified]
  have ver: "unmarshal_version ?c = Some (2, ?s @ ?a @ ?i @ ?v @ ?j @ ?k)"
    by (rule unmarshal_version_v3) (simp add: der_element_def)
  have "unmarshal_tbs (der_tbs serial sigOID issuer validity subject alg bits @ bs) =
    Some (\<lparr>tc_Raw = der_tbs serial sigOID issuer validity subject alg bits, tc_Version = 2,
      tc_SerialNumber = \<lparr>rv_Class = 0, rv_Tag = 2, rv_IsCompound = False, rv_Bytes = serial, rv_FullBytes = ?s\<rparr>,
      tc_SignatureAlgorithm = \<lparr>ai_Raw = ?a, ai_Algorithm = sigOID, ai_Parameters = no_value\<rparr>,
      tc_Issuer = \<lparr>rv_Class = 0, rv_Tag = 16, rv_IsCompound = True, rv_Bytes = issuer, rv_FullBytes = ?i\<rparr>,
      tc_Validity = \<lparr>rv_Class = 0, rv_Tag = 16, rv_IsCompound = True, rv_Bytes = validity, rv_FullBytes = ?v\<rparr>,
      tc_Subject = \<lparr>rv_Class = 0, rv_Tag = 16, rv_IsCompound = True, rv_Bytes = subject, rv_FullBytes = ?j\<rparr>,
      tc_PublicKey = \<lparr>pk_Algorithm = \<lparr>ai_Raw = alg, ai_Algorithm = pkOID, ai_Parameters = rv\<rparr>, pk_PublicKey = bits\<rparr>\<rparr>, bs)"
    unfolding unmarshal_tbs_def der_tbs_def
    using expect_tag_der [OF _ c, of 16 True bs] ver
    by (simp add: steps del: append_Cons)
  then show ?thesis by (rule that [OF _ _ rv]) simp
qed

lemma ParseCertificate_der:
  assumes "oid_ok sigOID" "oid_ok pkOID" "oid_ok curveOID" "alg = der_algid pkOID (curve_params bare curveOID extra)"
    and der: "der = der_certificate (der_tbs serial sigOID issuer validity subject alg bits) sigOID signature" "length der < 2 ^ 16"
    and algos: "gostAlgoFromSigOID sigOID = (sa, True)" "gostAlgoFromPubKeyOID pkOID = (pa, True)"
    and curve: "gc_CurveByOID (oid_String curveOID) = Inr curve" "length key = 2 * PointSize curve" "key \<noteq> []"
    and bits: "bits = (if wrapped then der_element 4 False key else key)"
    and std: "std_Parse der = Inr std"
  shows "ParseCertificate std_Parse der =
    Inr \<lparr>xg_Stdlib = std, xg_Raw = der, xg_IsGOST = True, xg_HasGOSTPubKey = True, xg_GOSTAlgo = pa, xg_SigGOSTAlgo = sa,
      xg_PubKeyRaw = key, xg_CurveOID = curveOID, xg_SPKIAlgorithmDER = alg\<rparr>"
proof -
  let ?t = "der_tbs serial sigOID issuer validity subject alg bits" and ?a = "der_algid sigOID []"
  let ?c = "?t @ ?a @ der_bits signature"
  have c: "length ?c < 2 ^ 16"
    using length_der_element [of ?c 16 True] der(2) unfolding der(1) der_certificate_def by (rule less_trans)
  have t: "length ?t < 2 ^ 16" and a: "length ?a < 2 ^ 16" using c by simp_all
  have b: "length signature + 1 < 2 ^ 16"
    using c length_der_element [of "0 # signature" 3 False] by (simp add: der_bits_def)
  have "length (0 # bits) < length (der_bits bits)" unfolding der_bits_def by (rule length_der_element)
  also have "\<dots> \<le> length (alg @ der_bits bits)" by simp
  also have "\<dots> < length (der_element 16 True (alg @ der_bits bits))" by (rule length_der_element)
  also have "\<dots> \<le> length ?t" by (simp add: der_tbs_def der_element_def)
  finally have "length bits < 2 ^ 16" using t by simp
  then have k: "length key < 2 ^ 16" using length_der_element [of key 4 False] by (cases wrapped) (auto simp: bits)
  obtain tbs rv where tbs: "unmarshal_tbs (?t @ ?a @ der_bits signature) = Some (tbs, ?a @ der_bits signature)"
    and pk: "tc_PublicKey tbs = \<lparr>pk_Algorithm = \<lparr>ai_Raw = alg, ai_Algorithm = pkOID, ai_Parameters = rv\<rparr>, pk_PublicKey = bits\<rparr>"
    and rv: "parseCurveOID rv = Inr curveOID"
    by (rule unmarshal_tbs_der [OF assms(1-4) t])
  have "unmarshal_certificate der = Some (\<lparr>oc_Raw = der, oc_TBSCertificate = tbs,
      oc_SignatureAlgorithm = \<lparr>ai_Raw = ?a, ai_Algorithm = sigOID, ai_Parameters = no_value\<rparr>, oc_Signature = signature\<rparr>, [])"
    using expect_tag_der [OF _ c, of 16 True "[]"] tbs unmarshal_algid_der [OF assms(1) a, of no_value "[]" "der_bits signature"]
      unmarshal_bits_der [OF b, of "[]"]
    by (simp add: unmarshal_certificate_def der(1) der_certificate_def)
  moreover have "extractGOSTPubKeyBytes bits (2 * PointSize curve) = Inr key"
    using extractGOSTPubKeyBytes_octets [OF k] extractGOSTPubKeyBytes_raw [OF curve(3)] curve(2) by (simp add: bits)
  moreover have "der \<noteq> []" by (simp add: der(1) der_certificate_def der_element_def)
  ultimately show ?thesis
    by (simp add: ParseCertificate_def std algos pk rv curve(1) Let_def)
qed

section \<open>Properties\<close>

text \<open>
  C24. A certificate the parser returns keeps its bytes and the standard library's reading of them; a
  GOST-signed one has a GOST key, the two algorithms are among the three known ones or zero, and
  with a GOST key the curve identifier resolves and the key is two coordinates of that curve.
\<close>

theorem ParseCertificate_fields:
  assumes "ParseCertificate std_Parse der = Inr c"
  shows "std_Parse der = Inr (xg_Stdlib c) \<and> xg_Raw c = der \<and> cert_wf c"
  using ParseCertificate_Inr [OF assms] by blast

text \<open>
  C22. A printed GOST certificate is parsed into what was printed: the signature and key algorithms, the
  curve identifier, whether the parameters are a bare identifier or a sequence that starts
  with it, the key, whether wrapped in an octet string or not, and the bytes of the key's
  algorithm identifier.
\<close>

theorem ParseCertificate_roundtrip:
  assumes "oid_ok sigOID" "oid_ok pkOID" "oid_ok curveOID" "alg = der_algid pkOID (curve_params bare curveOID extra)"
    and "der = der_certificate (der_tbs serial sigOID issuer validity subject alg bits) sigOID signature" "length der < 2 ^ 16"
    and "gostAlgoFromSigOID sigOID = (sa, True)" "gostAlgoFromPubKeyOID pkOID = (pa, True)"
    and "gc_CurveByOID (oid_String curveOID) = Inr curve" "length key = 2 * PointSize curve" "key \<noteq> []"
    and "bits = (if wrapped then der_element 4 False key else key)"
    and "std_Parse der = Inr std"
  shows "ParseCertificate std_Parse der =
    Inr \<lparr>xg_Stdlib = std, xg_Raw = der, xg_IsGOST = True, xg_HasGOSTPubKey = True, xg_GOSTAlgo = pa, xg_SigGOSTAlgo = sa,
      xg_PubKeyRaw = key, xg_CurveOID = curveOID, xg_SPKIAlgorithmDER = alg\<rparr>"
  using assms by (rule ParseCertificate_der)

text \<open>A certificate over the curve \<^verbatim>\<open>tc26-256-A\<close>, its parts as short as they may be.\<close>

definition std_example :: x509_cert where
  "std_example = \<lparr>xc_Raw = [], xc_RawTBSCertificate = [1, 2, 3], xc_RawSubject = [5], xc_RawIssuer = [5], xc_Signature = [],
     xc_NotBefore = 10, xc_NotAfter = 20, xc_BasicConstraintsValid = False, xc_IsCA = False, xc_MaxPathLen = -1,
     xc_KeyUsage = 0, xc_ExtKeyUsage = [], xc_UnknownExtKeyUsage = [], xc_UnhandledCriticalExtensions = [],
     xc_DNSNames = [], xc_IPAddresses = [], xc_EmailAddresses = [], xc_URIs = [], xc_PermittedDNSDomainsCritical = False,
     xc_PermittedDNSDomains = [], xc_ExcludedDNSDomains = [], xc_PermittedIPRanges = [], xc_ExcludedIPRanges = [],
     xc_PermittedEmailAddresses = [], xc_ExcludedEmailAddresses = [], xc_PermittedURIDomains = [], xc_ExcludedURIDomains = []\<rparr>"

definition alg_example :: bytes where
  "alg_example = der_algid OIDPublicKeyGOSTR341012_256 (curve_params False OIDParamTC26_256A [])"

definition der_example :: bytes where
  "der_example = der_certificate (der_tbs [1] OIDSignatureGOSTR341012_256 [] [] [] alg_example
     (der_element 4 False (replicate 64 7))) OIDSignatureGOSTR341012_256 [9]"

lemma example_facts:
  "oid_ok OIDSignatureGOSTR341012_256" "oid_ok OIDPublicKeyGOSTR341012_256" "oid_ok OIDParamTC26_256A"
  "gostAlgoFromSigOID OIDSignatureGOSTR341012_256 = (AlgoR341012_256, True)"
  "gostAlgoFromPubKeyOID OIDPublicKeyGOSTR341012_256 = (AlgoR341012_256, True)"
  by (simp_all add: oid_ok_def gostAlgoFromSigOID_def gostAlgoFromPubKeyOID_def OIDSignatureGOSTR341001_def
      OIDSignatureGOSTR341012_256_def OIDPublicKeyGOSTR341001_def OIDPublicKeyGOSTR341012_256_def OIDParamTC26_256A_def)

lemma example_oid: "oid_String OIDParamTC26_256A = ''1.2.643.7.1.2.1.1.1''"
  by code_simp

lemma example_length: "length der_example < 2 ^ 16"
proof -
  have "length der_example < 256" by code_simp
  then show ?thesis by simp
qed

lemma example_curve: "gc_CurveByOID (oid_String OIDParamTC26_256A) = Inr curveTc26256A" "PointSize curveTc26256A = 32"
proof -
  show "gc_CurveByOID (oid_String OIDParamTC26_256A) = Inr curveTc26256A"
    by (simp add: example_oid gc_CurveByOID_def CurveByOID_def)
  have "big_BitLen (cv_P curveTc26256A) = 256"
    using big_BitLen_eqI [of 255 "cv_P curveTc26256A"] by (simp add: curveTc26256A_def)
  then show "PointSize curveTc26256A = 32" by (simp add: PointSize_def)
qed

definition cert_example :: Certificate where
  "cert_example = \<lparr>xg_Stdlib = std_example, xg_Raw = der_example, xg_IsGOST = True, xg_HasGOSTPubKey = True,
     xg_GOSTAlgo = AlgoR341012_256, xg_SigGOSTAlgo = AlgoR341012_256, xg_PubKeyRaw = replicate 64 7,
     xg_CurveOID = OIDParamTC26_256A, xg_SPKIAlgorithmDER = alg_example\<rparr>"

theorem ParseCertificate_roundtrip_witness:
  "ParseCertificate (\<lambda>_. Inr std_example) der_example = Inr cert_example"
  unfolding cert_example_def
  by (rule ParseCertificate_roundtrip [OF example_facts(1,2,3) alg_example_def der_example_def example_length
        example_facts(4,5) example_curve(1), of "replicate 64 7" True]) (simp_all add: example_curve(2))

theorem ParseCertificate_fields_witness: "cert_wf cert_example \<and> xg_Raw cert_example = der_example"
proof -
  have "ParseCertificate (\<lambda>_. Inr std_example) der_example = Inr cert_example"
    unfolding cert_example_def
    by (rule ParseCertificate_der [OF example_facts(1,2,3) alg_example_def der_example_def example_length
          example_facts(4,5) example_curve(1), of "replicate 64 7" True]) (simp_all add: example_curve(2))
  from ParseCertificate_fields [OF this] show ?thesis by blast
qed

end
