(* ===== verification/X509_Verify.thy ===== *)
theory X509_Verify
  imports X509_Parse
begin

text \<open>
  \<^verbatim>\<open>x509gost/verify.go\<close>: signature check of an edge, chain building over the pools, the
  constraints of the assembled chain, and \<^verbatim>\<open>Certificate.Verify\<close>. Times are nanoseconds since the
  zero time; the pool type, \<^verbatim>\<open>x509.Certificate.Verify\<close>, \<^verbatim>\<open>VerifyHostname\<close> and the clock are the
  standard library's and are parameters. The pools hold certificates, so a nil entry, on which
  the code panics, is outside the model. Indexing that can fail is \<open>go_index\<close> of \<open>Go_Net\<close>, whose panic
  ends the call.
\<close>

section \<open>Options and errors\<close>

definition errGOSTRootsEmpty :: fault where
  "errGOSTRootsEmpty = Err ''x509gost: GOST-signed cert but GOSTRoots is empty''"
definition errCertNotYetValid :: fault where "errCertNotYetValid = Err ''x509gost: certificate is not yet valid''"
definition errCertExpired :: fault where "errCertExpired = Err ''x509gost: certificate has expired''"
definition errMixedChain :: fault where
  "errMixedChain = Err ''x509gost: mixed chain (GOST leaf, non-GOST root) is not supported''"
definition errNoValidGOSTChain :: fault where
  "errNoValidGOSTChain = Err ''x509gost: certificate verification failed: no valid GOST chain found''"
definition errVerifyOnNonGOST :: fault where
  "errVerifyOnNonGOST = Err ''x509gost: verifyGOSTSignature called on non-GOST cert''"
definition errParentNotGOST :: fault where
  "errParentNotGOST = Err ''x509gost: verifyGOSTSignature: parent is not GOST-signed; mixed chains not supported''"
definition errUnknownGOSTAlgo :: fault where "errUnknownGOSTAlgo = Err ''x509gost: unknown GOSTAlgo''"
definition errGOSTSigVerifyFailed :: fault where
  "errGOSTSigVerifyFailed = Err ''x509gost: GOST signature verification failed''"
definition errLeafEKUMismatch :: fault where
  "errLeafEKUMismatch = Err ''x509gost: leaf does not satisfy the requested extended key usages''"
definition errUnhandledCriticalExt :: fault where
  "errUnhandledCriticalExt = Err ''x509gost: certificate has an unhandled critical extension''"
definition errPathLenExceeded :: fault where
  "errPathLenExceeded =
     Err ''x509gost: too many intermediates for the pathLenConstraint of a CA in the chain''"

record 'pool VerifyOptions =
  vo_Roots :: 'pool
  vo_GOSTRoots :: "Certificate list"
  vo_GOSTIntermediates :: "Certificate list"
  vo_DNSName :: string
  vo_CurrentTime :: int
  vo_KeyUsages :: "int list"

record 'pool StdVerifyOptions =
  so_Roots :: 'pool
  so_DNSName :: string
  so_CurrentTime :: int
  so_KeyUsages :: "int list"

definition maxGOSTChainDepth :: nat where
  "maxGOSTChainDepth = 8"

definition toStdlibVerifyOptions :: "'pool VerifyOptions \<Rightarrow> 'pool StdVerifyOptions" where
  "toStdlibVerifyOptions opts =
     \<lparr>so_Roots = vo_Roots opts, so_DNSName = vo_DNSName opts, so_CurrentTime = vo_CurrentTime opts,
      so_KeyUsages = vo_KeyUsages opts\<rparr>"

section \<open>Checks of one certificate\<close>

definition ExtKeyUsageAny :: int where
  "ExtKeyUsageAny = 0"

definition KeyUsageCertSign :: int where
  "KeyUsageCertSign = 32"

definition leafSatisfiesKeyUsages :: "x509_cert \<Rightarrow> int list \<Rightarrow> bool" where
  "leafSatisfiesKeyUsages leaf requested =
     (if requested = [] then True
      else if xc_ExtKeyUsage leaf = [] \<and> xc_UnknownExtKeyUsage leaf = [] then True
      else if ExtKeyUsageAny \<in> set (xc_ExtKeyUsage leaf) then True
      else list_ex (\<lambda>want. want = ExtKeyUsageAny \<or> want \<in> set (xc_ExtKeyUsage leaf)) requested)"

definition issuerIsCA :: "x509_cert \<Rightarrow> bool" where
  "issuerIsCA parent =
     (if xc_BasicConstraintsValid parent \<and> \<not> xc_IsCA parent then False
      else if xc_KeyUsage parent \<noteq> 0 \<and> xc_KeyUsage parent AND KeyUsageCertSign = 0 then False
      else True)"

text \<open>The loop \<^verbatim>\<open>for i := range a\<close> that compares two slices, indexing both.\<close>

fun bytes_equal_loop :: "bytes \<Rightarrow> bytes \<Rightarrow> nat list \<Rightarrow> bool res" where
  "bytes_equal_loop a b [] = Inr True"
| "bytes_equal_loop a b (i # is) =
     bind_res (go_index a (int i)) (\<lambda>x. bind_res (go_index b (int i)) (\<lambda>y.
       if x \<noteq> y then Inr False else bytes_equal_loop a b is))"

definition subjectMatchesIssuer :: "x509_cert \<Rightarrow> x509_cert \<Rightarrow> bool res" where
  "subjectMatchesIssuer parent child =
     (if length (xc_RawSubject parent) \<noteq> length (xc_RawIssuer child) then Inr False
      else bytes_equal_loop (xc_RawSubject parent) (xc_RawIssuer child) [0..<length (xc_RawSubject parent)])"

definition certEqual :: "Certificate \<Rightarrow> Certificate \<Rightarrow> bool res" where
  "certEqual a b =
     (if length (xg_Raw a) \<noteq> length (xg_Raw b) then Inr False
      else bytes_equal_loop (xg_Raw a) (xg_Raw b) [0..<length (xg_Raw a)])"

text \<open>\<^verbatim>\<open>digestLE[len(digest)-1-i] = digest[i]\<close> for every index.\<close>

fun digestLE_loop :: "bytes \<Rightarrow> bytes \<Rightarrow> nat list \<Rightarrow> bytes res" where
  "digestLE_loop digest digestLE [] = Inr digestLE"
| "digestLE_loop digest digestLE (i # is) =
     bind_res (go_index digest (int i)) (\<lambda>b.
     bind_res (go_put digestLE (int (length digest) - 1 - int i) b) (\<lambda>digestLE. digestLE_loop digest digestLE is))"

definition verifyGOSTSignature :: "Certificate \<Rightarrow> Certificate \<Rightarrow> unit res" where
  "verifyGOSTSignature child parent =
     (if \<not> xg_IsGOST child then Inl errVerifyOnNonGOST
      else if \<not> xg_IsGOST parent then Inl errParentNotGOST
      else
        let tbsData = xc_RawTBSCertificate (xg_Stdlib child);
            sig = xc_Signature (xg_Stdlib child)
        in bind_res
          (if xg_SigGOSTAlgo child = AlgoR341001 then Inr (gh_Sum (gh_Write gh_New tbsData) [])
           else if xg_SigGOSTAlgo child = AlgoR341012_256 then Inr (sb_Sum (sb_Write sb_New256 tbsData) [])
           else if xg_SigGOSTAlgo child = AlgoR341012_512 then Inr (sb_Sum (sb_Write sb_New512 tbsData) [])
           else Inl errUnknownGOSTAlgo)
          (\<lambda>digest.
            bind_res (digestLE_loop digest (replicate (length digest) 0) [0..<length digest]) (\<lambda>digestLE.
            bind_res (gc_CurveByOID (oid_String (xg_CurveOID parent))) (\<lambda>curve.
            bind_res (verifyOnCurve curve (xg_PubKeyRaw parent) digestLE sig) (\<lambda>valid.
              if \<not> valid then Inl errGOSTSigVerifyFailed else Inr ())))))"

text \<open>\<^verbatim>\<open>verifyGOSTSignature(child, parent) == nil\<close>: an error is a mismatch, a panic is not caught.\<close>

definition is_nil :: "unit res \<Rightarrow> bool res" where
  "is_nil r = (case r of Inl (Panic m) \<Rightarrow> Inl (Panic m) | Inl (Err m) \<Rightarrow> Inr False | Inr u \<Rightarrow> Inr True)"

definition signerOf :: "Certificate \<Rightarrow> Certificate \<Rightarrow> int \<Rightarrow> bool res" where
  "signerOf parent child now =
     bind_res (subjectMatchesIssuer (xg_Stdlib parent) (xg_Stdlib child)) (\<lambda>matches.
       if \<not> matches then Inr False
       else if now < xc_NotBefore (xg_Stdlib parent) \<or> now > xc_NotAfter (xg_Stdlib parent) then Inr False
       else if \<not> issuerIsCA (xg_Stdlib parent) then Inr False
       else is_nil (verifyGOSTSignature child parent))"

section \<open>Chain building\<close>

text \<open>The search returns the chain, or nothing, and whether it skipped a certificate that is not GOST.\<close>

fun chain_roots ::
  "Certificate \<Rightarrow> int \<Rightarrow> Certificate list \<Rightarrow> bool \<Rightarrow> (Certificate list option \<times> bool) res" where
  "chain_roots child now [] saw = Inr (None, saw)"
| "chain_roots child now (r # roots) saw =
     (if \<not> xg_IsGOST r then chain_roots child now roots True
      else bind_res (signerOf r child now) (\<lambda>signer.
        if \<not> signer then chain_roots child now roots saw
        else Inr (Some [child, r], saw)))"

fun chain_inters ::
  "(Certificate \<Rightarrow> bool \<Rightarrow> (Certificate list option \<times> bool) res) \<Rightarrow> Certificate \<Rightarrow> int \<Rightarrow> Certificate list \<Rightarrow> bool \<Rightarrow>
   (Certificate list option \<times> bool) res" where
  "chain_inters search child now [] saw = Inr (None, saw)"
| "chain_inters search child now (cert # inters) saw =
     (if \<not> xg_IsGOST cert then chain_inters search child now inters True
      else bind_res (certEqual cert child) (\<lambda>equal.
        if equal then chain_inters search child now inters saw
        else bind_res (signerOf cert child now) (\<lambda>signer.
          if \<not> signer then chain_inters search child now inters saw
          else bind_res (search cert saw) (\<lambda>found. case found of
                 (Some rest, saw) \<Rightarrow> Inr (Some (child # rest), saw)
               | (None, saw) \<Rightarrow> chain_inters search child now inters saw))))"

fun buildGOSTChainRec ::
  "nat \<Rightarrow> Certificate list \<Rightarrow> Certificate list \<Rightarrow> int \<Rightarrow> Certificate \<Rightarrow> bool \<Rightarrow> (Certificate list option \<times> bool) res" where
  "buildGOSTChainRec 0 gostRoots gostIntermediates now child saw = Inr (None, saw)"
| "buildGOSTChainRec (Suc depthLeft) gostRoots gostIntermediates now child saw =
     bind_res (chain_roots child now gostRoots saw) (\<lambda>found. case found of
        (Some chain, saw) \<Rightarrow> Inr (Some chain, saw)
      | (None, saw) \<Rightarrow>
        chain_inters (buildGOSTChainRec depthLeft gostRoots gostIntermediates now) child now gostIntermediates saw)"

definition check_chain_cert :: "Certificate list \<Rightarrow> nat \<Rightarrow> unit res" where
  "check_chain_cert chain i =
     bind_res (go_index chain (int i)) (\<lambda>cert.
       let std = xg_Stdlib cert
       in if length (xc_UnhandledCriticalExtensions std) > 0 then Inl errUnhandledCriticalExt
          else if xc_BasicConstraintsValid std \<and> xc_MaxPathLen std \<ge> 0 \<and> int i - 1 > xc_MaxPathLen std
          then Inl errPathLenExceeded
          else for_each [0..<i] (\<lambda>j. bind_res (go_index chain (int j)) (\<lambda>below. applyNameConstraints std (xg_Stdlib below))))"

definition validateGOSTChainConstraints :: "Certificate list \<Rightarrow> unit res" where
  "validateGOSTChainConstraints chain = for_each [0..<length chain] (check_chain_cert chain)"

definition buildGOSTChain ::
  "Certificate \<Rightarrow> Certificate list \<Rightarrow> Certificate list \<Rightarrow> int \<Rightarrow> Certificate list res" where
  "buildGOSTChain leaf gostRoots gostIntermediates now =
     bind_res (buildGOSTChainRec maxGOSTChainDepth gostRoots gostIntermediates now leaf False) (\<lambda>found. case found of
        (Some chain, _) \<Rightarrow> bind_res (validateGOSTChainConstraints chain) (\<lambda>_. Inr chain)
      | (None, sawNonGOST) \<Rightarrow> if sawNonGOST then Inl errMixedChain else Inl errNoValidGOSTChain)"

definition Verify ::
  "(x509_cert \<Rightarrow> 'pool StdVerifyOptions \<Rightarrow> x509_cert list list res) \<Rightarrow> (x509_cert \<Rightarrow> string \<Rightarrow> unit res) \<Rightarrow> int \<Rightarrow>
   Certificate \<Rightarrow> 'pool VerifyOptions \<Rightarrow> Certificate list list res" where
  "Verify std_Verify VerifyHostname clock c opts =
     (if \<not> xg_IsGOST c
      then bind_res (std_Verify (xg_Stdlib c) (toStdlibVerifyOptions opts)) (\<lambda>stdChains.
        Inr (map (map (\<lambda>sc. \<lparr>xg_Stdlib = sc, xg_Raw = xc_Raw sc, xg_IsGOST = False, xg_HasGOSTPubKey = False,
          xg_GOSTAlgo = 0, xg_SigGOSTAlgo = 0, xg_PubKeyRaw = [], xg_CurveOID = [], xg_SPKIAlgorithmDER = []\<rparr>)) stdChains))
      else if length (vo_GOSTRoots opts) = 0 then Inl errGOSTRootsEmpty
      else
        let now = (if vo_CurrentTime opts = 0 then clock else vo_CurrentTime opts)
        in if now < xc_NotBefore (xg_Stdlib c) then Inl errCertNotYetValid
           else if now > xc_NotAfter (xg_Stdlib c) then Inl errCertExpired
           else bind_res (if vo_DNSName opts \<noteq> [] then VerifyHostname (xg_Stdlib c) (vo_DNSName opts) else Inr ()) (\<lambda>_.
             if \<not> leafSatisfiesKeyUsages (xg_Stdlib c) (vo_KeyUsages opts) then Inl errLeafEKUMismatch
             else bind_res (buildGOSTChain c (vo_GOSTRoots opts) (vo_GOSTIntermediates opts) now) (\<lambda>chain. Inr [chain])))"

section \<open>Loops over slices\<close>

lemma bytes_equal_loop_eq:
  "length a = length b \<Longrightarrow> list_all (\<lambda>i. i < length a) is \<Longrightarrow>
   bytes_equal_loop a b is = Inr (list_all (\<lambda>i. a ! i = b ! i) is)"
  by (induction a b "is" rule: bytes_equal_loop.induct) simp_all

lemma bytes_equal: "(if length a \<noteq> length b then Inr False else bytes_equal_loop a b [0..<length a]) = Inr (a = b)"
proof (cases "length a = length b")
  case True
  then have "bytes_equal_loop a b [0..<length a] = Inr (list_all (\<lambda>i. a ! i = b ! i) [0..<length a])"
    by (intro bytes_equal_loop_eq) (simp_all add: list_all_iff)
  moreover have "list_all (\<lambda>i. a ! i = b ! i) [0..<length a] \<longleftrightarrow> a = b"
    using True by (auto simp: list_all_iff intro: nth_equalityI)
  ultimately show ?thesis using True by simp
qed auto

lemma digestLE_loop_run:
  "length le = length digest \<Longrightarrow> list_all (\<lambda>i. i < length digest) is \<Longrightarrow>
   \<exists>r. digestLE_loop digest le is = Inr r \<and> length r = length digest \<and>
     (\<forall>k<length digest. r ! k = (if length digest - 1 - k \<in> set is then digest ! (length digest - 1 - k) else le ! k))"
proof (induction digest le "is" rule: digestLE_loop.induct)
  case (2 digest le i "is")
  let ?j = "length digest - 1 - i"
  have i: "i < length digest" "?j < length le" "length digest - 1 - ?j = i" using 2 by auto
  have "int (length digest) - 1 - int i = int ?j" using i(1) by (simp add: of_nat_diff)
  then have put: "go_put le (int (length digest) - 1 - int i) (digest ! i) = Inr (le[?j := digest ! i])"
    using i(2) by (simp only: go_put_simps)
  obtain r where r: "digestLE_loop digest (le[?j := digest ! i]) is = Inr r" "length r = length digest"
    "\<forall>k<length digest. r ! k = (if length digest - 1 - k \<in> set is then digest ! (length digest - 1 - k) else le[?j := digest ! i] ! k)"
    using "2.IH" [OF go_index_simps(2) [OF i(1)] put] "2.prems" by auto
  have "\<forall>k<length digest. r ! k = (if length digest - 1 - k \<in> set (i # is) then digest ! (length digest - 1 - k) else le ! k)"
  proof (intro allI impI)
    fix k assume k: "k < length digest"
    then have "k = ?j \<longleftrightarrow> length digest - 1 - k = i" using i by auto
    then show "r ! k = (if length digest - 1 - k \<in> set (i # is) then digest ! (length digest - 1 - k) else le ! k)"
      using r(3) k "2.prems"(1) by (auto simp: nth_list_update)
  qed
  then show ?case using r i(1) put by (intro exI [of _ r]) simp
qed simp

text \<open>The bytes that are verified are the digest reversed.\<close>

lemma digestLE_loop_rev: "digestLE_loop digest (replicate (length digest) 0) [0..<length digest] = Inr (rev digest)"
proof -
  obtain r where "digestLE_loop digest (replicate (length digest) 0) [0..<length digest] = Inr r" "length r = length digest"
    "\<forall>k<length digest. r ! k = (if length digest - 1 - k \<in> set [0..<length digest] then digest ! (length digest - 1 - k)
       else replicate (length digest) 0 ! k)"
    using digestLE_loop_run [of "replicate (length digest) 0" digest "[0..<length digest]"] by (auto simp: list_all_iff)
  moreover from this have "r = rev digest" by (intro nth_equalityI) (auto simp: rev_nth)
  ultimately show ?thesis by simp
qed

section \<open>Panics of a certificate\<close>

lemma parseCurveOID_no_panic: "no_panic (parseCurveOID rv)"
  by (simp add: parseCurveOID_def errSPKINoParameters_def errCannotParseCurveOID_def split: option.split)

lemma extractGOSTPubKeyBytes_no_panic: "no_panic (extractGOSTPubKeyBytes bits n)"
  by (simp add: extractGOSTPubKeyBytes_def errEmptyPubKeyBitString_def errPubKeyLength_def split: option.split)

lemmas x509_no_panic_intros =
  no_panic_bind gc_CurveByOID_no_panic parseCurveOID_no_panic extractGOSTPubKeyBytes_no_panic for_each_no_panic
  applyNameConstraints_no_panic

lemmas x509_errors =
  errEmptyDERInput_def errTrailingData_def errSigGOSTButPubKeyNotGOST_def errASN1_def errUnhandledCriticalExt_def
  errPathLenExceeded_def errMixedChain_def errNoValidGOSTChain_def errGOSTRootsEmpty_def errCertNotYetValid_def
  errCertExpired_def errLeafEKUMismatch_def errVerifyOnNonGOST_def errParentNotGOST_def errUnknownGOSTAlgo_def
  errGOSTSigVerifyFailed_def

lemma ParseCertificate_no_panic: "no_panic (std_Parse der) \<Longrightarrow> no_panic (ParseCertificate std_Parse der)"
  unfolding ParseCertificate_def
  by (auto simp: x509_errors Let_def intro!: x509_no_panic_intros split: option.split prod.split)

lemma verifyGOSTSignature_no_panic: "no_panic (verifyGOSTSignature child parent)"
  unfolding verifyGOSTSignature_def
  by (auto simp: x509_errors Let_def verifyOnCurve_def digestLE_loop_rev intro!: x509_no_panic_intros)

lemma is_nil_eq: "no_panic r \<Longrightarrow> is_nil r = Inr (r = Inr ())"
  by (auto simp: is_nil_def no_panic_def split: sum.split fault.split)

section \<open>Paths of trust\<close>

text \<open>
  What the search looks for, without an order of search: a certificate may sign another, and a path
  from a leaf over distinct neighbours of the intermediate pool to one of the roots.
\<close>

definition signs :: "Certificate \<Rightarrow> Certificate \<Rightarrow> int \<Rightarrow> bool" where
  "signs parent child now \<longleftrightarrow>
     xc_RawSubject (xg_Stdlib parent) = xc_RawIssuer (xg_Stdlib child) \<and>
     xc_NotBefore (xg_Stdlib parent) \<le> now \<and> now \<le> xc_NotAfter (xg_Stdlib parent) \<and>
     (xc_BasicConstraintsValid (xg_Stdlib parent) \<longrightarrow> xc_IsCA (xg_Stdlib parent)) \<and>
     (xc_KeyUsage (xg_Stdlib parent) = 0 \<or> xc_KeyUsage (xg_Stdlib parent) AND KeyUsageCertSign \<noteq> 0) \<and>
     verifyGOSTSignature child parent = Inr ()"

inductive trust_path :: "Certificate list \<Rightarrow> Certificate list \<Rightarrow> int \<Rightarrow> Certificate \<Rightarrow> Certificate list \<Rightarrow> bool"
  for roots inters now
where
  anchor: "r \<in> set roots \<Longrightarrow> xg_IsGOST r \<Longrightarrow> signs r c now \<Longrightarrow> trust_path roots inters now c [c, r]"
| link: "i \<in> set inters \<Longrightarrow> xg_IsGOST i \<Longrightarrow> xg_Raw i \<noteq> xg_Raw c \<Longrightarrow> signs i c now \<Longrightarrow>
    trust_path roots inters now i ch \<Longrightarrow> trust_path roots inters now c (c # ch)"

text \<open>The same path read from the list of its certificates.\<close>

lemma trust_pathD:
  "trust_path roots inters now c ch \<Longrightarrow>
   2 \<le> length ch \<and> hd ch = c \<and> last ch \<in> set roots \<and> set (butlast (tl ch)) \<subseteq> set inters \<and> list_all xg_IsGOST (tl ch) \<and>
   successively (\<lambda>child parent. signs parent child now) ch"
proof (induction rule: trust_path.induct)
  case (link i c ch)
  then obtain a b rest where "ch = a # b # rest" by (auto simp: Suc_le_length_iff numeral_2_eq_2)
  with link show ?case by auto
qed simp

lemma signerOf_signs: "signerOf parent child now = Inr (signs parent child now)"
  unfolding signerOf_def subjectMatchesIssuer_def bytes_equal
  by (auto simp: signs_def issuerIsCA_def is_nil_eq verifyGOSTSignature_no_panic)

lemma certEqual_iff: "certEqual a b = Inr (xg_Raw a = xg_Raw b)"
  unfolding certEqual_def by (rule bytes_equal)

lemma chain_roots_spec:
  "(\<exists>r s. chain_roots c now rs saw = Inr (Some [c, r], s) \<and> r \<in> set rs \<and> xg_IsGOST r \<and> signs r c now) \<or>
   chain_roots c now rs saw = Inr (None, saw \<or> \<not> list_all xg_IsGOST rs) \<and> (\<forall>r\<in>set rs. \<not> (xg_IsGOST r \<and> signs r c now))"
  by (induction c now rs saw rule: chain_roots.induct) (auto simp: signerOf_signs)

lemma chain_inters_spec:
  assumes "\<And>i saw. (\<exists>ch s. search i saw = Inr (Some ch, s) \<and> P i ch) \<or> (\<exists>s. search i saw = Inr (None, s) \<and> (saw \<longrightarrow> s) \<and> (s \<longrightarrow> saw \<or> M) \<and> Q i)"
  shows "(\<exists>i ch s. chain_inters search c now is saw = Inr (Some (c # ch), s) \<and> i \<in> set is \<and> xg_IsGOST i \<and>
      xg_Raw i \<noteq> xg_Raw c \<and> signs i c now \<and> P i ch) \<or>
    (\<exists>s. chain_inters search c now is saw = Inr (None, s) \<and> (saw \<or> \<not> list_all xg_IsGOST is \<longrightarrow> s) \<and>
      (s \<longrightarrow> saw \<or> \<not> list_all xg_IsGOST is \<or> M) \<and>
      (\<forall>i\<in>set is. \<not> (xg_IsGOST i \<and> xg_Raw i \<noteq> xg_Raw c \<and> signs i c now) \<or> Q i))"
proof (induction "is" arbitrary: saw)
  case (Cons i "is")
  show ?case
  proof (cases "xg_IsGOST i \<and> xg_Raw i \<noteq> xg_Raw c \<and> signs i c now")
    case False
    have "chain_inters search c now (i # is) saw = chain_inters search c now is (saw \<or> \<not> xg_IsGOST i)"
      using False by (auto simp: certEqual_iff signerOf_signs)
    then show ?thesis using Cons.IH [of "saw \<or> \<not> xg_IsGOST i"] False
      by (auto simp: certEqual_iff signerOf_signs)
  next
    case True
    from assms [of i saw] show ?thesis
    proof (elim disjE exE conjE)
      fix ch s
      assume "search i saw = Inr (Some ch, s)" "P i ch"
      then show ?thesis using True by (auto simp: certEqual_iff signerOf_signs)
    next
      fix s
      assume s: "search i saw = Inr (None, s)" "saw \<longrightarrow> s" "s \<longrightarrow> saw \<or> M" "Q i"
      have "chain_inters search c now (i # is) saw = chain_inters search c now is s"
        using True s(1) by (simp add: certEqual_iff signerOf_signs)
      then show ?thesis using Cons.IH [of s] s True by auto
    qed
  qed
qed simp

lemma no_short_path: "trust_path roots inters now c ch \<Longrightarrow> \<not> length ch \<le> 1"
  using trust_pathD [of roots inters now c ch] by auto

text \<open>Whether a pool has a certificate that is not GOST.\<close>

definition mixed_pools :: "Certificate list \<Rightarrow> Certificate list \<Rightarrow> bool" where
  "mixed_pools roots inters \<longleftrightarrow> \<not> list_all xg_IsGOST roots \<or> \<not> list_all xg_IsGOST inters"

lemma buildGOSTChainRec_spec:
  "(\<exists>ch s. buildGOSTChainRec n roots inters now c saw = Inr (Some ch, s) \<and> trust_path roots inters now c ch \<and> length ch \<le> n + 1) \<or>
   (\<exists>s. buildGOSTChainRec n roots inters now c saw = Inr (None, s) \<and> (saw \<longrightarrow> s) \<and> (s \<longrightarrow> saw \<or> mixed_pools roots inters) \<and>
     (0 < n \<longrightarrow> mixed_pools roots inters \<longrightarrow> s) \<and> \<not> (\<exists>ch. trust_path roots inters now c ch \<and> length ch \<le> n + 1))"
proof (induction n arbitrary: c saw)
  case 0
  then show ?case using no_short_path by fastforce
next
  case (Suc n)
  let ?P = "\<lambda>i ch. trust_path roots inters now i ch \<and> length ch \<le> n + 1"
  have search: "(\<exists>ch s. buildGOSTChainRec n roots inters now i saw = Inr (Some ch, s) \<and> ?P i ch) \<or>
      (\<exists>s. buildGOSTChainRec n roots inters now i saw = Inr (None, s) \<and> (saw \<longrightarrow> s) \<and>
        (s \<longrightarrow> saw \<or> mixed_pools roots inters) \<and> \<not> (\<exists>ch. ?P i ch))" for i saw
    using Suc [of i saw] by blast
  from chain_roots_spec [of c now roots saw] show ?case
  proof (elim disjE exE conjE)
    fix r s
    assume "chain_roots c now roots saw = Inr (Some [c, r], s)" "r \<in> set roots" "xg_IsGOST r" "signs r c now"
    then show ?thesis by (auto intro: trust_path.anchor)
  next
    assume r: "chain_roots c now roots saw = Inr (None, saw \<or> \<not> list_all xg_IsGOST roots)"
      and nr: "\<forall>r\<in>set roots. \<not> (xg_IsGOST r \<and> signs r c now)"
    let ?s = "saw \<or> \<not> list_all xg_IsGOST roots"
    have e: "buildGOSTChainRec (Suc n) roots inters now c saw =
        chain_inters (buildGOSTChainRec n roots inters now) c now inters ?s"
      by (simp add: r)
    from chain_inters_spec [of "buildGOSTChainRec n roots inters now" ?P "mixed_pools roots inters" "\<lambda>i. \<not> (\<exists>ch. ?P i ch)" c now inters ?s, OF search]
    show ?thesis
    proof (elim disjE exE conjE)
      fix i ch s
      assume "chain_inters (buildGOSTChainRec n roots inters now) c now inters ?s = Inr (Some (c # ch), s)"
        and "i \<in> set inters" "xg_IsGOST i" "xg_Raw i \<noteq> xg_Raw c" "signs i c now"
        and "trust_path roots inters now i ch" "length ch \<le> n + 1"
      then show ?thesis unfolding e by (auto intro: trust_path.link)
    next
      fix s
      assume i: "chain_inters (buildGOSTChainRec n roots inters now) c now inters ?s = Inr (None, s)"
        and s: "?s \<or> \<not> list_all xg_IsGOST inters \<longrightarrow> s" "s \<longrightarrow> ?s \<or> \<not> list_all xg_IsGOST inters \<or> mixed_pools roots inters"
        and ni: "\<forall>i\<in>set inters. \<not> (xg_IsGOST i \<and> xg_Raw i \<noteq> xg_Raw c \<and> signs i c now) \<or> \<not> (\<exists>ch. ?P i ch)"
      have "\<not> (trust_path roots inters now c ch \<and> length ch \<le> Suc n + 1)" for ch
      proof
        assume a: "trust_path roots inters now c ch \<and> length ch \<le> Suc n + 1"
        then have "trust_path roots inters now c ch" by simp
        then show False
        proof (cases rule: trust_path.cases)
          case (anchor r)
          then show False using nr by blast
        next
          case (link i ch')
          then have "?P i ch'" using a by simp
          then show False using link ni by blast
        qed
      qed
      then show ?thesis unfolding e i using s by (auto simp: mixed_pools_def)
    qed
  qed
qed

section \<open>Constraints of a chain\<close>

definition chain_constraints_ok :: "Certificate list \<Rightarrow> bool" where
  "chain_constraints_ok ch \<longleftrightarrow> (\<forall>i<length ch. let ca = xg_Stdlib (ch ! i) in
     xc_UnhandledCriticalExtensions ca = [] \<and>
     (xc_BasicConstraintsValid ca \<and> 0 \<le> xc_MaxPathLen ca \<longrightarrow> int i - 1 \<le> xc_MaxPathLen ca) \<and>
     (constrained ca \<longrightarrow> (\<forall>j<i. names_allowed ca (xg_Stdlib (ch ! j)))))"

lemma validateGOSTChainConstraints_Inr: "validateGOSTChainConstraints ch = Inr () \<longleftrightarrow> chain_constraints_ok ch"
proof -
  have "check_chain_cert ch i = Inr () \<longleftrightarrow> (let ca = xg_Stdlib (ch ! i) in
     xc_UnhandledCriticalExtensions ca = [] \<and>
     (xc_BasicConstraintsValid ca \<and> 0 \<le> xc_MaxPathLen ca \<longrightarrow> int i - 1 \<le> xc_MaxPathLen ca) \<and>
     (constrained ca \<longrightarrow> (\<forall>j<i. names_allowed ca (xg_Stdlib (ch ! j)))))" if "i < length ch" for i
    using that by (auto simp: check_chain_cert_def for_each_Inr applyNameConstraints_Inr Let_def not_less)
  then show ?thesis by (simp add: validateGOSTChainConstraints_def for_each_Inr chain_constraints_ok_def Ball_def)
qed

text \<open>
  The first root that signed the leaf decides: when its chain breaks a constraint, the error is
  returned although another root of the pool may also have signed the leaf.
\<close>

lemma buildGOSTChain_first_root:
  assumes "xg_IsGOST r" "signs r leaf now"
  shows "buildGOSTChain leaf (r # roots) inters now = bind_res (validateGOSTChainConstraints [leaf, r]) (\<lambda>_. Inr [leaf, r])"
  using assms by (simp add: buildGOSTChain_def maxGOSTChainDepth_def signerOf_signs numeral_eq_Suc)

lemma no_path_to_other_roots: "list_all (\<lambda>r. \<not> xg_IsGOST r) roots \<Longrightarrow> \<not> trust_path roots inters now c ch"
proof
  assume r: "list_all (\<lambda>r. \<not> xg_IsGOST r) roots" and p: "trust_path roots inters now c ch"
  note D = trust_pathD [OF p]
  then obtain a b rest where ch: "ch = a # b # rest" by (auto simp: Suc_le_length_iff numeral_2_eq_2)
  then have "last ch \<in> set (tl ch)" by simp
  then show False using D r by (auto simp: list_all_iff)
qed

section \<open>Panics\<close>

lemma validateGOSTChainConstraints_no_panic:
  "list_all (\<lambda>c. nets_ok (xg_Stdlib c)) ch \<Longrightarrow> no_panic (validateGOSTChainConstraints ch)"
proof -
  assume ok: "list_all (\<lambda>c. nets_ok (xg_Stdlib c)) ch"
  have "no_panic (check_chain_cert ch i)" if "i \<in> set [0..<length ch]" for i
    using ok that by (auto simp: check_chain_cert_def x509_errors Let_def list_all_length intro!: x509_no_panic_intros)
  then show ?thesis unfolding validateGOSTChainConstraints_def
    by (rule for_each_no_panic)
qed

section \<open>Properties\<close>

text \<open>
  C6. The search for a chain finds one exactly when there is one within its depth: what it returns is a
  path of valid signatures from the certificate over intermediates to a root, of at most one
  certificate more than the depth, and if it returns nothing there is no such path.
\<close>

theorem buildGOSTChainRec_search:
  "\<exists>found s. buildGOSTChainRec n roots inters now c saw = Inr (found, s) \<and>
    (case found of
       Some ch \<Rightarrow> trust_path roots inters now c ch \<and> length ch \<le> n + 1
     | None \<Rightarrow> \<not> (\<exists>ch. trust_path roots inters now c ch \<and> length ch \<le> n + 1))"
  using buildGOSTChainRec_spec [of n roots inters now c saw] by auto

text \<open>The checks of the leaf, and the time they are made at.\<close>

definition verify_time :: "int \<Rightarrow> 'pool VerifyOptions \<Rightarrow> int" where
  "verify_time clock opts = (if vo_CurrentTime opts = 0 then clock else vo_CurrentTime opts)"

definition leaf_ok :: "(x509_cert \<Rightarrow> string \<Rightarrow> unit res) \<Rightarrow> int \<Rightarrow> Certificate \<Rightarrow> 'pool VerifyOptions \<Rightarrow> bool" where
  "leaf_ok VerifyHostname now c opts \<longleftrightarrow> vo_GOSTRoots opts \<noteq> [] \<and>
     xc_NotBefore (xg_Stdlib c) \<le> now \<and> now \<le> xc_NotAfter (xg_Stdlib c) \<and>
     (vo_DNSName opts = [] \<or> VerifyHostname (xg_Stdlib c) (vo_DNSName opts) = Inr ()) \<and>
     leafSatisfiesKeyUsages (xg_Stdlib c) (vo_KeyUsages opts)"

text \<open>
  C5. Verify of a GOST certificate: a result is one chain, a path of trust of two to nine certificates
  valid at the time, without unhandled critical extensions, within every path length and
  name constraint, for a leaf that passes its checks. An error for such a leaf means that no path
  of that length exists, and says whether a pool is mixed, or that a path breaks a constraint.
\<close>

theorem Verify_gost:
  assumes "xg_IsGOST c" "now = verify_time clock opts"
  shows "case Verify std_Verify VerifyHostname clock c opts of
      Inr found \<Rightarrow> leaf_ok VerifyHostname now c opts \<and>
        (\<exists>ch. found = [ch] \<and> trust_path (vo_GOSTRoots opts) (vo_GOSTIntermediates opts) now c ch \<and>
          2 \<le> length ch \<and> length ch \<le> 9 \<and> chain_constraints_ok ch)
    | Inl e \<Rightarrow> leaf_ok VerifyHostname now c opts \<longrightarrow>
        (if \<exists>ch. trust_path (vo_GOSTRoots opts) (vo_GOSTIntermediates opts) now c ch \<and> length ch \<le> 9
         then \<exists>ch. trust_path (vo_GOSTRoots opts) (vo_GOSTIntermediates opts) now c ch \<and> length ch \<le> 9 \<and>
           \<not> chain_constraints_ok ch
         else e = (if mixed_pools (vo_GOSTRoots opts) (vo_GOSTIntermediates opts) then errMixedChain else errNoValidGOSTChain))"
proof (cases "leaf_ok VerifyHostname now c opts")
  case False
  then have "\<exists>e. Verify std_Verify VerifyHostname clock c opts = Inl e"
    using assms by (cases "VerifyHostname (xg_Stdlib c) (vo_DNSName opts)")
      (auto simp: Verify_def leaf_ok_def verify_time_def Let_def)
  then show ?thesis using False by auto
next
  case True
  let ?R = "vo_GOSTRoots opts" and ?I = "vo_GOSTIntermediates opts"
  have V: "Verify std_Verify VerifyHostname clock c opts = bind_res (buildGOSTChain c ?R ?I now) (\<lambda>ch. Inr [ch])"
    using True assms by (auto simp: Verify_def leaf_ok_def verify_time_def Let_def)
  from buildGOSTChainRec_spec [of 8 ?R ?I now c False] show ?thesis
  proof (elim disjE exE conjE)
    fix ch s
    assume r: "buildGOSTChainRec 8 ?R ?I now c False = Inr (Some ch, s)" and p: "trust_path ?R ?I now c ch" and l: "length ch \<le> 8 + 1"
    show ?thesis
    proof (cases "validateGOSTChainConstraints ch")
      case (Inl e)
      then have "\<not> chain_constraints_ok ch" by (simp flip: validateGOSTChainConstraints_Inr)
      then show ?thesis using p l by (auto simp: V buildGOSTChain_def maxGOSTChainDepth_def r Inl)
    next
      case (Inr u)
      then have "chain_constraints_ok ch" by (simp flip: validateGOSTChainConstraints_Inr)
      then show ?thesis using True p l trust_pathD [OF p] by (simp add: V buildGOSTChain_def maxGOSTChainDepth_def r Inr)
    qed
  next
    fix s
    assume "buildGOSTChainRec 8 ?R ?I now c False = Inr (None, s)" "s \<longrightarrow> False \<or> mixed_pools ?R ?I"
      "0 < (8 :: nat) \<longrightarrow> mixed_pools ?R ?I \<longrightarrow> s" "\<not> (\<exists>ch. trust_path ?R ?I now c ch \<and> length ch \<le> 8 + 1)"
    then show ?thesis by (auto simp: V buildGOSTChain_def maxGOSTChainDepth_def)
  qed
qed

theorem Verify_gost_witness:
  "Verify (\<lambda>_ _. Inr []) (\<lambda>_ _. Inr ()) 0 cert_example
     \<lparr>vo_Roots = (), vo_GOSTRoots = [cert_example\<lparr>xg_IsGOST := False\<rparr>], vo_GOSTIntermediates = [], vo_DNSName = ''example.com'',
      vo_CurrentTime = 15, vo_KeyUsages = [1]\<rparr> = Inl errMixedChain"
proof -
  let ?o = "\<lparr>vo_Roots = (), vo_GOSTRoots = [cert_example\<lparr>xg_IsGOST := False\<rparr>], vo_GOSTIntermediates = [], vo_DNSName = ''example.com'',
      vo_CurrentTime = 15, vo_KeyUsages = [1]\<rparr>"
  have "xg_IsGOST cert_example" "15 = verify_time 0 ?o" by (simp_all add: cert_example_def verify_time_def)
  note V = Verify_gost [OF this, where std_Verify = "\<lambda>_ _. Inr []" and VerifyHostname = "\<lambda>_ _. Inr ()"]
  have "leaf_ok (\<lambda>_ _. Inr ()) 15 cert_example ?o"
    by (simp add: leaf_ok_def cert_example_def std_example_def leafSatisfiesKeyUsages_def)
  moreover have "mixed_pools (vo_GOSTRoots ?o) (vo_GOSTIntermediates ?o)" by (simp add: mixed_pools_def)
  moreover have "\<not> trust_path (vo_GOSTRoots ?o) (vo_GOSTIntermediates ?o) 15 cert_example ch" for ch
    by (rule no_path_to_other_roots) simp
  ultimately show ?thesis using V by (simp split: sum.splits)
qed

text \<open>
  C38. Parsing and verification never panic, as long as the standard library does not, the networks
  of the name constraints have a mask no longer than their address, and no pool entry or parsed
  certificate is a nil pointer (the model has none): whatever the bytes, the pools and the options, the outcome is
  a value or an error. Every index and slice expression of the package can panic in the
  model: of the mailbox parser, the label and domain code, the network matcher, the comparison of names and
  certificates, the digest reversal and the chain walk; so this says that the guards of the code
  cover all of them.
\<close>

theorem x509_no_panic:
  assumes "no_panic (std_Parse der)" "no_panic (std_Verify (xg_Stdlib c) (toStdlibVerifyOptions opts))"
    and "no_panic (VerifyHostname (xg_Stdlib c) (vo_DNSName opts))"
    and "list_all (\<lambda>c. nets_ok (xg_Stdlib c)) (c # vo_GOSTRoots opts @ vo_GOSTIntermediates opts)"
  shows "no_panic (ParseCertificate std_Parse der) \<and> no_panic (Verify std_Verify VerifyHostname clock c opts)"
proof
  show "no_panic (ParseCertificate std_Parse der)" using assms(1) by (rule ParseCertificate_no_panic)
  have chain: "no_panic (buildGOSTChain c (vo_GOSTRoots opts) (vo_GOSTIntermediates opts) now)" for now
    using buildGOSTChainRec_spec [of maxGOSTChainDepth "vo_GOSTRoots opts" "vo_GOSTIntermediates opts" now c False]
  proof (elim disjE exE conjE)
    fix ch s
    assume r: "buildGOSTChainRec maxGOSTChainDepth (vo_GOSTRoots opts) (vo_GOSTIntermediates opts) now c False = Inr (Some ch, s)"
      and p: "trust_path (vo_GOSTRoots opts) (vo_GOSTIntermediates opts) now c ch"
    have "set ch \<subseteq> insert c (set (vo_GOSTRoots opts) \<union> set (vo_GOSTIntermediates opts))"
      using p by (induction rule: trust_path.induct) auto
    then have "list_all (\<lambda>c. nets_ok (xg_Stdlib c)) ch" using assms(4) by (auto simp: list_all_iff)
    then show ?thesis using r
      by (auto simp: buildGOSTChain_def intro!: no_panic_bind validateGOSTChainConstraints_no_panic)
  qed (auto simp: buildGOSTChain_def x509_errors)
  show "no_panic (Verify std_Verify VerifyHostname clock c opts)"
    unfolding Verify_def using assms(2,3) chain by (auto simp: x509_errors Let_def intro!: no_panic_bind)
qed

theorem x509_no_panic_witness:
  "no_panic (ParseCertificate (\<lambda>_. Inr std_example) [0x30, 0x82]) \<and>
   no_panic (Verify (\<lambda>_ _. Inr []) (\<lambda>_ _. Inl (Err ''name'')) 0 cert_example
     \<lparr>vo_Roots = (), vo_GOSTRoots = [cert_example], vo_GOSTIntermediates = [cert_example], vo_DNSName = ''a.b'',
      vo_CurrentTime = 15, vo_KeyUsages = []\<rparr>)"
  by (rule x509_no_panic) (simp_all add: cert_example_def std_example_def nets_ok_def)

end
