(* ===== verification/CurveParams.thy ===== *)
theory CurveParams
  imports GroupLaw
begin

text \<open>
  The parameter sets of \<^verbatim>\<open>gost3410curves/curves.go\<close>, checked: every set that
  \<^verbatim>\<open>CurveByOID\<close> returns satisfies \<open>curve_ok\<close> and is \<open>nonsingular\<close>. The proofs give the quotients by the
  characteristic; where it is \<open>2^n - d\<close> the product with it is taken in two parts.
\<close>

section \<open>The parameter sets\<close>

text \<open>
  What the arithmetic takes for granted of a parameter set: coefficients reduced, the base point
  on the curve, a characteristic of full width, and the order within the Hasse interval.
\<close>

definition curve_ok :: "curve \<Rightarrow> bool" where
  "curve_ok c \<longleftrightarrow> odd (cv_P c) \<and> 0 \<le> cv_A c \<and> cv_A c < cv_P c \<and> 0 < cv_B c \<and> cv_B c < cv_P c \<and>
     IsOnCurve c (ec_Base c) \<and> big_BitLen (cv_P c) = 8 * PointSize c \<and>
     cv_Cofactor c \<in> {1, 4} \<and> (cv_Cofactor c * cv_Q c - (cv_P c + 1))\<^sup>2 \<le> 4 * cv_P c"

lemma curve_eq_steps:
  assumes "x * x = cv_P c * k1 + r1" "(r1 + cv_A c) * x + cv_B c = cv_P c * k2 + r" "y * y = cv_P c * k3 + r"
  shows "cv_P c dvd curve_eq c x y"
proof -
  have "curve_eq c x y = cv_P c * (k3 - k2 - k1 * x)"
    using assms unfolding curve_eq_def by algebra
  then show ?thesis by simp
qed

lemma curve_okI:
  assumes "cv_P c dvd curve_eq c (cv_X c) (cv_Y c)"
    and "2 ^ (8 * n - 1) \<le> cv_P c \<and> cv_P c < 2 ^ (8 * n)" "n \<in> {32, 64}"
    and "odd (cv_P c)" "0 \<le> cv_A c" "cv_A c < cv_P c" "0 < cv_B c" "cv_B c < cv_P c"
    and "0 \<le> cv_X c" "cv_X c < cv_P c" "0 \<le> cv_Y c" "cv_Y c < cv_P c"
    and "cv_Cofactor c \<in> {1, 4}" "(cv_Cofactor c * cv_Q c - (cv_P c + 1))\<^sup>2 \<le> 4 * cv_P c"
  shows "curve_ok c"
proof -
  have P: "0 < cv_P c" using assms(5,6) by simp
  have "Suc (8 * n - 1) = 8 * n" using assms(3) by auto
  then have "big_BitLen (cv_P c) = 8 * n"
    using big_BitLen_eqI [of "8 * n - 1" "cv_P c"] assms(2) by simp
  moreover from this have "PointSize c = n" using assms(3) by (auto simp: PointSize_def)
  ultimately show ?thesis using assms by (simp add: curve_ok_def ec_Base_def IsOnCurve_Affine [OF P])
qed

lemma curveCryptoProA_ok: "curve_ok curveCryptoProA"
proof (rule curve_okI)
  have "curve_eq curveCryptoProA (cv_X curveCryptoProA) (cv_Y curveCryptoProA) =
      2 ^ 256 * 0x4e4a08ca06439461e237a691d9c082c69680198ebad1db9324637292b61e8bf3 -
      617 * 0x4e4a08ca06439461e237a691d9c082c69680198ebad1db9324637292b61e8bf3"
    by (simp add: curveCryptoProA_def curve_eq_def)
  moreover have "cv_P curveCryptoProA = 2 ^ 256 - 617" by (simp add: curveCryptoProA_def)
  ultimately have "curve_eq curveCryptoProA (cv_X curveCryptoProA) (cv_Y curveCryptoProA) = cv_P curveCryptoProA *
      0x4e4a08ca06439461e237a691d9c082c69680198ebad1db9324637292b61e8bf3"
    by (simp only: left_diff_distrib)
  then show "cv_P curveCryptoProA dvd curve_eq curveCryptoProA (cv_X curveCryptoProA) (cv_Y curveCryptoProA)" by simp
  show "2 ^ (8 * 32 - 1) \<le> cv_P curveCryptoProA \<and> cv_P curveCryptoProA < 2 ^ (8 * 32)"
    by (simp add: curveCryptoProA_def)
qed (simp_all add: curveCryptoProA_def power2_eq_square)

lemma curveCryptoProB_ok: "curve_ok curveCryptoProB"
proof (rule curve_okI)
  have "curve_eq curveCryptoProB (cv_X curveCryptoProB) (cv_Y curveCryptoProB) = cv_P curveCryptoProB *
      0x1fa84eaa3ff8c4525c6a03460b8d4c4fc77ca3f6c81e4dac655bc71bd4d40d1e"
    by (simp add: curveCryptoProB_def curve_eq_def)
  then show "cv_P curveCryptoProB dvd curve_eq curveCryptoProB (cv_X curveCryptoProB) (cv_Y curveCryptoProB)" by simp
  show "2 ^ (8 * 32 - 1) \<le> cv_P curveCryptoProB \<and> cv_P curveCryptoProB < 2 ^ (8 * 32)"
    by (simp add: curveCryptoProB_def)
qed (simp_all add: curveCryptoProB_def power2_eq_square)

lemma curveCryptoProC_ok: "curve_ok curveCryptoProC"
proof (rule curve_okI)
  have "curve_eq curveCryptoProC (cv_X curveCryptoProC) (cv_Y curveCryptoProC) = cv_P curveCryptoProC *
      0x1bed7318d372fdac33dcac905f931c366402e49759590ba723436ddaab60fe35"
    by (simp add: curveCryptoProC_def curve_eq_def)
  then show "cv_P curveCryptoProC dvd curve_eq curveCryptoProC (cv_X curveCryptoProC) (cv_Y curveCryptoProC)" by simp
  show "2 ^ (8 * 32 - 1) \<le> cv_P curveCryptoProC \<and> cv_P curveCryptoProC < 2 ^ (8 * 32)"
    by (simp add: curveCryptoProC_def)
qed (simp_all add: curveCryptoProC_def power2_eq_square)

lemma curveTc26256A_ok: "curve_ok curveTc26256A"
proof (rule curve_okI)
  have "curve_eq curveTc26256A (cv_X curveTc26256A) (cv_Y curveTc26256A) =
      2 ^ 256 * (- 0x2f61025eedc44f67a0086333fd8f07faf1119139fe0e0fa1f571fb71257e919439258698d86ab16ff34d602c9d5cb2ac14cc0b2dc7d157381b5c0682abd6816d) -
      617 * (- 0x2f61025eedc44f67a0086333fd8f07faf1119139fe0e0fa1f571fb71257e919439258698d86ab16ff34d602c9d5cb2ac14cc0b2dc7d157381b5c0682abd6816d)"
    by (simp add: curveTc26256A_def curve_eq_def)
  moreover have "cv_P curveTc26256A = 2 ^ 256 - 617" by (simp add: curveTc26256A_def)
  ultimately have "curve_eq curveTc26256A (cv_X curveTc26256A) (cv_Y curveTc26256A) = cv_P curveTc26256A *
      (- 0x2f61025eedc44f67a0086333fd8f07faf1119139fe0e0fa1f571fb71257e919439258698d86ab16ff34d602c9d5cb2ac14cc0b2dc7d157381b5c0682abd6816d)"
    by (simp only: left_diff_distrib)
  then show "cv_P curveTc26256A dvd curve_eq curveTc26256A (cv_X curveTc26256A) (cv_Y curveTc26256A)" by simp
  show "2 ^ (8 * 32 - 1) \<le> cv_P curveTc26256A \<and> cv_P curveTc26256A < 2 ^ (8 * 32)"
    by (simp add: curveTc26256A_def)
qed (simp_all add: curveTc26256A_def power2_eq_square)

lemma curveTc26512A_ok: "curve_ok curveTc26512A"
proof (rule curve_okI)
  have "curve_eq curveTc26512A (cv_X curveTc26512A) (cv_Y curveTc26512A) =
      2 ^ 512 * 0x357c7c190848c80766da779f3f55994d5624c3438c767f00baf659d9527f31e50f7975b8b983b181f835e60576e136479c9225f4034eb386a85e7665410cd96f -
      569 * 0x357c7c190848c80766da779f3f55994d5624c3438c767f00baf659d9527f31e50f7975b8b983b181f835e60576e136479c9225f4034eb386a85e7665410cd96f"
    by (simp add: curveTc26512A_def curve_eq_def)
  moreover have "cv_P curveTc26512A = 2 ^ 512 - 569" by (simp add: curveTc26512A_def)
  ultimately have "curve_eq curveTc26512A (cv_X curveTc26512A) (cv_Y curveTc26512A) = cv_P curveTc26512A *
      0x357c7c190848c80766da779f3f55994d5624c3438c767f00baf659d9527f31e50f7975b8b983b181f835e60576e136479c9225f4034eb386a85e7665410cd96f"
    by (simp only: left_diff_distrib)
  then show "cv_P curveTc26512A dvd curve_eq curveTc26512A (cv_X curveTc26512A) (cv_Y curveTc26512A)" by simp
  show "2 ^ (8 * 64 - 1) \<le> cv_P curveTc26512A \<and> cv_P curveTc26512A < 2 ^ (8 * 64)"
    by (simp add: curveTc26512A_def)
qed (simp_all add: curveTc26512A_def power2_eq_square)

lemma curveTc26512B_ok: "curve_ok curveTc26512B"
proof (rule curve_okI)
  have "curve_eq curveTc26512B (cv_X curveTc26512B) (cv_Y curveTc26512B) = cv_P curveTc26512B *
      0x582ec66944c89a9db834a3cb5cc1dfafe29688f773a32abe9d2aa49cb04b8ea4903472b67f7ae89eaa10b01bf908fc363c7791d204c4ec3da348c47142b791d"
    by (simp add: curveTc26512B_def curve_eq_def)
  then show "cv_P curveTc26512B dvd curve_eq curveTc26512B (cv_X curveTc26512B) (cv_Y curveTc26512B)" by simp
  show "2 ^ (8 * 64 - 1) \<le> cv_P curveTc26512B \<and> cv_P curveTc26512B < 2 ^ (8 * 64)"
    by (simp add: curveTc26512B_def)
qed (simp_all add: curveTc26512B_def power2_eq_square)

lemma curveTc26512C_ok: "curve_ok curveTc26512C"
proof (rule curve_okI)
  have "cv_X curveTc26512C * cv_X curveTc26512C = 2 ^ 512 * 0xc915cc02d780fc0eccd7f1cf20ee14570e1cc81532b0ca1d3ba908e73a2986c312778b7660005666d30e593b4b997e188ff664895ac4f2f2372b311349f1ce9b - 569 * 0xc915cc02d780fc0eccd7f1cf20ee14570e1cc81532b0ca1d3ba908e73a2986c312778b7660005666d30e593b4b997e188ff664895ac4f2f2372b311349f1ce9b +
      0x7a9a189c11f85d507f415591662bdfd2383f0f0cd9f4062dd816406c77a07c96a3596c651a53f5a499272280d88fa07df4eb6d55262bd44b3ce88d086845dac3"
    by (simp add: curveTc26512C_def)
  moreover have "(0x7a9a189c11f85d507f415591662bdfd2383f0f0cd9f4062dd816406c77a07c96a3596c651a53f5a499272280d88fa07df4eb6d55262bd44b3ce88d086845dac3 + cv_A curveTc26512C) * cv_X curveTc26512C + cv_B curveTc26512C =
      2 ^ 512 * 0x1302566aa69c46e3367acae4327f700bbd258f99e877ad2799689b3768df1c517c47b08a44781c2c73d62f5abee4ba2767f14dc376f9f334df017e3c053785de9 - 569 * 0x1302566aa69c46e3367acae4327f700bbd258f99e877ad2799689b3768df1c517c47b08a44781c2c73d62f5abee4ba2767f14dc376f9f334df017e3c053785de9 + 0xb1f1b9657345f09e17e3b987ed58f51198e86ccec8d643fe26cccd2272931f8baae2df6a02e78adefcee1e3f2e53e820b122952ac0c26976beca40c7fa8402f2"
    by (simp add: curveTc26512C_def)
  moreover have "cv_Y curveTc26512C * cv_Y curveTc26512C = 2 ^ 512 * 0xec046e4c771fc0029d860e979b19778ded03c2615b049c29869e87408139181e290b2772d512784c9caceab45b3190a371bd00e3a7399aa6d7dd69b1262b6699 - 569 * 0xec046e4c771fc0029d860e979b19778ded03c2615b049c29869e87408139181e290b2772d512784c9caceab45b3190a371bd00e3a7399aa6d7dd69b1262b6699 +
      0xb1f1b9657345f09e17e3b987ed58f51198e86ccec8d643fe26cccd2272931f8baae2df6a02e78adefcee1e3f2e53e820b122952ac0c26976beca40c7fa8402f2"
    by (simp add: curveTc26512C_def)
  moreover have "cv_P curveTc26512C = 2 ^ 512 - 569" by (simp add: curveTc26512C_def)
  ultimately show "cv_P curveTc26512C dvd curve_eq curveTc26512C (cv_X curveTc26512C) (cv_Y curveTc26512C)"
    by (intro curve_eq_steps) (simp_all only: left_diff_distrib)
  show "2 ^ (8 * 64 - 1) \<le> cv_P curveTc26512C \<and> cv_P curveTc26512C < 2 ^ (8 * 64)"
    by (simp add: curveTc26512C_def)
qed (simp_all add: curveTc26512C_def power2_eq_square)

lemma curve_ok_Name: "curve_ok (c\<lparr>cv_Name := nm\<rparr>) = curve_ok c"
  by (simp add: curve_ok_def ec_Base_def IsOnCurve_def PointSize_def)

lemmas curve_oks = curveCryptoProA_ok curveCryptoProB_ok curveCryptoProC_ok curveTc26256A_ok curveTc26512A_ok curveTc26512B_ok curveTc26512C_ok

section \<open>Discriminants\<close>

lemma nonsingularI:
  assumes "cv_P c dvd cv_A c * cv_A c - r1" "cv_P c dvd r1 * cv_A c - r2" "cv_P c dvd cv_B c * cv_B c - r3"
    and "4 * r2 + 27 * r3 = cv_P c * k + r" "0 < r" "r < cv_P c"
  shows "nonsingular c"
proof -
  have "cv_P c dvd (4 * cv_A c ^ 3 + 27 * cv_B c ^ 2) - (4 * r2 + 27 * r3)"
    using assms(1-3) by algebra
  then have "cv_P c dvd (4 * cv_A c ^ 3 + 27 * cv_B c ^ 2) - r"
    using assms(4) dvd_diff [of "cv_P c" "(4 * cv_A c ^ 3 + 27 * cv_B c ^ 2) - (4 * r2 + 27 * r3)" "cv_P c * (- k)"]
    by (simp add: algebra_simps)
  then have "(4 * cv_A c ^ 3 + 27 * cv_B c ^ 2) mod cv_P c = r"
    using assms(5,6) by (metis mod_eq_dvd_iff mod_pos_pos_trivial order_less_imp_le)
  then show ?thesis using assms(5) by (simp add: nonsingular_def dvd_eq_mod_eq_0)
qed

lemma curveCryptoProA_nonsingular: "nonsingular curveCryptoProA"
proof (rule nonsingularI)
  have "cv_A curveCryptoProA * cv_A curveCryptoProA - 9 = cv_P curveCryptoProA * (cv_P curveCryptoProA - 6)" "9 * cv_A curveCryptoProA - (- 27) = cv_P curveCryptoProA * 9"
    by (simp_all add: curveCryptoProA_def)
  then show "cv_P curveCryptoProA dvd cv_A curveCryptoProA * cv_A curveCryptoProA - 9" "cv_P curveCryptoProA dvd 9 * cv_A curveCryptoProA - (- 27)" by simp_all
  have "cv_B curveCryptoProA * cv_B curveCryptoProA - 0x6ba4 = cv_P curveCryptoProA * 0x0"
    by (simp add: curveCryptoProA_def)
  then show "cv_P curveCryptoProA dvd cv_B curveCryptoProA * cv_B curveCryptoProA - 0x6ba4" by simp
  show "4 * (- 27) + 27 * 0x6ba4 = cv_P curveCryptoProA * 0x0 + 0xb59e0"
    by (simp add: curveCryptoProA_def)
qed (simp_all add: curveCryptoProA_def)

lemma curveCryptoProB_nonsingular: "nonsingular curveCryptoProB"
proof (rule nonsingularI)
  have "cv_A curveCryptoProB * cv_A curveCryptoProB - 9 = cv_P curveCryptoProB * (cv_P curveCryptoProB - 6)" "9 * cv_A curveCryptoProB - (- 27) = cv_P curveCryptoProB * 9"
    by (simp_all add: curveCryptoProB_def)
  then show "cv_P curveCryptoProB dvd cv_A curveCryptoProB * cv_A curveCryptoProB - 9" "cv_P curveCryptoProB dvd 9 * cv_A curveCryptoProB - (- 27)" by simp_all
  have "cv_B curveCryptoProB * cv_B curveCryptoProB - 0x57476dd768f98fc7e1bbb49b5f8faf67016f065836dd758a27ec35ae4eb4da96 = cv_P curveCryptoProB * 0x1e222225d14214091877e90a27cabf21cf70e204a3d98b93ce1d1569dce6a2db"
    by (simp add: curveCryptoProB_def)
  then show "cv_P curveCryptoProB dvd cv_B curveCryptoProB * cv_B curveCryptoProB - 0x57476dd768f98fc7e1bbb49b5f8faf67016f065836dd758a27ec35ae4eb4da96" by simp
  show "4 * (- 27) + 27 * 0x57476dd768f98fc7e1bbb49b5f8faf67016f065836dd758a27ec35ae4eb4da96 = cv_P curveCryptoProB * 0x12 + 0x348895b812522a14cecc0c6314277fdd26b5ab4dc95b659235e9a9624d122aa4"
    by (simp add: curveCryptoProB_def)
qed (simp_all add: curveCryptoProB_def)

lemma curveCryptoProC_nonsingular: "nonsingular curveCryptoProC"
proof (rule nonsingularI)
  have "cv_A curveCryptoProC * cv_A curveCryptoProC - 9 = cv_P curveCryptoProC * (cv_P curveCryptoProC - 6)" "9 * cv_A curveCryptoProC - (- 27) = cv_P curveCryptoProC * 9"
    by (simp_all add: curveCryptoProC_def)
  then show "cv_P curveCryptoProC dvd cv_A curveCryptoProC * cv_A curveCryptoProC - 9" "cv_P curveCryptoProC dvd 9 * cv_A curveCryptoProC - (- 27)" by simp_all
  have "cv_B curveCryptoProC * cv_B curveCryptoProC - 0x405a1fa4 = cv_P curveCryptoProC * 0x0"
    by (simp add: curveCryptoProC_def)
  then show "cv_P curveCryptoProC dvd cv_B curveCryptoProC * cv_B curveCryptoProC - 0x405a1fa4" by simp
  show "4 * (- 27) + 27 * 0x405a1fa4 = cv_P curveCryptoProC * 0x0 + 0x6c98155e0"
    by (simp add: curveCryptoProC_def)
qed (simp_all add: curveCryptoProC_def)

lemma curveTc26256A_nonsingular: "nonsingular curveTc26256A"
proof (rule nonsingularI)
  have "cv_A curveTc26256A * cv_A curveTc26256A - 0x755857c6ac1e49cc28f6f60567a6a07d3c36435ec6be57f6640d008b883bddf9 = 2 ^ 256 * 0x93273db8570768bc71f40a6901769ddd4e8033378e70fea5071180006c9ced00 - 617 * 0x93273db8570768bc71f40a6901769ddd4e8033378e70fea5071180006c9ced00"
    by (simp add: curveTc26256A_def)
  moreover have "cv_P curveTc26256A = 2 ^ 256 - 617" by (simp add: curveTc26256A_def)
  ultimately have "cv_A curveTc26256A * cv_A curveTc26256A - 0x755857c6ac1e49cc28f6f60567a6a07d3c36435ec6be57f6640d008b883bddf9 = cv_P curveTc26256A * 0x93273db8570768bc71f40a6901769ddd4e8033378e70fea5071180006c9ced00" by (simp only: left_diff_distrib)
  then show "cv_P curveTc26256A dvd cv_A curveTc26256A * cv_A curveTc26256A - 0x755857c6ac1e49cc28f6f60567a6a07d3c36435ec6be57f6640d008b883bddf9" by simp
  have "0x755857c6ac1e49cc28f6f60567a6a07d3c36435ec6be57f6640d008b883bddf9 * cv_A curveTc26256A - 0x5496a37317ebc64ea47a85474cfbc9bfd31974236a619752b0839d23a02b4aec = 2 ^ 256 * 0x58f79a5ed81cc78f6657bb131eaf879487fecbce3906b1677aa99f64be2bc687 - 617 * 0x58f79a5ed81cc78f6657bb131eaf879487fecbce3906b1677aa99f64be2bc687"
    by (simp add: curveTc26256A_def)
  moreover have "cv_P curveTc26256A = 2 ^ 256 - 617" by (simp add: curveTc26256A_def)
  ultimately have "0x755857c6ac1e49cc28f6f60567a6a07d3c36435ec6be57f6640d008b883bddf9 * cv_A curveTc26256A - 0x5496a37317ebc64ea47a85474cfbc9bfd31974236a619752b0839d23a02b4aec = cv_P curveTc26256A * 0x58f79a5ed81cc78f6657bb131eaf879487fecbce3906b1677aa99f64be2bc687" by (simp only: left_diff_distrib)
  then show "cv_P curveTc26256A dvd 0x755857c6ac1e49cc28f6f60567a6a07d3c36435ec6be57f6640d008b883bddf9 * cv_A curveTc26256A - 0x5496a37317ebc64ea47a85474cfbc9bfd31974236a619752b0839d23a02b4aec" by simp
  have "cv_B curveTc26256A * cv_B curveTc26256A - 0x565cbc29453ebb14ad9ad5176b9396e58d38896246258481989c30b73fef6be2 = 2 ^ 256 * 0x6afc392cb5c0a083fd608df219fdc6d229b785c82340647c38dcbb639079791 - 617 * 0x6afc392cb5c0a083fd608df219fdc6d229b785c82340647c38dcbb639079791"
    by (simp add: curveTc26256A_def)
  moreover have "cv_P curveTc26256A = 2 ^ 256 - 617" by (simp add: curveTc26256A_def)
  ultimately have "cv_B curveTc26256A * cv_B curveTc26256A - 0x565cbc29453ebb14ad9ad5176b9396e58d38896246258481989c30b73fef6be2 = cv_P curveTc26256A * 0x6afc392cb5c0a083fd608df219fdc6d229b785c82340647c38dcbb639079791" by (simp only: left_diff_distrib)
  then show "cv_P curveTc26256A dvd cv_B curveTc26256A * cv_B curveTc26256A - 0x565cbc29453ebb14ad9ad5176b9396e58d38896246258481989c30b73fef6be2" by simp
  show "4 * (0x5496a37317ebc64ea47a85474cfbc9bfd31974236a619752b0839d23a02b4aec) + 27 * 0x565cbc29453ebb14ad9ad5176b9396e58d38896246258481989c30b73fef6be2 = cv_P curveTc26256A * 0xa + 0x6e226626ad4cd468e13e8e958c801135315c4deb0f7b56f5da8797e23eeda4a0"
    by (simp add: curveTc26256A_def)
qed (simp_all add: curveTc26256A_def)

lemma curveTc26512A_nonsingular: "nonsingular curveTc26512A"
proof (rule nonsingularI)
  have "cv_A curveTc26512A * cv_A curveTc26512A - 9 = cv_P curveTc26512A * (cv_P curveTc26512A - 6)" "9 * cv_A curveTc26512A - (- 27) = cv_P curveTc26512A * 9"
    by (simp_all add: curveTc26512A_def)
  then show "cv_P curveTc26512A dvd cv_A curveTc26512A * cv_A curveTc26512A - 9" "cv_P curveTc26512A dvd 9 * cv_A curveTc26512A - (- 27)" by simp_all
  have "cv_B curveTc26512A * cv_B curveTc26512A - 0x7b500de113bc255e927bdd20277cdbc9da34d3eb68cd31696143c310fc999eb6cb02c1c4c63931e8037f82ffba3a91ba82d2523dd1e303fd7fbd1f895ca0f45a = 2 ^ 512 * 0xd3a0c52826f13e62f24267c8e6133335c0b7257ffaa278b307e3b41cf60aa47bf50860e76a9306f3db27f8c31ec570f78cf2ac55a7879f6a10501db2f78fcb2a - 569 * 0xd3a0c52826f13e62f24267c8e6133335c0b7257ffaa278b307e3b41cf60aa47bf50860e76a9306f3db27f8c31ec570f78cf2ac55a7879f6a10501db2f78fcb2a"
    by (simp add: curveTc26512A_def)
  moreover have "cv_P curveTc26512A = 2 ^ 512 - 569" by (simp add: curveTc26512A_def)
  ultimately have "cv_B curveTc26512A * cv_B curveTc26512A - 0x7b500de113bc255e927bdd20277cdbc9da34d3eb68cd31696143c310fc999eb6cb02c1c4c63931e8037f82ffba3a91ba82d2523dd1e303fd7fbd1f895ca0f45a = cv_P curveTc26512A * 0xd3a0c52826f13e62f24267c8e6133335c0b7257ffaa278b307e3b41cf60aa47bf50860e76a9306f3db27f8c31ec570f78cf2ac55a7879f6a10501db2f78fcb2a" by (simp only: left_diff_distrib)
  then show "cv_P curveTc26512A dvd cv_B curveTc26512A * cv_B curveTc26512A - 0x7b500de113bc255e927bdd20277cdbc9da34d3eb68cd31696143c310fc999eb6cb02c1c4c63931e8037f82ffba3a91ba82d2523dd1e303fd7fbd1f895ca0f45a" by simp
  show "4 * (- 27) + 27 * 0x7b500de113bc255e927bdd20277cdbc9da34d3eb68cd31696143c310fc999eb6cb02c1c4c63931e8037f82ffba3a91ba82d2523dd1e303fd7fbd1f895ca0f45a = cv_P curveTc26512A * 0xd + 0x17176bd14d7f0f9731052642a2b2e4a039259d40da4361d422592caa433bd47694a6fc0e80843785e72d0f8a42d5eabcc2eac8522f16bbc78f2537cc4f9e1f7"
    by (simp add: curveTc26512A_def)
qed (simp_all add: curveTc26512A_def)

lemma curveTc26512B_nonsingular: "nonsingular curveTc26512B"
proof (rule nonsingularI)
  have "cv_A curveTc26512B * cv_A curveTc26512B - 9 = cv_P curveTc26512B * (cv_P curveTc26512B - 6)" "9 * cv_A curveTc26512B - (- 27) = cv_P curveTc26512B * 9"
    by (simp_all add: curveTc26512B_def)
  then show "cv_P curveTc26512B dvd cv_A curveTc26512B * cv_A curveTc26512B - 9" "cv_P curveTc26512B dvd 9 * cv_A curveTc26512B - (- 27)" by simp_all
  have "cv_B curveTc26512B * cv_B curveTc26512B - 0x79a3438081f9918bc271864bd3eb9ce4f2612c1d08ebffa618e11359a35e095e81c783cb27619e18f88c8ccce550443de4176bf00ff457e6d30b0a9e9c9a85ee = cv_P curveTc26512B * 0x554bc6986a2d199dc2cd85cf3c00bf4284a1cc2043d1b13f0a58d934b4ff89374276dcde003e1a7b27a787f69b02a03ada82528a809e1cf337da1585589a266a"
    by (simp add: curveTc26512B_def)
  then show "cv_P curveTc26512B dvd cv_B curveTc26512B * cv_B curveTc26512B - 0x79a3438081f9918bc271864bd3eb9ce4f2612c1d08ebffa618e11359a35e095e81c783cb27619e18f88c8ccce550443de4176bf00ff457e6d30b0a9e9c9a85ee" by simp
  show "4 * (- 27) + 27 * 0x79a3438081f9918bc271864bd3eb9ce4f2612c1d08ebffa618e11359a35e095e81c783cb27619e18f88c8ccce550443de4176bf00ff457e6d30b0a9e9c9a85ee = cv_P curveTc26512B * 0x19 + 0x54381e8db55259bd81f929ff59d98c25903fa70ff0e3f6849fbd0a743aeafcf7b00ae66d274baca236d2d99c2f7732870e786251aec54558422a1eba844c14d7"
    by (simp add: curveTc26512B_def)
qed (simp_all add: curveTc26512B_def)

lemma curveTc26512C_nonsingular: "nonsingular curveTc26512C"
proof (rule nonsingularI)
  have "cv_A curveTc26512C * cv_A curveTc26512C - 0x80e5f535db322fbbd0f321022216d7834001c44746a7173c1c089b8cbbe093da70644bd72b51a073417da301f40c820f18124633e8c8affe3420c6033cd0174b = 2 ^ 512 * 0xbe0b49fa2cd9fbbcb717cec2871c7a87f68437a5d9b5b71812f01996acb1eae11431d43704b039684df5f63312baf09959bfd98b5375d62eccdbacf5282d3a72 - 569 * 0xbe0b49fa2cd9fbbcb717cec2871c7a87f68437a5d9b5b71812f01996acb1eae11431d43704b039684df5f63312baf09959bfd98b5375d62eccdbacf5282d3a72"
    by (simp add: curveTc26512C_def)
  moreover have "cv_P curveTc26512C = 2 ^ 512 - 569" by (simp add: curveTc26512C_def)
  ultimately have "cv_A curveTc26512C * cv_A curveTc26512C - 0x80e5f535db322fbbd0f321022216d7834001c44746a7173c1c089b8cbbe093da70644bd72b51a073417da301f40c820f18124633e8c8affe3420c6033cd0174b = cv_P curveTc26512C * 0xbe0b49fa2cd9fbbcb717cec2871c7a87f68437a5d9b5b71812f01996acb1eae11431d43704b039684df5f63312baf09959bfd98b5375d62eccdbacf5282d3a72" by (simp only: left_diff_distrib)
  then show "cv_P curveTc26512C dvd cv_A curveTc26512C * cv_A curveTc26512C - 0x80e5f535db322fbbd0f321022216d7834001c44746a7173c1c089b8cbbe093da70644bd72b51a073417da301f40c820f18124633e8c8affe3420c6033cd0174b" by simp
  have "0x80e5f535db322fbbd0f321022216d7834001c44746a7173c1c089b8cbbe093da70644bd72b51a073417da301f40c820f18124633e8c8affe3420c6033cd0174b * cv_A curveTc26512C - 0x94465c1cdc137fda72e50c3e66aeb6f3441a45c7c0b9cb772952a62982bd97d18c377b01e69f798725dcb1eec7f4fcca9ac63ec0d11f7adb660b887c49dc01d7 = 2 ^ 512 * 0x6f0f23d62b103c703ed2eab2a1c18adc5551188f16185ab9a7dd5b8ab3462c49889decd5b08854aba9a2e090dff39d3ba791307e7b7f8043bfff24b8cd9d5e36 - 569 * 0x6f0f23d62b103c703ed2eab2a1c18adc5551188f16185ab9a7dd5b8ab3462c49889decd5b08854aba9a2e090dff39d3ba791307e7b7f8043bfff24b8cd9d5e36"
    by (simp add: curveTc26512C_def)
  moreover have "cv_P curveTc26512C = 2 ^ 512 - 569" by (simp add: curveTc26512C_def)
  ultimately have "0x80e5f535db322fbbd0f321022216d7834001c44746a7173c1c089b8cbbe093da70644bd72b51a073417da301f40c820f18124633e8c8affe3420c6033cd0174b * cv_A curveTc26512C - 0x94465c1cdc137fda72e50c3e66aeb6f3441a45c7c0b9cb772952a62982bd97d18c377b01e69f798725dcb1eec7f4fcca9ac63ec0d11f7adb660b887c49dc01d7 = cv_P curveTc26512C * 0x6f0f23d62b103c703ed2eab2a1c18adc5551188f16185ab9a7dd5b8ab3462c49889decd5b08854aba9a2e090dff39d3ba791307e7b7f8043bfff24b8cd9d5e36" by (simp only: left_diff_distrib)
  then show "cv_P curveTc26512C dvd 0x80e5f535db322fbbd0f321022216d7834001c44746a7173c1c089b8cbbe093da70644bd72b51a073417da301f40c820f18124633e8c8affe3420c6033cd0174b * cv_A curveTc26512C - 0x94465c1cdc137fda72e50c3e66aeb6f3441a45c7c0b9cb772952a62982bd97d18c377b01e69f798725dcb1eec7f4fcca9ac63ec0d11f7adb660b887c49dc01d7" by simp
  have "cv_B curveTc26512C * cv_B curveTc26512C - 0xe1ff974c4703fa91545db6eba2f4112774f000024024ba8d2330abf8829af2f7c9025445db7560c8967b67eac144cd620d30d0e2f5a5f82d539ad93fbe66597b = 2 ^ 512 * 0x7fa58666eec56f8be24c8294fdd7235d8aa0855c6417accba4f0d5a30557a68a9bfe4d0a795289a4459ee5e0f64aa7a73a9d3ead074be1d49543a45aefd80b8a - 569 * 0x7fa58666eec56f8be24c8294fdd7235d8aa0855c6417accba4f0d5a30557a68a9bfe4d0a795289a4459ee5e0f64aa7a73a9d3ead074be1d49543a45aefd80b8a"
    by (simp add: curveTc26512C_def)
  moreover have "cv_P curveTc26512C = 2 ^ 512 - 569" by (simp add: curveTc26512C_def)
  ultimately have "cv_B curveTc26512C * cv_B curveTc26512C - 0xe1ff974c4703fa91545db6eba2f4112774f000024024ba8d2330abf8829af2f7c9025445db7560c8967b67eac144cd620d30d0e2f5a5f82d539ad93fbe66597b = cv_P curveTc26512C * 0x7fa58666eec56f8be24c8294fdd7235d8aa0855c6417accba4f0d5a30557a68a9bfe4d0a795289a4459ee5e0f64aa7a73a9d3ead074be1d49543a45aefd80b8a" by (simp only: left_diff_distrib)
  then show "cv_P curveTc26512C dvd cv_B curveTc26512C * cv_B curveTc26512C - 0xe1ff974c4703fa91545db6eba2f4112774f000024024ba8d2330abf8829af2f7c9025445db7560c8967b67eac144cd620d30d0e2f5a5f82d539ad93fbe66597b" by simp
  show "4 * (0x94465c1cdc137fda72e50c3e66aeb6f3441a45c7c0b9cb772952a62982bd97d18c377b01e69f798725dcb1eec7f4fcca9ac63ec0d11f7adb660b887c49dc01d7) + 27 * 0xe1ff974c4703fa91545db6eba2f4112774f000024024ba8d2330abf8829af2f7c9025445db7560c8967b67eac144cd620d30d0e2f5a5f82d539ad93fbe66597b = cv_P curveTc26512C * 0x1a + 0x270e657eedb96cbdb1767bd3ca78aaf665b9175bc6c6dabf5b6cbbdbd14dff68641ccf65bfdf1b447676bd7d82159c81cf3f02f32cff183569830baa3c3bb11f"
    by (simp add: curveTc26512C_def)
qed (simp_all add: curveTc26512C_def)

lemma nonsingular_Name: "nonsingular (c\<lparr>cv_Name := nm\<rparr>) = nonsingular c"
  by (simp add: nonsingular_def)

lemmas curve_nonsingulars = curveCryptoProA_nonsingular curveCryptoProB_nonsingular curveCryptoProC_nonsingular curveTc26256A_nonsingular curveTc26512A_nonsingular curveTc26512B_nonsingular curveTc26512C_nonsingular

section \<open>Properties\<close>

text \<open>
  C8. Every parameter set CurveByOID returns is consistent: the coefficients are
  reduced modulo an odd P of 256 or 512 bits, as many as PointSize encodes, the base
  point lies on the curve, the curve is nonsingular (the discriminant is no multiple of P), and
  cofactor times order is within the Hasse interval around P + 1, so that the cofactors 1 and 4
  are the right ones.
\<close>

theorem CurveByOID_ok:
  assumes "CurveByOID oid = Inr c"
  shows "curve_ok c \<and> nonsingular c \<and> PointSize c \<in> {32, 64}"
proof -
  have "curve_ok c"
    using assms curve_oks unfolding CurveByOID_def by (auto simp: curve_ok_Name split: if_splits)
  moreover have "nonsingular c"
    using assms curve_nonsingulars unfolding CurveByOID_def by (auto simp: nonsingular_Name split: if_splits)
  moreover have "PointSize c \<in> {32, 64}" by (simp add: PointSize_def)
  ultimately show ?thesis by simp
qed

theorem CurveByOID_ok_witness: "curve_ok curveTc26512C \<and> nonsingular curveTc26512C \<and> PointSize curveTc26512C \<in> {32, 64}"
  by (rule CurveByOID_ok [of "''1.2.643.7.1.2.1.2.3''"]) (simp add: CurveByOID_def)

end
