(* ===== verification/HexText.thy ===== *)
theory HexText
  imports VKO
begin

text \<open>
  \<^verbatim>\<open>hexInt\<close> and \<^verbatim>\<open>stripWS\<close> of \<^verbatim>\<open>gost3410curves/curves.go\<close>, with the closure
  \<^verbatim>\<open>mustHex\<close> of \<^verbatim>\<open>vko/vko.go\<close>. The parameter sets are written there as hexadecimal text and in
  \<open>Curves\<close> and \<open>VKO\<close> as numbers: the texts are read here as the program reads them when it builds a
  set, and give those numbers; no constant panics.
\<close>

section \<open>Reading hexadecimal text\<close>

definition stripWS :: "string \<Rightarrow> string" where
  "stripWS s = fold (\<lambda>c buf.
     if c = CHR '' '' \<or> c = CHR 0x0A \<or> c = CHR 0x09 \<or> c = CHR 0x0D then buf else buf @ [c]) s []"

text \<open>
  \<^verbatim>\<open>big.Int.SetString\<close> at base 16: an optional sign, then at least one digit of either case and
  nothing else.
\<close>

definition hex_value :: "char \<Rightarrow> int option" where
  "hex_value c =
     (let n = of_char c
      in if 48 \<le> n \<and> n \<le> 57 then Some (n - 48)
         else if 97 \<le> n \<and> n \<le> 102 then Some (n - 87)
         else if 65 \<le> n \<and> n \<le> 70 then Some (n - 55)
         else None)"

fun hex_digits :: "int \<Rightarrow> string \<Rightarrow> int option" where
  "hex_digits n [] = Some n"
| "hex_digits n (c # s) = (case hex_value c of None \<Rightarrow> None | Some d \<Rightarrow> hex_digits (n * 16 + d) s)"

definition hex_natural :: "string \<Rightarrow> int option" where
  "hex_natural s = (if s = [] then None else hex_digits 0 s)"

definition big_SetString16 :: "string \<Rightarrow> int option" where
  "big_SetString16 s =
     (case s of
        [] \<Rightarrow> None
      | c # r \<Rightarrow>
          if c = CHR ''-'' then map_option uminus (hex_natural r)
          else if c = CHR ''+'' then hex_natural r
          else hex_natural s)"

definition hexInt :: "string \<Rightarrow> int res" where
  "hexInt s =
     (case big_SetString16 (stripWS s) of
        None \<Rightarrow> Inl (Panic (''gost3410curves: bad hex constant: '' @ s))
      | Some n \<Rightarrow> Inr n)"

definition vko_mustHex :: "string \<Rightarrow> int res" where
  "vko_mustHex s =
     (case big_SetString16 s of
        None \<Rightarrow> Inl (Panic (''vko: bad test-curve hex '' @ s))
      | Some n \<Rightarrow> Inr n)"

section \<open>What it reads\<close>

definition blank :: "char \<Rightarrow> bool" where
  "blank c \<longleftrightarrow> c = CHR '' '' \<or> c = CHR 0x0A \<or> c = CHR 0x09 \<or> c = CHR 0x0D"

lemma stripWS_filter: "stripWS s = filter (\<lambda>c. \<not> blank c) s"
proof -
  have "fold (\<lambda>c buf. if c = CHR '' '' \<or> c = CHR 0x0A \<or> c = CHR 0x09 \<or> c = CHR 0x0D then buf else buf @ [c]) s buf =
      buf @ filter (\<lambda>c. \<not> blank c) s" for buf
    by (induction s arbitrary: buf) (auto simp: blank_def)
  then show ?thesis by (simp add: stripWS_def)
qed

lemma hex_value_range: "hex_value c = Some d \<Longrightarrow> 0 \<le> d \<and> d < 16 \<and> \<not> blank c \<and> c \<noteq> CHR ''-'' \<and> c \<noteq> CHR ''+''"
  by (auto simp: hex_value_def blank_def Let_def split: if_splits)

lemma hex_digits_append: "hex_digits n (s @ t) = Option.bind (hex_digits n s) (\<lambda>m. hex_digits m t)"
  by (induction s arbitrary: n) (auto split: option.split)

text \<open>Text of hexadecimal digits is its own stripped form, and needs no sign.\<close>

lemma hexInt_digits:
  assumes "hex_digits 0 s = Some n" "s \<noteq> []"
  shows "hexInt s = Inr n" "vko_mustHex s = Inr n"
proof -
  have "hex_digits m s \<noteq> None \<Longrightarrow> stripWS s = s" for m
    unfolding stripWS_filter
    by (induction s arbitrary: m) (auto dest: hex_value_range split: option.splits)
  then have "stripWS s = s" using assms(1) by (metis option.distinct(1))
  moreover have "big_SetString16 s = Some n"
    using assms by (cases s) (auto simp: big_SetString16_def hex_natural_def dest: hex_value_range split: option.splits)
  ultimately show "hexInt s = Inr n" "vko_mustHex s = Inr n" by (simp_all add: hexInt_def vko_mustHex_def)
qed

section \<open>The constants\<close>

lemma curveCryptoProA_text:
  "hexInt ''FFFFFFFFFFFFFFFFFFFFFFFFFFFFFFFFFFFFFFFFFFFFFFFFFFFFFFFFFFFFFD97'' = Inr (cv_P curveCryptoProA)"
  "hexInt ''FFFFFFFFFFFFFFFFFFFFFFFFFFFFFFFFFFFFFFFFFFFFFFFFFFFFFFFFFFFFFD94'' = Inr (cv_A curveCryptoProA)"
  "hexInt ''00000000000000000000000000000000000000000000000000000000000000A6'' = Inr (cv_B curveCryptoProA)"
  "hexInt ''FFFFFFFFFFFFFFFFFFFFFFFFFFFFFFFF6C611070995AD10045841B09B761B893'' = Inr (cv_Q curveCryptoProA)"
  "hexInt ''0000000000000000000000000000000000000000000000000000000000000001'' = Inr (cv_X curveCryptoProA)"
  "hexInt ''8D91E471E0989CDA27DF505A453F2B7635294F2DDF23E3B122ACC99C9E9F1E14'' = Inr (cv_Y curveCryptoProA)"
  by (rule hexInt_digits; simp add: curveCryptoProA_def hex_value_def)+

lemma curveCryptoProB_text:
  "hexInt ''8000000000000000000000000000000000000000000000000000000000000C99'' = Inr (cv_P curveCryptoProB)"
  "hexInt ''8000000000000000000000000000000000000000000000000000000000000C96'' = Inr (cv_A curveCryptoProB)"
  "hexInt ''3E1AF419A269A5F866A7D3C25C3DF80AE979259373FF2B182F49D4CE7E1BBC8B'' = Inr (cv_B curveCryptoProB)"
  "hexInt ''800000000000000000000000000000015F700CFFF1A624E5E497161BCC8A198F'' = Inr (cv_Q curveCryptoProB)"
  "hexInt ''0000000000000000000000000000000000000000000000000000000000000001'' = Inr (cv_X curveCryptoProB)"
  "hexInt ''3FA8124359F96680B83D1C3EB2C070E5C545C9858D03ECFB744BF8D717717EFC'' = Inr (cv_Y curveCryptoProB)"
  by (rule hexInt_digits; simp add: curveCryptoProB_def hex_value_def)+

lemma curveCryptoProC_text:
  "hexInt ''9B9F605F5A858107AB1EC85E6B41C8AACF846E86789051D37998F7B9022D759B'' = Inr (cv_P curveCryptoProC)"
  "hexInt ''9B9F605F5A858107AB1EC85E6B41C8AACF846E86789051D37998F7B9022D7598'' = Inr (cv_A curveCryptoProC)"
  "hexInt ''000000000000000000000000000000000000000000000000000000000000805A'' = Inr (cv_B curveCryptoProC)"
  "hexInt ''9B9F605F5A858107AB1EC85E6B41C8AA582CA3511EDDFB74F02F3A6598980BB9'' = Inr (cv_Q curveCryptoProC)"
  "hexInt ''0000000000000000000000000000000000000000000000000000000000000000'' = Inr (cv_X curveCryptoProC)"
  "hexInt ''41ECE55743711A8C3CBF3783CD08C0EE4D4DC440D4641A8F366E550DFDB3BB67'' = Inr (cv_Y curveCryptoProC)"
  by (rule hexInt_digits; simp add: curveCryptoProC_def hex_value_def)+

lemma curveTc26256A_text:
  "hexInt ''FFFFFFFFFFFFFFFFFFFFFFFFFFFFFFFFFFFFFFFFFFFFFFFFFFFFFFFFFFFFFD97'' = Inr (cv_P curveTc26256A)"
  "hexInt ''C2173F1513981673AF4892C23035A27CE25E2013BF95AA33B22C656F277E7335'' = Inr (cv_A curveTc26256A)"
  "hexInt ''295F9BAE7428ED9CCC20E7C359A9D41A22FCCD9108E17BF7BA9337A6F8AE9513'' = Inr (cv_B curveTc26256A)"
  "hexInt ''400000000000000000000000000000000FD8CDDFC87B6635C115AF556C360C67'' = Inr (cv_Q curveTc26256A)"
  "hexInt ''91E38443A5E82C0D880923425712B2BB658B9196932E02C78B2582FE742DAA28'' = Inr (cv_X curveTc26256A)"
  "hexInt ''32879423AB1A0375895786C4BB46E9565FDE0B5344766740AF268ADB32322E5C'' = Inr (cv_Y curveTc26256A)"
  by (rule hexInt_digits; simp add: curveTc26256A_def hex_value_def)+

lemma curveTc26512A_text:
  "hexInt (''FFFFFFFFFFFFFFFFFFFFFFFFFFFFFFFFFFFFFFFFFFFFFFFFFFFFFFFFFFFFFFFF'' @
     ''FFFFFFFFFFFFFFFFFFFFFFFFFFFFFFFFFFFFFFFFFFFFFFFFFFFFFFFFFFFFFDC7'') = Inr (cv_P curveTc26512A)"
  "hexInt (''FFFFFFFFFFFFFFFFFFFFFFFFFFFFFFFFFFFFFFFFFFFFFFFFFFFFFFFFFFFFFFFF'' @
     ''FFFFFFFFFFFFFFFFFFFFFFFFFFFFFFFFFFFFFFFFFFFFFFFFFFFFFFFFFFFFFDC4'') = Inr (cv_A curveTc26512A)"
  "hexInt (''E8C2505DEDFC86DDC1BD0B2B6667F1DA34B82574761CB0E879BD081CFD0B6265'' @
     ''EE3CB090F30D27614CB4574010DA90DD862EF9D4EBEE4761503190785A71C760'') = Inr (cv_B curveTc26512A)"
  "hexInt (''FFFFFFFFFFFFFFFFFFFFFFFFFFFFFFFFFFFFFFFFFFFFFFFFFFFFFFFFFFFFFFFF'' @
     ''27E69532F48D89116FF22B8D4E0560609B4B38ABFAD2B85DCACDB1411F10B275'') = Inr (cv_Q curveTc26512A)"
  "hexInt (''0000000000000000000000000000000000000000000000000000000000000000'' @
     ''0000000000000000000000000000000000000000000000000000000000000003'') = Inr (cv_X curveTc26512A)"
  "hexInt (''7503CFE87A836AE3A61B8816E25450E6CE5E1C93ACF1ABC1778064FDCBEFA921'' @
     ''DF1626BE4FD036E93D75E6A50E3A41E98028FE5FC235F5B889A589CB5215F2A4'') = Inr (cv_Y curveTc26512A)"
  by (rule hexInt_digits; simp add: curveTc26512A_def hex_value_def)+

lemma curveTc26512B_text:
  "hexInt (''8000000000000000000000000000000000000000000000000000000000000000'' @
     ''000000000000000000000000000000000000000000000000000000000000006F'') = Inr (cv_P curveTc26512B)"
  "hexInt (''8000000000000000000000000000000000000000000000000000000000000000'' @
     ''000000000000000000000000000000000000000000000000000000000000006C'') = Inr (cv_A curveTc26512B)"
  "hexInt (''687D1B459DC841457E3E06CF6F5E2517B97C7D614AF138BCBF85DC806C4B289F'' @
     ''3E965D2DB1416D217F8B276FAD1AB69C50F78BEE1FA3106EFB8CCBC7C5140116'') = Inr (cv_B curveTc26512B)"
  "hexInt (''8000000000000000000000000000000000000000000000000000000000000001'' @
     ''49A1EC142565A545ACFDB77BD9D40CFA8B996712101BEA0EC6346C54374F25BD'') = Inr (cv_Q curveTc26512B)"
  "hexInt (''0000000000000000000000000000000000000000000000000000000000000000'' @
     ''0000000000000000000000000000000000000000000000000000000000000002'') = Inr (cv_X curveTc26512B)"
  "hexInt (''1A8F7EDA389B094C2C071E3647A8940F3C123B697578C213BE6DD9E6C8EC7335'' @
     ''DCB228FD1EDF4A39152CBCAAF8C0398828041055F94CEEEC7E21340780FE41BD'') = Inr (cv_Y curveTc26512B)"
  by (rule hexInt_digits; simp add: curveTc26512B_def hex_value_def)+

lemma curveTc26512C_text:
  "hexInt (''FFFFFFFFFFFFFFFFFFFFFFFFFFFFFFFFFFFFFFFFFFFFFFFFFFFFFFFFFFFFFFFF'' @
     ''FFFFFFFFFFFFFFFFFFFFFFFFFFFFFFFFFFFFFFFFFFFFFFFFFFFFFFFFFFFFFDC7'') = Inr (cv_P curveTc26512C)"
  "hexInt (''DC9203E514A721875485A529D2C722FB187BC8980EB866644DE41C68E1430645'' @
     ''46E861C0E2C9EDD92ADE71F46FCF50FF2AD97F951FDA9F2A2EB6546F39689BD3'') = Inr (cv_A curveTc26512C)"
  "hexInt (''B4C4EE28CEBC6C2C8AC12952CF37F16AC7EFB6A9F69F4B57FFDA2E4F0DE5ADE0'' @
     ''38CBC2FFF719D2C18DE0284B8BFEF3B52B8CC7A5F5BF0A3C8D2319A5312557E1'') = Inr (cv_B curveTc26512C)"
  "hexInt (''3FFFFFFFFFFFFFFFFFFFFFFFFFFFFFFFFFFFFFFFFFFFFFFFFFFFFFFFFFFFFFFF'' @
     ''C98CDBA46506AB004C33A9FF5147502CC8EDA9E7A769A12694623CEF47F023ED'') = Inr (cv_Q curveTc26512C)"
  "hexInt (''E2E31EDFC23DE7BDEBE241CE593EF5DE2295B7A9CBAEF021D385F7074CEA043A'' @
     ''A27272A7AE602BF2A7B9033DB9ED3610C6FB85487EAE97AAC5BC7928C1950148'') = Inr (cv_X curveTc26512C)"
  "hexInt (''F5CE40D95B5EB899ABBCCFF5911CB8577939804D6527378B8C108C3D2090FF9B'' @
     ''E18E2D33E3021ED2EF32D85822423B6304F726AA854BAE07D0396E9A9ADDC40F'') = Inr (cv_Y curveTc26512C)"
  by (rule hexInt_digits; simp add: curveTc26512C_def hex_value_def)+

lemma curve2001Test_text:
  "vko_mustHex ''8000000000000000000000000000000000000000000000000000000000000431'' = Inr (cv_P curve2001Test)"
  "vko_mustHex ''0000000000000000000000000000000000000000000000000000000000000007'' = Inr (cv_A curve2001Test)"
  "vko_mustHex ''5FBFF498AA938CE739B8E022FBAFEF40563F6E6A3472FC2A514C0CE9DAE23B7E'' = Inr (cv_B curve2001Test)"
  "vko_mustHex ''8000000000000000000000000000000150FE8A1892976154C59CFC193ACCF5B3'' = Inr (cv_Q curve2001Test)"
  "vko_mustHex ''0000000000000000000000000000000000000000000000000000000000000002'' = Inr (cv_X curve2001Test)"
  "vko_mustHex ''08E2A8A0E65147D4BD6316030E16D19C85C97F0A9CA267122B96ABBCEA7E8FC8'' = Inr (cv_Y curve2001Test)"
  by (rule hexInt_digits; simp add: curve2001Test_def hex_value_def)+

end
