(* ===== verification/SignNonce.thy ===== *)
theory SignNonce
  imports Facade CurveParams
begin

text \<open>
  The nonce of \<^verbatim>\<open>signDigestOnCurve\<close> (\<^verbatim>\<open>exports.go\<close>). It is drawn below the group order, written
  little-endian by \<^verbatim>\<open>big2leFixed\<close> and read big-endian by \<^verbatim>\<open>SignDigest\<close>, which reduces it: the nonce that
  signs is the byte reversal of the draw modulo the order. The highest byte of the draw is at most that of
  the order, so the lowest byte of the reversal is bounded, and some residues of the nonce never occur. On the
  two sets of cofactor 4, whose order leaves the top bits of the encoding empty, this is visible in the nonce itself.
\<close>

section \<open>The reversed draw\<close>

lemma le_nat_rev_mod: "bs \<noteq> [] \<Longrightarrow> le_nat (rev bs) mod 256 = unat (last bs)"
  by (cases bs rule: rev_cases) simp_all

lemma last_le_bytes: "0 < sz \<Longrightarrow> last (le_bytes sz n) = of_nat (n div 256 ^ (sz - 1))"
proof -
  assume sz: "0 < sz"
  then have "le_bytes sz n \<noteq> []" by (metis length_le_bytes less_irrefl list.size(3))
  then have "last (le_bytes sz n) = last (drop (sz - 1) (le_bytes sz n))"
    using sz by (simp add: last_drop)
  also have "drop (sz - 1) (le_bytes sz n) = [of_nat (n div 256 ^ (sz - 1))]"
    using le_bytes_drop [of "sz - 1" sz n] sz by simp
  finally show ?thesis by simp
qed

lemma reversed_draw_low_byte:
  assumes "0 < sz" "n < 256 ^ sz"
  shows "big_SetBytes (le_bytes sz n) mod 256 = int (n div 256 ^ (sz - 1))"
proof -
  have "256 ^ sz = 256 ^ (sz - 1) * (256 :: nat)" using assms(1) by (cases sz) simp_all
  then have "n div 256 ^ (sz - 1) < 256" using assms(2) by (simp add: less_mult_imp_div_less mult.commute)
  then have "unat (of_nat (n div 256 ^ (sz - 1)) :: byte) = n div 256 ^ (sz - 1)" by (simp add: unat_of_nat)
  moreover have "le_bytes sz n \<noteq> []" using assms(1) by (metis length_le_bytes less_irrefl list.size(3))
  ultimately have "le_nat (rev (le_bytes sz n)) mod 256 = n div 256 ^ (sz - 1)"
    using le_nat_rev_mod [of "le_bytes sz n"] last_le_bytes [OF assms(1), of n] by simp
  then have "int (le_nat (rev (le_bytes sz n))) mod 256 = int (n div 256 ^ (sz - 1))"
    by (metis of_nat_mod of_nat_numeral)
  then show ?thesis by (simp add: big_SetBytes_def be_nat_def)
qed

text \<open>SignDigest depends on its nonce argument through its value modulo the order.\<close>

lemma SignDigest_reduced:
  assumes "0 < cv_Q c" "cv_Q c \<le> 256 ^ PointSize c"
  shows "SignDigest c prv digest (fillBE (PointSize c) (big_SetBytes k mod cv_Q c)) = SignDigest c prv digest k"
proof -
  let ?n = "big_SetBytes k mod cv_Q c"
  have n: "0 \<le> ?n" "?n < 256 ^ PointSize c"
    using assms(1) order_less_le_trans [OF pos_mod_bound assms(2), of "big_SetBytes k"] by simp_all
  then have "nat ?n < 256 ^ PointSize c" by (simp add: nat_less_iff)
  then have "big_SetBytes (fillBE (PointSize c) ?n) = ?n"
    using n(1) by (simp add: fillBE_eq big_SetBytes_rev_le)
  then show ?thesis by (simp add: SignDigest_def Let_def)
qed

text \<open>The draw of the attempt that signed.\<close>

lemma signDigest_attempts_draw:
  assumes "fst (signDigest_attempts n rand_Int c prv digest rnd) = Inr sig"
  shows "\<exists>k s s'. rand_Int (cv_Q c) s = (Inr k, s') \<and> k \<noteq> 0 \<and>
    SignDigest c prv digest (gc_big2leFixed k (PointSize c)) = Inr (Some sig)"
  using assms
  by (induction n arbitrary: rnd) (auto simp: Let_def split: prod.splits sum.splits if_splits option.splits)

definition biased :: "curve \<Rightarrow> int \<Rightarrow> bool" where
  "biased c n \<longleftrightarrow> (\<exists>j. 0 \<le> j \<and> j \<le> (256 ^ PointSize c - 1) div cv_Q c \<and>
     (n + j * cv_Q c) mod 256 \<le> (cv_Q c - 1) div 256 ^ (PointSize c - 1))"

lemma reversed_draw_biased:
  assumes k: "0 \<le> k" "k < cv_Q c" "cv_Q c \<le> 256 ^ PointSize c"
  shows "biased c (big_SetBytes (gc_big2leFixed k (PointSize c)) mod cv_Q c)"
proof -
  let ?sz = "PointSize c"
  define e where "e = big_SetBytes (le_bytes ?sz (nat k))"
  have sz: "0 < ?sz" by (simp add: PointSize_def)
  have "k < 256 ^ ?sz" using k(2,3) by linarith
  then have fit: "nat k < 256 ^ ?sz" using k(1) by (simp add: nat_less_iff)
  have Q: "0 < cv_Q c" using k by linarith
  have e: "0 \<le> e" "e \<le> 256 ^ ?sz - 1" using big_SetBytes_less [of "le_bytes ?sz (nat k)"] by (simp_all add: e_def)
  have "e mod 256 = int (nat k div 256 ^ (?sz - 1))" unfolding e_def by (rule reversed_draw_low_byte [OF sz fit])
  also have "\<dots> = k div 256 ^ (?sz - 1)" using k(1) by (simp add: zdiv_int)
  also have "\<dots> \<le> (cv_Q c - 1) div 256 ^ (?sz - 1)" using k(2) by (intro zdiv_mono1) simp_all
  finally have "(e mod cv_Q c + e div cv_Q c * cv_Q c) mod 256 \<le> (cv_Q c - 1) div 256 ^ (?sz - 1)" by simp
  moreover have "0 \<le> e div cv_Q c" "e div cv_Q c \<le> (256 ^ ?sz - 1) div cv_Q c"
    using e Q by (simp_all add: pos_imp_zdiv_nonneg_iff zdiv_mono1)
  ultimately show ?thesis
    unfolding biased_def gc_big2leFixed_eq [OF k(1) fit] e_def [symmetric] by blast
qed

section \<open>The sets of cofactor 4\<close>

lemma biased_512C:
  assumes "cv_P c = cv_P curveTc26512C" "cv_Q c = cv_Q curveTc26512C" "biased c n"
  shows "n mod 256 < 140"
proof -
  have ps: "PointSize c = 64"
    using assms(1) big_BitLen_eqI [of 511 "cv_P curveTc26512C"] by (simp add: PointSize_def curveTc26512C_def)
  obtain j where j: "0 \<le> j" "j \<le> 4" "(n + j * cv_Q curveTc26512C) mod 256 \<le> 63"
    using assms(2,3) by (auto simp: biased_def ps) (auto simp: curveTc26512C_def)
  have "(n + j * cv_Q curveTc26512C) mod 256 = (n mod 256 + j * (cv_Q curveTc26512C mod 256)) mod 256"
    by (metis mod_add_left_eq mod_add_right_eq mod_mult_right_eq)
  also have "cv_Q curveTc26512C mod 256 = 237" by (simp add: curveTc26512C_def)
  finally have m: "(n mod 256 + j * 237) mod 256 \<le> 63" using j(3) by simp
  define x q where "x = n mod 256" and "q = (x + j * 237) div 256"
  have x: "0 \<le> x" "x < 256" by (simp_all add: x_def)
  have "(x + j * 237) mod 256 \<le> 63" using m by (simp only: x_def)
  then have q: "0 \<le> x + j * 237 - 256 * q" "x + j * 237 - 256 * q \<le> 63"
    by (simp_all add: q_def minus_mult_div_eq_mod)
  have "j = 0 \<or> j = 1 \<or> j = 2 \<or> j = 3 \<or> j = 4" using j(1,2) by linarith
  moreover have "0 \<le> q" using x j(1) by (simp add: q_def pos_imp_zdiv_nonneg_iff)
  moreover have "q < 5" using x q j(2) by linarith
  then have "q < 0 \<or> q = 0 \<or> q = 1 \<or> q = 2 \<or> q = 3 \<or> q = 4" by linarith
  ultimately show ?thesis unfolding x_def [symmetric] using x q by (elim disjE; simp only:; linarith)
qed

lemma biased_256A:
  assumes "cv_P c = cv_P curveTc26256A" "cv_Q c = cv_Q curveTc26256A" "biased c n"
  shows "n mod 256 < 115 \<or> 152 < n mod 256"
proof -
  have ps: "PointSize c = 32"
    using assms(1) big_BitLen_eqI [of 255 "cv_P curveTc26256A"] by (simp add: PointSize_def curveTc26256A_def)
  obtain j where j: "0 \<le> j" "j \<le> 3" "(n + j * cv_Q curveTc26256A) mod 256 \<le> 64"
    using assms(2,3) by (auto simp: biased_def ps) (auto simp: curveTc26256A_def)
  have "(n + j * cv_Q curveTc26256A) mod 256 = (n mod 256 + j * (cv_Q curveTc26256A mod 256)) mod 256"
    by (metis mod_add_left_eq mod_add_right_eq mod_mult_right_eq)
  also have "cv_Q curveTc26256A mod 256 = 103" by (simp add: curveTc26256A_def)
  finally have m: "(n mod 256 + j * 103) mod 256 \<le> 64" using j(3) by simp
  define x q where "x = n mod 256" and "q = (x + j * 103) div 256"
  have x: "0 \<le> x" "x < 256" by (simp_all add: x_def)
  have "(x + j * 103) mod 256 \<le> 64" using m by (simp only: x_def)
  then have q: "0 \<le> x + j * 103 - 256 * q" "x + j * 103 - 256 * q \<le> 64"
    by (simp_all add: q_def minus_mult_div_eq_mod)
  have "j = 0 \<or> j = 1 \<or> j = 2 \<or> j = 3" using j(1,2) by linarith
  moreover have "0 \<le> q" using x j(1) by (simp add: q_def pos_imp_zdiv_nonneg_iff)
  moreover have "q < 3" using x q j(2) by linarith
  then have "q < 0 \<or> q = 0 \<or> q = 1 \<or> q = 2" by linarith
  ultimately show ?thesis unfolding x_def [symmetric] using x q by (elim disjE; simp only:; linarith)
qed

section \<open>Properties\<close>

text \<open>
  C32. The nonce of a signature is not uniform. Every signature that SignDigestOnCurve returns,
  from any source that draws below the order, is that of SignDigest for a nonce n whose sum with some
  multiple of the order has a bounded lowest byte. On tc26-512-C no nonce has a lowest byte of 140 or more, on
  tc26-256-A none has one from 115 to 152.
\<close>

theorem signDigestOnCurve_nonce_bias:
  assumes "\<And>s k s'. rand_Int (cv_Q c) s = (Inr k, s') \<Longrightarrow> 0 \<le> k \<and> k < cv_Q c" "cv_Q c \<le> 256 ^ PointSize c"
    and "fst (signDigestOnCurve rand_Int c prv digest rnd) = Inr sig"
  shows "\<exists>n. 0 < n \<and> n < cv_Q c \<and> SignDigest c prv digest (fillBE (PointSize c) n) = Inr (Some sig) \<and> biased c n \<and>
    (cv_P c = cv_P curveTc26512C \<and> cv_Q c = cv_Q curveTc26512C \<longrightarrow> n mod 256 < 140) \<and>
    (cv_P c = cv_P curveTc26256A \<and> cv_Q c = cv_Q curveTc26256A \<longrightarrow> n mod 256 < 115 \<or> 152 < n mod 256)"
proof -
  obtain k s s' where k: "rand_Int (cv_Q c) s = (Inr k, s')"
    and sg: "SignDigest c prv digest (gc_big2leFixed k (PointSize c)) = Inr (Some sig)"
    using signDigest_attempts_draw [OF assms(3) [unfolded signDigestOnCurve_def]] by blast
  have kr: "0 \<le> k" "k < cv_Q c" using assms(1) [OF k] by simp_all
  define n where "n = big_SetBytes (gc_big2leFixed k (PointSize c)) mod cv_Q c"
  have Q: "0 < cv_Q c" using kr by linarith
  have b: "biased c n" unfolding n_def by (rule reversed_draw_biased [OF kr assms(2)])
  have "n \<noteq> 0" using sg by (auto simp: n_def SignDigest_def Let_def split: if_splits)
  moreover have "0 \<le> n" "n < cv_Q c" using Q by (simp_all add: n_def)
  ultimately have n: "0 < n" "n < cv_Q c" by simp_all
  have "SignDigest c prv digest (fillBE (PointSize c) n) = Inr (Some sig)"
    using SignDigest_reduced [OF Q assms(2)] sg by (simp add: n_def)
  then show ?thesis using n b biased_512C biased_256A by blast
qed

text \<open>Draws of \<open>256 ^ 63\<close> give the nonce 1, so that the point is the base point.\<close>

lemma reversed_256_63: "gc_big2leFixed (256 ^ 63) 64 = replicate 63 0 @ [1]"
proof -
  have le: "le_nat (replicate n 0 @ [1]) = 256 ^ n" for n by (induction n) simp_all
  have "le_bytes 64 (le_nat (replicate 63 0 @ [1])) = replicate 63 0 @ [1]" by (rule le_bytes_le_nat) simp
  then have "le_bytes 64 (256 ^ 63) = replicate 63 0 @ [1]" unfolding le .
  then show ?thesis by (subst gc_big2leFixed_eq) simp_all
qed

theorem signDigestOnCurve_nonce_bias_witness:
  "\<exists>sig n. fst (signDigestOnCurve (\<lambda>q s. (Inr (256 ^ 63), s)) curveTc26512C [1] [1] ()) = Inr sig \<and>
     SignDigest curveTc26512C [1] [1] (fillBE 64 n) = Inr (Some sig) \<and> n mod 256 < 140"
proof -
  let ?c = curveTc26512C and ?draw = "\<lambda>q s. (Inr (256 ^ 63), s) :: int res \<times> unit"
  have ps: "PointSize ?c = 64"
    using big_BitLen_eqI [of 511 "cv_P ?c"] by (simp add: PointSize_def curveTc26512C_def)
  have Q: "256 ^ 63 < cv_Q ?c" "cv_Q ?c \<le> 256 ^ 64" by (simp_all add: curveTc26512C_def)
  have one: "big_SetBytes (replicate 63 0 @ [1]) = 1"
  proof -
    have "le_nat (1 # replicate n 0) = 1" for n by (induction n) simp_all
    then show ?thesis by (simp add: big_SetBytes_def be_nat_def)
  qed
  have m1: "1 mod cv_Q ?c = 1" by (simp add: curveTc26512C_def)
  have "big_BitLen 1 = 1" using big_BitLen_eqI [of 0 1] by simp
  then have "ScalarMultSecret ?c 1 (ec_Base ?c) = Inr (ec_Base ?c)"
    by (simp add: ScalarMultSecret_def curveTc26512C_def ec_ScalarMult_def IsInfinity_def big_Bit_def ec_Base_def)
  moreover have "big_SetBytes (reverse [1]) = 1" "big_SetBytes [1] = 1"
    by (simp_all add: reverse_def big_SetBytes_def be_nat_def)
  moreover have "cv_X ?c mod cv_Q ?c \<noteq> 0" "(cv_X ?c mod cv_Q ?c + 1) mod cv_Q ?c \<noteq> 0"
    by (simp_all add: curveTc26512C_def)
  ultimately obtain sig where "SignDigest ?c [1] [1] (replicate 63 0 @ [1]) = Inr (Some sig)"
    by (simp add: SignDigest_def sign_digest_e_def one m1 ec_Base_def Let_def)
  then have run: "fst (signDigestOnCurve ?draw ?c [1] [1] ()) = Inr sig"
    using reversed_256_63 by (simp add: signDigestOnCurve_def ps numeral_eq_Suc Let_def)
  have "cv_Q ?c \<le> 256 ^ PointSize ?c" using Q(2) by (simp add: ps)
  from signDigestOnCurve_nonce_bias [of ?draw ?c, OF _ this run] Q(1) show ?thesis
    using run ps by auto
qed

end
