(* ===== verification/MGM.thy ===== *)
theory MGM
  imports Block_Cipher OMAC
begin

text \<open>
  \<^verbatim>\<open>mgm/mgm.go\<close>: the Multilinear Galois Mode. The record holds the parameters of the Go struct;
  its scratch buffers are overwritten before they are read in every call and are the local
  values of the definitions here. Lengths are naturals below the platform's \<^verbatim>\<open>int\<close> (64 bits),
  bit lengths are 64-bit words as in the code. \<^verbatim>\<open>Seal\<close> and \<^verbatim>\<open>Open\<close> return the appended slice.
\<close>

section \<open>Construction\<close>

record mgm =
  mg_cipher :: block_cipher
  mg_blockSize :: nat
  mg_tagSize :: nat
  mg_reduction :: byte

definition mgm_NewMGM :: "block_cipher \<Rightarrow> int \<Rightarrow> mgm res" where
  "mgm_NewMGM c tagSize =
     (let bs = bsize c in
      if bs \<noteq> 8 \<and> bs \<noteq> 16 then Inl (Err ''mgm: block size must be 64 or 128 bits'')
      else if tagSize < 4 \<or> tagSize > int bs then Inl (Err ''mgm: invalid tag size'')
      else Inr \<lparr>mg_cipher = c, mg_blockSize = bs, mg_tagSize = nat tagSize,
                mg_reduction = (if bs = 8 then 0x1b else 0x87)\<rparr>)"

section \<open>Limits and counters\<close>

definition mgm_maxFieldLen :: "mgm \<Rightarrow> nat" where
  "mgm_maxFieldLen m =
     (let halfBits = mg_blockSize m * 8 div 2; shift = halfBits - 3
      in if shift \<ge> 64 - 1 then 2 ^ 63 - 1 else 2 ^ shift - 1)"

definition mgm_validateLens :: "mgm \<Rightarrow> nat \<Rightarrow> nat \<Rightarrow> bool" where
  "mgm_validateLens m aLen pLen =
     (let halfBits = mg_blockSize m * 8 div 2;
          aBits = of_nat aLen * 8 :: u64;
          pBits = of_nat pLen * 8;
          sum = aBits + pBits
      in if aBits > sum then False
         else if halfBits \<ge> 64 then True
         else sum < push_bit halfBits 1)"

definition mgm_incrR :: "mgm \<Rightarrow> bytes \<Rightarrow> bytes" where
  "mgm_incrR m a = (let half = mg_blockSize m div 2 in take half a @ inc_be (drop half a))"

definition mgm_incrL :: "mgm \<Rightarrow> bytes \<Rightarrow> bytes" where
  "mgm_incrL m a = (let half = mg_blockSize m div 2 in inc_be (take half a) @ drop half a)"

section \<open>Multiplication in the field\<close>

text \<open>The inner loop of \<^verbatim>\<open>gfMul\<close>: bytes from the last to the first, with the carry between them.\<close>

primrec shl_carry :: "bytes \<Rightarrow> byte \<Rightarrow> bytes" where
  "shl_carry [] carry = []"
| "shl_carry (b # bs) carry = (push_bit 1 b OR carry) # shl_carry bs (drop_bit 7 (b AND 0x80))"

definition mgm_shl :: "mgm \<Rightarrow> bytes \<Rightarrow> bytes" where
  "mgm_shl m z =
     (let n = mg_blockSize m;
          overflow = (z ! 0 AND 0x80 \<noteq> 0);
          z = rev (shl_carry (rev z) 0)
      in if overflow then z[n - 1 := z ! (n - 1) XOR mg_reduction m] else z)"

definition mgm_gfMul :: "mgm \<Rightarrow> bytes \<Rightarrow> bytes \<Rightarrow> bytes" where
  "mgm_gfMul m x y =
     fold (\<lambda>bit z.
        let z = (if bit \<noteq> 0 then mgm_shl m z else z)
        in if y ! (bit div 8) AND drop_bit (bit mod 8) 0x80 \<noteq> 0 then xor_bytes z x else z)
       [0..<mg_blockSize m * 8] (replicate (mg_blockSize m) 0)"

section \<open>The two passes\<close>

text \<open>\<open>blocks_of n\<close> is the number of iterations of a loop that takes up to a block at a time.\<close>

definition mgm_blocks_of :: "mgm \<Rightarrow> nat \<Rightarrow> nat" where
  "mgm_blocks_of m n = (n + mg_blockSize m - 1) div mg_blockSize m"

definition mgm_crypt :: "mgm \<Rightarrow> bytes \<Rightarrow> bytes \<Rightarrow> bytes" where
  "mgm_crypt m icn inp =
     (let bs = mg_blockSize m;
          ek = icn[0 := icn ! 0 AND 0x7f];
          yi = enc (mg_cipher m) ek
      in snd (fold (\<lambda>i (yi, out).
            let ek = enc (mg_cipher m) yi
            in (mgm_incrR m yi, out @ xor_bytes (slice (bs * i) bs inp) ek))
          [0..<mgm_blocks_of m (length inp)] (yi, [])))"

definition mgm_process :: "mgm \<Rightarrow> bytes \<Rightarrow> bytes \<times> bytes \<Rightarrow> bytes \<times> bytes" where
  "mgm_process m data p =
     (let bs = mg_blockSize m
      in fold (\<lambda>i (zi, sum).
           let blk = copy_into bs (slice (bs * i) bs data);
               ek = enc (mg_cipher m) zi;
               mul = mgm_gfMul m ek blk
           in (mgm_incrL m zi, xor_bytes sum mul))
         [0..<mgm_blocks_of m (length data)] p)"

definition mgm_lenBlock :: "mgm \<Rightarrow> nat \<Rightarrow> nat \<Rightarrow> bytes" where
  "mgm_lenBlock m adLen ctLen =
     (let adBits = of_nat adLen * 8 :: u64; ctBits = of_nat ctLen * 8 :: u64
      in if mg_blockSize m = 8 then word_be 4 (ucast adBits :: u32) @ word_be 4 (ucast ctBits :: u32)
         else if mg_blockSize m = 16 then word_be 8 adBits @ word_be 8 ctBits
         else replicate (mg_blockSize m) 0)"

definition mgm_auth :: "mgm \<Rightarrow> bytes \<Rightarrow> bytes \<Rightarrow> bytes \<Rightarrow> bytes" where
  "mgm_auth m icn ad ct =
     (let bs = mg_blockSize m;
          ek = icn[0 := icn ! 0 OR 0x80];
          zi = enc (mg_cipher m) ek;
          (zi, sum) = mgm_process m ct (mgm_process m ad (zi, replicate bs 0));
          lenB = mgm_lenBlock m (length ad) (length ct);
          ek = enc (mg_cipher m) zi;
          sum = xor_bytes sum (mgm_gfMul m ek lenB);
          ek = enc (mg_cipher m) sum
      in take (mg_tagSize m) ek)"

section \<open>The AEAD interface\<close>

definition mgm_validateNonce :: "mgm \<Rightarrow> bytes \<Rightarrow> unit res" where
  "mgm_validateNonce m nonce =
     (if length nonce \<noteq> mg_blockSize m then Inl (Panic ''mgm: incorrect nonce length'')
      else if nonce ! 0 AND 0x80 \<noteq> 0
      then Inl (Panic ''mgm: nonce must have its most-significant bit clear'')
      else Inr ())"

definition mgm_Seal :: "mgm \<Rightarrow> bytes \<Rightarrow> bytes \<Rightarrow> bytes \<Rightarrow> bytes \<Rightarrow> bytes res" where
  "mgm_Seal m dst nonce plaintext ad =
     bind_res (mgm_validateNonce m nonce) (\<lambda>_.
       if length plaintext = 0 \<and> length ad = 0
       then Inl (Panic ''mgm: at least one of plaintext / additional data must be non-empty'')
       else if length plaintext > mgm_maxFieldLen m \<or> length ad > mgm_maxFieldLen m
       then Inl (Panic ''mgm: field too large for the n/2-bit length block under one nonce'')
       else if \<not> mgm_validateLens m (length ad) (length plaintext)
       then Inl (Panic ''mgm: combined length of additional data and plaintext exceeds 2^(n/2) bits'')
       else let ct = mgm_crypt m nonce plaintext;
                tag = mgm_auth m nonce ad ct
            in Inr (dst @ ct @ tag))"

definition mgm_errOpen :: fault where
  "mgm_errOpen = Err ''mgm: message authentication failed''"

definition mgm_Open :: "mgm \<Rightarrow> bytes \<Rightarrow> bytes \<Rightarrow> bytes \<Rightarrow> bytes \<Rightarrow> bytes res" where
  "mgm_Open m dst nonce ciphertext ad =
     bind_res (mgm_validateNonce m nonce) (\<lambda>_.
       if length ciphertext < mg_tagSize m then Inl mgm_errOpen
       else let ct = take (length ciphertext - mg_tagSize m) ciphertext;
                recvTag = drop (length ciphertext - mg_tagSize m) ciphertext
       in if length ct = 0 \<and> length ad = 0 then Inl mgm_errOpen
       else if length ct > mgm_maxFieldLen m \<or> length ad > mgm_maxFieldLen m then Inl mgm_errOpen
       else if \<not> mgm_validateLens m (length ad) (length ct) then Inl mgm_errOpen
       else let expTag = mgm_auth m nonce ad ct
       in if expTag \<noteq> recvTag then Inl mgm_errOpen
       else Inr (dst @ mgm_crypt m nonce ct))"

section \<open>The keystream of the encryption pass\<close>

definition mgm_wf :: "mgm \<Rightarrow> bool" where
  "mgm_wf m \<longleftrightarrow> block_enc (mg_cipher m) \<and> bsize (mg_cipher m) = mg_blockSize m \<and>
     (mg_blockSize m = 8 \<or> mg_blockSize m = 16) \<and> 4 \<le> mg_tagSize m \<and> mg_tagSize m \<le> mg_blockSize m \<and>
     mg_reduction m = (if mg_blockSize m = 8 then 0x1b else 0x87)"

lemma mgm_NewMGM_wf: "block_enc c \<Longrightarrow> mgm_NewMGM c t = Inr m \<Longrightarrow> mgm_wf m"
  by (auto simp: mgm_NewMGM_def mgm_wf_def Let_def split: if_splits)

definition mgm_keystream :: "mgm \<Rightarrow> bytes \<Rightarrow> nat \<Rightarrow> bytes" where
  "mgm_keystream m icn n =
     concat (map (\<lambda>i. enc (mg_cipher m) ((mgm_incrR m ^^ i) (enc (mg_cipher m) (icn[0 := icn ! 0 AND 0x7f])))) [0..<n])"

lemma length_mgm_incr [simp, len_simps]:
  "length (mgm_incrR m a) = length a" "length (mgm_incrL m a) = length a"
  by (simp_all add: mgm_incrR_def mgm_incrL_def Let_def)

lemma length_mgm_incrR_pow [simp, len_simps]: "length ((mgm_incrR m ^^ i) a) = length a"
  by (induction i) simp_all

lemma length_mgm_enc:
  "mgm_wf m \<Longrightarrow> length x = mg_blockSize m \<Longrightarrow> length (enc (mg_cipher m) x) = mg_blockSize m"
  using block_enc.enc_length [of "mg_cipher m" x] by (simp add: mgm_wf_def)

lemma length_mgm_keystream:
  assumes "mgm_wf m" "length icn = mg_blockSize m"
  shows "length (mgm_keystream m icn n) = mg_blockSize m * n"
  unfolding mgm_keystream_def
  using assms by (intro length_concat_upt length_mgm_enc) (simp_all add: length_mgm_enc)

lemma take_slice_append: "take (i * n) xs @ slice (i * n) n xs = take (Suc i * n) xs"
  by (simp add: slice_def take_add add.commute [of n])

lemma mgm_blocks_cover:
  assumes "0 < mg_blockSize m"
  shows "n \<le> mg_blockSize m * mgm_blocks_of m n"
proof -
  have "n + mg_blockSize m - 1 < mg_blockSize m * ((n + mg_blockSize m - 1) div mg_blockSize m) + mg_blockSize m"
    using assms by (metis mult.commute div_mult_mod_eq add_less_cancel_left mod_less_divisor)
  then show ?thesis using assms by (simp add: mgm_blocks_of_def)
qed

lemma mgm_crypt_keystream:
  assumes wf: "mgm_wf m" and icn: "length icn = mg_blockSize m"
  shows "mgm_crypt m icn inp = xor_bytes inp (mgm_keystream m icn (mgm_blocks_of m (length inp)))"
proof -
  define bs where "bs = mg_blockSize m"
  define y0 where "y0 = enc (mg_cipher m) (icn[0 := icn ! 0 AND 0x7f])"
  define R where "R = (\<lambda>i (yi, out). let ek = enc (mg_cipher m) yi
            in (mgm_incrR m yi, out @ xor_bytes (slice (bs * i) bs inp) ek))"
  have y0: "length y0 = bs" unfolding y0_def bs_def by (rule length_mgm_enc [OF wf]) (simp add: icn)
  have "fold R [0..<n] (y0, []) = ((mgm_incrR m ^^ n) y0, xor_bytes (take (bs * n) inp) (mgm_keystream m icn n))" for n
  proof (induction n)
    case 0
    show ?case by simp
  next
    case (Suc n)
    let ?ek = "enc (mg_cipher m) ((mgm_incrR m ^^ n) y0)"
    have ks: "mgm_keystream m icn (Suc n) = mgm_keystream m icn n @ ?ek"
      by (simp add: mgm_keystream_def y0_def)
    have len: "length (mgm_keystream m icn n) = bs * n"
      using length_mgm_keystream [OF wf icn] by (simp add: bs_def)
    have "xor_bytes (take (bs * Suc n) inp) (mgm_keystream m icn (Suc n)) =
        xor_bytes (take (bs * n) inp) (mgm_keystream m icn n) @ xor_bytes (slice (bs * n) bs inp) ?ek"
    proof (cases "bs * n \<le> length inp")
      case True
      have "take (bs * Suc n) inp = take (bs * n) inp @ slice (bs * n) bs inp"
        using take_slice_append [of n bs inp] by (simp add: mult.commute)
      then show ?thesis
        using True len by (simp add: ks xor_bytes_append)
    next
      case False
      then have "xor_bytes inp (mgm_keystream m icn n @ ?ek) = xor_bytes inp (mgm_keystream m icn n)"
        using len by (intro nth_equalityI) (auto simp: nth_append)
      then show ?thesis using False by (simp add: ks slice_def)
    qed
    then show ?case
      using Suc.IH by (simp add: R_def Let_def)
  qed
  from this [of "mgm_blocks_of m (length inp)"] show ?thesis
    using mgm_blocks_cover [of m "length inp"] wf
    by (simp add: mgm_crypt_def Let_def R_def y0_def bs_def mgm_wf_def)
qed

lemma length_mgm_crypt:
  assumes "mgm_wf m" "length icn = mg_blockSize m"
  shows "length (mgm_crypt m icn inp) = length inp"
  using mgm_blocks_cover [of m "length inp"] assms
  by (auto simp: mgm_crypt_keystream length_mgm_keystream mgm_wf_def)

lemma mgm_crypt_involution:
  assumes "mgm_wf m" "length icn = mg_blockSize m"
  shows "mgm_crypt m icn (mgm_crypt m icn inp) = inp"
  using mgm_blocks_cover [of m "length inp"] assms
  by (simp add: mgm_crypt_keystream [OF assms, of "mgm_crypt m icn inp"] length_mgm_crypt)
    (simp add: mgm_crypt_keystream xor_bytes_cancel length_mgm_keystream mgm_wf_def)

section \<open>The tag\<close>

lemma length_shl_carry [simp, len_simps]: "length (shl_carry bs c) = length bs"
  by (induction bs arbitrary: c) simp_all

lemma length_mgm_shl [simp, len_simps]: "length (mgm_shl m z) = length z"
  by (simp add: mgm_shl_def Let_def)

lemma length_mgm_gfMul [len_simps]:
  assumes "length x = mg_blockSize m"
  shows "length (mgm_gfMul m x y) = mg_blockSize m"
proof -
  have "length (fold (\<lambda>bit z.
      let z = (if bit \<noteq> 0 then mgm_shl m z else z)
      in if y ! (bit div 8) AND drop_bit (bit mod 8) 0x80 \<noteq> 0 then xor_bytes z x else z) js z) = mg_blockSize m"
    if "length z = mg_blockSize m" for js z
    using that assms by (induction js arbitrary: z) (simp_all add: Let_def)
  then show ?thesis by (simp add: mgm_gfMul_def)
qed

lemma mgm_process_lengths:
  assumes wf: "mgm_wf m" and "length (fst p) = mg_blockSize m" "length (snd p) = mg_blockSize m"
  shows "length (fst (mgm_process m data p)) = mg_blockSize m \<and> length (snd (mgm_process m data p)) = mg_blockSize m"
proof -
  define R where "R = (\<lambda>i (zi, sum).
           let blk = copy_into (mg_blockSize m) (slice (mg_blockSize m * i) (mg_blockSize m) data);
               ek = enc (mg_cipher m) zi;
               mul = mgm_gfMul m ek blk
           in (mgm_incrL m zi, xor_bytes sum mul))"
  have "length (fst (fold R js q)) = mg_blockSize m \<and> length (snd (fold R js q)) = mg_blockSize m"
    if "length (fst q) = mg_blockSize m" "length (snd q) = mg_blockSize m" for js q
    using that
  proof (induction js arbitrary: q)
    case (Cons i js)
    then show ?case
      by (cases q) (simp add: R_def Let_def length_mgm_gfMul length_mgm_enc [OF wf])
  qed simp
  then show ?thesis
    using assms(2,3) by (simp add: mgm_process_def Let_def R_def)
qed

lemma length_mgm_lenBlock: "mgm_wf m \<Longrightarrow> length (mgm_lenBlock m a c) = mg_blockSize m"
  by (auto simp: mgm_wf_def mgm_lenBlock_def Let_def)

lemma length_mgm_auth:
  assumes "mgm_wf m" "length icn = mg_blockSize m"
  shows "length (mgm_auth m icn ad ct) = mg_tagSize m"
proof -
  define z where "z = enc (mg_cipher m) (icn[0 := icn ! 0 OR 0x80])"
  have z: "length z = mg_blockSize m"
    unfolding z_def by (rule length_mgm_enc [OF assms(1)]) (simp add: assms(2))
  obtain z' s' where p: "mgm_process m ct (mgm_process m ad (z, replicate (mg_blockSize m) 0)) = (z', s')"
    by fastforce
  have "length z' = mg_blockSize m" "length s' = mg_blockSize m"
    using mgm_process_lengths [OF assms(1), of "mgm_process m ad (z, replicate (mg_blockSize m) 0)" ct]
      mgm_process_lengths [OF assms(1), of "(z, replicate (mg_blockSize m) 0)" ad] z
    by (simp_all add: p)
  then show ?thesis
    using assms(1) p
    by (simp add: mgm_auth_def Let_def length_mgm_enc length_mgm_gfMul flip: z_def) (simp add: mgm_wf_def)
qed

section \<open>Seal and Open\<close>

lemma mgm_Seal_ok:
  "mgm_Seal m dst nonce pt ad = Inr r \<longleftrightarrow>
     mgm_validateNonce m nonce = Inr () \<and> (pt \<noteq> [] \<or> ad \<noteq> []) \<and>
     length pt \<le> mgm_maxFieldLen m \<and> length ad \<le> mgm_maxFieldLen m \<and>
     mgm_validateLens m (length ad) (length pt) \<and>
     r = dst @ mgm_crypt m nonce pt @ mgm_auth m nonce ad (mgm_crypt m nonce pt)"
  by (cases "mgm_validateNonce m nonce") (auto simp: mgm_Seal_def Let_def)

lemma mgm_validateNonce_ok:
  "mgm_validateNonce m nonce = Inr () \<longleftrightarrow> length nonce = mg_blockSize m \<and> nonce ! 0 AND 0x80 = 0"
  by (simp add: mgm_validateNonce_def)

text \<open>\<^verbatim>\<open>Open\<close> succeeds exactly on what \<^verbatim>\<open>Seal\<close> produces for the same nonce and data.\<close>

lemma mgm_Open_iff:
  assumes wf: "mgm_wf m"
  shows "mgm_Open m dst nonce c ad = Inr r \<longleftrightarrow>
    (\<exists>pt. mgm_Seal m [] nonce pt ad = Inr c \<and> r = dst @ pt)"
proof (cases "mgm_validateNonce m nonce")
  case (Inl e)
  then show ?thesis by (auto simp: mgm_Open_def mgm_Seal_def)
next
  case (Inr u)
  then have valid: "mgm_validateNonce m nonce = Inr ()" by simp
  then have len: "length nonce = mg_blockSize m" by (simp add: mgm_validateNonce_ok)
  note crypt = mgm_crypt_involution [OF wf len] length_mgm_crypt [OF wf len] and tag = length_mgm_auth [OF wf len]
  show ?thesis
  proof
    assume "mgm_Open m dst nonce c ad = Inr r"
    then obtain ct t where c: "c = ct @ t" "length t = mg_tagSize m" "ct \<noteq> [] \<or> ad \<noteq> []"
      "length ct \<le> mgm_maxFieldLen m" "length ad \<le> mgm_maxFieldLen m"
      "mgm_validateLens m (length ad) (length ct)" "t = mgm_auth m nonce ad ct" "r = dst @ mgm_crypt m nonce ct"
      using valid
      by (auto simp: mgm_Open_def Let_def split: if_splits
          intro!: that [of "take (length c - mg_tagSize m) c" "drop (length c - mg_tagSize m) c"])
    have "mgm_crypt m nonce ct \<noteq> [] \<or> ad \<noteq> []"
      using c(3) crypt(2) [of ct] by (metis length_0_conv)
    then have "mgm_Seal m [] nonce (mgm_crypt m nonce ct) ad = Inr c"
      using c valid crypt by (simp add: mgm_Seal_ok)
    then show "\<exists>pt. mgm_Seal m [] nonce pt ad = Inr c \<and> r = dst @ pt"
      using c(8) by blast
  next
    assume "\<exists>pt. mgm_Seal m [] nonce pt ad = Inr c \<and> r = dst @ pt"
    then obtain pt where pt: "mgm_Seal m [] nonce pt ad = Inr c" "r = dst @ pt" by blast
    define ct where "ct = mgm_crypt m nonce pt"
    have c: "c = ct @ mgm_auth m nonce ad ct" and lim: "pt \<noteq> [] \<or> ad \<noteq> []"
      "length pt \<le> mgm_maxFieldLen m" "length ad \<le> mgm_maxFieldLen m" "mgm_validateLens m (length ad) (length pt)"
      using pt(1) by (simp_all add: mgm_Seal_ok ct_def)
    have ct: "length ct = length pt" "mgm_crypt m nonce ct = pt" using crypt by (simp_all add: ct_def)
    have "\<not> (ct = [] \<and> ad = [])" using lim(1) ct(1) by auto
    then show "mgm_Open m dst nonce c ad = Inr r"
      using lim ct tag [of ad ct] valid pt(2) by (simp add: mgm_Open_def c)
  qed
qed

lemma mgm_Open_Seal:
  assumes "mgm_wf m" "mgm_Seal m dst nonce pt ad = Inr r"
  shows "mgm_Open m dst' nonce (drop (length dst) r) ad = Inr (dst' @ pt)"
  using assms by (simp add: mgm_Open_iff mgm_Seal_ok)

text \<open>No other failure: an \<^verbatim>\<open>Open\<close> that does not succeed with a valid nonce is the one error.\<close>

lemma mgm_Open_cases:
  "mgm_validateNonce m nonce = Inr () \<Longrightarrow>
     mgm_Open m dst nonce c ad = Inl mgm_errOpen \<or> (\<exists>r. mgm_Open m dst nonce c ad = Inr r)"
  by (auto simp: mgm_Open_def Let_def)

section \<open>Limits and counters\<close>

text \<open>
  The limits in one inequality: with fields below the cap, the 64-bit arithmetic of
  \<^verbatim>\<open>validateLens\<close> does not lose a bit, and it decides \<open>|A| + |P| < 2^(n/2)\<close> in bits.
\<close>

lemma mgm_validateLens_iff:
  assumes "mgm_wf m" "a \<le> mgm_maxFieldLen m" "p \<le> mgm_maxFieldLen m"
  shows "mgm_validateLens m a p \<longleftrightarrow> 8 * (a + p) < 2 ^ (mg_blockSize m * 4)"
proof -
  have cap: "a < 2 ^ 61" "p < 2 ^ 61"
    using assms by (auto simp: mgm_wf_def mgm_maxFieldLen_def)
  then have bits: "unat (of_nat a * 8 :: u64) = 8 * a" "unat (of_nat p * 8 :: u64) = 8 * p"
    by (simp_all add: unat_word_ariths unat_of_nat)
  have sum: "unat (of_nat a * 8 + of_nat p * 8 :: u64) = (8 * a + 8 * p) mod 2 ^ 64"
    by (simp only: unat_word_ariths(1) bits) simp
  have "push_bit 32 1 = (4294967296 :: u64)" by simp
  then show ?thesis
    using assms(1) cap
    by (auto simp: mgm_wf_def mgm_validateLens_def Let_def word_less_nat_alt bits sum mod_if)
qed

text \<open>Distinct counters: the encryption counter does not repeat within \<open>2^(n/2)\<close> blocks.\<close>

definition mgm_ctr_half :: "mgm \<Rightarrow> nat" where
  "mgm_ctr_half m = mg_blockSize m div 2"

lemma mgm_incrR_pow:
  "(mgm_incrR m ^^ i) a = take (mgm_ctr_half m) a @ (inc_be ^^ i) (drop (mgm_ctr_half m) a)"
proof (induction i)
  case (Suc i)
  define X where "X = (inc_be ^^ i) (drop (mgm_ctr_half m) a)"
  have X: "length X = length a - mgm_ctr_half m" by (simp add: X_def)
  have "mgm_incrR m (take (mgm_ctr_half m) a @ X) = take (mgm_ctr_half m) a @ inc_be X"
    using X by (cases "length a \<le> mgm_ctr_half m")
      (simp_all add: mgm_incrR_def Let_def inc_be_def [of "[]"] flip: mgm_ctr_half_def)
  then show ?case using Suc by (simp add: X_def)
qed simp

lemma mgm_counters_distinct:
  assumes "mgm_wf m" "length y = mg_blockSize m" "i < 2 ^ (mg_blockSize m * 4)" "j < 2 ^ (mg_blockSize m * 4)"
    and "(mgm_incrR m ^^ i) y = (mgm_incrR m ^^ j) y"
  shows "i = j"
proof -
  have "256 ^ length (drop (mgm_ctr_half m) y) = (2 :: nat) ^ (mg_blockSize m * 4)"
    using assms(1,2) by (auto simp: mgm_wf_def mgm_ctr_half_def)
  then show ?thesis
    using inc_be_pow_inj [of i "drop (mgm_ctr_half m) y" j] assms(3-5) by (simp add: mgm_incrR_pow)
qed

end
