(* ===== verification/MGM_Field.thy ===== *)
theory MGM_Field
  imports MGM
begin

text \<open>
  The multiplication of \<^verbatim>\<open>mgm/mgm.go\<close> is the multiplication of a commutative ring: \<open>gfMul\<close> on byte
  strings is a sum of doublings over words, and this operation is commutative,
  associative, distributes over exclusive or and has the unit \<open>0...01\<close>. The shift loop with
  its carry is the shift of the CMAC subkeys.
\<close>

section \<open>Doubling and the product\<close>

definition dbl :: "'a::len word \<Rightarrow> 'a word \<Rightarrow> 'a word" where
  "dbl R w = push_bit 1 w XOR (if bit w (LENGTH('a) - 1) then R else 0)"

definition gf_mul :: "'a::len word \<Rightarrow> 'a word \<Rightarrow> 'a word \<Rightarrow> 'a word" where
  "gf_mul R x y = xsum (\<lambda>k. if bit y k then (dbl R ^^ k) x else 0) LENGTH('a)"

lemma dbl_xor: "dbl R (v XOR w) = dbl R v XOR dbl R w"
  by (auto simp: dbl_def bit_xor_iff push_bit_xor ac_simps)

lemma dbl_0 [simp]: "dbl R 0 = 0"
  by (simp add: dbl_def)

lemma dbl_pow_xor: "(dbl R ^^ k) (v XOR w) = (dbl R ^^ k) v XOR (dbl R ^^ k) w"
  by (induction k) (simp_all add: dbl_xor)

lemma dbl_pow_0 [simp]: "(dbl R ^^ k) 0 = 0"
  by (induction k) simp_all

lemma dbl_pow_xsum: "(dbl R ^^ k) (xsum f n) = xsum (\<lambda>j. (dbl R ^^ k) (f j)) n"
  by (induction n) (simp_all add: dbl_pow_xor)

lemma dbl_pow_1: "k < LENGTH('a) \<Longrightarrow> (dbl R ^^ k) 1 = (push_bit k 1 :: 'a::len word)"
proof (induction k)
  case (Suc k)
  then have "\<not> bit (push_bit k 1 :: 'a word) (LENGTH('a) - 1)"
    by (auto simp: bit_push_bit_iff bit_1_iff bit_exp_iff)
  then show ?case
    using Suc by (simp add: dbl_def push_bit_double)
qed simp

lemma word_as_dbls: "x = xsum (\<lambda>j. if bit x j then (dbl R ^^ j) 1 else 0) LENGTH('a)" for x :: "'a::len word"
proof -
  have "xsum (\<lambda>j. if bit x j then (dbl R ^^ j) 1 else 0) LENGTH('a) =
      xsum (\<lambda>j. if bit x j then push_bit j 1 else 0) LENGTH('a)"
    by (rule xsum_cong) (simp add: dbl_pow_1)
  then show ?thesis by (simp add: xsum_bits)
qed

lemma gf_mul_sum:
  "gf_mul R x y = xsum (\<lambda>k. xsum (\<lambda>j. if bit y k \<and> bit x j then (dbl R ^^ (k + j)) 1 else 0) LENGTH('a)) LENGTH('a)"
  for x y :: "'a::len word"
proof -
  have "(if bit y k then (dbl R ^^ k) x else 0) =
      xsum (\<lambda>j. if bit y k \<and> bit x j then (dbl R ^^ (k + j)) 1 else 0) LENGTH('a)" for k
  proof (cases "bit y k")
    case True
    have "(dbl R ^^ k) x = (dbl R ^^ k) (xsum (\<lambda>j. if bit x j then (dbl R ^^ j) 1 else 0) LENGTH('a))"
      by (subst word_as_dbls [of x R]) simp
    also have "\<dots> = xsum (\<lambda>j. if bit x j then (dbl R ^^ (k + j)) 1 else 0) LENGTH('a)"
      unfolding dbl_pow_xsum by (rule xsum_cong) (simp add: funpow_add)
    finally show ?thesis using True by simp
  qed simp
  then show ?thesis by (simp only: gf_mul_def)
qed

lemma gf_mul_commute: "gf_mul R x y = gf_mul R y x" for x y :: "'a::len word"
proof -
  have "gf_mul R x y = xsum (\<lambda>j. xsum (\<lambda>k. if bit y k \<and> bit x j then (dbl R ^^ (k + j)) 1 else 0) LENGTH('a)) LENGTH('a)"
    unfolding gf_mul_sum by (rule xsum_swap)
  also have "\<dots> = gf_mul R y x"
    unfolding gf_mul_sum by (intro xsum_cong) (auto simp: add.commute)
  finally show ?thesis .
qed

lemma gf_mul_xor_left: "gf_mul R (x XOR x') y = gf_mul R x y XOR gf_mul R x' y"
  unfolding gf_mul_def xsum_xor [symmetric] by (rule xsum_cong) (simp add: dbl_pow_xor)

lemma gf_mul_xor_right: "gf_mul R x (y XOR y') = gf_mul R x y XOR gf_mul R x y'"
  by (simp add: gf_mul_commute [of R x] gf_mul_xor_left)

lemma gf_mul_0 [simp]: "gf_mul R 0 y = 0" "gf_mul R x 0 = 0"
  by (simp_all add: gf_mul_def cong: if_cong)

lemma gf_mul_xsum: "gf_mul R (xsum f n) z = xsum (\<lambda>k. gf_mul R (f k) z) n"
  by (induction n) (simp_all add: gf_mul_xor_left)

lemma gf_mul_dbl: "gf_mul R ((dbl R ^^ i) x) y = (dbl R ^^ i) (gf_mul R x y)"
  unfolding gf_mul_def dbl_pow_xsum
  by (rule xsum_cong) (simp add: funpow_add [symmetric, unfolded o_def, THEN fun_cong] add.commute)

lemma gf_mul_assoc: "gf_mul R (gf_mul R x y) z = gf_mul R x (gf_mul R y z)"
proof -
  have "gf_mul R (gf_mul R x y) z = xsum (\<lambda>k. if bit y k then (dbl R ^^ k) (gf_mul R x z) else 0) LENGTH('a)"
    for x y z :: "'a::len word"
    unfolding gf_mul_def [of R x y] gf_mul_xsum by (rule xsum_cong) (simp add: gf_mul_dbl)
  then have swap: "gf_mul R (gf_mul R x y) z = gf_mul R (gf_mul R x z) y" for x y z :: "'a::len word"
    by (rule trans) (simp only: gf_mul_def [of R "gf_mul R x z" y])
  show ?thesis
    by (metis gf_mul_commute swap)
qed

lemma gf_mul_1: "gf_mul R x 1 = x"
proof -
  have "xsum (\<lambda>k. if bit (1 :: 'a word) k then (dbl R ^^ k) x else 0) (Suc n) = x" for n
    by (induction n) (simp_all add: bit_1_iff)
  from this [of "LENGTH('a) - 1"] show ?thesis by (simp add: gf_mul_def)
qed

section \<open>The byte loops\<close>

text \<open>The shift loop with its carry is the shift of \<^verbatim>\<open>omac\<close>.\<close>

lemma and_0x80: "x AND 0x80 \<noteq> 0 \<longleftrightarrow> bit x 7" for x :: byte
proof -
  have "x AND 0x80 = (if bit x 7 then 0x80 else 0)"
  proof (rule bit_word_eqI)
    fix i assume "i < LENGTH(8)"
    then have "i \<in> {0, 1, 2, 3, 4, 5, 6, 7}" by auto
    then show "bit (x AND 0x80) i = bit (if bit x 7 then 0x80 else 0 :: byte) i"
      by (auto simp: bit_and_iff)
  qed
  then show ?thesis by simp
qed

lemma drop_and_0x80: "drop_bit 7 (x AND 0x80) = of_bool (bit x 7)" for x :: byte
proof -
  have "bit (x AND 0x80) 7 = bit x 7" by (simp add: bit_and_iff)
  then show ?thesis by (simp add: drop_bit_7_byte)
qed

lemma nth_shl_carry:
  "i < length bs \<Longrightarrow> shl_carry bs c ! i =
    push_bit 1 (bs ! i) OR (if i = 0 then c else of_bool (bit (bs ! (i - 1)) 7))"
proof (induction bs arbitrary: c i)
  case (Cons b bs)
  have "shl_carry (b # bs) c ! Suc j = push_bit 1 (bs ! j) OR of_bool (bit ((b # bs) ! j) 7)"
    if "j < length bs" for j
    using Cons.IH [OF that, of "drop_bit 7 (b AND 0x80)"] unfolding drop_and_0x80
    by (cases j) (simp_all only: shl_carry.simps drop_and_0x80 nth_Cons_Suc nth_Cons_0, simp_all)
  then show ?case using Cons.prems by (cases i) simp_all
qed simp

lemma mgm_shl_omac:
  assumes "length z = mg_blockSize m" "0 < mg_blockSize m"
  shows "mgm_shl m z = omac_shiftLeftXorRb z (mg_reduction m)"
proof (rule nth_equalityI)
  fix i assume "i < length (mgm_shl m z)"
  then have i: "i < length z" by simp
  define n where "n = length z"
  have "rev (shl_carry (rev z) 0) ! i =
      push_bit 1 (z ! i) OR (if i + 1 < n then of_bool (bit (z ! (i + 1)) 7) else 0)"
  proof -
    have "n - Suc i < n" using i by (simp add: n_def)
    then have "rev (shl_carry (rev z) 0) ! i =
        push_bit 1 (rev z ! (n - Suc i)) OR (if n - Suc i = 0 then 0 else of_bool (bit (rev z ! (n - Suc i - 1)) 7))"
      using i by (simp add: rev_nth nth_shl_carry n_def)
    moreover have "rev z ! (n - Suc i) = z ! i" using i by (simp add: rev_nth n_def)
    moreover have "i + 1 < n \<Longrightarrow> rev z ! (n - Suc i - 1) = z ! (i + 1)"
      by (simp add: rev_nth n_def Suc_diff_Suc)
    ultimately show ?thesis using i by (auto simp: n_def)
  qed
  then show "mgm_shl m z ! i = omac_shiftLeftXorRb z (mg_reduction m) ! i"
    using i assms by (auto simp: mgm_shl_def Let_def and_0x80 nth_shiftLeft nth_list_update n_def)
qed (use assms in \<open>simp add: length_shiftLeft\<close>)

lemma be_word_xor:
  "length xs = length ys \<Longrightarrow> (be_word (xor_bytes xs ys) :: 'a::len word) = be_word xs XOR be_word ys"
  by (simp add: be_word_def xor_bytes_def le_word_xor [symmetric] zip_rev rev_map)

lemma be_word_replicate_0 [simp]: "be_word (replicate n 0) = 0"
  by (rule bit_word_eqI) (simp add: be_word_def bit_le_word)

text \<open>The multiplication loop, for a word type as wide as the block.\<close>

lemma mgm_gfMul_gf_mul:
  assumes "length x = n" "length y = n" "mg_blockSize m = n" "0 < n" "LENGTH('a) = 8 * n"
  shows "(be_word (mgm_gfMul m x y) :: 'a::len word) = gf_mul (ucast (mg_reduction m)) (be_word x) (be_word y)"
proof -
  define R :: "'a word" where "R = ucast (mg_reduction m)"
  define X Y :: "'a word" where "X = be_word x" and "Y = be_word y"
  define F where "F = (\<lambda>bit z.
        let z = (if bit \<noteq> 0 then mgm_shl m z else z)
        in if y ! (bit div 8) AND drop_bit (bit mod 8) 0x80 \<noteq> 0 then xor_bytes z x else z)"
  have len: "length (F k z) = n" if "length z = n" for k z
    using that assms(1) by (simp add: F_def Let_def)
  have bitY: "y ! (k div 8) AND drop_bit (k mod 8) 0x80 \<noteq> 0 \<longleftrightarrow> bit Y (8 * n - Suc k)" if "k < 8 * n" for k
  proof -
    have "k mod 8 < 8" by simp
    then have "k mod 8 \<in> {0, 1, 2, 3, 4, 5, 6, 7}" by auto
    then have "drop_bit (k mod 8) 0x80 = (push_bit (7 - k mod 8) 1 :: byte)" by auto
    moreover have "w AND push_bit j 1 \<noteq> 0 \<longleftrightarrow> bit w j" if "j < 8" for w :: byte and j
      using that by (simp add: bit_iff_and_push_bit_not_eq_0)
    ultimately have 1: "y ! (k div 8) AND drop_bit (k mod 8) 0x80 \<noteq> 0 \<longleftrightarrow> bit (y ! (k div 8)) (7 - k mod 8)"
      by simp
    have k: "k = 8 * (k div 8) + k mod 8" by simp
    define q r where "q = n - Suc (k div 8)" and "r = 7 - k mod 8"
    have qr: "8 * n - Suc k = 8 * q + r" "r < 8" "q < n" "n - Suc q = k div 8" "8 * q + r < 8 * n"
      unfolding q_def r_def using \<open>k mod 8 < 8\<close> that k by linarith+
    show ?thesis
      using bit_be_word [OF qr(2), of y q, where 'a = 'a] assms(2,5) qr(3-5)
      unfolding 1 Y_def qr(1) r_def [symmetric] by simp
  qed
  have F_word: "be_word (F k z) = (if k \<noteq> 0 then dbl R (be_word z) else be_word z) XOR (if bit Y (8 * n - Suc k) then X else 0)"
    if "length z = n" "k < 8 * n" for k z
    using that assms bitY [OF that(2)]
    by (simp add: F_def Let_def be_word_xor X_def mgm_shl_omac be_word_shiftLeft [of z n] length_shiftLeft dbl_def R_def)
  have "length (fold F [0..<k] (replicate n 0)) = n \<and> be_word (fold F [0..<k] (replicate n 0)) =
      xsum (\<lambda>i. if bit Y (8 * n - k + i) then (dbl R ^^ i) X else 0) k" if "k \<le> 8 * n" for k
    using that
  proof (induction k)
    case (Suc k)
    define z where "z = fold F [0..<k] (replicate n 0)"
    have z: "length z = n" "be_word z = xsum (\<lambda>i. if bit Y (8 * n - k + i) then (dbl R ^^ i) X else 0) k"
      using Suc by (simp_all add: z_def)
    have d: "(if k \<noteq> 0 then dbl R (be_word z) else be_word z) = dbl R (be_word z)"
      using z by auto
    have "dbl R (be_word z) = xsum (\<lambda>i. dbl R (if bit Y (8 * n - k + i) then (dbl R ^^ i) X else 0)) k"
      using dbl_pow_xsum [of 1 R _ k] by (simp add: z(2))
    also have "\<dots> = xsum (\<lambda>i. if bit Y (8 * n - Suc k + Suc i) then (dbl R ^^ Suc i) X else 0) k"
      using Suc.prems by (intro xsum_cong) (auto simp: Suc_diff_Suc)
    finally have dz: "dbl R (be_word z) = xsum (\<lambda>i. if bit Y (8 * n - Suc k + Suc i) then (dbl R ^^ Suc i) X else 0) k" .
    have "be_word (F k z) = dbl R (be_word z) XOR (if bit Y (8 * n - Suc k) then X else 0)"
      using F_word [OF z(1), of k] Suc.prems by (simp only: d Suc_le_eq)
    also have "\<dots> = (if bit Y (8 * n - Suc k + 0) then (dbl R ^^ 0) X else 0) XOR dbl R (be_word z)"
      by (simp add: xor.commute)
    also have "\<dots> = xsum (\<lambda>i. if bit Y (8 * n - Suc k + i) then (dbl R ^^ i) X else 0) (Suc k)"
      unfolding dz xsum_shift ..
    finally have "be_word (F k z) = xsum (\<lambda>i. if bit Y (8 * n - Suc k + i) then (dbl R ^^ i) X else 0) (Suc k)" .
    moreover have "fold F [0..<Suc k] (replicate n 0) = F k z" by (simp add: z_def)
    ultimately show ?case using len [OF z(1)] by simp
  qed simp
  from this [of "8 * n"] show ?thesis
    unfolding gf_mul_def mgm_gfMul_def assms(3,5) mult.commute [of n 8]
      F_def [symmetric] R_def [symmetric] X_def [symmetric] Y_def [symmetric] by simp
qed

section \<open>The ring laws at the byte level\<close>

lemma be_word_inj:
  assumes "length xs = n" "length ys = n" "LENGTH('a) = 8 * n" "(be_word xs :: 'a::len word) = be_word ys"
  shows "xs = ys"
  using assms by (metis le_refl word_be_be_word)

text \<open>Both block sizes have a word type of their width.\<close>

lemma gf_lift:
  assumes "mg_blockSize m = 8 \<or> mg_blockSize m = 16" "length x = mg_blockSize m" "length y = mg_blockSize m"
    and "mg_blockSize m = 8 \<Longrightarrow> (be_word x :: 64 word) = be_word y"
    and "mg_blockSize m = 16 \<Longrightarrow> (be_word x :: 128 word) = be_word y"
  shows "x = y"
  using assms be_word_inj [of x 8 y, where 'a = 64] be_word_inj [of x 16 y, where 'a = 128] by auto

lemmas gf_words = mgm_gfMul_gf_mul [where 'a = 64] mgm_gfMul_gf_mul [where 'a = 128]

lemma mgm_gfMul_commute:
  assumes "mgm_wf m" "length x = mg_blockSize m" "length y = mg_blockSize m"
  shows "mgm_gfMul m x y = mgm_gfMul m y x"
  using assms
  by (intro gf_lift [of m])
    (simp_all add: gf_words length_mgm_gfMul mgm_wf_def gf_mul_commute [of _ "be_word x"])

lemma mgm_gfMul_assoc:
  assumes "mgm_wf m" "length x = mg_blockSize m" "length y = mg_blockSize m" "length z = mg_blockSize m"
  shows "mgm_gfMul m (mgm_gfMul m x y) z = mgm_gfMul m x (mgm_gfMul m y z)"
  using assms
  by (intro gf_lift [of m]) (simp_all add: gf_words length_mgm_gfMul mgm_wf_def gf_mul_assoc)

lemma mgm_gfMul_xor:
  assumes "mgm_wf m" "length x = mg_blockSize m" "length x' = mg_blockSize m" "length y = mg_blockSize m"
  shows "mgm_gfMul m (xor_bytes x x') y = xor_bytes (mgm_gfMul m x y) (mgm_gfMul m x' y)"
  using assms
  by (intro gf_lift [of m])
    (simp_all add: gf_words length_mgm_gfMul mgm_wf_def gf_mul_xor_left be_word_xor)

end
