(* ===== verification/MGM_Memory.thy ===== *)
theory MGM_Memory
  imports MGM Magma Alias
begin

text \<open>
  \<^verbatim>\<open>Seal\<close> and \<^verbatim>\<open>Open\<close> of \<^verbatim>\<open>mgm/mgm.go\<close> on slices in memory, in the order in which the code
  reads and writes them: \<^verbatim>\<open>sliceForAppend\<close>, which reuses the capacity of \<^verbatim>\<open>dst\<close> or allocates, the byte
  loops of \<^verbatim>\<open>crypt\<close>, and the tag. They refine the list definitions of \<open>MGM\<close>, also in place. A slice that is
  appended to has an address, a length and a capacity; \<open>alloc\<close> is the address \<^verbatim>\<open>make\<close> returns.
\<close>

section \<open>Definitions\<close>

definition mgm_sliceForAppend :: "nat \<Rightarrow> nat \<times> nat \<times> nat \<Rightarrow> nat \<Rightarrow> memory \<Rightarrow> nat \<times> nat \<times> memory" where
  "mgm_sliceForAppend alloc inp n mem =
     (let (a, len, cap) = inp; tot = len + n;
          (head, mem) =
            (if cap \<ge> tot then (a, mem)
             else let mem = store mem alloc (replicate tot 0)
                  in (alloc, store mem alloc (load mem a len)));
          tail = head + len
      in (head, tail, mem))"

definition mgm_crypt_mem :: "mgm \<Rightarrow> bytes \<Rightarrow> nat \<Rightarrow> mslice \<Rightarrow> memory \<Rightarrow> memory" where
  "mgm_crypt_mem m icn out inp mem =
     (let bs = mg_blockSize m;
          (a, len) = inp;
          ek = icn[0 := icn ! 0 AND 0x7f];
          yi = enc (mg_cipher m) ek
      in snd (fold (\<lambda>i (yi, mem).
            let ek = enc (mg_cipher m) yi;
                n = min (len - bs * i) bs
            in (mgm_incrR m yi, xor_loop (take n ek) (out + bs * i) (a + bs * i) mem))
          [0..<mgm_blocks_of m len] (yi, mem)))"

definition mgm_Seal_mem ::
  "nat \<Rightarrow> mgm \<Rightarrow> nat \<times> nat \<times> nat \<Rightarrow> mslice \<Rightarrow> mslice \<Rightarrow> mslice \<Rightarrow> memory \<Rightarrow> (mslice \<times> memory) res" where
  "mgm_Seal_mem alloc m dst nonce plaintext ad mem =
     (let (na, nn) = nonce; (pa, pn) = plaintext; (aa, an) = ad; (da, dn, dcap) = dst
      in bind_res (mgm_validateNonce m (load mem na nn)) (\<lambda>_.
       if pn = 0 \<and> an = 0
       then Inl (Panic ''mgm: at least one of plaintext / additional data must be non-empty'')
       else if pn > mgm_maxFieldLen m \<or> an > mgm_maxFieldLen m
       then Inl (Panic ''mgm: field too large for the n/2-bit length block under one nonce'')
       else if \<not> mgm_validateLens m an pn
       then Inl (Panic ''mgm: combined length of additional data and plaintext exceeds 2^(n/2) bits'')
       else let icn = load mem na nn;
                (ret, out, mem) = mgm_sliceForAppend alloc dst (pn + mg_tagSize m) mem;
                mem = mgm_crypt_mem m icn out (pa, pn) mem;
                mem = store mem (out + pn) (mgm_auth m icn (load mem aa an) (load mem out pn))
            in Inr ((ret, dn + (pn + mg_tagSize m)), mem)))"

definition mgm_Open_mem ::
  "nat \<Rightarrow> mgm \<Rightarrow> nat \<times> nat \<times> nat \<Rightarrow> mslice \<Rightarrow> mslice \<Rightarrow> mslice \<Rightarrow> memory \<Rightarrow> (mslice \<times> memory) res" where
  "mgm_Open_mem alloc m dst nonce ciphertext ad mem =
     (let (na, nn) = nonce; (ca, clen) = ciphertext; (aa, an) = ad; (da, dn, dcap) = dst
      in bind_res (mgm_validateNonce m (load mem na nn)) (\<lambda>_.
       if clen < mg_tagSize m then Inl mgm_errOpen
       else let cn = clen - mg_tagSize m;
                recvTag = load mem (ca + cn) (mg_tagSize m)
       in if cn = 0 \<and> an = 0 then Inl mgm_errOpen
       else if cn > mgm_maxFieldLen m \<or> an > mgm_maxFieldLen m then Inl mgm_errOpen
       else if \<not> mgm_validateLens m an cn then Inl mgm_errOpen
       else let icn = load mem na nn;
                expTag = mgm_auth m icn (load mem aa an) (load mem ca cn)
       in if expTag \<noteq> recvTag then Inl mgm_errOpen
       else let (ret, out, mem) = mgm_sliceForAppend alloc dst cn mem;
                mem = mgm_crypt_mem m icn out (ca, cn) mem
            in Inr ((ret, dn + cn), mem)))"

section \<open>The encryption pass in memory\<close>

lemma xor_loop_append:
  "xor_loop (xs @ ys) d s mem = xor_loop ys (d + length xs) (s + length xs) (xor_loop xs d s mem)"
proof -
  let ?F = "\<lambda>zs i mem. mem(d + i := mem (s + i) XOR zs ! i)"
  have head: "fold (?F (xs @ ys)) [0..<length xs] mem = xor_loop xs d s mem"
    unfolding xor_loop_def by (rule fold_cong) (auto simp: nth_append)
  have tail: "fold (?F (xs @ ys)) (map (\<lambda>i. i + length xs) [0..<length ys]) mem' =
      xor_loop ys (d + length xs) (s + length xs) mem'" for mem'
    unfolding xor_loop_def fold_map by (rule fold_cong) (auto simp: nth_append ac_simps)
  have "[0..<length (xs @ ys)] = [0..<length xs] @ map (\<lambda>i. i + length xs) [0..<length ys]"
    using upt_add_eq_append [of 0 "length xs" "length ys"] by (simp add: map_add_upt add.commute)
  then have "xor_loop (xs @ ys) d s mem =
      fold (?F (xs @ ys)) (map (\<lambda>i. i + length xs) [0..<length ys]) (fold (?F (xs @ ys)) [0..<length xs] mem)"
    by (simp only: xor_loop_def fold_append comp_def)
  then show ?thesis by (simp only: head tail)
qed

lemma mgm_crypt_mem_store:
  assumes wf: "mgm_wf m" and icn: "length icn = mg_blockSize m"
    and apart: "\<not> alias_InexactOverlap (d, n) (s, n)"
  shows "mgm_crypt_mem m icn d (s, n) mem = store mem d (mgm_crypt m icn (load mem s n))"
proof -
  let ?bs = "mg_blockSize m" and ?y0 = "enc (mg_cipher m) (icn[0 := icn ! 0 AND 0x7f])"
  let ?K = "mgm_keystream m icn"
  define R where "R = (\<lambda>i (yi, mem).
            let ek = enc (mg_cipher m) yi;
                k = min (n - ?bs * i) ?bs
            in (mgm_incrR m yi, xor_loop (take k ek) (d + ?bs * i) (s + ?bs * i) mem))"
  have y0: "length ?y0 = ?bs" using length_mgm_enc [OF wf, of "icn[0 := icn ! 0 AND 0x7f]"] icn by simp
  have "fold R [0..<i] (?y0, mem) = ((mgm_incrR m ^^ i) ?y0, xor_loop (take n (?K i)) d s mem)"
    if "i \<le> mgm_blocks_of m n" for i
    using that
  proof (induction i)
    case 0
    show ?case by (simp add: mgm_keystream_def xor_loop_def)
  next
    case (Suc i)
    let ?ek = "enc (mg_cipher m) ((mgm_incrR m ^^ i) ?y0)"
    have ek: "length ?ek = ?bs" by (rule length_mgm_enc [OF wf]) (simp add: y0)
    have K: "?K (Suc i) = ?K i @ ?ek" by (simp add: mgm_keystream_def)
    have len: "length (?K i) = ?bs * i" by (rule length_mgm_keystream [OF wf icn])
    have bs: "0 < ?bs" using wf by (auto simp: mgm_wf_def)
    have "?bs * i < n"
    proof -
      have "?bs * Suc i \<le> ?bs * ((n + ?bs - 1) div ?bs)" using Suc.prems unfolding mgm_blocks_of_def by (rule mult_le_mono2)
      also have "\<dots> \<le> n + ?bs - 1" by simp
      finally show ?thesis using bs by simp
    qed
    then have "take n (?K (Suc i)) = take n (?K i) @ take (min (n - ?bs * i) ?bs) ?ek" "length (take n (?K i)) = ?bs * i"
      by (simp_all add: K len ek min_def)
    then show ?case using Suc by (simp add: R_def Let_def xor_loop_append)
  qed
  from this [of "mgm_blocks_of m n"]
  have e: "mgm_crypt_mem m icn d (s, n) mem = xor_loop (take n (?K (mgm_blocks_of m n))) d s mem"
    by (simp add: mgm_crypt_mem_def R_def Let_def)
  have "n \<le> length (?K (mgm_blocks_of m n))"
    using mgm_blocks_cover [of m n] wf by (auto simp: length_mgm_keystream [OF wf icn] mgm_wf_def)
  moreover have "xor_bytes (load mem s n) (take n ks) = xor_bytes (load mem s n) ks" for ks
    by (rule nth_equalityI) simp_all
  ultimately show ?thesis
    unfolding e mgm_crypt_keystream [OF wf icn]
    using xor_loop_store [of d "take n (?K (mgm_blocks_of m n))" s mem] apart by (simp add: min_absorb2)
qed

section \<open>Appending\<close>

text \<open>
  What the caller has to grant: a result written into the capacity of \<open>dst\<close> does not overlap the source inexactly, nor
  the additional data; memory that \<^verbatim>\<open>make\<close> returns is not in use.
\<close>

definition mgm_apart :: "nat \<Rightarrow> nat \<times> nat \<times> nat \<Rightarrow> nat \<Rightarrow> mslice \<Rightarrow> mslice \<Rightarrow> bool" where
  "mgm_apart alloc dst n src ad \<longleftrightarrow>
     (case dst of (a, len, cap) \<Rightarrow>
        if cap \<ge> len + n
        then \<not> alias_InexactOverlap (a + len, snd src) src \<and> addresses (a + len, snd src) \<inter> addresses ad = {}
        else addresses (alloc, len + n) \<inter> (addresses (a, len) \<union> addresses src \<union> addresses ad) = {})"

definition mgm_written :: "nat \<Rightarrow> nat \<times> nat \<times> nat \<Rightarrow> nat \<Rightarrow> nat set" where
  "mgm_written alloc dst n =
     (case dst of (a, len, cap) \<Rightarrow> if cap \<ge> len + n then addresses (a + len, n) else addresses (alloc, len + n))"

definition mgm_ret :: "nat \<Rightarrow> nat \<times> nat \<times> nat \<Rightarrow> nat \<Rightarrow> nat" where
  "mgm_ret alloc dst n = (case dst of (a, len, cap) \<Rightarrow> if cap \<ge> len + n then a else alloc)"

lemma load_agree: "(\<And>x. x \<in> addresses (a, n) \<Longrightarrow> mem' x = mem x) \<Longrightarrow> load mem' a n = load mem a n"
  by (rule nth_equalityI) (simp_all add: addresses_def)

lemma load_Nil [simp]: "load mem a n = [] \<longleftrightarrow> n = 0" "load mem a 0 = []"
  by (auto simp: load_def)

lemma store_elsewhere: "x \<notin> addresses (a, length bs) \<Longrightarrow> store mem a bs x = mem x"
  by (auto simp: store_def addresses_def)

lemma load_store_disjoint: "addresses (a, length bs) \<inter> addresses (b, n) = {} \<Longrightarrow> load (store mem a bs) b n = load mem b n"
  by (rule load_agree) (auto simp: store_def addresses_def)

lemma mgm_sliceForAppend_apart:
  assumes "mgm_apart alloc (a, len, cap) n (s, k) (aa, an)" "k \<le> n"
  obtains ret mem' where "mgm_sliceForAppend alloc (a, len, cap) n mem = (ret, ret + len, mem')"
    "ret = mgm_ret alloc (a, len, cap) n"
    "load mem' ret len = load mem a len" "load mem' s k = load mem s k" "load mem' aa an = load mem aa an"
    "\<not> alias_InexactOverlap (ret + len, k) (s, k)" "addresses (ret + len, k) \<inter> addresses (aa, an) = {}"
    "addresses (ret + len, n) \<subseteq> mgm_written alloc (a, len, cap) n"
    "\<forall>x. x \<notin> mgm_written alloc (a, len, cap) n \<longrightarrow> mem' x = mem x"
proof (cases "cap \<ge> len + n")
  case True
  show ?thesis
    using assms True by (intro that [of a mem]) (auto simp: mgm_sliceForAppend_def mgm_apart_def mgm_written_def mgm_ret_def)
next
  case False
  define mem' where "mem' = store (store mem alloc (replicate (len + n) 0)) alloc (load mem a len)"
  have fresh: "addresses (alloc, len + n) \<inter> addresses (a, len) = {}" "addresses (alloc, len + n) \<inter> addresses (s, k) = {}"
    "addresses (alloc, len + n) \<inter> addresses (aa, an) = {}"
    using assms(1) False by (auto simp: mgm_apart_def)
  have out: "mem' x = mem x" if "x \<notin> addresses (alloc, len + n)" for x
    using that by (auto simp: mem'_def store_def addresses_def)
  have "load (store mem alloc (replicate (len + n) 0)) a len = load mem a len"
    by (rule load_store_disjoint) (use fresh(1) in simp)
  then have e: "mgm_sliceForAppend alloc (a, len, cap) n mem = (alloc, alloc + len, mem')"
    using False by (simp add: mgm_sliceForAppend_def mem'_def Let_def)
  have sub: "addresses (alloc + len, k) \<subseteq> addresses (alloc, len + n)" "addresses (alloc + len, n) \<subseteq> addresses (alloc, len + n)"
    using assms(2) by (auto simp: addresses_def)
  show ?thesis
  proof (rule that [OF e])
    show "alloc = mgm_ret alloc (a, len, cap) n" using False by (simp add: mgm_ret_def)
    show "load mem' alloc len = load mem a len" by (simp add: mem'_def load_store_same)
    show "load mem' s k = load mem s k" by (rule load_agree, rule out) (use fresh(2) in auto)
    show "load mem' aa an = load mem aa an" by (rule load_agree, rule out) (use fresh(3) in auto)
    have "addresses (alloc + len, k) \<inter> addresses (s, k) = {}" using sub(1) fresh(2) by blast
    then show "\<not> alias_InexactOverlap (alloc + len, k) (s, k)"
      by (auto simp: alias_InexactOverlap_def alias_AnyOverlap_iff)
    show "addresses (alloc + len, k) \<inter> addresses (aa, an) = {}" using sub(1) fresh(3) by blast
    show "addresses (alloc + len, n) \<subseteq> mgm_written alloc (a, len, cap) n" using sub(2) False by (simp add: mgm_written_def)
    show "\<forall>x. x \<notin> mgm_written alloc (a, len, cap) n \<longrightarrow> mem' x = mem x"
      using out False by (simp add: mgm_written_def)
  qed
qed

text \<open>What is appended stands behind what \<open>dst\<close> held.\<close>

lemma load_appended:
  assumes "load mem ret len = xs" "length ys = n"
  shows "load (store mem (ret + len) ys) ret (len + n) = xs @ ys"
  using assms by (simp add: load_append load_store_same load_store_other)

section \<open>Seal and Open\<close>

definition mgm_lands :: "nat \<Rightarrow> nat \<times> nat \<times> nat \<Rightarrow> nat \<Rightarrow> memory \<Rightarrow> (mslice \<times> memory) res \<Rightarrow> bytes res \<Rightarrow> bool" where
  "mgm_lands alloc dst n mem r spec \<longleftrightarrow>
     (case spec of
        Inl e \<Rightarrow> r = Inl e
      | Inr bs \<Rightarrow> \<exists>mem'. r = Inr ((mgm_ret alloc dst n, length bs), mem') \<and>
          load mem' (mgm_ret alloc dst n) (length bs) = bs \<and>
          (\<forall>x. x \<notin> mgm_written alloc dst n \<longrightarrow> mem' x = mem x))"

lemma mgm_Seal_mem_lands:
  assumes wf: "mgm_wf m" and apart: "mgm_apart alloc (da, dn, dc) (pn + mg_tagSize m) (pa, pn) (aa, an)"
  shows "mgm_lands alloc (da, dn, dc) (pn + mg_tagSize m) mem
    (mgm_Seal_mem alloc m (da, dn, dc) (na, nn) (pa, pn) (aa, an) mem)
    (mgm_Seal m (load mem da dn) (load mem na nn) (load mem pa pn) (load mem aa an))"
proof -
  let ?icn = "load mem na nn" and ?n = "pn + mg_tagSize m" and ?pt = "load mem pa pn" and ?ad = "load mem aa an"
  define ct where "ct = mgm_crypt m ?icn ?pt"
  define tag where "tag = mgm_auth m ?icn ?ad ct"
  obtain ret mem1 where s1: "mgm_sliceForAppend alloc (da, dn, dc) ?n mem = (ret, ret + dn, mem1)"
      "ret = mgm_ret alloc (da, dn, dc) ?n"
    and s:
    "load mem1 ret dn = load mem da dn" "load mem1 pa pn = ?pt" "load mem1 aa an = ?ad"
    "\<not> alias_InexactOverlap (ret + dn, pn) (pa, pn)" "addresses (ret + dn, pn) \<inter> addresses (aa, an) = {}"
    "addresses (ret + dn, ?n) \<subseteq> mgm_written alloc (da, dn, dc) ?n"
    "\<forall>x. x \<notin> mgm_written alloc (da, dn, dc) ?n \<longrightarrow> mem1 x = mem x"
    by (rule mgm_sliceForAppend_apart [OF apart le_add1, of mem])
  show ?thesis
  proof (cases "mgm_validateNonce m ?icn")
    case (Inl e)
    then show ?thesis by (simp add: mgm_lands_def mgm_Seal_def mgm_Seal_mem_def)
  next
    case (Inr u)
    then have icn: "length ?icn = mg_blockSize m" by (simp add: mgm_validateNonce_def split: if_splits)
    have ct: "length ct = pn" using length_mgm_crypt [OF wf icn] by (simp add: ct_def)
    have tag: "length tag = mg_tagSize m" using length_mgm_auth [OF wf icn] by (simp add: tag_def)
    define mem2 where "mem2 = mgm_crypt_mem m ?icn (ret + dn) (pa, pn) mem1"
    have m2: "mem2 = store mem1 (ret + dn) ct"
      unfolding mem2_def ct_def s(2) [symmetric] by (rule mgm_crypt_mem_store [OF wf icn s(4)])
    have l2: "load mem2 (ret + dn) pn = ct" "load mem2 aa an = ?ad"
      unfolding m2 using s(3,5) ct by (simp_all add: load_store_same load_store_disjoint)
    have m3: "store mem2 (ret + dn + pn) tag = store mem1 (ret + dn) (ct @ tag)"
      unfolding m2 using store_append [of mem1 "ret + dn" ct tag] ct by simp
    have out: "store mem1 (ret + dn) (ct @ tag) x = mem x" if "x \<notin> mgm_written alloc (da, dn, dc) ?n" for x
      using s(6,7) that ct tag by (subst store_elsewhere) auto
    have land: "load (store mem1 (ret + dn) (ct @ tag)) ret (dn + ?n) = load mem da dn @ ct @ tag"
      by (rule load_appended [OF s(1)]) (simp add: ct tag)
    show ?thesis
      using Inr land out ct tag
      by (auto simp: mgm_lands_def mgm_Seal_def mgm_Seal_mem_def Let_def s1(1) s1(2) [symmetric] mem2_def [symmetric] l2 m3
          ct_def [symmetric] tag_def [symmetric])
  qed
qed

lemma mgm_Open_mem_lands:
  assumes wf: "mgm_wf m" and apart: "mgm_apart alloc (da, dn, dc) (cn - mg_tagSize m) (ca, cn - mg_tagSize m) (0, 0)"
  shows "mgm_lands alloc (da, dn, dc) (cn - mg_tagSize m) mem
    (mgm_Open_mem alloc m (da, dn, dc) (na, nn) (ca, cn) (aa, an) mem)
    (mgm_Open m (load mem da dn) (load mem na nn) (load mem ca cn) (load mem aa an))"
proof -
  let ?icn = "load mem na nn" and ?n = "cn - mg_tagSize m" and ?ad = "load mem aa an"
  obtain ret mem1 where s1: "mgm_sliceForAppend alloc (da, dn, dc) ?n mem = (ret, ret + dn, mem1)"
      "ret = mgm_ret alloc (da, dn, dc) ?n"
    and s:
    "load mem1 ret dn = load mem da dn" "load mem1 ca ?n = load mem ca ?n" "load mem1 0 0 = load mem 0 0"
    "\<not> alias_InexactOverlap (ret + dn, ?n) (ca, ?n)" "addresses (ret + dn, ?n) \<inter> addresses (0, 0) = {}"
    "addresses (ret + dn, ?n) \<subseteq> mgm_written alloc (da, dn, dc) ?n"
    "\<forall>x. x \<notin> mgm_written alloc (da, dn, dc) ?n \<longrightarrow> mem1 x = mem x"
    by (rule mgm_sliceForAppend_apart [OF apart order.refl, of mem])
  define pt where "pt = mgm_crypt m ?icn (load mem ca ?n)"
  have parts: "take ?n (load mem ca cn) = load mem ca ?n" by (simp add: load_def take_map)
  have tail: "drop ?n (load mem ca cn) = load mem (ca + ?n) (mg_tagSize m)" if "\<not> cn < mg_tagSize m"
    using load_append [of mem ca ?n "mg_tagSize m"] that by simp
  show ?thesis
  proof (cases "mgm_validateNonce m ?icn")
    case (Inl e)
    then show ?thesis by (simp add: mgm_lands_def mgm_Open_def mgm_Open_mem_def)
  next
    case (Inr u)
    then have icn: "length ?icn = mg_blockSize m" by (simp add: mgm_validateNonce_def split: if_splits)
    have pt: "length pt = ?n" using length_mgm_crypt [OF wf icn] by (simp add: pt_def)
    have m2: "mgm_crypt_mem m ?icn (ret + dn) (ca, ?n) mem1 = store mem1 (ret + dn) pt"
      unfolding pt_def s(2) [symmetric] by (rule mgm_crypt_mem_store [OF wf icn s(4)])
    have out: "store mem1 (ret + dn) pt x = mem x" if "x \<notin> mgm_written alloc (da, dn, dc) ?n" for x
      using s(6,7) that pt by (subst store_elsewhere) auto
    have land: "load (store mem1 (ret + dn) pt) ret (dn + ?n) = load mem da dn @ pt"
      by (rule load_appended [OF s(1) pt])
    show ?thesis
    proof (cases "cn < mg_tagSize m")
      case True
      then show ?thesis using Inr by (simp add: mgm_lands_def mgm_Open_def mgm_Open_mem_def)
    next
      case long: False
      note tail = tail [OF long]
      show ?thesis
      proof (cases "(?n = 0 \<and> an = 0) \<or> ?n > mgm_maxFieldLen m \<or> an > mgm_maxFieldLen m \<or> \<not> mgm_validateLens m an ?n \<or>
          mgm_auth m ?icn ?ad (load mem ca ?n) \<noteq> load mem (ca + ?n) (mg_tagSize m)")
        case True
        then show ?thesis
          using Inr long unfolding mgm_lands_def mgm_Open_def mgm_Open_mem_def
          by (simp only: Let_def prod.case bind_res_simps length_load parts tail length_0_conv load_Nil if_False if_True)
            (auto split: prod.splits)
      next
        case False
        then show ?thesis
          using Inr long land out pt unfolding mgm_lands_def mgm_Open_def mgm_Open_mem_def
          by (simp add: Let_def parts tail s1(1) s1(2) [symmetric] m2 pt_def [symmetric])
      qed
    qed
  qed
qed

section \<open>Properties\<close>

text \<open>
  C14. Seal and Open in memory: with a dst whose capacity is reused, also in place over the plaintext
  or the ciphertext, or with an allocated result, they return the slice whose bytes are those of the list definitions,
  fail exactly as those do, and change no other address. mgm_apart asks of the addresses: where
  the capacity of dst is reused, the bytes behind its length, as many as the source has, overlap the source not
  at all or start at it, and in Seal are disjoint from the additional data; where it is not, what make returns is
  disjoint from dst, source and, in Seal, additional data.
\<close>

theorem mgm_memory_refines:
  assumes "block_enc b" "mgm_NewMGM b t = Inr m"
    and "mgm_apart alloc (da, dn, dc) (n + mg_tagSize m) (a, n) (aa, an)"
    and "mgm_apart alloc' (da', dn', dc') (n' - mg_tagSize m) (a', n' - mg_tagSize m) (0, 0)"
  shows "mgm_lands alloc (da, dn, dc) (n + mg_tagSize m) mem
      (mgm_Seal_mem alloc m (da, dn, dc) (na, nn) (a, n) (aa, an) mem)
      (mgm_Seal m (load mem da dn) (load mem na nn) (load mem a n) (load mem aa an)) \<and>
    mgm_lands alloc' (da', dn', dc') (n' - mg_tagSize m) mem
      (mgm_Open_mem alloc' m (da', dn', dc') (na, nn) (a', n') (aa, an) mem)
      (mgm_Open m (load mem da' dn') (load mem na nn) (load mem a' n') (load mem aa an))"
  using mgm_Seal_mem_lands [OF mgm_NewMGM_wf [OF assms(1,2)] assms(3)]
    mgm_Open_mem_lands [OF mgm_NewMGM_wf [OF assms(1,2)] assms(4)] by blast

text \<open>A message of 20 bytes at address 100, sealed and opened in place, with the nonce at 0 and the data at 10.\<close>

theorem mgm_memory_refines_witness:
  "\<exists>m mem1 mem2. mgm_NewMGM (magma_block (magma_cipher_of (replicate 32 1))) 8 = Inr m \<and>
     mgm_Seal_mem 1000 m (100, 0, 28) (0, 8) (100, 20) (10, 3) of_nat = Inr ((100, 28), mem1) \<and>
     mgm_Seal m [] (load of_nat 0 8) (load of_nat 100 20) (load of_nat 10 3) = Inr (load mem1 100 28) \<and>
     mgm_Open_mem 1000 m (100, 0, 28) (0, 8) (100, 28) (10, 3) mem1 = Inr ((100, 20), mem2) \<and>
     load mem2 100 20 = load of_nat 100 20"
proof -
  let ?b = "magma_block (magma_cipher_of (replicate 32 1))" and ?mem = "of_nat :: memory"
  obtain m where m: "mgm_NewMGM ?b 8 = Inr m" "mg_blockSize m = 8" "mg_tagSize m = 8"
    by (simp add: mgm_NewMGM_def Let_def)
  note wf = mgm_NewMGM_wf [OF magma.block_enc_axioms m(1)]
  have apart: "mgm_apart 1000 (100, 0, 28) (20 + mg_tagSize m) (100, 20) (10, 3)"
    "mgm_apart 1000 (100, 0, 28) (28 - mg_tagSize m) (100, 28 - mg_tagSize m) (0, 0)"
    by (simp_all add: m mgm_apart_def alias_InexactOverlap_def addresses_def)
  note R = mgm_memory_refines [OF magma.block_enc_axioms m(1) apart, of _ 0 8]
  have "mgm_validateNonce m (load ?mem 0 8) = Inr ()"
    by (simp add: mgm_validateNonce_def m(2))
  then obtain bs where bs: "mgm_Seal m [] (load ?mem 0 8) (load ?mem 100 20) (load ?mem 10 3) = Inr bs"
    by (simp add: mgm_Seal_def m(2) mgm_maxFieldLen_def mgm_validateLens_def Let_def)
  have len: "length bs = 28"
    using length_mgm_crypt [OF wf] length_mgm_auth [OF wf] bs by (auto simp: mgm_Seal_ok m)
  obtain mem1 where mem1: "mgm_Seal_mem 1000 m (100, 0, 28) (0, 8) (100, 20) (10, 3) ?mem = Inr ((100, 28), mem1)"
    "load mem1 100 28 = bs" "\<forall>x. x \<notin> {100..<128} \<longrightarrow> mem1 x = ?mem x"
    using R [of ?mem, THEN conjunct1] bs len
    by (auto simp: mgm_lands_def mgm_ret_def mgm_written_def addresses_def m)
  have "load mem1 0 8 = load ?mem 0 8" "load mem1 10 3 = load ?mem 10 3"
    using mem1(3) by (auto intro!: load_agree simp: addresses_def)
  then have "mgm_Open m [] (load mem1 0 8) (load mem1 100 28) (load mem1 10 3) = Inr (load ?mem 100 20)"
    using mgm_Open_Seal [OF wf bs, of "[]"] mem1(2) by simp
  then obtain mem2 where "mgm_Open_mem 1000 m (100, 0, 28) (0, 8) (100, 28) (10, 3) mem1 = Inr ((100, 20), mem2)"
    "load mem2 100 20 = load ?mem 100 20"
    using R [of mem1, THEN conjunct2] by (auto simp: mgm_lands_def mgm_ret_def m)
  then show ?thesis using m(1) mem1(1,2) bs by blast
qed

end
