(* ===== verification/KuznyechikSIMD.thy ===== *)
theory KuznyechikSIMD
  imports CTR_ACPKM
begin

unbundle bit_operations_syntax

text \<open>
  \<^verbatim>\<open>kuznyechik/simd_amd64.go\<close> and \<^verbatim>\<open>kuznyechik/simd_ctr_amd64.go\<close>: the byte-sliced batch
  cipher of the builds with \<^verbatim>\<open>goexperiment.simd\<close>. A vector register of the standard library
  package \<^verbatim>\<open>simd/archsimd\<close> is the list of its 32 bytes. Sixteen registers hold 32 blocks:
  register \<open>i\<close> has byte \<open>i\<close> of every block, and \<open>lane k\<close> reads block \<open>k\<close> back. The lemmas show
  that every step acts on each lane as the reference transform acts on a block, so that
  the batch encrypts, and the counter ramp counts, as the scalar code does.
\<close>

section \<open>Vector operations of the standard library\<close>

type_synonym vec = "byte list"

definition vec_Broadcast :: "byte \<Rightarrow> vec" where
  "vec_Broadcast b = replicate 32 b"

definition vec_And :: "vec \<Rightarrow> vec \<Rightarrow> vec" where
  "vec_And v w = map2 (AND) v w"

definition vec_Or :: "vec \<Rightarrow> vec \<Rightarrow> vec" where
  "vec_Or v w = map2 (OR) v w"

definition vec_Xor :: "vec \<Rightarrow> vec \<Rightarrow> vec" where
  "vec_Xor v w = map2 (XOR) v w"

definition vec_Add :: "vec \<Rightarrow> vec \<Rightarrow> vec" where
  "vec_Add v w = map2 (+) v w"

definition vec_Equal :: "vec \<Rightarrow> vec \<Rightarrow> bool list" where
  "vec_Equal v w = map2 (=) v w"

definition vec_Less :: "vec \<Rightarrow> vec \<Rightarrow> bool list" where
  "vec_Less v w = map2 (<) v w"

definition vec_Masked :: "vec \<Rightarrow> bool list \<Rightarrow> vec" where
  "vec_Masked v m = map2 (\<lambda>x p. if p then x else 0) v m"

text \<open>\<^verbatim>\<open>VPSHUFB\<close>: an index with its sign bit set gives zero, else its low four bits select in its half.\<close>

definition vec_PermuteOrZeroGrouped :: "vec \<Rightarrow> vec \<Rightarrow> vec" where
  "vec_PermuteOrZeroGrouped t idx =
     map (\<lambda>k. if bit (idx ! k) 7 then 0 else t ! (16 * (k div 16) + unat (idx ! k AND 0x0f))) [0..<32]"

text \<open>The same register as sixteen little-endian 16-bit lanes, and the high half of their products.\<close>

definition vec_AsUint16x16 :: "vec \<Rightarrow> 16 word list" where
  "vec_AsUint16x16 v = map (\<lambda>k. le_word (slice (2 * k) 2 v)) [0..<16]"

definition vec_AsUint8x32 :: "16 word list \<Rightarrow> vec" where
  "vec_AsUint8x32 w = concat (map (word_le 2) w)"

definition vec_MulHigh :: "16 word list \<Rightarrow> 16 word list \<Rightarrow> 16 word list" where
  "vec_MulHigh v w = map2 (\<lambda>x y. ucast (drop_bit 16 (ucast x * ucast y :: 32 word))) v w"

section \<open>Constants and tables\<close>

definition simdMaskLow :: vec where "simdMaskLow = vec_Broadcast 0x0f"
definition simdMaskHi :: vec where "simdMaskHi = vec_Broadcast 0xf0"

definition simdSub :: "vec list" where
  "simdSub = map (\<lambda>h. slice (h * 16) 16 kuz_pi @ slice (h * 16) 16 kuz_pi) [0..<16]"

definition simdHiConst :: "vec list" where
  "simdHiConst = map (\<lambda>h. vec_Broadcast (push_bit 4 (word_of_nat h))) [0..<16]"

text \<open>\<open>simdMatM ! j ! i\<close> is byte \<open>j\<close> of \<open>L\<close> applied to the \<open>i\<close>-th unit block.\<close>

definition simdMatM :: "byte list list" where
  "simdMatM = map (\<lambda>j. map (\<lambda>i. kuz_l (unit16 i 1) ! j) [0..<16]) [0..<16]"

definition simdGfLo :: "vec list" where
  "simdGfLo = map (\<lambda>c. let lo = map (\<lambda>n. kuz_gf (word_of_nat c) (word_of_nat n)) [0..<16] in lo @ lo) [0..<256]"

definition simdGfHi :: "vec list" where
  "simdGfHi = map (\<lambda>c. let hi = map (\<lambda>n. kuz_gf (word_of_nat c) (push_bit 4 (word_of_nat n))) [0..<16] in hi @ hi) [0..<256]"

definition simdC1000 :: "16 word list" where
  "simdC1000 = vec_AsUint16x16 (concat (replicate 16 [0, 0x10]))"

section \<open>The transforms on sliced registers\<close>

definition simdHi4 :: "vec \<Rightarrow> vec" where
  "simdHi4 x = vec_And (vec_AsUint8x32 (vec_MulHigh (vec_AsUint16x16 x) simdC1000)) simdMaskLow"

definition simd_select :: "vec \<Rightarrow> vec \<Rightarrow> nat \<Rightarrow> vec \<Rightarrow> vec" where
  "simd_select lo hi h p =
     vec_Or p (vec_Masked (vec_PermuteOrZeroGrouped (simdSub ! h) lo) (vec_Equal hi (simdHiConst ! h)))"

definition simdS :: "vec list \<Rightarrow> vec list" where
  "simdS regs =
     (let zero = vec_Broadcast 0 in
      map (\<lambda>r.
        let v = regs ! r; lo = vec_And v simdMaskLow; hi = vec_And v simdMaskHi;
            (p0, p1, p2, p3) = fold (\<lambda>h (p0, p1, p2, p3).
                (simd_select lo hi h p0, simd_select lo hi (h + 1) p1,
                 simd_select lo hi (h + 2) p2, simd_select lo hi (h + 3) p3))
              [0, 4, 8, 12] (zero, zero, zero, zero)
        in vec_Or (vec_Or p0 p1) (vec_Or p2 p3)) [0..<16])"

definition simd_mac :: "byte \<Rightarrow> vec \<Rightarrow> vec \<Rightarrow> vec \<Rightarrow> vec" where
  "simd_mac c lo hi a =
     (if c \<noteq> 0
      then vec_Xor a (vec_Xor (vec_PermuteOrZeroGrouped (simdGfLo ! unat c) lo)
             (vec_PermuteOrZeroGrouped (simdGfHi ! unat c) hi))
      else a)"

definition simdL :: "vec list \<Rightarrow> vec list" where
  "simdL regs =
     (let zero = vec_Broadcast 0;
          lo = map (\<lambda>i. vec_And (regs ! i) simdMaskLow) [0..<16];
          hi = map (\<lambda>i. simdHi4 (regs ! i)) [0..<16]
      in map (\<lambda>j.
        let step = (\<lambda>i a. simd_mac (simdMatM ! j ! i) (lo ! i) (hi ! i) a);
            (a0, a1, a2, a3) = fold (\<lambda>i (a0, a1, a2, a3).
                (step i a0, step (i + 1) a1, step (i + 2) a2, step (i + 3) a3))
              [0, 4, 8, 12] (zero, zero, zero, zero)
        in vec_Xor (vec_Xor a0 a1) (vec_Xor a2 a3)) [0..<16])"

section \<open>Lanes\<close>

definition lane :: "nat \<Rightarrow> vec list \<Rightarrow> bytes" where
  "lane k regs = map (\<lambda>v. v ! k) regs"

definition sliced :: "vec list \<Rightarrow> bool" where
  "sliced regs \<longleftrightarrow> length regs = 16 \<and> (\<forall>v \<in> set regs. length v = 32)"

lemma slicedD: "sliced regs \<Longrightarrow> length regs = 16" "sliced regs \<Longrightarrow> i < 16 \<Longrightarrow> length (regs ! i) = 32"
  by (simp_all add: sliced_def)

lemma sliced_map: "(\<And>i. i < 16 \<Longrightarrow> length (f i) = 32) \<Longrightarrow> sliced (map f [0..<16])"
  by (auto simp: sliced_def simp del: upt_rec_numeral)

lemma length_lane [simp, len_simps]: "length (lane k regs) = length regs"
  by (simp add: lane_def)

lemma nth_lane: "i < length regs \<Longrightarrow> lane k regs ! i = regs ! i ! k"
  by (simp add: lane_def)

text \<open>What each vector operation does to one lane.\<close>

named_theorems vec_simps "the vector operations, lane by lane"

lemma length_vec [vec_simps, len_simps]:
  "length (vec_Broadcast b) = 32"
  "length (vec_And v w) = min (length v) (length w)"
  "length (vec_Or v w) = min (length v) (length w)"
  "length (vec_Xor v w) = min (length v) (length w)"
  "length (vec_Add v w) = min (length v) (length w)"
  "length (vec_Equal v w) = min (length v) (length w)"
  "length (vec_Less v w) = min (length v) (length w)"
  "length (vec_Masked v m) = min (length v) (length m)"
  "length (vec_PermuteOrZeroGrouped t i) = 32"
  by (simp_all add: vec_Broadcast_def vec_And_def vec_Or_def vec_Xor_def vec_Add_def vec_Equal_def
      vec_Less_def vec_Masked_def vec_PermuteOrZeroGrouped_def del: upt_rec_numeral)

lemma nth_vec [vec_simps]:
  "k < 32 \<Longrightarrow> vec_Broadcast b ! k = b"
  "k < length v \<Longrightarrow> k < length w \<Longrightarrow> vec_And v w ! k = v ! k AND w ! k"
  "k < length v \<Longrightarrow> k < length w \<Longrightarrow> vec_Or v w ! k = v ! k OR w ! k"
  "k < length v \<Longrightarrow> k < length w \<Longrightarrow> vec_Xor v w ! k = v ! k XOR w ! k"
  "k < length v \<Longrightarrow> k < length w \<Longrightarrow> vec_Add v w ! k = v ! k + w ! k"
  "k < length v \<Longrightarrow> k < length w \<Longrightarrow> vec_Equal v w ! k \<longleftrightarrow> v ! k = w ! k"
  "k < length v \<Longrightarrow> k < length w \<Longrightarrow> vec_Less v w ! k \<longleftrightarrow> v ! k < w ! k"
  "k < length v \<Longrightarrow> k < length m \<Longrightarrow> vec_Masked v m ! k = (if m ! k then v ! k else 0)"
  by (simp_all add: vec_Broadcast_def vec_And_def vec_Or_def vec_Xor_def vec_Add_def vec_Equal_def
      vec_Less_def vec_Masked_def)

lemma and_0f: "(b :: byte) AND 0x0f = take_bit 4 b"
  by (simp add: take_bit_eq_mask mask_eq_exp_minus_1)

lemma unat_and_0f: "unat ((b :: byte) AND 0x0f) = unat b mod 16"
  by (simp only: and_0f unsigned_take_bit_eq) (simp add: take_bit_eq_mod)

text \<open>A lookup in a table that is the same in both halves, by an index below 16.\<close>

lemma nth_permute:
  assumes "k < 32" "length t = 16" "unat (idx ! k) < 16"
  shows "vec_PermuteOrZeroGrouped (t @ t) idx ! k = t ! unat (idx ! k)"
proof -
  have m: "idx ! k AND 0x0f = idx ! k"
    using assms(3) unat_and_0f [of "idx ! k"] by (simp only: word_unat_eq_iff mod_less)
  then have "\<not> bit (idx ! k) 7"
    using bit_take_bit_iff [of 4 "idx ! k" 7] by (simp only: and_0f) simp
  moreover have half: "(t @ t) ! (16 * q + i) = t ! i" if "q = 0 \<or> q = 1" "i < 16" for q i
    using that assms(2) by (auto simp: nth_append)
  moreover have "k div 16 = 0 \<or> k div 16 = 1" using assms(1) by linarith
  then have "(t @ t) ! (16 * (k div 16) + unat (idx ! k)) = t ! unat (idx ! k)"
    using assms(3) by (rule half)
  ultimately show ?thesis
    using assms m by (simp add: vec_PermuteOrZeroGrouped_def del: upt_rec_numeral)
qed


section \<open>The S-box layer\<close>

lemma length_simdSub: "h < 16 \<Longrightarrow> simdSub ! h = slice (h * 16) 16 kuz_pi @ slice (h * 16) 16 kuz_pi"
  by (simp add: simdSub_def del: upt_rec_numeral)

lemma simd_select_length [vec_simps]:
  "length lo = 32 \<Longrightarrow> length hi = 32 \<Longrightarrow> length p = 32 \<Longrightarrow> h < 16 \<Longrightarrow> length (simd_select lo hi h p) = 32"
  by (simp add: simd_select_def vec_simps simdHiConst_def del: upt_rec_numeral)

lemma simd_select_nth:
  assumes "k < 32" "h < 16" "length v = 32" "length p = 32"
  shows "simd_select (vec_And v simdMaskLow) (vec_And v simdMaskHi) h p ! k =
    p ! k OR (if v ! k AND 0xf0 = push_bit 4 (word_of_nat h)
              then kuz_pi ! (h * 16 + unat (v ! k AND 0x0f)) else 0)"
proof -
  have lo: "vec_And v simdMaskLow ! k = v ! k AND 0x0f" and hi: "vec_And v simdMaskHi ! k = v ! k AND 0xf0"
    using assms by (simp_all add: vec_simps simdMaskLow_def simdMaskHi_def)
  have lt: "unat (v ! k AND 0x0f) < 16" unfolding unat_and_0f by simp
  have "vec_PermuteOrZeroGrouped (simdSub ! h) (vec_And v simdMaskLow) ! k =
      kuz_pi ! (h * 16 + unat (v ! k AND 0x0f))"
    using assms lt by (simp add: length_simdSub nth_permute lo nth_slice)
  then show ?thesis
    using assms
    by (simp add: simd_select_def vec_simps hi simdHiConst_def simdMaskHi_def del: upt_rec_numeral)
qed

text \<open>Exactly one of the sixteen sub-tables matches a byte.\<close>

lemma byte_nibbles:
  obtains h where "h < 16" "(b :: byte) AND 0xf0 = push_bit 4 (word_of_nat h)"
    "unat b = h * 16 + unat (b AND 0x0f)"
proof
  show "unat b div 16 < 16" using unat_byte_less [of b] by linarith
  have "unat b div 16 < 256" using unat_byte_less [of b] by linarith
  then have d: "word_of_nat (unat b div 16) = drop_bit 4 b"
    
    by (simp add: word_unat_eq_iff drop_bit_eq_div unat_of_nat unat_div)
  have "b AND 0xf0 = push_bit 4 (drop_bit 4 b)"
  proof (rule bit_word_eqI)
    fix n assume n: "n < LENGTH(8)"
    have "(0xf0 :: byte) = push_bit 4 (mask 4)" by (simp add: mask_eq_exp_minus_1)
    moreover have "bit (push_bit 4 (mask 4) :: byte) n \<longleftrightarrow> 4 \<le> n" using n by (auto simp: bit_simps)
    ultimately have "bit (0xf0 :: byte) n \<longleftrightarrow> 4 \<le> n" by simp
    then show "bit (b AND 0xf0) n = bit (push_bit 4 (drop_bit 4 b)) n"
      using n by (auto simp: bit_simps)
  qed
  then show "b AND 0xf0 = push_bit 4 (word_of_nat (unat b div 16))" by (simp add: d)
  show "unat b = unat b div 16 * 16 + unat (b AND 0x0f)"
    by (simp only: unat_and_0f) simp
qed


lemma nibble_inj: "h < 16 \<Longrightarrow> h' < 16 \<Longrightarrow> push_bit 4 (word_of_nat h :: byte) = push_bit 4 (word_of_nat h') \<Longrightarrow> h = h'"
  by (simp add: word_unat_eq_iff push_bit_eq_mult unat_of_nat unat_word_ariths)

lemma simdS_nth:
  assumes "sliced regs" "r < 16" "k < 32"
  shows "simdS regs ! r ! k = kuz_pi ! unat (regs ! r ! k)" "length (simdS regs ! r) = 32"
proof -
  define v where "v = regs ! r"
  define lo hi where "lo = vec_And v simdMaskLow" and "hi = vec_And v simdMaskHi"
  have v: "length v = 32" using assms by (simp add: v_def slicedD)
  have len: "length lo = 32" "length hi = 32"
    using v by (simp_all add: lo_def hi_def vec_simps simdMaskLow_def simdMaskHi_def)
  define z where "z = vec_Broadcast 0"
  define sel where "sel = simd_select lo hi"
  define P where "P = (\<lambda>a b c d. sel d (sel c (sel b (sel a z))))"
  have S: "simdS regs ! r =
      vec_Or (vec_Or (P 0 4 8 12) (P 1 5 9 13)) (vec_Or (P 2 6 10 14) (P 3 7 11 15))"
    using assms by (simp add: simdS_def Let_def P_def sel_def z_def lo_def hi_def v_def numeral_2_eq_2 del: upt_rec_numeral)
  have z: "length z = 32" "z ! k = 0" using assms by (simp_all add: z_def vec_simps)
  have sel_len: "length p = 32 \<Longrightarrow> h < 16 \<Longrightarrow> length (sel h p) = 32" for h p
    unfolding sel_def using len by (simp add: vec_simps)
  define T where "T = (\<lambda>h. if v ! k AND 0xf0 = push_bit 4 (word_of_nat h)
              then kuz_pi ! (h * 16 + unat (v ! k AND 0x0f)) else 0)"
  have sel_nth: "length p = 32 \<Longrightarrow> h < 16 \<Longrightarrow> sel h p ! k = p ! k OR T h" for h p
    unfolding sel_def lo_def hi_def T_def using simd_select_nth [of k h v p] assms(3) v by simp
  have P: "length (P a b c d) = 32" "P a b c d ! k = T a OR T b OR T c OR T d"
    if "a < 16" "b < 16" "c < 16" "d < 16" for a b c d
    using that by (simp_all add: P_def sel_len sel_nth z or.assoc)
  show "length (simdS regs ! r) = 32" by (simp add: S vec_simps P)
  obtain h where h: "h < 16" "v ! k AND 0xf0 = push_bit 4 (word_of_nat h)"
    "unat (v ! k) = h * 16 + unat (v ! k AND 0x0f)"
    using byte_nibbles by blast
  have T: "g < 16 \<Longrightarrow> T g = (if g = h then kuz_pi ! unat (v ! k) else 0)" for g
    using nibble_inj [of h g] h unfolding T_def by auto
  have "h \<in> {0, 1, 2, 3, 4, 5, 6, 7, 8, 9, 10, 11, 12, 13, 14, 15}"
    using h(1) by (simp add: less_Suc_eq numeral_eq_Suc)
  then show "simdS regs ! r ! k = kuz_pi ! unat (regs ! r ! k)"
    using assms(3) by (auto simp: S vec_simps P T v_def)
qed

section \<open>The linear layer\<close>

text \<open>Multiplication by a constant of the field commutes with \<open>L\<close>.\<close>

lemma gf_loop_xtime: "gf_loop (gf_xtime a) b (gf_xtime c) = gf_xtime (gf_loop a b c)"
proof (induction a b c rule: gf_loop.induct)
  case (1 a b c)
  then show ?case
    by (cases "0 < b"; cases "b AND 1 \<noteq> 0") (simp_all add: gf_loop.simps [of _ b] flip: gf_xtime_xor)
qed

lemma gf_xtime_0 [simp]: "gf_xtime 0 = 0"
  by (simp add: gf_xtime_def)

lemma kuz_gf_xtime: "kuz_gf (gf_xtime a) b = gf_xtime (kuz_gf a b)"
  using gf_loop_xtime [of a b 0] by (simp add: kuz_gf_def)

lemma gf_loop_gf: "gf_loop (kuz_gf a d) b (kuz_gf c d) = kuz_gf (gf_loop a b c) d"
proof (induction a b c rule: gf_loop.induct)
  case (1 a b c)
  then show ?case
    by (cases "0 < b"; cases "b AND 1 \<noteq> 0")
      (simp_all add: gf_loop.simps [of _ b] flip: kuz_gf_xor kuz_gf_xtime)
qed

lemma kuz_gf_0 [simp]: "kuz_gf 0 b = 0"
  using kuz_gf_xor [of 0 0 b] by simp

lemma kuz_gf_swap: "kuz_gf (kuz_gf a d) b = kuz_gf (kuz_gf a b) d"
  using gf_loop_gf [of a d b 0] by (simp add: kuz_gf_def [of _ b])


lemma kuz_gf_one_loop:
  "n \<le> 8 \<Longrightarrow> drop_bit n b = 0 \<Longrightarrow> gf_loop (push_bit (8 - n) 1) b c = c XOR push_bit (8 - n) b"
proof (induction n arbitrary: b c)
  case 0
  then show ?case by (simp add: gf_loop.simps [of _ 0])
next
  case (Suc n)
  define k where "k = 8 - Suc n"
  have k: "8 - n = Suc k" "k < 8" using Suc.prems(1) by (auto simp: k_def)
  have rest: "drop_bit n (drop_bit 1 b) = 0" using Suc.prems(2) by (simp add: add.commute drop_bit_drop_bit)
  have split: "push_bit k b = (if b AND 1 \<noteq> 0 then push_bit k 1 else 0) XOR push_bit (Suc k) (drop_bit 1 b)"
  proof (rule bit_word_eqI)
    fix m assume "m < LENGTH(8)"
    consider "m < k" | "m = k" | j where "m = Suc k + j"
      using less_iff_Suc_add by (metis add_Suc linorder_neqE_nat)
    then show "bit (push_bit k b) m =
        bit ((if b AND 1 \<noteq> 0 then push_bit k 1 else 0) XOR push_bit (Suc k) (drop_bit 1 b)) m"
      by cases (use \<open>m < LENGTH(8)\<close> in \<open>auto simp: bit_simps bit_0 odd_iff_mod_2_eq_one even_iff_mod_2_eq_zero and_one_eq simp del: push_bit_Suc\<close>)
  qed
  have IH: "gf_loop (gf_xtime (push_bit k 1)) (drop_bit 1 b) c' = c' XOR push_bit (Suc k) (drop_bit 1 b)" for c'
  proof (cases "n = 0")
    case True
    then show ?thesis using rest by (simp add: gf_loop.simps [of _ 0])
  next
    case False
    then have "\<not> bit (push_bit k 1 :: byte) 7" using Suc.prems(1) by (auto simp: k_def bit_simps)
    then have "gf_xtime (push_bit k 1) = push_bit (Suc k) 1"
      using and_exp_eq_0_iff_not_bit [of "push_bit k 1 :: byte" 7] by (simp add: gf_xtime_def)
    then show ?thesis using Suc.IH [of "drop_bit 1 b" c'] rest Suc.prems(1) k by simp
  qed
  show ?case unfolding k_def [symmetric]
  proof (cases "0 < b")
    case True
    then have "gf_loop (push_bit k 1) b c =
        (if b AND 1 \<noteq> 0 then c XOR push_bit k 1 else c) XOR push_bit (Suc k) (drop_bit 1 b)"
      by (simp only: gf_loop.simps [of _ b] if_True IH)
    then show "gf_loop (push_bit k 1) b c = c XOR push_bit k b"
      by (simp only: split) (simp only: xor.assoc xor.left_neutral split: if_split, blast)
  next
    case False
    then show "gf_loop (push_bit k 1) b c = c XOR push_bit k b"
      by (simp add: gf_loop.simps [of _ 0] word_gt_0)
  qed
qed

lemma kuz_gf_one: "kuz_gf 1 b = b"
proof -
  have "drop_bit 8 b = 0" by (rule bit_word_eqI) (auto simp: bit_simps dest: bit_imp_le_length)
  then show ?thesis using kuz_gf_one_loop [of 8 b 0] by (simp add: kuz_gf_def)
qed

lemma kuz_gf_commute: "kuz_gf a b = kuz_gf b a"
  using kuz_gf_swap [of 1 a b] by (simp add: kuz_gf_one)

lemma kuz_gf_xor_right: "kuz_gf a (b XOR b') = kuz_gf a b XOR kuz_gf a b'"
  using kuz_gf_xor [of b b' a] by (simp add: kuz_gf_commute [of a])

text \<open>\<open>L\<close> commutes with the multiplication of every byte by one constant.\<close>

definition gf_scale :: "byte \<Rightarrow> bytes \<Rightarrow> bytes" where
  "gf_scale c x = map (\<lambda>a. kuz_gf a c) x"

lemma length_gf_scale [simp, len_simps]: "length (gf_scale c x) = length x"
  by (simp add: gf_scale_def)

lemma fold_gf_scale:
  "fold (\<lambda>i t. t XOR kuz_gf (kuz_gf (x i) c) (k i)) js (kuz_gf t c) = kuz_gf (fold (\<lambda>i t. t XOR kuz_gf (x i) (k i)) js t) c"
proof (induction js arbitrary: t)
  case (Cons j js)
  have "kuz_gf t c XOR kuz_gf (kuz_gf (x j) c) (k j) = kuz_gf (t XOR kuz_gf (x j) (k j)) c"
    by (simp add: kuz_gf_xor kuz_gf_swap [of _ c])
  then show ?case using Cons.IH by simp
qed simp

lemma kuz_r_scale:
  assumes "length x = 16"
  shows "kuz_r (gf_scale c x) = gf_scale c (kuz_r x)"
proof -
  have nth: "i < 16 \<Longrightarrow> gf_scale c x ! i = kuz_gf (x ! i) c" for i
    using assms by (simp add: gf_scale_def)
  have "fold (\<lambda>i t. t XOR kuz_gf (gf_scale c x ! i) (kuz_lc ! i)) [0..<15] (gf_scale c x ! 15) =
      fold (\<lambda>i t. t XOR kuz_gf (kuz_gf (x ! i) c) (kuz_lc ! i)) [0..<15] (kuz_gf (x ! 15) c)"
    by (rule fold_cong) (auto simp: nth simp del: upt_rec_numeral)
  also have "\<dots> = kuz_gf (fold (\<lambda>i t. t XOR kuz_gf (x ! i) (kuz_lc ! i)) [0..<15] (x ! 15)) c"
    by (rule fold_gf_scale)
  finally show ?thesis
    by (simp add: kuz_r_def Let_def del: upt_rec_numeral) (simp add: gf_scale_def take_map)
qed

lemma kuz_l_scale: "length x = 16 \<Longrightarrow> kuz_l (gf_scale c x) = gf_scale c (kuz_l x)"
proof -
  have "(kuz_r ^^ n) (gf_scale c x) = gf_scale c ((kuz_r ^^ n) x) \<and> length ((kuz_r ^^ n) x) = 16"
    if "length x = 16" for n
    using that by (induction n) (simp_all add: kuz_r_scale len_simps)
  then show "length x = 16 \<Longrightarrow> kuz_l (gf_scale c x) = gf_scale c (kuz_l x)"
    by (simp add: kuz_l_def)
qed

lemma kuz_l_unit:
  assumes "i < 16" "j < 16"
  shows "kuz_l (unit16 i b) ! j = kuz_gf (simdMatM ! j ! i) b"
proof -
  have "unit16 i b = gf_scale b (unit16 i 1)"
    by (rule nth_equalityI) (use assms(1) in \<open>auto simp: unit16_def gf_scale_def nth_list_update kuz_gf_one\<close>)
  then have "kuz_l (unit16 i b) = gf_scale b (kuz_l (unit16 i 1))"
    by (simp add: kuz_l_scale)
  then show ?thesis
    using assms by (simp add: gf_scale_def simdMatM_def len_simps del: upt_rec_numeral)
qed

lemma kuz_l_rows:
  assumes "length x = 16" "j < 16"
  shows "kuz_l x ! j = xsum (\<lambda>i. kuz_gf (simdMatM ! j ! i) (x ! i)) 16"
proof -
  have "kuz_l (prefix16 n x) ! j = xsum (\<lambda>i. kuz_gf (simdMatM ! j ! i) (x ! i)) n" if "n \<le> 16" for n
    using that
  proof (induction n)
    case 0
    then show ?case
      using assms lin16_zero [OF kuz_l_lin] by (simp add: prefix16_def)
  next
    case (Suc n)
    then show ?case
      using assms by (simp add: prefix16_Suc lin16_xor [OF kuz_l_lin] len_simps kuz_l_unit)
  qed
  from this [of 16] show ?thesis
    using assms(1) by (simp add: prefix16_def)
qed


lemma mul_high_1000: "ucast (drop_bit 16 (ucast a * 0x1000 :: 32 word)) = drop_bit 4 (a :: 16 word)"
proof -
  have a: "unat a < 65536" using unsigned_less [of a, where ?'a = nat] by simp
  define p :: "32 word" where "p = ucast a * 0x1000"
  have "unat p = unat a * 4096"
    using a by (simp add: p_def unat_word_ariths unsigned_ucast_eq take_bit_eq_mod)
  moreover have "unat (drop_bit 16 p) = unat p div 65536"
    by (simp only: unat_drop_bit_eq) (simp add: drop_bit_eq_div)
  ultimately have "unat (drop_bit 16 p) = unat a div 16" by simp
  moreover have "unat (drop_bit 4 a) = unat a div 16"
    by (simp only: unat_drop_bit_eq) (simp add: drop_bit_eq_div)
  moreover have "unat a div 16 < 65536" using a by linarith
  ultimately show ?thesis
    unfolding p_def [symmetric] by (simp only: word_unat_eq_iff unsigned_ucast_eq) (simp add: take_bit_eq_mod)
qed

lemma simdC1000_eq: "simdC1000 = replicate 16 0x1000"
  by code_simp

lemma simdHi4_nth:
  assumes "length x = 32"
  shows "length (simdHi4 x) = 32" "k < 32 \<Longrightarrow> simdHi4 x ! k = drop_bit 4 (x ! k)"
proof -
  define w where "w = vec_MulHigh (vec_AsUint16x16 x) simdC1000"
  have c16: "length simdC1000 = 16"
    by (simp add: simdC1000_eq)
  have w: "length w = 16" "q < 16 \<Longrightarrow> w ! q = drop_bit 4 (le_word (slice (2 * q) 2 x))" for q
    by (simp_all add: w_def vec_MulHigh_def vec_AsUint16x16_def c16 simdC1000_eq mul_high_1000
        del: upt_rec_numeral)
  have bytes: "vec_AsUint8x32 w = concat (map (\<lambda>q. word_le 2 (w ! q)) [0..<16])"
    using w(1) map_nth [of w] by (metis map_map o_def vec_AsUint8x32_def map_cong)
  have len: "length (vec_AsUint8x32 w) = 32"
    unfolding bytes using length_concat_upt [of 16 "\<lambda>q. word_le 2 (w ! q)" 2] by simp
  then show "length (simdHi4 x) = 32"
    by (simp add: simdHi4_def vec_simps simdMaskLow_def flip: w_def)
  assume k: "k < 32"
  define q j where "q = k div 2" and "j = k mod 2"
  have q: "q < 16" "k = 2 * q + j" "j < 2" using k by (auto simp: q_def j_def)
  have "vec_AsUint8x32 w ! k = word_le 2 (w ! q) ! j"
    unfolding bytes q_def j_def using k by (intro nth_concat_blocks) simp_all
  also have "\<dots> = ucast (drop_bit (8 * j + 4) (le_word (slice (2 * q) 2 x) :: 16 word))"
    using q by (simp add: nth_word_le w add.commute)
  finally have v: "vec_AsUint8x32 w ! k = ucast (drop_bit (8 * j + 4) (le_word (slice (2 * q) 2 x) :: 16 word))" .
  have b: "bit (x ! k) n \<Longrightarrow> n < 8" for n using bit_imp_le_length [of "x ! k" n] by simp
  have "take_bit 4 (vec_AsUint8x32 w ! k) = drop_bit 4 (x ! k)"
  proof (rule bit_word_eqI)
    fix n assume "n < LENGTH(8)"
    have "bit (vec_AsUint8x32 w ! k) n = bit (x ! k) (4 + n)" if "n < 4"
    proof -
      have "(8 * j + 4 + n) div 8 = j" "(8 * j + 4 + n) mod 8 = 4 + n"
        using that by (simp_all only: add.assoc) simp_all
      then show ?thesis
        using that q(1,3) assms by (simp add: v bit_simps bit_le_word nth_slice flip: q(2))
    qed
    then show "bit (take_bit 4 (vec_AsUint8x32 w ! k)) n = bit (drop_bit 4 (x ! k)) n"
      using b [of "4 + n"] by (auto simp: bit_simps)
  qed
  then show "simdHi4 x ! k = drop_bit 4 (x ! k)"
    using k len by (simp add: simdHi4_def vec_simps simdMaskLow_def and_0f flip: w_def)
qed


lemma nth_gf_tables:
  "simdGfLo ! unat c = (let t = map (\<lambda>n. kuz_gf c (word_of_nat n)) [0..<16] in t @ t)"
  "simdGfHi ! unat c = (let t = map (\<lambda>n. kuz_gf c (push_bit 4 (word_of_nat n))) [0..<16] in t @ t)"
  by (simp_all add: simdGfLo_def simdGfHi_def Let_def del: upt_rec_numeral)

lemma simd_mac_nth:
  assumes "k < 32" "length v = 32" "length a = 32"
  shows "length (simd_mac c (vec_And v simdMaskLow) (simdHi4 v) a) = 32"
    and "simd_mac c (vec_And v simdMaskLow) (simdHi4 v) a ! k = a ! k XOR kuz_gf c (v ! k)"
proof -
  have lo: "vec_And v simdMaskLow ! k = take_bit 4 (v ! k)"
    using assms by (simp add: vec_simps simdMaskLow_def and_0f)
  have hi: "simdHi4 v ! k = drop_bit 4 (v ! k)" using assms by (simp add: simdHi4_nth)
  have lt: "unat (take_bit 4 (v ! k)) < 16"
    unfolding and_0f [symmetric] unat_and_0f by simp
  have "unat (drop_bit 4 (v ! k)) = unat (v ! k) div 16"
    by (simp only: unat_drop_bit_eq) (simp add: drop_bit_eq_div)
  then have hlt: "unat (drop_bit 4 (v ! k)) < 16"
    using unat_byte_less [of "v ! k"] by linarith
  have L: "vec_PermuteOrZeroGrouped (simdGfLo ! unat c) (vec_And v simdMaskLow) ! k = kuz_gf c (take_bit 4 (v ! k))"
    using assms(1) lt by (simp only: nth_gf_tables Let_def) (simp add: nth_permute lo del: upt_rec_numeral)
  have H: "vec_PermuteOrZeroGrouped (simdGfHi ! unat c) (simdHi4 v) ! k = kuz_gf c (push_bit 4 (drop_bit 4 (v ! k)))"
    using assms(1) hlt by (simp only: nth_gf_tables Let_def) (simp add: nth_permute hi del: upt_rec_numeral)
  have "take_bit 4 (v ! k) XOR push_bit 4 (drop_bit 4 (v ! k)) = v ! k"
    by (rule bit_word_eqI) (auto simp: bit_simps)
  then have "kuz_gf c (take_bit 4 (v ! k)) XOR kuz_gf c (push_bit 4 (drop_bit 4 (v ! k))) = kuz_gf c (v ! k)"
    by (metis kuz_gf_xor_right)
  then show "simd_mac c (vec_And v simdMaskLow) (simdHi4 v) a ! k = a ! k XOR kuz_gf c (v ! k)"
    using assms by (simp add: simd_mac_def vec_simps L H)
  show "length (simd_mac c (vec_And v simdMaskLow) (simdHi4 v) a) = 32"
    using assms by (simp add: simd_mac_def vec_simps)
qed

lemma simdL_nth:
  assumes "sliced regs" "j < 16" "k < 32"
  shows "simdL regs ! j ! k = xsum (\<lambda>i. kuz_gf (simdMatM ! j ! i) (regs ! i ! k)) 16"
    and "length (simdL regs ! j) = 32"
proof -
  define z where "z = vec_Broadcast 0"
  define mac where "mac = (\<lambda>i. simd_mac (simdMatM ! j ! i) (vec_And (regs ! i) simdMaskLow) (simdHi4 (regs ! i)))"
  define P where "P = (\<lambda>a b c d. mac d (mac c (mac b (mac a z))))"
  have S: "simdL regs ! j =
      vec_Xor (vec_Xor (P 0 4 8 12) (P 1 5 9 13)) (vec_Xor (P 2 6 10 14) (P 3 7 11 15))"
    using assms(2) by (simp add: simdL_def Let_def P_def mac_def z_def numeral_2_eq_2 del: upt_rec_numeral)
  have z: "length z = 32" "z ! k = 0" using assms by (simp_all add: z_def vec_simps)
  have mac: "length a = 32 \<Longrightarrow> i < 16 \<Longrightarrow> length (mac i a) = 32"
    "length a = 32 \<Longrightarrow> i < 16 \<Longrightarrow> mac i a ! k = a ! k XOR kuz_gf (simdMatM ! j ! i) (regs ! i ! k)" for i a
    using assms by (simp_all add: mac_def simd_mac_nth slicedD)
  define T where "T = (\<lambda>i. kuz_gf (simdMatM ! j ! i) (regs ! i ! k))"
  have P: "length (P a b c d) = 32" "P a b c d ! k = T a XOR T b XOR T c XOR T d"
    if "a < 16" "b < 16" "c < 16" "d < 16" for a b c d
    using that by (simp_all add: P_def mac z T_def xor.assoc)
  show "length (simdL regs ! j) = 32" by (simp add: S vec_simps P)
  have "simdL regs ! j ! k = xsum T 16"
    using assms(3) by (simp add: S vec_simps P numeral_eq_Suc ac_simps)
  then show "simdL regs ! j ! k = xsum (\<lambda>i. kuz_gf (simdMatM ! j ! i) (regs ! i ! k)) 16"
    by (simp add: T_def)
qed

section \<open>The batch of rounds\<close>

text \<open>The broadcast round keys, the key addition, and the nine rounds with the final addition.\<close>

definition simd_keys :: "kuz_cipher \<Rightarrow> vec list list" where
  "simd_keys c = map (\<lambda>r. map (\<lambda>j. vec_Broadcast (kc_ks c ! r ! j)) [0..<16]) [0..<10]"

definition simd_add_key :: "vec list \<Rightarrow> vec list \<Rightarrow> vec list" where
  "simd_add_key ks a = map (\<lambda>j. vec_Xor (a ! j) (ks ! j)) [0..<16]"

definition simd_rounds :: "vec list list \<Rightarrow> vec list \<Rightarrow> vec list" where
  "simd_rounds ks a =
     simd_add_key (ks ! 9) (fold (\<lambda>r a. simdL (simdS (simd_add_key (ks ! r) a))) [0..<9] a)"

lemma length_simd_layers [simp, len_simps]:
  "length (simdS a) = 16" "length (simdL a) = 16" "length (simd_add_key ks a) = 16"
  by (simp_all add: simdS_def simdL_def simd_add_key_def Let_def del: upt_rec_numeral)

lemma slicedI: "length regs = 16 \<Longrightarrow> (\<And>i. i < 16 \<Longrightarrow> length (regs ! i) = 32) \<Longrightarrow> sliced regs"
  by (auto simp: sliced_def in_set_conv_nth)

lemma simd_layers_sliced:
  assumes "sliced a"
  shows "sliced (simdS a)" "sliced (simdL a)" "r < 10 \<Longrightarrow> sliced (simd_add_key (simd_keys c ! r) a)"
  using assms simdS_nth(2) [OF assms, of _ 0] simdL_nth(2) [OF assms, of _ 0]
  by (auto intro!: slicedI simp: simd_add_key_def simd_keys_def vec_simps slicedD simp del: upt_rec_numeral)

text \<open>Lane by lane, the layers are the reference transforms.\<close>

lemma lane_layers:
  assumes "sliced a" "k < 32"
  shows "lane k (simdS a) = kuz_s (lane k a)"
    and "lane k (simdL a) = kuz_l (lane k a)"
    and "r < 10 \<Longrightarrow> length (kc_ks c ! r) = 16 \<Longrightarrow>
      lane k (simd_add_key (simd_keys c ! r) a) = xor_bytes (lane k a) (kc_ks c ! r)"
proof -
  have len: "length (lane k a) = 16" using assms by (simp add: slicedD)
  show "lane k (simdS a) = kuz_s (lane k a)"
    using assms by (intro nth_equalityI) (simp_all add: nth_lane simdS_nth slicedD kuz_s_def)
  show "lane k (simdL a) = kuz_l (lane k a)"
  proof (rule nth_equalityI)
    fix j assume "j < length (lane k (simdL a))"
    then have "j < 16" by simp
    moreover have "xsum (\<lambda>i. kuz_gf (simdMatM ! j ! i) (a ! i ! k)) 16 =
        xsum (\<lambda>i. kuz_gf (simdMatM ! j ! i) (lane k a ! i)) 16"
      using assms by (intro xsum_cong) (simp add: nth_lane slicedD)
    ultimately show "lane k (simdL a) ! j = kuz_l (lane k a) ! j"
      using assms len by (simp add: nth_lane simdL_nth kuz_l_rows)
  qed (use len in \<open>simp add: len_simps\<close>)
  show "lane k (simd_add_key (simd_keys c ! r) a) = xor_bytes (lane k a) (kc_ks c ! r)"
    if "r < 10" "length (kc_ks c ! r) = 16"
    using that assms
    by (intro nth_equalityI)
      (simp_all add: nth_lane simd_add_key_def simd_keys_def vec_simps slicedD del: upt_rec_numeral)
qed

lemma simd_rounds_lane:
  assumes "wf_keys (kc_ks c)" "sliced a" "k < 32"
  shows "lane k (simd_rounds (simd_keys c) a) = kuz_encrypt_block c (lane k a)"
    and "sliced (simd_rounds (simd_keys c) a)"
proof -
  have key: "r < 10 \<Longrightarrow> length (kc_ks c ! r) = 16" for r using assms(1) by (simp add: wf_keys_def)
  have run: "sliced (fold (\<lambda>r a. simdL (simdS (simd_add_key (simd_keys c ! r) a))) js a) \<and>
      lane k (fold (\<lambda>r a. simdL (simdS (simd_add_key (simd_keys c ! r) a))) js a) =
      fold (\<lambda>i blk. kuz_l (kuz_s (xor_bytes blk (kc_ks c ! i)))) js (lane k a)"
    if "\<forall>r \<in> set js. r < 10" for js
    using that assms(2)
    by (induction js arbitrary: a) (simp_all add: simd_layers_sliced lane_layers key assms(3))
  have "\<forall>r \<in> set [0..<9]. r < (10 :: nat)" by (simp del: upt_rec_numeral)
  note run = run [OF this]
  show "sliced (simd_rounds (simd_keys c) a)"
    using run by (simp add: simd_rounds_def simd_layers_sliced del: upt_rec_numeral)
  show "lane k (simd_rounds (simd_keys c) a) = kuz_encrypt_block c (lane k a)"
    using run assms key [of 9]
    by (simp add: simd_rounds_def lane_layers kuz_encrypt_refines slicedD kuz_spec_encrypt_def
        del: upt_rec_numeral)
qed


section \<open>The transpose in memory\<close>

text \<open>
  Loading 32 blocks into the sliced registers, and writing registers back: the two nested
  loops over byte position and block, with the byte written a function of its position and
  of the source byte there.
\<close>

definition load_sliced :: "memory \<Rightarrow> nat \<Rightarrow> vec list" where
  "load_sliced mem a = map (\<lambda>i. map (\<lambda>bl. mem (a + (bl * 16 + i))) [0..<32]) [0..<16]"

definition transpose_loop :: "(nat \<Rightarrow> byte \<Rightarrow> byte) \<Rightarrow> nat \<Rightarrow> nat \<Rightarrow> nat \<Rightarrow> memory \<Rightarrow> memory" where
  "transpose_loop G k d s mem =
     fold (\<lambda>i mem. fold (\<lambda>bl mem. mem(d + (bl * 16 + i) := G (bl * 16 + i) (mem (s + (bl * 16 + i)))))
       [0..<k] mem) [0..<16] mem"

definition sliced_byte :: "vec list \<Rightarrow> nat \<Rightarrow> byte" where
  "sliced_byte a off = a ! (off mod 16) ! (off div 16)"

lemma fold_updates:
  fixes mem :: memory
  assumes "distinct offs" "d = s \<or> (\<forall>x \<in> set offs. \<forall>y \<in> set offs. d + x \<noteq> s + y)"
  shows "fold (\<lambda>x mem. mem(d + x := G x (mem (s + x)))) offs mem =
    (\<lambda>a. if d \<le> a \<and> a - d \<in> set offs then G (a - d) (mem (s + (a - d))) else mem a)"
  using assms
proof (induction offs arbitrary: mem)
  case (Cons x offs)
  have apart: "d = s \<or> (\<forall>x \<in> set offs. \<forall>y \<in> set offs. d + x \<noteq> s + y)"
    using Cons.prems(2) by auto
  show ?case
    using Cons.IH [OF _ apart, of "mem(d + x := G x (mem (s + x)))"] Cons.prems
    by (intro ext) (auto split: if_splits)
qed simp

lemma transpose_loop_result:
  assumes "d = s \<or> d + 16 * k \<le> s \<or> s + 16 * k \<le> d"
  shows "transpose_loop G k d s mem = store mem d (map (\<lambda>x. G x (mem (s + x))) [0..<16 * k])"
proof -
  define offs where "offs = map (\<lambda>(i, bl). bl * 16 + i) (List.product [0..<16] [0..<k])"
  define U where "U = (\<lambda>x mem. mem(d + x := G x (mem (s + x))))"
  have "fold (\<lambda>i mem. fold (\<lambda>bl. U (bl * 16 + i)) ks mem) js m =
      fold U (map (\<lambda>(i, bl). bl * 16 + i) (List.product js ks)) m" for js ks m
    by (induction js arbitrary: m) (simp_all add: fold_map o_def)
  then have loop: "transpose_loop G k d s mem = fold U offs mem"
    by (simp add: transpose_loop_def U_def offs_def del: upt_rec_numeral)
  have "inj_on (\<lambda>(i, bl). bl * 16 + i) (set (List.product [0..<16] [0..<k]))"
    by (rule inj_on_inverseI [where g = "\<lambda>x. (x mod 16, x div 16)"]) (auto simp del: upt_rec_numeral)
  then have "distinct offs"
    by (simp add: offs_def distinct_map distinct_product del: upt_rec_numeral)
  moreover have set: "set offs = {0..<16 * k}"
  proof (intro set_eqI iffI)
    fix x assume "x \<in> {0..<16 * k}"
    then have "(x mod 16, x div 16) \<in> set (List.product [0..<16] [0..<k])"
      by (auto simp: less_mult_imp_div_less mult.commute simp del: upt_rec_numeral)
    then show "x \<in> set offs"
      unfolding offs_def set_map by (rule image_eqI [rotated]) simp
  qed (auto simp: offs_def simp del: upt_rec_numeral)
  ultimately show ?thesis
    using fold_updates [of offs d s G mem] assms unfolding loop U_def
    by (intro ext) (auto simp: store_def set)
qed

text \<open>The bytes of sliced registers in memory order are their lanes one after the other.\<close>

lemma sliced_bytes_lanes:
  assumes "length a = 16"
  shows "map (sliced_byte a) [0..<16 * k] = concat (map (\<lambda>bl. lane bl a) [0..<k])"
proof (rule nth_equalityI)
  have len: "length (concat (map (\<lambda>bl. lane bl a) [0..<k])) = 16 * k"
    by (intro length_concat_upt) (simp add: assms)
  then show "length (map (sliced_byte a) [0..<16 * k]) = length (concat (map (\<lambda>bl. lane bl a) [0..<k]))"
    by simp
  fix x assume "x < length (map (sliced_byte a) [0..<16 * k])"
  then have x: "x < 16 * k" by simp
  have "concat (map (\<lambda>bl. lane bl a) [0..<k]) ! x = lane (x div 16) a ! (x mod 16)"
    using x by (intro nth_concat_blocks) (simp_all add: assms)
  then show "map (sliced_byte a) [0..<16 * k] ! x = concat (map (\<lambda>bl. lane bl a) [0..<k]) ! x"
    using x assms by (simp add: sliced_byte_def nth_lane)
qed

lemma load_sliced_lane:
  "k < 32 \<Longrightarrow> lane k (load_sliced mem a) = load mem (a + 16 * k) 16"
  by (intro nth_equalityI) (simp_all add: nth_lane load_sliced_def ac_simps del: upt_rec_numeral)

lemma sliced_load: "sliced (load_sliced mem a)"
  unfolding load_sliced_def by (rule sliced_map) simp

section \<open>Batched encryption\<close>

text \<open>\<^verbatim>\<open>simdBulkEncrypt\<close>: the memory after the call and the number of bytes it handled.\<close>

definition avx2_simdBulkEncrypt :: "bool \<Rightarrow> kuz_cipher \<Rightarrow> mslice \<Rightarrow> mslice \<Rightarrow> memory \<Rightarrow> memory \<times> nat" where
  "avx2_simdBulkEncrypt avx2 c dst src mem =
     (if \<not> avx2 then (mem, 0)
      else (fold (\<lambda>m mem.
          let n = 512 * m;
              a = simd_rounds (simd_keys c) (load_sliced mem (fst src + n))
          in transpose_loop (\<lambda>off _. sliced_byte a off) 32 (fst dst + n) (fst dst + n) mem)
        [0..<snd src div 512] mem, 512 * (snd src div 512)))"

definition avx2_EncryptBlocks :: "bool \<Rightarrow> kuz_cipher \<Rightarrow> mslice \<Rightarrow> mslice \<Rightarrow> memory \<Rightarrow> memory res" where
  "avx2_EncryptBlocks avx2 c dst src mem =
     (if snd src = 0 \<or> snd src mod 16 \<noteq> 0
      then Inl (Panic ''kuznyechik: EncryptBlocks input not a whole number of blocks'')
      else if snd dst < snd src
      then Inl (Panic ''kuznyechik: EncryptBlocks output smaller than input'')
      else if alias_InexactOverlap (fst dst, snd src) src
      then Inl (Panic ''kuznyechik: invalid buffer overlap'')
      else let (mem, n) = avx2_simdBulkEncrypt avx2 c dst src mem
           in Inr (fold (\<lambda>i mem. store mem (fst dst + 16 * i)
                      (kuz_encrypt_block c (load mem (fst src + 16 * i) 16)))
                    [n div 16..<snd src div 16] mem))"

text \<open>One chunk of 32 blocks is 32 steps of the block loop; so the whole batch is the block loop.\<close>

lemma simd_chunk_store:
  assumes "wf_keys (kc_ks c)"
  shows "transpose_loop (\<lambda>off _. sliced_byte (simd_rounds (simd_keys c) (load_sliced mem s)) off) 32 d d mem =
    store mem d (concat (map (\<lambda>i. kuz_encrypt_block c (load mem (s + 16 * i) 16)) [0..<32]))"
proof -
  let ?a = "simd_rounds (simd_keys c) (load_sliced mem s)"
  have a: "sliced ?a" "k < 32 \<Longrightarrow> lane k ?a = kuz_encrypt_block c (load mem (s + 16 * k) 16)" for k
    using simd_rounds_lane(1) [OF assms sliced_load, of _ mem s]
      simd_rounds_lane(2) [OF assms sliced_load, of 0 mem s] by (simp_all add: load_sliced_lane)
  have "transpose_loop (\<lambda>off _. sliced_byte ?a off) 32 d d mem = store mem d (map (sliced_byte ?a) [0..<16 * 32])"
    by (subst transpose_loop_result) simp_all
  also have "map (sliced_byte ?a) [0..<16 * 32] = concat (map (\<lambda>bl. lane bl ?a) [0..<32])"
    by (rule sliced_bytes_lanes) (simp add: slicedD a)
  also have "map (\<lambda>bl. lane bl ?a) [0..<32] = map (\<lambda>i. kuz_encrypt_block c (load mem (s + 16 * i) 16)) [0..<32]"
    by (rule map_cong) (simp_all add: a del: upt_rec_numeral)
  finally show ?thesis .
qed

lemma length_kuz_encrypt_block [len_simps]:
  "wf_keys (kc_ks c) \<Longrightarrow> length bs = 16 \<Longrightarrow> length (kuz_encrypt_block c bs) = 16"
  by (simp add: kuz_encrypt_refines length_kuz_spec)

lemma simd_bulk_blocks:
  assumes wf: "wf_keys (kc_ks c)" and apart: "d = s \<or> d + 512 * N \<le> s \<or> s + 512 * N \<le> d" and "n \<le> N"
  shows "fold (\<lambda>m mem. transpose_loop (\<lambda>off _. sliced_byte (simd_rounds (simd_keys c) (load_sliced mem (s + 512 * m))) off)
      32 (d + 512 * m) (d + 512 * m) mem) [0..<n] mem = block_loop (\<lambda>_. kuz_encrypt_block c) 16 (32 * n) d s mem"
  using \<open>n \<le> N\<close>
proof (induction n)
  case (Suc n)
  have le: "512 * n + 512 \<le> 512 * N" using Suc.prems by simp
  have near: "d + 512 * n = s + 512 * n \<or> d + 512 * n + 16 * 32 \<le> s + 512 * n \<or> s + 512 * n + 16 * 32 \<le> d + 512 * n"
    using apart le by auto
  have "block_loop (\<lambda>_. kuz_encrypt_block c) 16 (32 * n + 32) d s mem =
      block_loop (\<lambda>_. kuz_encrypt_block c) 16 32 (d + 512 * n) (s + 512 * n)
        (block_loop (\<lambda>_. kuz_encrypt_block c) 16 (32 * n) d s mem)"
    by (subst block_loop_add) (simp add: mult.assoc [symmetric])
  also have "\<dots> = store (block_loop (\<lambda>_. kuz_encrypt_block c) 16 (32 * n) d s mem) (d + 512 * n)
      (concat (map (\<lambda>i. kuz_encrypt_block c
        (load (block_loop (\<lambda>_. kuz_encrypt_block c) 16 (32 * n) d s mem) (s + 512 * n + 16 * i) 16)) [0..<32]))"
    by (rule block_loop_store [OF _ near]) (simp add: length_kuz_encrypt_block wf)
  finally show ?case
    using Suc by (simp add: simd_chunk_store [OF wf] add.commute del: upt_rec_numeral)
qed (simp add: block_loop_def)

lemma avx2_EncryptBlocks_agrees:
  assumes "wf_keys (kc_ks c)"
  shows "avx2_EncryptBlocks avx2 c dst src mem = kuz_EncryptBlocks c dst src mem"
proof (cases "avx2 \<and> snd src \<noteq> 0 \<and> snd src mod 16 = 0 \<and> \<not> alias_InexactOverlap (fst dst, snd src) src")
  case True
  define d s n where "d = fst dst" and "s = fst src" and "n = snd src"
  let ?E = "\<lambda>_ :: nat. kuz_encrypt_block c"
  have apart: "d = s \<or> d + n \<le> s \<or> s + n \<le> d"
    using not_inexact_cases [of d n s] True by (auto simp: d_def s_def n_def)
  have bulk: "avx2_simdBulkEncrypt avx2 c dst src mem = (block_loop ?E 16 (32 * (n div 512)) d s mem, 512 * (n div 512))"
    using True apart simd_bulk_blocks [OF assms, of d s "n div 512" "n div 512" mem]
    by (auto simp: avx2_simdBulkEncrypt_def Let_def simp flip: d_def s_def n_def)
  have "32 * (n div 512) \<le> n div 16" by linarith
  then have split: "[0..<32 * (n div 512)] @ [32 * (n div 512)..<n div 16] = [0..<n div 16]"
    using upt_add_eq_append [of 0 "32 * (n div 512)" "n div 16 - 32 * (n div 512)"] by simp
  have "fold (\<lambda>i mem. store mem (d + 16 * i) (kuz_encrypt_block c (load mem (s + 16 * i) 16)))
      [32 * (n div 512)..<n div 16] (block_loop ?E 16 (32 * (n div 512)) d s mem) = block_loop ?E 16 (n div 16) d s mem"
    unfolding block_loop_def fold_append [symmetric, THEN fun_cong, unfolded o_apply]
    by (simp add: split)
  then show ?thesis
    by (simp add: avx2_EncryptBlocks_def kuz_EncryptBlocks_def simdBulkEncrypt_def bulk Let_def block_loop_def
        flip: d_def s_def n_def)
next
  case False
  then show ?thesis
    by (auto simp: avx2_EncryptBlocks_def kuz_EncryptBlocks_def simdBulkEncrypt_def avx2_simdBulkEncrypt_def Let_def)
qed


section \<open>Sliced counters\<close>

definition simdCTRRamp :: vec where
  "simdCTRRamp = map word_of_nat [0..<32]"

text \<open>Registers 15 down to 0, with the carry of each lane out of the register behind.\<close>

definition slicedCounters :: "bytes \<Rightarrow> vec list" where
  "slicedCounters ctr =
     (let one = vec_Broadcast 1;
          b = vec_Broadcast (ctr ! 15);
          r = vec_Add b simdCTRRamp;
          carry = vec_Masked one (vec_Less r b)
      in fst (fold (\<lambda>j (reg, carry).
           let b = vec_Broadcast (ctr ! j); r = vec_Add b carry
           in (r # reg, vec_Masked one (vec_Less r b))) (rev [0..<15]) ([r], carry)))"

text \<open>\<open>addCounter_loop j\<close> is the loop at index \<open>j - 1\<close>.\<close>

primrec addCounter_loop :: "nat \<Rightarrow> bytes \<Rightarrow> nat \<Rightarrow> bytes" where
  "addCounter_loop 0 ctr carry = ctr"
| "addCounter_loop (Suc j) ctr carry =
     (if carry \<noteq> 0
      then let v = unat (ctr ! j) + carry
           in addCounter_loop j (ctr[j := word_of_nat v]) (v div 256)
      else ctr)"

definition addCounter :: "bytes \<Rightarrow> nat \<Rightarrow> bytes" where
  "addCounter ctr k =
     (let v = unat (ctr ! 15) + k
      in addCounter_loop 15 (ctr[15 := word_of_nat v]) (v div 256))"

lemma length_addCounter_loop [simp, len_simps]: "length (addCounter_loop j ctr c) = length ctr"
  by (induction j arbitrary: ctr c) (simp_all add: Let_def)

lemma addCounter_loop_value:
  assumes "j \<le> length ctr"
  shows "be_nat (take j (addCounter_loop j ctr c)) = (be_nat (take j ctr) + c) mod 256 ^ j"
    and "drop j (addCounter_loop j ctr c) = drop j ctr"
proof -
  have "be_nat (take j (addCounter_loop j ctr c)) = (be_nat (take j ctr) + c) mod 256 ^ j \<and>
      drop j (addCounter_loop j ctr c) = drop j ctr" if "j \<le> length ctr" for ctr
    using that
  proof (induction j arbitrary: ctr c)
    case 0
    then show ?case by (simp add: be_nat_def)
  next
    case (Suc j)
    have take: "take (Suc j) x = take j x @ [x ! j]" if "length x = length ctr" for x
      using that Suc.prems by (simp add: take_Suc_conv_app_nth)
    show ?case
    proof (cases "c = 0")
      case True
      have "length (take (Suc j) ctr) = Suc j" using Suc.prems by simp
      then show ?thesis
        using True be_nat_less [of "take (Suc j) ctr"] by simp
    next
      case False
      define v where "v = unat (ctr ! j) + c"
      define r where "r = addCounter_loop j (ctr[j := word_of_nat v]) (v div 256)"
      have IH: "be_nat (take j r) = (be_nat (take j ctr) + v div 256) mod 256 ^ j"
        "drop j r = drop j (ctr[j := word_of_nat v])"
        using Suc.IH [of "ctr[j := word_of_nat v]" "v div 256"] Suc.prems by (simp_all add: r_def)
      have len: "length r = length ctr" by (simp add: r_def)
      have rj: "r ! j = word_of_nat v"
        using arg_cong [OF IH(2), of hd] Suc.prems len by (simp add: hd_drop_conv_nth)
      have "be_nat (take (Suc j) r) = (be_nat (take j ctr) + v div 256) mod 256 ^ j * 256 + v mod 256"
        using len by (simp add: take be_nat_append IH rj be_nat_def [of "[_]"] unat_of_nat)
      also have "\<dots> = ((be_nat (take j ctr) + v div 256) * 256 + v mod 256) mod 256 ^ Suc j"
        by (simp add: mod_mult2_eq mult.commute)
      also have "(be_nat (take j ctr) + v div 256) * 256 + v mod 256 = be_nat (take (Suc j) ctr) + c"
        by (simp add: take be_nat_append be_nat_def [of "[_]"] v_def algebra_simps)
      finally have "be_nat (take (Suc j) r) = (be_nat (take (Suc j) ctr) + c) mod 256 ^ Suc j" .
      moreover have "drop (Suc j) r = drop (Suc j) ctr"
        using arg_cong [OF IH(2), of "drop 1"] by simp
      ultimately show ?thesis using False by (simp add: r_def v_def Let_def)
    qed
  qed
  from this [OF assms] show "be_nat (take j (addCounter_loop j ctr c)) = (be_nat (take j ctr) + c) mod 256 ^ j"
    "drop j (addCounter_loop j ctr c) = drop j ctr" by auto
qed

lemma addCounter_loop_0 [simp]: "addCounter_loop j ctr 0 = ctr"
  by (cases j) simp_all

text \<open>Adding \<open>k\<close> is incrementing \<open>k\<close> times.\<close>

lemma addCounter_inc:
  assumes "length ctr = 16"
  shows "addCounter ctr k = (inc_be ^^ k) ctr"
proof (rule be_nat_inj)
  have "addCounter ctr k = addCounter_loop (Suc 15) ctr k"
  proof (cases "k = 0")
    case True
    have "addCounter_loop 15 ctr 0 = ctr" by (rule addCounter_loop_0)
    then show ?thesis using True by (simp only: addCounter_def Let_def addCounter_loop.simps) simp
  qed (simp only: addCounter_def Let_def addCounter_loop.simps not_False_eq_True if_True)
  then have "addCounter ctr k = addCounter_loop 16 ctr k" by simp
  then show "be_nat (addCounter ctr k) = be_nat ((inc_be ^^ k) ctr)"
    using addCounter_loop_value(1) [of 16 ctr k] assms by (simp add: inc_be_pow)
qed (simp add: addCounter_def Let_def assms)


text \<open>One column of the ramp: sum and carry.\<close>

lemma byte_add_carry:
  "unat (b + c :: byte) + 256 * unat (if b + c < b then 1 else 0 :: byte) = unat b + unat c"
proof -
  have u: "unat (b + c) = (unat b + unat c) mod 256" by (simp add: unat_word_ariths)
  have lt: "b + c < b \<longleftrightarrow> (unat b + unat c) mod 256 < unat b"
    by (simp only: word_less_nat_alt u)
  have bc: "unat b < 256" "unat c < 256" by simp_all
  show ?thesis
  proof (cases "unat b + unat c < 256")
    case True
    then have "(unat b + unat c) mod 256 = unat b + unat c" by simp
    then show ?thesis by (simp only: lt u) simp
  next
    case False
    have "unat b + unat c = 256 + (unat b + unat c - 256)" "unat b + unat c - 256 < 256"
      using False bc by linarith+
    then have "(unat b + unat c) mod 256 = unat b + unat c - 256"
      by (metis mod_add_self1 mod_less)
    moreover have "unat b + unat c - 256 < unat b" using False bc by linarith
    ultimately show ?thesis using False by (simp only: lt u if_True) simp
  qed
qed

lemma slicedCounters_facts:
  assumes "length ctr = 16"
  shows "sliced (slicedCounters ctr)"
    and "k < 32 \<Longrightarrow> lane k (slicedCounters ctr) = (inc_be ^^ k) ctr"
proof -
  define one where "one = vec_Broadcast 1"
  define step where "step = (\<lambda>j (reg, carry).
    let b = vec_Broadcast (ctr ! j); r = vec_Add b carry in (r # reg, vec_Masked one (vec_Less r b)))"
  define r where "r = vec_Add (vec_Broadcast (ctr ! 15)) simdCTRRamp"
  define c where "c = vec_Masked one (vec_Less r (vec_Broadcast (ctr ! 15)))"
  have S: "slicedCounters ctr = fst (fold step (rev [0..<15]) ([r], c))"
    by (simp add: slicedCounters_def step_def one_def r_def c_def Let_def del: upt_rec_numeral)
  have ramp: "length simdCTRRamp = 32" "k < 32 \<Longrightarrow> simdCTRRamp ! k = word_of_nat k" for k
    by (simp_all add: simdCTRRamp_def del: upt_rec_numeral)
  define ok :: "nat \<Rightarrow> vec list \<times> vec \<Rightarrow> bool" where "ok = (\<lambda>j (reg, carry). length reg = 16 - j \<and> (\<forall>v \<in> set reg. length v = 32) \<and> length carry = 32 \<and>
    (\<forall>k < 32. be_nat (lane k reg) + 256 ^ (16 - j) * unat (carry ! k) = be_nat (drop j ctr) + k))"
  have len: "length one = 32" "length r = 32" "length c = 32"
    by (simp_all add: one_def r_def c_def vec_simps ramp)
  have "ok 15 ([r], c)"
  proof -
    have "unat (r ! k) + 256 * unat (c ! k) = unat (ctr ! 15) + k" if "k < 32" for k
      using byte_add_carry [of "ctr ! 15" "word_of_nat k"] that
      by (simp add: r_def c_def one_def vec_simps ramp unat_of_nat split: if_splits)
    moreover have "drop 15 ctr = [ctr ! 15]"
      using assms Cons_nth_drop_Suc [of 15 ctr] by simp
    ultimately show ?thesis by (simp add: ok_def len lane_def be_nat_def)
  qed
  moreover have "ok j (step j p)" if ok: "ok (Suc j) p" and j: "j < 15" for j p
  proof -
    obtain reg carry where p: "p = (reg, carry)" by fastforce
    define b r' where "b = vec_Broadcast (ctr ! j)" and "r' = vec_Add b carry"
    define c' where "c' = vec_Masked one (vec_Less r' b)"
    have reg: "length reg = 16 - Suc j" "\<forall>v \<in> set reg. length v = 32" "length carry = 32"
      and val: "k < 32 \<Longrightarrow> be_nat (lane k reg) + 256 ^ (16 - Suc j) * unat (carry ! k) = be_nat (drop (Suc j) ctr) + k" for k
      using ok by (auto simp: ok_def p)
    have len': "length r' = 32" "length c' = 32"
      using reg by (simp_all add: r'_def b_def c'_def vec_simps len)
    have "be_nat (lane k (r' # reg)) + 256 ^ (16 - j) * unat (c' ! k) = be_nat (drop j ctr) + k" if k: "k < 32" for k
    proof -
      define M :: nat where "M = 256 ^ (16 - Suc j)"
      have sum: "unat (r' ! k) + 256 * unat (c' ! k) = unat (ctr ! j) + unat (carry ! k)"
        using byte_add_carry [of "ctr ! j" "carry ! k"] k reg
        by (simp add: r'_def b_def c'_def vec_simps len one_def split: if_splits)
      have "unat (r' ! k) * M + 256 * M * unat (c' ! k) = unat (ctr ! j) * M + M * unat (carry ! k)"
        using arg_cong [OF sum, of "\<lambda>x. x * M"] by (simp add: algebra_simps)
      moreover have "256 ^ (16 - j) = 256 * M" using j by (simp add: M_def Suc_diff_Suc flip: power_Suc)
      moreover have "be_nat (lane k (r' # reg)) = unat (r' ! k) * M + be_nat (lane k reg)"
        using be_nat_append [of "[r' ! k]" "lane k reg"] reg(1) by (simp add: M_def lane_def be_nat_def [of "[_]"])
      moreover have "be_nat (drop j ctr) = unat (ctr ! j) * M + be_nat (drop (Suc j) ctr)"
      proof -
        have "drop j ctr = [ctr ! j] @ drop (Suc j) ctr" using Cons_nth_drop_Suc [of j ctr] j assms by simp
        then show ?thesis by (simp only: be_nat_append length_drop assms) (simp add: M_def be_nat_def)
      qed
      ultimately show ?thesis using val [OF k, folded M_def] by (simp add: mult.assoc)
    qed
    then show ?thesis
      using reg len' j by (simp add: ok_def p step_def Let_def flip: b_def r'_def c'_def)
  qed
  then have "ok j p \<Longrightarrow> j \<le> 15 \<Longrightarrow> ok 0 (fold step (rev [0..<j]) p)" for j p
    by (induction j arbitrary: p) simp_all
  ultimately have "ok 0 (fold step (rev [0..<15]) ([r], c))" by blast
  then have fin: "length (slicedCounters ctr) = 16" "\<forall>v \<in> set (slicedCounters ctr). length v = 32"
    "\<And>k. k < 32 \<Longrightarrow> \<exists>m. be_nat (lane k (slicedCounters ctr)) + 256 ^ 16 * m = be_nat ctr + k"
    unfolding S ok_def by (auto simp: case_prod_beta)
  show "sliced (slicedCounters ctr)" using fin by (simp add: sliced_def)
  show "lane k (slicedCounters ctr) = (inc_be ^^ k) ctr" if k: "k < 32"
  proof (rule be_nat_inj)
    obtain m where m: "be_nat (lane k (slicedCounters ctr)) + 256 ^ 16 * m = be_nat ctr + k"
      using fin(3) [OF k] by blast
    have "be_nat (lane k (slicedCounters ctr)) < 256 ^ 16"
      using be_nat_less [of "lane k (slicedCounters ctr)"] fin(1) by simp
    then have "be_nat (lane k (slicedCounters ctr)) = (be_nat ctr + k) mod 256 ^ 16"
      unfolding m [symmetric] by simp
    then show "be_nat (lane k (slicedCounters ctr)) = be_nat ((inc_be ^^ k) ctr)"
      using assms by (simp add: inc_be_pow)
  qed (simp add: fin assms)
qed


section \<open>The fused CTR keystream\<close>

text \<open>
  The loop of \<^verbatim>\<open>CTRXORBlocks\<close> from block \<open>dn\<close> of \<open>tot\<close> on: a batch of at most 32 counters is
  encrypted and masked with the source during the output transpose.
\<close>

function CTRXORBlocks_loop ::
  "kuz_cipher \<Rightarrow> nat \<Rightarrow> nat \<Rightarrow> nat \<Rightarrow> nat \<Rightarrow> bytes \<Rightarrow> memory \<Rightarrow> memory \<times> bytes" where
  "CTRXORBlocks_loop c dn tot d s ctr mem =
     (if dn < tot
      then let k = (if tot - dn < 32 then tot - dn else 32);
               a = simd_rounds (simd_keys c) (slicedCounters ctr);
               base = dn * 16
           in CTRXORBlocks_loop c (dn + k) tot d s (addCounter ctr k)
                (transpose_loop (\<lambda>off b. b XOR sliced_byte a off) k (d + base) (s + base) mem)
      else (mem, ctr))"
  by pat_completeness auto
termination
  by (relation "measure (\<lambda>(c, dn, tot, _). tot - dn)") auto

declare CTRXORBlocks_loop.simps [simp del]

definition kuz_CTRXORBlocks ::
  "kuz_cipher \<Rightarrow> mslice \<Rightarrow> mslice \<Rightarrow> bytes \<Rightarrow> memory \<Rightarrow> (memory \<times> bytes) res" where
  "kuz_CTRXORBlocks c dst src iv mem =
     (let tot = snd src div 16 in
      if snd dst < 16 * tot then Inl (Panic ''runtime error: index out of range'')
      else let (mem, ctr) = CTRXORBlocks_loop c 0 tot (fst dst) (fst src) (copy_into 16 iv) mem
           in Inr (mem, take (length iv) ctr @ drop 16 iv))"

text \<open>The keystream of \<open>n\<close> blocks from a counter.\<close>

definition kuz_ctr_keystream :: "kuz_cipher \<Rightarrow> bytes \<Rightarrow> nat \<Rightarrow> bytes" where
  "kuz_ctr_keystream c ctr n = concat (map (\<lambda>i. kuz_encrypt_block c ((inc_be ^^ i) ctr)) [0..<n])"

lemma length_kuz_ctr_keystream [len_simps]:
  "wf_keys (kc_ks c) \<Longrightarrow> length ctr = 16 \<Longrightarrow> length (kuz_ctr_keystream c ctr n) = 16 * n"
  unfolding kuz_ctr_keystream_def by (intro length_concat_upt) (simp add: len_simps)

lemma kuz_ctr_keystream_add:
  "kuz_ctr_keystream c ctr (m + n) = kuz_ctr_keystream c ctr m @ kuz_ctr_keystream c ((inc_be ^^ m) ctr) n"
proof -
  have "[0..<m + n] = [0..<m] @ map (\<lambda>i. i + m) [0..<n]"
    using upt_add_eq_append [of 0 m n] by (simp add: map_add_upt add.commute)
  then show ?thesis
    by (simp add: kuz_ctr_keystream_def o_def funpow_add)
qed

lemma ctr_chunk_store:
  assumes wf: "wf_keys (kc_ks c)" and ctr: "length ctr = 16" and "k \<le> 32"
    and apart: "d = s \<or> d + 16 * k \<le> s \<or> s + 16 * k \<le> d"
  shows "transpose_loop (\<lambda>off b. b XOR sliced_byte (simd_rounds (simd_keys c) (slicedCounters ctr)) off) k d s mem =
    store mem d (xor_bytes (load mem s (16 * k)) (kuz_ctr_keystream c ctr k))"
proof -
  let ?a = "simd_rounds (simd_keys c) (slicedCounters ctr)"
  have a: "sliced ?a" by (rule simd_rounds_lane(2) [OF wf slicedCounters_facts(1) [OF ctr], of 0]) simp
  have lane: "lane i ?a = kuz_encrypt_block c ((inc_be ^^ i) ctr)" if "i < 32" for i
    using simd_rounds_lane(1) [OF wf slicedCounters_facts(1) [OF ctr] that] slicedCounters_facts(2) [OF ctr that] by simp
  have "map (sliced_byte ?a) [0..<16 * k] = concat (map (\<lambda>bl. lane bl ?a) [0..<k])"
    by (rule sliced_bytes_lanes) (simp add: slicedD a)
  also have "map (\<lambda>bl. lane bl ?a) [0..<k] = map (\<lambda>i. kuz_encrypt_block c ((inc_be ^^ i) ctr)) [0..<k]"
    using assms(3) by (intro map_cong) (simp_all add: lane)
  finally have "map (sliced_byte ?a) [0..<16 * k] = kuz_ctr_keystream c ctr k"
    by (simp only: kuz_ctr_keystream_def)
  moreover have "map (\<lambda>x. mem (s + x) XOR sliced_byte ?a x) [0..<16 * k] =
      xor_bytes (load mem s (16 * k)) (map (sliced_byte ?a) [0..<16 * k])"
    by (rule nth_equalityI) simp_all
  ultimately show ?thesis
    using transpose_loop_result [OF apart, of "\<lambda>off b. b XOR sliced_byte ?a off" mem] by simp
qed

lemma CTRXORBlocks_loop_result:
  assumes wf: "wf_keys (kc_ks c)" and ctr: "length ctr = 16" and "dn \<le> tot"
    and apart: "d = s \<or> d + 16 * tot \<le> s \<or> s + 16 * tot \<le> d"
  shows "CTRXORBlocks_loop c dn tot d s ctr mem =
    (store mem (d + 16 * dn) (xor_bytes (load mem (s + 16 * dn) (16 * (tot - dn)))
       (kuz_ctr_keystream c ctr (tot - dn))), (inc_be ^^ (tot - dn)) ctr)"
  using ctr \<open>dn \<le> tot\<close>
proof (induction "tot - dn" arbitrary: dn ctr mem rule: less_induct)
  case less
  show ?case
  proof (cases "dn < tot")
    case True
    define k m where "k = (if tot - dn < 32 then tot - dn else 32)" and "m = tot - (dn + k)"
    have k: "0 < k" "k \<le> 32" "dn + k \<le> tot" "tot - dn = k + m" "dn + k + m = tot"
      using True by (auto simp: k_def m_def)
    define X where "X = xor_bytes (load mem (s + 16 * dn) (16 * k)) (kuz_ctr_keystream c ctr k)"
    have X: "length X = 16 * k" using less.prems wf by (simp add: X_def length_kuz_ctr_keystream)
    have chunk: "transpose_loop (\<lambda>off b. b XOR sliced_byte (simd_rounds (simd_keys c) (slicedCounters ctr)) off) k
        (d + dn * 16) (s + dn * 16) mem = store mem (d + 16 * dn) X"
      using ctr_chunk_store [OF wf less.prems(1) k(2), of "d + 16 * dn" "s + 16 * dn" mem] apart k
      by (auto simp: X_def mult.commute)
    have src: "load (store mem (d + 16 * dn) X) (s + 16 * (dn + k)) (16 * m) = load mem (s + 16 * (dn + k)) (16 * m)"
      using apart k X by (intro load_store_other) auto
    have "CTRXORBlocks_loop c dn tot d s ctr mem =
        CTRXORBlocks_loop c (dn + k) tot d s (addCounter ctr k) (store mem (d + 16 * dn) X)"
      using True chunk by (subst CTRXORBlocks_loop.simps) (simp add: Let_def flip: k_def)
    also have "\<dots> = (store (store mem (d + 16 * dn) X) (d + 16 * (dn + k))
        (xor_bytes (load mem (s + 16 * (dn + k)) (16 * m)) (kuz_ctr_keystream c ((inc_be ^^ k) ctr) m)),
        (inc_be ^^ m) ((inc_be ^^ k) ctr))"
    proof -
      have "tot - (dn + k) < tot - dn" "length ((inc_be ^^ k) ctr) = 16"
        using True k(1) less.prems(1) by simp_all
      from less.hyps [OF this k(3), of "store mem (d + 16 * dn) X"] show ?thesis
        by (simp only: m_def [symmetric] src addCounter_inc [OF less.prems(1)])
    qed
    also have "store (store mem (d + 16 * dn) X) (d + 16 * (dn + k)) ys = store mem (d + 16 * dn) (X @ ys)" for ys
      using store_append [of mem "d + 16 * dn" X ys] X by (simp add: algebra_simps)
    also have "X @ xor_bytes (load mem (s + 16 * (dn + k)) (16 * m)) (kuz_ctr_keystream c ((inc_be ^^ k) ctr) m) =
        xor_bytes (load mem (s + 16 * dn) (16 * k + 16 * m)) (kuz_ctr_keystream c ctr (k + m))"
      unfolding X_def kuz_ctr_keystream_add load_append distrib_left add.assoc
      by (rule xor_bytes_append [symmetric]) (simp add: length_kuz_ctr_keystream wf less.prems)
    also have "16 * k + 16 * m = 16 * (tot - dn)" using k by simp
    also have "(inc_be ^^ m) ((inc_be ^^ k) ctr) = (inc_be ^^ (tot - dn)) ctr"
      unfolding k(4) add.commute [of k m] funpow_add by (rule o_apply [symmetric])
    finally show ?thesis using k(4) by simp
  next
    case False
    then show ?thesis
      using less.prems
      by (subst CTRXORBlocks_loop.simps) (simp add: kuz_ctr_keystream_def store_Nil)
  qed
qed

lemma kuz_CTRXORBlocks_result:
  assumes "wf_keys (kc_ks c)" "length iv = 16" "n \<le> dn" "n mod 16 = 0" "\<not> alias_InexactOverlap (d, n) (s, n)"
  shows "kuz_CTRXORBlocks c (d, dn) (s, n) iv mem =
    Inr (store mem d (xor_bytes (load mem s n) (kuz_ctr_keystream c iv (n div 16))), (inc_be ^^ (n div 16)) iv)"
proof -
  have n: "16 * (n div 16) = n" using assms(4) by auto
  have "d = s \<or> d + 16 * (n div 16) \<le> s \<or> s + 16 * (n div 16) \<le> d"
    by (cases "n = 0") (use n not_inexact_cases [OF assms(5)] in auto)
  from CTRXORBlocks_loop_result [OF assms(1,2) le0 this, where mem = mem] show ?thesis
    using assms(2,3) n by (simp add: kuz_CTRXORBlocks_def Let_def)
qed

section \<open>The capabilities of the SIMD build\<close>

text \<open>What a mode sees of the two methods: the calls in place, on a buffer of its own.\<close>

definition avx2_enc_blocks :: "bool \<Rightarrow> kuz_cipher \<Rightarrow> bytes \<Rightarrow> bytes" where
  "avx2_enc_blocks avx2 c src =
     (let n = length src in
      case avx2_EncryptBlocks avx2 c (0, n) (0, n) (store (\<lambda>_. 0) 0 src) of
        Inl _ \<Rightarrow> [] | Inr mem \<Rightarrow> load mem 0 n)"

definition avx2_ctr_xor :: "kuz_cipher \<Rightarrow> bytes \<Rightarrow> bytes \<Rightarrow> bytes \<times> bytes" where
  "avx2_ctr_xor c src iv =
     (let n = length src in
      case kuz_CTRXORBlocks c (0, n) (0, n) iv (store (\<lambda>_. 0) 0 src) of
        Inl _ \<Rightarrow> ([], iv) | Inr (mem, iv) \<Rightarrow> (load mem 0 n, iv))"

definition kuz_block_simd :: "bool \<Rightarrow> kuz_cipher \<Rightarrow> block_cipher" where
  "kuz_block_simd avx2 c =
     (kuz_block c)\<lparr>enc_blocks := Some (avx2_enc_blocks avx2 c), ctr_xor_blocks := Some (avx2_ctr_xor c)\<rparr>"

lemma load_store_0: "load (store mem 0 src) 0 (length src) = src"
  by (simp add: load_store_same)

lemma avx2_enc_blocks_law:
  assumes "wf_keys (kc_ks c)" "length src = 16 * n"
  shows "avx2_enc_blocks avx2 c src = concat (map (kuz_encrypt_block c) (full_blocks 16 n src))"
proof (cases "n = 0")
  case True
  then show ?thesis
    using assms by (simp add: avx2_enc_blocks_def avx2_EncryptBlocks_def full_blocks_def)
next
  case False
  let ?m = "length src" and ?mem = "store (\<lambda>_. 0) 0 src"
  have "\<exists>mem'. kuz_EncryptBlocks c (0, ?m) (0, ?m) ?mem = Inr mem'"
    using False assms(2) by (simp add: kuz_EncryptBlocks_def alias_InexactOverlap_def Let_def)
  then obtain mem' where mem': "kuz_EncryptBlocks c (0, ?m) (0, ?m) ?mem = Inr mem'" by blast
  have "load mem' 0 ?m = kuz_enc_blocks c (load ?mem 0 ?m)"
    by (rule kuz_EncryptBlocks_enc_blocks [OF assms(1) mem'])
  then show ?thesis
    using assms mem' by (simp add: avx2_enc_blocks_def avx2_EncryptBlocks_agrees Let_def load_store_same kuz_enc_blocks_def)
qed

lemma avx2_ctr_xor_law:
  assumes "wf_keys (kc_ks c)" "length src = 16 * n" "length iv = 16"
  shows "avx2_ctr_xor c src iv = (xor_bytes src (kuz_ctr_keystream c iv n), (inc_be ^^ n) iv)"
proof -
  have "length (xor_bytes src (kuz_ctr_keystream c iv n)) = length src"
    using assms by (simp add: length_kuz_ctr_keystream)
  then show ?thesis
    using assms kuz_CTRXORBlocks_result [of c iv "length src" "length src" 0 0 "store (\<lambda>_. 0) 0 src"]
    by (simp add: avx2_ctr_xor_def Let_def alias_InexactOverlap_def load_store_0 load_store_same)
qed

interpretation kuz_simd: ctr_cipher "kuz_block_simd avx2 (kuz_cipher_of ct key)" for avx2 ct key
proof
  show "0 < bsize (kuz_block_simd avx2 (kuz_cipher_of ct key))"
    by (simp add: kuz_block_simd_def kuz_block_def)
  show "length (enc (kuz_block_simd avx2 (kuz_cipher_of ct key)) x) = bsize (kuz_block_simd avx2 (kuz_cipher_of ct key))"
    if "length x = bsize (kuz_block_simd avx2 (kuz_cipher_of ct key))" for x
    using that by (simp add: kuz_block_simd_def kuz_block_def len_simps)
  show "f src = concat (map (enc (kuz_block_simd avx2 (kuz_cipher_of ct key)))
      (full_blocks (bsize (kuz_block_simd avx2 (kuz_cipher_of ct key))) n src))"
    if "enc_blocks (kuz_block_simd avx2 (kuz_cipher_of ct key)) = Some f"
      "length src = bsize (kuz_block_simd avx2 (kuz_cipher_of ct key)) * n" for f src n
    using that by (auto simp: kuz_block_simd_def kuz_block_def avx2_enc_blocks_law)
  show "g src iv = (xor_bytes src (concat (map (\<lambda>i. enc (kuz_block_simd avx2 (kuz_cipher_of ct key)) ((inc_be ^^ i) iv)) [0..<n])),
      (inc_be ^^ n) iv)"
    if "ctr_xor_blocks (kuz_block_simd avx2 (kuz_cipher_of ct key)) = Some g"
      "length src = bsize (kuz_block_simd avx2 (kuz_cipher_of ct key)) * n"
      "length iv = bsize (kuz_block_simd avx2 (kuz_cipher_of ct key))" for g src iv n
    using that by (auto simp: kuz_block_simd_def kuz_block_def avx2_ctr_xor_law kuz_ctr_keystream_def)
qed

text \<open>Two ciphers with the same block function give the same CTR-ACPKM stream, whatever their capabilities.\<close>

lemma acpkm_section_cong:
  assumes "\<And>k. bsize (nb k) = bsize (nb' k) \<and> enc (nb k) = enc (nb' k)"
  shows "bsize (acpkm_section (Some nb) (nb key) i) = bsize (acpkm_section (Some nb') (nb' key) i) \<and>
    enc (acpkm_section (Some nb) (nb key) i) = enc (acpkm_section (Some nb') (nb' key) i)"
  using assms by (induction i) (simp_all add: acpkm_key_def)

lemma ctr_acpkm_same_blocks:
  assumes ok: "\<And>k. length k = 32 \<Longrightarrow> ctr_cipher (nb k)" "\<And>k. length k = 32 \<Longrightarrow> ctr_cipher (nb' k)"
    and same: "\<And>k. bsize (nb k) = bs \<and> bsize (nb' k) = bs \<and> enc (nb k) = enc (nb' k)"
  shows "bind_res (ctr_NewCTRACPKM (Some nb) key iv N) (\<lambda>c. Inr (fst (ctr_stream c src))) =
    bind_res (ctr_NewCTRACPKM (Some nb') key iv N) (\<lambda>c. Inr (fst (ctr_stream c src)))"
proof (cases "ctr_NewCTRACPKM (Some nb) key iv N")
  case (Inl e)
  then have "ctr_NewCTRACPKM (Some nb') key iv N = Inl e"
    using same by (auto simp: ctr_NewCTRACPKM_def Let_def split: if_splits)
  with Inl show ?thesis by simp
next
  case (Inr c)
  then obtain c' where c': "ctr_NewCTRACPKM (Some nb') key iv N = Inr c'"
    using same by (auto simp: ctr_NewCTRACPKM_def Let_def split: if_splits)
  have b: "\<And>k. length k = 32 \<Longrightarrow> bsize (nb k) = bs" "\<And>k. length k = 32 \<Longrightarrow> bsize (nb' k) = bs"
    using same by simp_all
  have "acpkm_block (Some nb) (nb key) iv (nat N) = acpkm_block (Some nb') (nb' key) iv (nat N)"
    using acpkm_section_cong [of nb nb' key] same by (intro ext) (simp add: acpkm_block_def)
  then show ?thesis
    using Inr c' ctr_NewCTRACPKM_wf [OF ok(1) b(1) Inr] ctr_NewCTRACPKM_wf [OF ok(2) b(2) c']
      ctr_stream_closed [of c src] ctr_stream_closed [of c' src] by simp
qed

section \<open>Properties\<close>

text \<open>
  C37. Batched Kuznyechik encryption in every build: with and without the SIMD engine, and with
  or without AVX2, the call gives the same memory or the same panic; and whenever it passes its
  checks, also in place, the destination holds the encryption of each source block as it was
  before the call, and no other byte of memory changes.
\<close>

theorem avx2_EncryptBlocks_correct:
  assumes "kuz_NewCipher key = Inr c"
  shows "avx2_EncryptBlocks avx2 c (d, dn) (s, sn) mem = kuz_EncryptBlocks c (d, dn) (s, sn) mem \<and>
    (\<forall>mem'. avx2_EncryptBlocks avx2 c (d, dn) (s, sn) mem = Inr mem' \<longrightarrow>
      load mem' d sn = concat (map (\<lambda>i. kuz_encrypt_block c (load mem (s + 16 * i) 16)) [0..<sn div 16]) \<and>
      (\<forall>x. x < d \<or> d + sn \<le> x \<longrightarrow> mem' x = mem x))"
proof -
  have "wf_keys (kc_ks c)" using assms by (auto simp: kuz_NewCipher_def split: if_splits)
  then show ?thesis
    using kuz_EncryptBlocks_result [of c d dn s sn mem] by (simp add: avx2_EncryptBlocks_agrees)
qed

theorem avx2_EncryptBlocks_correct_witness:
  "avx2_EncryptBlocks True (kuz_cipher_of False (replicate 32 1)) (0, 1040) (0, 1040) (\<lambda>_. 7) =
     kuz_EncryptBlocks (kuz_cipher_of False (replicate 32 1)) (0, 1040) (0, 1040) (\<lambda>_. 7)"
  using avx2_EncryptBlocks_correct [of "replicate 32 1" "kuz_cipher_of False (replicate 32 1)" True 0 1040 0 1040 "\<lambda>_. 7"]
  by (simp add: kuz_NewCipher_def)

text \<open>
  C11. CTR-ACPKM over Kuznyechik gives the same output in the SIMD build, where the counters are
  generated and encrypted 32 at a time by CTRXORBlocks, as in the default build, with both
  cipher constructions and every section size, and it refuses the same parameters.
\<close>

theorem ctr_acpkm_simd_agrees:
  "bind_res (ctr_NewCTRACPKM (Some (\<lambda>k. kuz_block_simd avx2 (kuz_cipher_of ct k))) key iv N)
     (\<lambda>c. Inr (fst (ctr_stream c src))) =
   bind_res (ctr_NewCTRACPKM (Some (\<lambda>k. kuz_block (kuz_cipher_of ct k))) key iv N)
     (\<lambda>c. Inr (fst (ctr_stream c src)))"
  by (rule ctr_acpkm_same_blocks [where bs = 16, OF kuz_simd.ctr_cipher_axioms kuz_ctr.ctr_cipher_axioms])
    (simp add: kuz_block_simd_def kuz_block_def)

end
