(* ===== verification/Spec2Isabelle.thy ===== *)
theory Spec2Isabelle
  imports X509_Verify CurveParams HexText SignNonce MGM_Field MGM_Memory KuznyechikSIMD Magma Alias
begin

text \<open>
  Verification library of the Go module \<^verbatim>\<open>gostcrypto\<close>: the GOST block ciphers, their modes and
  MACs, the hashes, key derivation and export, the elliptic-curve signature and key agreement, and the
  X.509 layer over them.

  \<^bold>\<open>The program and its model.\<close> Each package under \<^verbatim>\<open>src/\<close> has a theory; a Go struct is a record, a
  slice or array of bytes a list of 8-bit words, \<^verbatim>\<open>uint64\<close> a 64-bit word, \<^verbatim>\<open>big.Int\<close> an unbounded integer, a
  fallible call a sum whose left side is the error or the panic of the source line. Methods on pointers take the
  state and return it. In the order of the calls:

    \<^item> \<open>Prelude\<close>, \<open>Block_Cipher\<close>, \<open>Streaming\<close>: byte strings and faults; the contract of
      \<^verbatim>\<open>cipher.Block\<close> (locales \<open>block_enc\<close>, \<open>block_perm\<close>) that the ciphers interpret and the modes use; the contracts
      of components fed in pieces (locales \<open>absorber\<close>, \<open>keystream\<close>).
    \<^item> \<open>Gost28147\<close>, \<open>Magma\<close>, \<open>Kuznyechik\<close>, \<open>KuznyechikCT\<close>, \<open>KuznyechikBulk\<close>: the block ciphers
      (\<^verbatim>\<open>gost28147\<close>, \<^verbatim>\<open>magma\<close>, \<^verbatim>\<open>kuznyechik\<close>), with \<open>CT\<close> (\<^verbatim>\<open>internal/ct\<close>) and \<open>Alias\<close>
      (\<^verbatim>\<open>internal/alias\<close>). Lemmas: decryption inverts encryption, Magma is the 28147 core renumbered, the table and the
      constant-time rounds compute the reference transforms, batches are loops of single blocks in memory.
    \<^item> \<open>CTR_ACPKM\<close>, \<open>CNT\<close>, \<open>OMAC\<close>, \<open>IMIT\<close>, \<open>MGM\<close>, \<open>MGM_Field\<close>, \<open>MGM_Memory\<close>: the modes
      (\<^verbatim>\<open>ctracpkm\<close>, \<^verbatim>\<open>gost28147cnt\<close>, \<^verbatim>\<open>omac\<close>, \<^verbatim>\<open>gost28147imit\<close>, \<^verbatim>\<open>mgm\<close>). The CTR loops read the source, advance
      and write the destination byte by byte in one memory. Lemmas: closed forms of the keystreams (that of
      \<^verbatim>\<open>gost28147cnt\<close> written after RFC 4357, independent of the code's state), independence of how a message is cut, one-shot MACs, the field of MGM, exactness of its
      \<^verbatim>\<open>Open\<close>, and both of its calls in memory, in place or not.
    \<^item> \<open>KuznyechikSIMD\<close>: the batch engine of the SIMD builds (\<^verbatim>\<open>simd_amd64.go\<close>, \<^verbatim>\<open>simd_ctr_amd64.go\<close>)
      over byte-list models of the vector registers of \<^verbatim>\<open>simd/archsimd\<close>. Each lane runs the reference rounds, the
      sliced counters count, and both batch calls give what the default build gives (\<open>ctr_cipher\<close> interpreted).
    \<^item> \<open>Streebog\<close>, \<open>GostR341194\<close>: the hashes; every sequence of writes gives the digest of the concatenation,
      with the counter and checksum as numbers.
    \<^item> \<open>KDF\<close> (\<^verbatim>\<open>kdftree\<close>, \<^verbatim>\<open>tlstree\<close>), \<open>KExp15\<close>, \<open>KeyWrap\<close>: derivation and export of keys.
    \<^item> \<open>BigInt\<close>, \<open>Curves\<close>, \<open>GroupLaw\<close>, \<open>CurveParams\<close>: \<^verbatim>\<open>gost3410curves/curves.go\<close>; the points of a
      nonsingular curve over a prime field are a commutative group under the code's addition (every case of
      associativity); the ten parameter sets are nonsingular, with base points on their curves, fields that fill the
      encodings, and cofactor times order within Hasse's bound.
      \<open>HexText\<close> reads their constants as the source writes them.
    \<^item> \<open>Limbs\<close>, \<open>CTField\<close>, \<open>CTMont\<close>, \<open>RCB\<close>, \<open>CTPoint\<close>, \<open>CTPoint8\<close>,
      \<open>CTScalar\<close>: the constant-time path (\<^verbatim>\<open>ctfield*.go\<close>, \<^verbatim>\<open>ctpoint*.go\<close>,
      \<^verbatim>\<open>ctscalar*.go\<close>). The files of the two widths are each translated; Montgomery arithmetic is field
      arithmetic (locale \<open>mont_ops\<close>, interpreted at 4 and 8 limbs), the projective formulas add points, and the
      windowed multiplication, with its contexts memoised in the curve or not, and the ladder agree with the affine
      multiplication on curves without a point of order two, and for points of odd order on every curve
      (\<open>odd_multiples\<close>); for a point of order two they do not.
    \<^item> \<open>Sign\<close>, \<open>VKO\<close>, \<open>KEG\<close>: \<^verbatim>\<open>gost3410sign\<close>, \<^verbatim>\<open>vko\<close>, \<^verbatim>\<open>keg\<close>. Lemmas: verification accepts
      exactly what signing returns, both sides of an agreement derive one key, the agreed point.
    \<^item> \<open>Facade\<close>: \<^verbatim>\<open>primitives.go\<close>, \<^verbatim>\<open>modes.go\<close>, \<^verbatim>\<open>exports.go\<close>; exactly when its functions panic, signing
      retries its nonces, generated pairs agree. \<open>SignNonce\<close>: which nonces signing cannot use, since it reverses
      the bytes of its draws.
    \<^item> \<open>Go_Net\<close>, \<open>ASN1\<close>, \<open>X509_Names\<close>, \<open>X509_Parse\<close>, \<open>X509_Verify\<close>: \<^verbatim>\<open>x509gost\<close>, over what it uses of
      Go's string, network and ASN.1 packages; an index or slice out of range is a panic (\<open>go_index\<close>,
      \<open>go_from\<close>, \<open>go_upto\<close>), and no call reaches one. Lemmas: label suffixes, the language the mailbox
      parser accepts, certificate round trips, the verdict of the name constraints, malformed constraints included
      (locale \<open>name_matcher\<close>), the chain search against paths of trust.

  This theory has the properties that join a mode to the program's own ciphers.

  \<^bold>\<open>Bounds and fuel.\<close> Loops are structural recursion or have a measure. The write loop of OMAC is
  \<open>partial_function (option)\<close>, since it would not end on an overfull buffer; it is shown to return on
  every state the constructor reaches. The chain search recurses on the depth the code counts down (8), the
  signing loop on the 64 attempts of the code; neither bound is the model's. Slice lengths are naturals below the
  range of \<^verbatim>\<open>int\<close>; the places where a 64-bit length may wrap are words. The signature and agreement properties assume
  \<open>sign_domain\<close>: a nonsingular curve over a prime field, a base point on it of prime order Q above 2, P and Q of at
  most 8 \<^verbatim>\<open>PointSize\<close> bits; any cofactor, either scalar path. For the ten sets \<open>CurveParams\<close> proves what evaluation can reach; that their P and Q are prime and
  that their base points have the order Q is classical and not proved. The witnesses use a small curve on which all of
  it is.

  \<^bold>\<open>Parameters.\<close> Randomness (\<^verbatim>\<open>rand.Int\<close>, \<^verbatim>\<open>io.ReadFull\<close>), \<^verbatim>\<open>x509.ParseCertificate\<close>,
  \<^verbatim>\<open>x509.Certificate.Verify\<close>, \<^verbatim>\<open>VerifyHostname\<close> and the clock are arguments of the definitions that use them; so is
  the CPU's AVX2 flag of the batch engine, and the address \<^verbatim>\<open>make\<close> returns in \<open>MGM_Memory\<close>, which is
  taken to be unused.

  \<^bold>\<open>Not modelled.\<close> Timing (constant-time claims are about results only); the Valgrind hooks; values
  formatted into error messages; concurrent use of one object, which the package excludes.
\<close>

section \<open>Properties of the modes over the program's ciphers\<close>

text \<open>
  C4. OMAC over any block cipher with a block of 8 or 16 bytes: Write always returns, and
  whatever the pieces a message is written in, Sum is the truncated one-shot CMAC of their
  concatenation.
\<close>

theorem omac_any_pieces:
  assumes "block_enc b" "omac_New b t = Inr o0"
  shows "\<exists>o1. omac_Writes o0 ps = Some o1 \<and>
    omac_Sum o1 pre = pre @ take (nat t) (cmac b (if bsize b = 16 then 0x87 else 0x1b) (concat ps))"
  using omac_session [OF assms, of ps pre] by (auto simp: omac_rbForBlockSize_def split: if_splits)

theorem omac_any_pieces_witness:
  "\<exists>o0 o1. omac_New (magma_block (magma_cipher_of (replicate 32 0))) 4 = Inr o0 \<and>
     omac_Writes o0 [[1, 2], [], replicate 9 3] = Some o1 \<and>
     omac_Sum o1 [] = take 4 (cmac (magma_block (magma_cipher_of (replicate 32 0))) 0x1b ([1, 2] @ replicate 9 3))"
proof -
  obtain o0 where "omac_New (magma_block (magma_cipher_of (replicate 32 0))) 4 = Inr o0"
    by (cases "omac_cmacSubkeys (magma_block (magma_cipher_of (replicate 32 0))) 27")
      (simp add: omac_New_def omac_rbForBlockSize_def Let_def)
  then show ?thesis
    using omac_any_pieces [OF magma.block_enc_axioms, of "magma_cipher_of (replicate 32 0)" 4 o0
        "[[1, 2], [], replicate 9 3]" "[]"]
    by auto
qed

text \<open>
  C3. MGM opens exactly what it seals: Open returns a plaintext if and only if sealing that
  plaintext under the same nonce and additional data gives the ciphertext.
\<close>

theorem mgm_Open_exact:
  assumes "block_enc b" "mgm_NewMGM b t = Inr m"
  shows "mgm_Open m dst nonce c ad = Inr r \<longleftrightarrow> (\<exists>pt. mgm_Seal m [] nonce pt ad = Inr c \<and> r = dst @ pt)"
  using mgm_Open_iff [OF mgm_NewMGM_wf [OF assms]] .

theorem mgm_Open_exact_witness:
  "\<exists>m ct. mgm_NewMGM (kuz_block (kuz_cipher_of False (replicate 32 1))) 16 = Inr m \<and>
     mgm_Seal m [] (replicate 16 0x11) (replicate 20 5) [1, 2, 3] = Inr ct \<and>
     mgm_Open m [9] (replicate 16 0x11) ct [1, 2, 3] = Inr (9 # replicate 20 5)"
proof -
  let ?b = "kuz_block (kuz_cipher_of False (replicate 32 1))"
  obtain m where m: "mgm_NewMGM ?b 16 = Inr m" "mg_blockSize m = 16"
    by (simp add: mgm_NewMGM_def Let_def kuz_block_def)
  have "mgm_validateNonce m (replicate 16 0x11) = Inr ()"
    by (simp add: mgm_validateNonce_def m(2))
  then obtain ct where ct: "mgm_Seal m [] (replicate 16 0x11) (replicate 20 5) [1, 2, 3] = Inr ct"
    by (simp add: mgm_Seal_def m(2) mgm_maxFieldLen_def mgm_validateLens_def Let_def)
  show ?thesis
    using m(1) ct mgm_Open_exact [OF kuz.block_enc_axioms m(1), of "[9]" "replicate 16 0x11" ct "[1, 2, 3]" "9 # replicate 20 5"]
    by auto
qed

text \<open>
  C27. A successful Seal keeps the bit lengths within the half-block length field, and within
  that limit the encryption counters of one message never repeat.
\<close>

theorem mgm_length_limit:
  assumes "block_enc b" "mgm_NewMGM b t = Inr m" "mgm_Seal m dst nonce pt ad = Inr r"
  shows "8 * (length ad + length pt) < 2 ^ (mg_blockSize m * 4) \<and>
    (\<forall>i j y. length y = mg_blockSize m \<longrightarrow> i < mgm_blocks_of m (length pt) \<longrightarrow> j < mgm_blocks_of m (length pt) \<longrightarrow>
       (mgm_incrR m ^^ i) y = (mgm_incrR m ^^ j) y \<longrightarrow> i = j)"
proof -
  note wf = mgm_NewMGM_wf [OF assms(1,2)]
  have lim: "8 * (length ad + length pt) < 2 ^ (mg_blockSize m * 4)"
    using assms(3) mgm_validateLens_iff [OF wf, of "length ad" "length pt"] by (simp add: mgm_Seal_ok)
  have "mgm_blocks_of m (length pt) \<le> length pt"
    using wf div_le_dividend by (auto simp: mgm_blocks_of_def mgm_wf_def)
  also have "length pt \<le> 8 * (length ad + length pt)" by simp
  finally have "mgm_blocks_of m (length pt) < 2 ^ (mg_blockSize m * 4)" using lim by (rule le_less_trans)
  then show ?thesis
    using lim mgm_counters_distinct [OF wf] by (meson less_trans)
qed

theorem mgm_length_limit_witness:
  "\<exists>m r. mgm_NewMGM (magma_block (magma_cipher_of (replicate 32 1))) 8 = Inr m \<and>
     mgm_Seal m [] (replicate 8 0x12) (replicate 20 5) [1] = Inr r \<and> 8 * (1 + 20) < (2 :: nat) ^ (mg_blockSize m * 4)"
proof -
  let ?b = "magma_block (magma_cipher_of (replicate 32 1))"
  obtain m where m: "mgm_NewMGM ?b 8 = Inr m" "mg_blockSize m = 8"
    by (simp add: mgm_NewMGM_def Let_def)
  have "mgm_validateNonce m (replicate 8 0x12) = Inr ()"
    by (simp add: mgm_validateNonce_def m(2))
  then obtain r where r: "mgm_Seal m [] (replicate 8 0x12) (replicate 20 5) [1] = Inr r"
    by (simp add: mgm_Seal_def m(2) mgm_maxFieldLen_def mgm_validateLens_def Let_def)
  show ?thesis
    using m(1) r mgm_length_limit [OF magma.block_enc_axioms m(1) r] by auto
qed

text \<open>
  C26. The bytewise multiplication of MGM is commutative, associative and distributes over
  XOR, for both block sizes.
\<close>

theorem mgm_gfMul_field:
  assumes "block_enc b" "mgm_NewMGM b t = Inr m" "length x = mg_blockSize m" "length y = mg_blockSize m" "length z = mg_blockSize m"
  shows "mgm_gfMul m x y = mgm_gfMul m y x \<and>
    mgm_gfMul m (mgm_gfMul m x y) z = mgm_gfMul m x (mgm_gfMul m y z) \<and>
    mgm_gfMul m (xor_bytes x y) z = xor_bytes (mgm_gfMul m x z) (mgm_gfMul m y z)"
  using assms(3-5) mgm_NewMGM_wf [OF assms(1,2)] mgm_gfMul_commute mgm_gfMul_assoc mgm_gfMul_xor by blast

theorem mgm_gfMul_field_witness:
  "\<exists>m. mgm_NewMGM (magma_block (magma_cipher_of (replicate 32 1))) 8 = Inr m \<and>
     mgm_gfMul m (replicate 8 0x1f) (replicate 8 0x83) = mgm_gfMul m (replicate 8 0x83) (replicate 8 0x1f)"
proof -
  obtain m where m: "mgm_NewMGM (magma_block (magma_cipher_of (replicate 32 1))) 8 = Inr m" "mg_blockSize m = 8"
    by (simp add: mgm_NewMGM_def Let_def)
  show ?thesis
    using m mgm_gfMul_field [OF magma.block_enc_axioms m(1), of "replicate 8 0x1f" "replicate 8 0x83" "replicate 8 0"]
    by auto
qed

end
